(* ===== verification/Prelude.thy ===== *)
theory Prelude
  imports "HOL-Library.Word" "HOL-Library.Multiset"
begin

text \<open>
  Shared vocabulary of the development: the machine integers and addresses of the code,
  the ways a call can fail, the result type with its sequencing operator, and the generic
  lemmas on results, lists and multisets that the component theories use.
\<close>

section \<open>Integers and addresses\<close>

type_synonym u16 = "16 word"
type_synonym u32 = "32 word"
type_synonym u64 = "64 word"

text \<open>An address of a heap object; a pointer that may be null is a \<open>ptr option\<close>.\<close>

type_synonym ptr = nat

section \<open>Results\<close>

text \<open>
  Every way the code can stop a computation. \<open>AssertFail\<close> is a failed \<open>SYLAR_ASSERT\<close>
  or \<open>SYLAR_ASSERT2\<close> (\<open>sylar/macro.h\<close>: it logs and then calls \<open>assert\<close>, and the
  build has no \<open>NDEBUG\<close>), \<open>NullDeref\<close> a member access through a null pointer,
  \<open>Dangling\<close> an access through the address of a freed object, \<open>OutOfBounds\<close> a vector
  index out of range, \<open>Undefined\<close> any other undefined behaviour and \<open>Uncaught\<close> a C++
  exception that leaves the function.
\<close>

datatype fault =
    AssertFail string
  | NullDeref string
  | Dangling ptr
  | OutOfBounds int
  | Undefined string
  | Uncaught string

type_synonym 'a res = "fault + 'a"

definition bindR :: "'a res \<Rightarrow> ('a \<Rightarrow> 'b res) \<Rightarrow> 'b res" where
  "bindR m k = (case m of Inl e \<Rightarrow> Inl e | Inr x \<Rightarrow> k x)"

definition SYLAR_ASSERT :: "bool \<Rightarrow> string \<Rightarrow> unit res" where
  "SYLAR_ASSERT c w = (if c then Inr () else Inl (AssertFail w))"

definition ok :: "'a res \<Rightarrow> bool" where
  "ok m = (case m of Inl _ \<Rightarrow> False | Inr _ \<Rightarrow> True)"

named_theorems res_simps "rewrite rules for sequenced results"

lemma bindR_Inr [simp]: "bindR (Inr x) k = k x"
  by (simp add: bindR_def)

lemma bindR_Inl [simp]: "bindR (Inl e) k = Inl e"
  by (simp add: bindR_def)

lemma bindR_eq_Inr [res_simps]: "bindR m k = Inr y \<longleftrightarrow> (\<exists>x. m = Inr x \<and> k x = Inr y)"
  by (cases m) auto

lemma bindR_eq_Inl [res_simps]:
  "bindR m k = Inl e \<longleftrightarrow> m = Inl e \<or> (\<exists>x. m = Inr x \<and> k x = Inl e)"
  by (cases m) auto

lemma bindR_assoc: "bindR (bindR m k) l = bindR m (\<lambda>x. bindR (k x) l)"
  by (cases m) auto

lemma SYLAR_ASSERT_True [simp]: "SYLAR_ASSERT True w = Inr ()"
  by (simp add: SYLAR_ASSERT_def)

lemma SYLAR_ASSERT_False [simp]: "SYLAR_ASSERT False w = Inl (AssertFail w)"
  by (simp add: SYLAR_ASSERT_def)

lemma SYLAR_ASSERT_Inr [simp]: "SYLAR_ASSERT c w = Inr u \<longleftrightarrow> c"
  by (simp add: SYLAR_ASSERT_def)

lemma SYLAR_ASSERT_Inl [simp]:
  "SYLAR_ASSERT c w = Inl e \<longleftrightarrow> \<not> c \<and> e = AssertFail w"
  by (auto simp: SYLAR_ASSERT_def)

lemma ok_Inr [simp]: "ok (Inr x)"
  and ok_Inl [simp]: "\<not> ok (Inl e)"
  by (simp_all add: ok_def)

lemma ok_iff: "ok m \<longleftrightarrow> (\<exists>x. m = Inr x)"
  by (cases m) auto

section \<open>Lists and multisets\<close>

lemma mset_update_swap:
  assumes "i < length xs" and "j < length xs"
  shows "mset (xs[i := xs ! j, j := v]) = mset (xs[i := v])"
proof -
  have "mset ((xs[i := v])[i := (xs[i := v]) ! j, j := (xs[i := v]) ! i]) = mset (xs[i := v])"
    using assms by (intro mset_swap) simp_all
  moreover have "(xs[i := v])[i := (xs[i := v]) ! j, j := (xs[i := v]) ! i] =
      xs[i := xs ! j, j := v]"
    using assms by (cases "i = j") simp_all
  ultimately show ?thesis by simp
qed

lemma mset_last_butlast: "xs \<noteq> [] \<Longrightarrow> mset xs = add_mset (last xs) (mset (butlast xs))"
  by (metis append_butlast_last_id mset.simps(1,2) mset_append union_mset_add_mset_right
      add_0_right)

lemma filter_mset_all: "(\<And>x. x \<in># M \<Longrightarrow> P x) \<Longrightarrow> {#x \<in># M. P x#} = M"
  by (induction M) auto

lemma filter_mset_none: "(\<And>x. x \<in># M \<Longrightarrow> \<not> P x) \<Longrightarrow> {#x \<in># M. P x#} = {#}"
  by (induction M) auto

lemma length_take_le: "n \<le> length xs \<Longrightarrow> length (take n xs) = n"
  by simp

lemma unat_u64: "unat (x :: u64) < 2 ^ 64"
proof -
  have "unat x < 2 ^ LENGTH(64)" by (rule unsigned_less)
  then show ?thesis by simp
qed

lemma u64_less_Suc:
  assumes "(x :: u64) \<noteq> - 1" and "j \<le> x"
  shows "j < x + 1"
proof -
  have "1 + x \<noteq> 0" using assms(1) by (metis add.commute add_eq_0_iff)
  then have "unat (1 + x) = Suc (unat x)" by (rule unatSuc)
  then show ?thesis using assms(2) by (simp add: word_less_nat_alt word_le_nat_alt add.commute)
qed

section \<open>Decimal numerals\<close>

text \<open>A C string ends at the first null character.\<close>

definition cstr :: "string \<Rightarrow> string" where
  "cstr s = takeWhile (\<lambda>c. c \<noteq> CHR 0x00) s"

text \<open>\<open>std::to_string\<close> and the stream output of an unsigned number.\<close>

function to_string :: "nat \<Rightarrow> string" where
  "to_string n = (if n < 10 then [char_of (48 + n)]
     else to_string (n div 10) @ [char_of (48 + n mod 10)])"
  by pat_completeness auto
termination
  by (relation "measure id") auto

declare to_string.simps [simp del]

section \<open>Searching strings\<close>

text \<open>\<open>std::string::rfind\<close> of a character: its last position.\<close>

definition rfind :: "char \<Rightarrow> string \<Rightarrow> nat option" where
  "rfind c s = (if c \<in> set s then Some (length s - Suc (length (takeWhile (\<lambda>x. x \<noteq> c) (rev s))))
     else None)"

lemma rfind_None: "rfind c s = None \<longleftrightarrow> c \<notin> set s"
  by (simp add: rfind_def)

lemma rfind_append: "c \<notin> set t \<Longrightarrow> rfind c (s @ c # t) = Some (length s)"
  by (simp add: rfind_def takeWhile_append)

lemma rfind_Some:
  assumes "rfind c s = Some p"
  shows "s = take p s @ c # drop (Suc p) s" and "c \<notin> set (drop (Suc p) s)" and "p < length s"
proof -
  have "c \<in> set s" using assms by (simp add: rfind_def split: if_splits)
  then obtain u t where s: "s = u @ c # t" "c \<notin> set t" by (metis split_list_last)
  then have "p = length u" using assms rfind_append [of c t u] by simp
  then show "s = take p s @ c # drop (Suc p) s" "c \<notin> set (drop (Suc p) s)" "p < length s"
    using s by simp_all
qed

end
