(* ===== verification/Fibers.thy ===== *)
theory Fibers
  imports Prelude
begin

text \<open>
  The coroutine of \<open>sylar/fiber.h\<close> and \<open>sylar/fiber.cpp\<close>: one object per coroutine, a set
  of thread-local variables per thread, and the operations that move control between the
  thread's main fiber and its child fibers. Each operation is the code up to and including
  its \<open>swapcontext\<close>; which context the CPU executes after it is the field \<open>running\<close>.

  The callback of a fiber is client code. What matters of it here is the sequence of
  switching calls it makes on its own fiber, so a callback is a function from the number of
  calls already made to the next one; \<open>CallReturn\<close> and \<open>CallThrow\<close> are the two ways it
  ends. The sequence is arbitrary and may be infinite.
\<close>

section \<open>Data\<close>

datatype fstate = INIT | READY | EXEC | HOLD | SLEEP | DESTROY | EXCEPT

datatype fcall = CallYield | CallHold | CallSleep u64 | CallReturn | CallThrow

text \<open>
  A fiber object. \<open>fb_stack\<close> says whether \<open>m_stack\<close> is non-null, \<open>fb_ctx\<close> whether
  \<open>m_ctx\<close> has been initialised; \<open>fb_pc\<close> is the position saved in \<open>m_ctx\<close>: how many
  switching calls the callback has made. \<open>fb_refs\<close> is the number of shared pointers
  (\<open>Fiber::ptr\<close>) that own the object; a copy that an operation drops again before it ends is
  not counted.
\<close>

record fiber =
  fb_id :: u64
  fb_cb :: "(nat \<Rightarrow> fcall) option"
  fb_pc :: nat
  fb_stacksize :: u64
  fb_stack :: bool
  fb_ctx :: bool
  fb_state :: fstate
  fb_waketime :: u64
  fb_refs :: nat

text \<open>The \<open>thread_local\<close> variables of \<open>fiber.cpp\<close>, and the context being executed.\<close>

record tls =
  main_fiber :: "ptr option"
  this_fiber :: "ptr option"
  fiberIds :: u64
  fiber_count :: u64
  running :: "ptr option"

text \<open>One thread together with the heap of fibers and the clock (\<open>GetCurrentMS\<close>).\<close>

record fsys = tls +
  fheap :: "ptr \<rightharpoonup> fiber"
  fnext :: ptr
  fclock :: u64

section \<open>Operations\<close>

named_theorems fiber_defs "definitions of the fiber operations"

definition deref :: "ptr option \<Rightarrow> fsys \<Rightarrow> fiber res" where
  "deref p s = (case p of None \<Rightarrow> Inl (NullDeref ''Fiber'')
     | Some a \<Rightarrow> (case fheap s a of None \<Rightarrow> Inl (Dangling a) | Some b \<Rightarrow> Inr b))"

definition store :: "ptr \<Rightarrow> fiber \<Rightarrow> fsys \<Rightarrow> fsys" where
  "store a b s = s\<lparr>fheap := (fheap s)(a \<mapsto> b)\<rparr>"

definition SetThis :: "ptr option \<Rightarrow> fsys \<Rightarrow> fsys" where
  "SetThis p s = s\<lparr>this_fiber := p\<rparr>"

text \<open>The constructor \<open>Fiber()\<close> of a main fiber: \<open>m_id\<close> keeps its default 0.\<close>

definition Fiber_main :: "fsys \<Rightarrow> ptr \<times> fsys" where
  "Fiber_main s = (let a = fnext s;
       b = \<lparr>fb_id = 0, fb_cb = None, fb_pc = 0, fb_stacksize = 0, fb_stack = False,
            fb_ctx = True, fb_state = EXEC, fb_waketime = 0, fb_refs = 1\<rparr>
     in (a, (SetThis (Some a) (store a b s))
              \<lparr>fnext := Suc a, fiberIds := fiberIds s + 1, fiber_count := fiber_count s + 1,
               running := Some a\<rparr>))"

text \<open>
  The constructor \<open>Fiber(cb, size)\<close>. When \<open>malloc\<close> fails it returns early, with the
  context uninitialised and \<open>fiber_count\<close> not incremented.
\<close>

definition Fiber_ctor :: "(nat \<Rightarrow> fcall) option \<Rightarrow> u64 \<Rightarrow> bool \<Rightarrow> fsys \<Rightarrow> ptr \<times> fsys" where
  "Fiber_ctor cb sz malloc_ok s = (let a = fnext s;
       b = \<lparr>fb_id = fiberIds s, fb_cb = cb, fb_pc = 0, fb_stacksize = sz,
            fb_stack = malloc_ok, fb_ctx = malloc_ok, fb_state = INIT, fb_waketime = 0, fb_refs = 1\<rparr>;
       s1 = (store a b s)\<lparr>fnext := Suc a, fiberIds := fiberIds s + 1\<rparr>
     in (a, if malloc_ok then s1\<lparr>fiber_count := fiber_count s1 + 1\<rparr> else s1))"

definition CreatFiber :: "(nat \<Rightarrow> fcall) option \<Rightarrow> u64 \<Rightarrow> bool \<Rightarrow> fsys \<Rightarrow> (ptr \<times> fsys) res" where
  "CreatFiber cb sz malloc_ok s =
     bindR (if this_fiber s = None
            then (let (cur, s1) = Fiber_main s in
                  bindR (SYLAR_ASSERT (this_fiber s1 = Some cur) ''this_fiber == cur.get()'')
                    (\<lambda>_. Inr (s1\<lparr>main_fiber := Some cur\<rparr>)))
            else Inr s)
       (\<lambda>s2. Inr (Fiber_ctor cb sz malloc_ok s2))"

definition GetThis :: "fsys \<Rightarrow> (ptr \<times> fsys) res" where
  "GetThis s = (case this_fiber s of
       Some a \<Rightarrow> Inr (a, s)
     | None \<Rightarrow> (let (cur, s1) = Fiber_main s in
          bindR (SYLAR_ASSERT (this_fiber s1 = Some cur) ''this_fiber == cur.get()'')
            (\<lambda>_. Inr (cur, s1\<lparr>main_fiber := Some cur\<rparr>))))"

definition GetMainFiber :: "fsys \<Rightarrow> ptr res" where
  "GetMainFiber s = (case main_fiber s of
       None \<Rightarrow> Inl (NullDeref ''main_fiber'') | Some a \<Rightarrow> Inr a)"

definition GetFiberId :: "fsys \<Rightarrow> u64 res" where
  "GetFiberId s = (case this_fiber s of
       Some a \<Rightarrow> bindR (deref (Some a) s) (\<lambda>b. Inr (fb_id b)) | None \<Rightarrow> Inr 0)"

text \<open>The test \<open>GetThis()->m_id == GetMainFiber()->m_id\<close> that guards the operations.\<close>

definition same_id :: "fsys \<Rightarrow> (bool \<times> fsys) res" where
  "same_id s =
     bindR (GetThis s) (\<lambda>(t, s1).
     bindR (deref (Some t) s1) (\<lambda>bt.
     bindR (GetMainFiber s1) (\<lambda>m.
     bindR (deref (Some m) s1) (\<lambda>bm. Inr (fb_id bt = fb_id bm, s1)))))"

text \<open>\<open>swapcontext\<close> into the context of fiber \<open>a\<close>.\<close>

definition swap_to :: "ptr \<Rightarrow> fsys \<Rightarrow> fsys res" where
  "swap_to a s = bindR (deref (Some a) s) (\<lambda>b.
     if fb_ctx b then Inr (s\<lparr>running := Some a\<rparr>)
     else Inl (Undefined ''swapcontext to an uninitialised context''))"

definition Fiber_start :: "ptr \<Rightarrow> fsys \<Rightarrow> fsys res" where
  "Fiber_start f s =
     bindR (same_id s) (\<lambda>(e, s1).
     bindR (SYLAR_ASSERT e ''Fiber::start() must be called in main fiber.'') (\<lambda>_.
     bindR (deref (Some f) s1) (\<lambda>b.
     bindR (SYLAR_ASSERT (fb_state b = INIT)
              ''The Fiber that is not init cannot be started.'') (\<lambda>_.
     Inr (store f (b\<lparr>fb_state := READY\<rparr>) s1)))))"

definition Fiber_resume :: "ptr \<Rightarrow> fsys \<Rightarrow> fsys res" where
  "Fiber_resume f s =
     bindR (same_id s) (\<lambda>(e, s1).
     bindR (SYLAR_ASSERT e ''Fiber::resume() must be called in main fiber.'') (\<lambda>_.
     let s2 = SetThis (Some f) s1 in
     bindR (deref (Some f) s2) (\<lambda>b.
     bindR (SYLAR_ASSERT (fb_state b = READY)
              ''The Fiber that is not ready cannot be resumed'') (\<lambda>_.
     swap_to f (store f (b\<lparr>fb_state := EXEC\<rparr>) s2)))))"

definition Fiber_notify :: "ptr \<Rightarrow> fsys \<Rightarrow> fsys res" where
  "Fiber_notify f s =
     bindR (same_id s) (\<lambda>(e, s1).
     bindR (SYLAR_ASSERT e ''Fiber::notify() must be called in main fiber.'') (\<lambda>_.
     let s2 = SetThis (Some f) s1 in
     bindR (deref (Some f) s2) (\<lambda>b.
     bindR (SYLAR_ASSERT (fb_state b = HOLD)
              ''The Fiber that is not hold cannot be notified'') (\<lambda>_.
     swap_to f (store f (b\<lparr>fb_state := EXEC\<rparr>) s2)))))"

definition Fiber_yield :: "ptr \<Rightarrow> fsys \<Rightarrow> fsys res" where
  "Fiber_yield f s =
     bindR (same_id s) (\<lambda>(e, s1).
     bindR (SYLAR_ASSERT (\<not> e) ''Fiber::yield() must be called in child fiber.'') (\<lambda>_.
     bindR (GetMainFiber s1) (\<lambda>m.
     let s2 = SetThis (Some m) s1 in
     bindR (deref (Some f) s2) (\<lambda>b.
     bindR (SYLAR_ASSERT (fb_state b = EXEC)
              ''The Fiber that is not executing cannot be yielded'') (\<lambda>_.
     swap_to m (store f (b\<lparr>fb_state := READY\<rparr>) s2))))))"

definition Fiber_hold :: "ptr \<Rightarrow> fsys \<Rightarrow> fsys res" where
  "Fiber_hold f s =
     bindR (same_id s) (\<lambda>(e, s1).
     bindR (SYLAR_ASSERT (\<not> e) ''Fiber::hold() must be called in child fiber.'') (\<lambda>_.
     bindR (GetMainFiber s1) (\<lambda>m.
     let s2 = SetThis (Some m) s1 in
     bindR (deref (Some f) s2) (\<lambda>b.
     bindR (SYLAR_ASSERT (fb_state b = EXEC)
              ''The Fiber that is not executing cannot be yielded'') (\<lambda>_.
     swap_to m (store f (b\<lparr>fb_state := HOLD\<rparr>) s2))))))"

definition Fiber_sleep :: "u64 \<Rightarrow> ptr \<Rightarrow> fsys \<Rightarrow> fsys res" where
  "Fiber_sleep t f s =
     bindR (same_id s) (\<lambda>(e, s1).
     bindR (SYLAR_ASSERT (\<not> e) ''Fiber::sleep() must be called in child fiber.'') (\<lambda>_.
     bindR (GetMainFiber s1) (\<lambda>m.
     let s2 = SetThis (Some m) s1 in
     bindR (deref (Some f) s2) (\<lambda>b.
     bindR (SYLAR_ASSERT (fb_state b = EXEC)
              ''The Fiber that is not executing cannot sleep'') (\<lambda>_.
     swap_to m (store f (b\<lparr>fb_state := SLEEP, fb_waketime := fclock s2 + t\<rparr>) s2))))))"

definition Fiber_stop :: "ptr \<Rightarrow> fsys \<Rightarrow> fsys res" where
  "Fiber_stop f s =
     bindR (same_id s) (\<lambda>(e, s1).
     bindR (SYLAR_ASSERT (\<not> e) ''Fiber::stop() must be called in child fiber.'') (\<lambda>_.
     bindR (GetMainFiber s1) (\<lambda>m.
     let s2 = SetThis (Some m) s1 in
     bindR (deref (Some f) s2) (\<lambda>b.
     swap_to m (store f (b\<lparr>fb_state := DESTROY\<rparr>) s2)))))"

definition Fiber_awake :: "ptr \<Rightarrow> fsys \<Rightarrow> fsys res" where
  "Fiber_awake f s =
     bindR (same_id s) (\<lambda>(e, s1).
     bindR (SYLAR_ASSERT e ''Fiber::awake() must be called in main fiber.'') (\<lambda>_.
     bindR (deref (Some f) s1) (\<lambda>b.
     bindR (SYLAR_ASSERT (fb_state b = SLEEP)
              ''The Fiber that is not sleeping cannot be awoken'') (\<lambda>_.
     Inr (store f (b\<lparr>fb_state := READY\<rparr>) s1)))))"

definition Fiber_destroy :: "ptr \<Rightarrow> fsys \<Rightarrow> fsys res" where
  "Fiber_destroy f s =
     bindR (same_id s) (\<lambda>(e, s1).
     bindR (SYLAR_ASSERT e ''Fiber::destroy() must be called in main fiber.'') (\<lambda>_.
     bindR (deref (Some f) s1) (\<lambda>b.
     Inr (store f (b\<lparr>fb_state := DESTROY\<rparr>) s1))))"

definition Fiber_reset :: "(nat \<Rightarrow> fcall) option \<Rightarrow> ptr \<Rightarrow> fsys \<Rightarrow> fsys res" where
  "Fiber_reset cb f s =
     bindR (deref (Some f) s) (\<lambda>b.
     bindR (SYLAR_ASSERT (fb_stack b) ''m_stack'') (\<lambda>_.
     bindR (SYLAR_ASSERT (fb_state b \<noteq> DESTROY \<and> fb_state b \<noteq> EXCEPT)
              ''m_state != DESTROY && m_state != EXCEPT'') (\<lambda>_.
     Inr (store f (b\<lparr>fb_cb := cb, fb_ctx := True, fb_pc := 0, fb_state := INIT\<rparr>) s))))"

text \<open>The destructor; \<open>--fiber_count\<close> acts on the counter of the destroying thread.\<close>

definition Fiber_dtor :: "ptr \<Rightarrow> fsys \<Rightarrow> fsys res" where
  "Fiber_dtor f s =
     (let s1 = s\<lparr>fiber_count := fiber_count s - 1\<rparr> in
     bindR (SYLAR_ASSERT (this_fiber s1 = main_fiber s1) ''this_fiber == main_fiber.get()'') (\<lambda>_.
     bindR (deref (Some f) s1) (\<lambda>b.
     if Some f \<noteq> main_fiber s1 then
       bindR (SYLAR_ASSERT (fb_state b = DESTROY \<or> fb_state b = EXCEPT)
                ''m_state == DESTROY || m_state == EXCEPT'') (\<lambda>_.
       Inr (s1\<lparr>fheap := (fheap s1)(f := None)\<rparr>))
     else Inr (s1\<lparr>fheap := (fheap s1)(f := None)\<rparr>))))"

text \<open>
  Copying a \<open>Fiber::ptr\<close>, and the end of one, which may be null: the last owner runs the
  destructor.
\<close>

definition Fiber_copy :: "ptr \<Rightarrow> fsys \<Rightarrow> fsys res" where
  "Fiber_copy f s = bindR (deref (Some f) s) (\<lambda>b.
     Inr (store f (b\<lparr>fb_refs := Suc (fb_refs b)\<rparr>) s))"

definition Fiber_release :: "ptr \<Rightarrow> fsys \<Rightarrow> fsys res" where
  "Fiber_release f s = bindR (deref (Some f) s) (\<lambda>b.
     if fb_refs b \<le> 1 then Fiber_dtor f s
     else Inr (store f (b\<lparr>fb_refs := fb_refs b - 1\<rparr>) s))"

definition Fiber_ptr_release :: "ptr option \<Rightarrow> fsys \<Rightarrow> fsys res" where
  "Fiber_ptr_release p s = (case p of None \<Rightarrow> Inr s | Some f \<Rightarrow> Fiber_release f s)"

text \<open>
  \<open>MainFunc\<close> from the point where the callback of fiber \<open>f\<close> has returned (\<open>thrown\<close> is
  false) or thrown. The local pointer \<open>cur\<close> was reset before the callback was called, so it
  is null here; both handlers read \<open>cur->getId()\<close>.
\<close>

definition MainFunc_end :: "bool \<Rightarrow> ptr \<Rightarrow> fsys \<Rightarrow> fsys res" where
  "MainFunc_end thrown f s =
     (let cur = (None :: ptr option) in
     bindR (deref (Some f) s) (\<lambda>b.
     bindR (if thrown
            then (let s1 = store f (b\<lparr>fb_state := EXCEPT\<rparr>) s in
                  bindR (deref cur s1) (\<lambda>_. Inr s1))
            else Inr (store f (b\<lparr>fb_cb := None\<rparr>) s)) (\<lambda>s2.
     bindR (deref (Some f) s2) (\<lambda>b2.
     if fb_state b2 = EXCEPT
     then bindR (GetMainFiber s2) (\<lambda>m. swap_to m (SetThis (Some m) s2))
     else Fiber_stop f s2))))"

text \<open>
  The execution of fiber \<open>f\<close> from a switch into it to the next switch out of it: the next
  switching call of its callback. Calling an empty \<open>m_cb\<close> throws \<open>std::bad_function_call\<close>.
\<close>

definition fiber_slice :: "ptr \<Rightarrow> fsys \<Rightarrow> fsys res" where
  "fiber_slice f s =
     bindR (deref (Some f) s) (\<lambda>b.
     case fb_cb b of
       None \<Rightarrow> MainFunc_end True f s
     | Some cb \<Rightarrow>
         (let s1 = store f (b\<lparr>fb_pc := Suc (fb_pc b)\<rparr>) s in
         (case cb (fb_pc b) of
            CallYield \<Rightarrow> Fiber_yield f s1
          | CallHold \<Rightarrow> Fiber_hold f s1
          | CallSleep t \<Rightarrow> Fiber_sleep t f s1
          | CallReturn \<Rightarrow> MainFunc_end False f s1
          | CallThrow \<Rightarrow> MainFunc_end True f s1)))"

text \<open>What the caller of \<open>resume\<close> and \<open>notify\<close> sees when the call returns.\<close>

definition resume_run :: "ptr \<Rightarrow> fsys \<Rightarrow> fsys res" where
  "resume_run f s = bindR (Fiber_resume f s) (fiber_slice f)"

definition notify_run :: "ptr \<Rightarrow> fsys \<Rightarrow> fsys res" where
  "notify_run f s = bindR (Fiber_notify f s) (fiber_slice f)"

lemmas [fiber_defs] = Fiber_start_def Fiber_resume_def Fiber_notify_def Fiber_yield_def
  Fiber_hold_def Fiber_sleep_def Fiber_stop_def Fiber_awake_def Fiber_destroy_def


section \<open>The thread invariant\<close>

text \<open>
  What holds of a thread between operations: it has a main fiber, with identifier 0; the
  fiber object \<open>this_fiber\<close> is the context the CPU executes; and when that is not the main
  fiber it is a fiber with a non-zero identifier in state \<open>EXEC\<close>.
\<close>

definition is_child :: "ptr \<Rightarrow> fsys \<Rightarrow> bool" where
  "is_child f s = (case fheap s f of None \<Rightarrow> False | Some b \<Rightarrow> fb_id b \<noteq> 0 \<and> fb_ctx b)"

definition main_ok :: "fsys \<Rightarrow> bool" where
  "main_ok s = (case main_fiber s of None \<Rightarrow> False | Some m \<Rightarrow>
     (case fheap s m of None \<Rightarrow> False | Some b \<Rightarrow> fb_id b = 0 \<and> fb_ctx b))"

definition on_main :: "fsys \<Rightarrow> bool" where
  "on_main s = (main_ok s \<and> this_fiber s = main_fiber s \<and> running s = main_fiber s)"

definition on_child :: "fsys \<Rightarrow> bool" where
  "on_child s = (main_ok s \<and> running s = this_fiber s \<and>
     (case this_fiber s of None \<Rightarrow> False | Some r \<Rightarrow> is_child r s \<and>
        (case fheap s r of None \<Rightarrow> False | Some b \<Rightarrow> fb_state b = EXEC)))"

definition fiber_inv :: "fsys \<Rightarrow> bool" where
  "fiber_inv s = (on_main s \<or> on_child s)"

lemma is_childE:
  assumes "is_child f s"
  obtains b where "fheap s f = Some b" and "fb_id b \<noteq> 0" and "fb_ctx b"
  using assms by (auto simp: is_child_def split: option.splits)

lemma main_okE:
  assumes "main_ok s"
  obtains m b where "main_fiber s = Some m" and "fheap s m = Some b" and "fb_id b = 0" and "fb_ctx b"
  using assms by (auto simp: main_ok_def split: option.splits)

lemma store_simps [simp]:
  "main_fiber (store a b s) = main_fiber s" "this_fiber (store a b s) = this_fiber s"
  "running (store a b s) = running s" "fclock (store a b s) = fclock s"
  "fheap (store a b s) = (fheap s)(a \<mapsto> b)" "fnext (store a b s) = fnext s"
  "fiberIds (store a b s) = fiberIds s" "fiber_count (store a b s) = fiber_count s"
  by (simp_all add: store_def)

lemma SetThis_simps [simp]:
  "main_fiber (SetThis p s) = main_fiber s" "this_fiber (SetThis p s) = p"
  "running (SetThis p s) = running s" "fclock (SetThis p s) = fclock s"
  "fheap (SetThis p s) = fheap s" "fnext (SetThis p s) = fnext s"
  "fiberIds (SetThis p s) = fiberIds s" "fiber_count (SetThis p s) = fiber_count s"
  by (simp_all add: SetThis_def)

lemma deref_Some: "fheap s a = Some b \<Longrightarrow> deref (Some a) s = Inr b"
  by (simp add: deref_def)

lemma deref_Inr [res_simps]: "deref p s = Inr b \<longleftrightarrow> (\<exists>a. p = Some a \<and> fheap s a = Some b)"
  by (auto simp: deref_def split: option.splits)

text \<open>On the main fiber the identifier test is true, on a child it is false.\<close>

lemma same_id_on_main: "on_main s \<Longrightarrow> same_id s = Inr (True, s)"
  by (auto simp: on_main_def same_id_def GetThis_def GetMainFiber_def deref_Some
      elim!: main_okE)

lemma same_id_on_child: "on_child s \<Longrightarrow> same_id s = Inr (False, s)"
  by (auto simp: on_child_def same_id_def GetThis_def GetMainFiber_def deref_Some
      elim!: main_okE is_childE split: option.splits)

lemma on_child_not_main: "on_child s \<Longrightarrow> this_fiber s \<noteq> main_fiber s"
  by (auto simp: on_child_def elim!: main_okE is_childE split: option.splits)

lemma same_id_inv: "fiber_inv s \<Longrightarrow> same_id s = Inr (this_fiber s = main_fiber s, s)"
  using same_id_on_main same_id_on_child on_child_not_main
  by (auto simp: fiber_inv_def on_main_def)

lemma is_child_not_main: "is_child f s \<Longrightarrow> main_ok s \<Longrightarrow> main_fiber s \<noteq> Some f"
  by (auto elim!: is_childE main_okE)

section \<open>One slice of a child fiber\<close>

text \<open>
  What one run of a fiber does to the fiber object, as a function of the object and the
  clock alone. A callback that throws, and an empty one, end in the null dereference of the
  handlers of \<open>MainFunc\<close>.
\<close>

definition slice_result :: "u64 \<Rightarrow> fiber \<Rightarrow> fiber res" where
  "slice_result now b = (case fb_cb b of
     None \<Rightarrow> Inl (NullDeref ''Fiber'')
   | Some cb \<Rightarrow> (let b1 = b\<lparr>fb_pc := Suc (fb_pc b)\<rparr> in
      (case cb (fb_pc b) of
         CallYield \<Rightarrow> Inr (b1\<lparr>fb_state := READY\<rparr>)
       | CallHold \<Rightarrow> Inr (b1\<lparr>fb_state := HOLD\<rparr>)
       | CallSleep t \<Rightarrow> Inr (b1\<lparr>fb_state := SLEEP, fb_waketime := now + t\<rparr>)
       | CallReturn \<Rightarrow> Inr (b1\<lparr>fb_cb := None, fb_state := DESTROY\<rparr>)
       | CallThrow \<Rightarrow> Inl (NullDeref ''Fiber''))))"

text \<open>The use counts of a heap, and the counts after the owners in \<open>M\<close> have let go.\<close>

definition refs_of :: "(ptr \<rightharpoonup> fiber) \<Rightarrow> ptr \<rightharpoonup> nat" where
  "refs_of h f = map_option fb_refs (h f)"

definition released :: "ptr multiset \<Rightarrow> (ptr \<rightharpoonup> nat) \<Rightarrow> ptr \<rightharpoonup> nat" where
  "released M r f = (case r f of None \<Rightarrow> None
     | Some n \<Rightarrow> if f \<notin># M then Some n else if n \<le> count M f then None else Some (n - count M f))"

lemma refs_of_upd [simp]: "refs_of (h(f \<mapsto> b)) = (refs_of h)(f \<mapsto> fb_refs b)"
  "refs_of (h(f := None)) = (refs_of h)(f := None)"
  by (simp_all add: refs_of_def fun_eq_iff)

lemma refs_of_keep: "h f = Some b \<Longrightarrow> fb_refs b' = fb_refs b \<Longrightarrow> refs_of (h(f \<mapsto> b')) = refs_of h"
  by (simp add: refs_of_def fun_eq_iff)

lemma released_empty [simp]: "released {#} r = r"
  by (simp add: released_def fun_eq_iff split: option.split)

lemma released_released: "released M (released N r) = released (M + N) r"
proof
  show "released M (released N r) f = released (M + N) r f" for f
    by (cases "r f"; cases "f \<in># M"; cases "f \<in># N")
      (auto simp: released_def not_in_iff simp flip: count_greater_zero_iff)
qed

lemma refs_of_None [simp]: "refs_of h f = None \<longleftrightarrow> h f = None"
  by (simp add: refs_of_def)

text \<open>What letting go of an ended fiber does on the main fiber.\<close>

definition let_go :: "ptr \<Rightarrow> fiber \<Rightarrow> fsys \<Rightarrow> fsys" where
  "let_go f b s = (if fb_refs b \<le> 1
     then s\<lparr>fheap := (fheap s)(f := None), fiber_count := fiber_count s - 1\<rparr>
     else store f (b\<lparr>fb_refs := fb_refs b - 1\<rparr>) s)"

lemma let_go_refs:
  "fheap s f = Some b \<Longrightarrow> refs_of (fheap (let_go f b s)) = released {#f#} (refs_of (fheap s))"
  by (auto simp: let_go_def released_def refs_of_def store_def fun_eq_iff split: option.split)

text \<open>The thread after control has gone into \<open>f\<close> and come back.\<close>

definition entered :: "ptr \<Rightarrow> fiber \<Rightarrow> fsys \<Rightarrow> fsys" where
  "entered f b s = (store f (b\<lparr>fb_state := EXEC\<rparr>) (SetThis (Some f) s))\<lparr>running := Some f\<rparr>"

lemma Fiber_resume_eq:
  assumes "on_main s" and "fheap s f = Some b" and "fb_ctx b"
  shows "Fiber_resume f s = (if fb_state b = READY then Inr (entered f b s)
    else Inl (AssertFail ''The Fiber that is not ready cannot be resumed''))"
  using assms by (simp add: Fiber_resume_def same_id_on_main deref_Some swap_to_def entered_def)

lemma Fiber_notify_eq:
  assumes "on_main s" and "fheap s f = Some b" and "fb_ctx b"
  shows "Fiber_notify f s = (if fb_state b = HOLD then Inr (entered f b s)
    else Inl (AssertFail ''The Fiber that is not hold cannot be notified''))"
  using assms by (simp add: Fiber_notify_def same_id_on_main deref_Some swap_to_def entered_def)

lemma entered_on_child:
  assumes "on_main s" and "fheap s f = Some b" and "fb_id b \<noteq> 0" and "fb_ctx b"
  shows "on_child (entered f b s)"
  using assms
  by (auto simp: on_main_def on_child_def entered_def is_child_def main_ok_def split: option.splits)

lemma Fiber_release_eq:
  assumes "on_main s" and "fheap s f = Some b" and "fb_id b \<noteq> 0"
  shows "Fiber_release f s = (if fb_refs b \<le> 1 \<and> fb_state b \<noteq> DESTROY \<and> fb_state b \<noteq> EXCEPT
    then Inl (AssertFail ''m_state == DESTROY || m_state == EXCEPT'') else Inr (let_go f b s))"
proof -
  have "main_fiber s \<noteq> Some f" using assms by (auto simp: on_main_def elim!: main_okE)
  then show ?thesis
    using assms by (auto simp: Fiber_release_def Fiber_dtor_def Let_def deref_def let_go_def
        on_main_def SYLAR_ASSERT_def)
qed

text \<open>Control returns to the main fiber, with the object of \<open>f\<close> replaced by \<open>b\<close>.\<close>

definition returned :: "ptr \<Rightarrow> fiber \<Rightarrow> fsys \<Rightarrow> fsys" where
  "returned f b s = (store f b s)\<lparr>this_fiber := main_fiber s, running := main_fiber s\<rparr>"

lemma returned_entered:
  "on_main s \<Longrightarrow> returned f b2 (store f b1 (entered f b s)) = store f b2 s"
  by (cases s) (auto simp: returned_def entered_def store_def SetThis_def on_main_def)

lemma on_child_store:
  assumes "on_child s" and "this_fiber s = Some f"
    and "fb_id b \<noteq> 0" and "fb_ctx b" and "fb_state b = EXEC"
  shows "on_child (store f b s)"
  using assms is_child_not_main [of f s]
  by (auto simp: on_child_def is_child_def main_ok_def split: option.splits if_splits)

lemma switch_out:
  assumes "on_child s" and "this_fiber s = Some f"
  shows "\<exists>m. GetMainFiber s = Inr m \<and>
    swap_to m (store f b2 (SetThis (Some m) s)) = Inr (returned f b2 s)"
  using assms is_child_not_main [of f s]
  by (auto simp: on_child_def main_ok_def GetMainFiber_def swap_to_def deref_def returned_def
      store_def SetThis_def split: option.splits)

lemma on_child_exec:
  assumes "on_child s" and "this_fiber s = Some f" and "fheap s f = Some b"
  shows "fb_state b = EXEC" and "fb_id b \<noteq> 0" and "fb_ctx b"
  using assms by (auto simp: on_child_def is_child_def)

lemma switch_out_eqs:
  assumes "on_child s" and "this_fiber s = Some f" and "fheap s f = Some b"
  shows Fiber_yield_eq: "Fiber_yield f s = Inr (returned f (b\<lparr>fb_state := READY\<rparr>) s)"
    and Fiber_hold_eq: "Fiber_hold f s = Inr (returned f (b\<lparr>fb_state := HOLD\<rparr>) s)"
    and Fiber_sleep_eq: "Fiber_sleep t f s =
      Inr (returned f (b\<lparr>fb_state := SLEEP, fb_waketime := fclock s + t\<rparr>) s)"
    and Fiber_stop_eq: "Fiber_stop f s = Inr (returned f (b\<lparr>fb_state := DESTROY\<rparr>) s)"
proof -
  note sid = same_id_on_child [OF assms(1)]
  note ex = on_child_exec [OF assms]
  have "\<And>b2. \<exists>m. GetMainFiber s = Inr m \<and>
      swap_to m (store f b2 (SetThis (Some m) s)) = Inr (returned f b2 s)"
    by (rule switch_out [OF assms(1,2)])
  then obtain m where m: "GetMainFiber s = Inr m"
    and sw: "\<And>b2. swap_to m (store f b2 (SetThis (Some m) s)) = Inr (returned f b2 s)"
    by (metis Inr_inject)
  show "Fiber_yield f s = Inr (returned f (b\<lparr>fb_state := READY\<rparr>) s)"
    using sid ex assms(3) by (simp add: Fiber_yield_def m sw deref_Some)
  show "Fiber_hold f s = Inr (returned f (b\<lparr>fb_state := HOLD\<rparr>) s)"
    using sid ex assms(3) by (simp add: Fiber_hold_def m sw deref_Some)
  show "Fiber_sleep t f s = Inr (returned f (b\<lparr>fb_state := SLEEP, fb_waketime := fclock s + t\<rparr>) s)"
    using sid ex assms(3) by (simp add: Fiber_sleep_def m sw deref_Some)
  show "Fiber_stop f s = Inr (returned f (b\<lparr>fb_state := DESTROY\<rparr>) s)"
    using sid ex assms(3) by (simp add: Fiber_stop_def m sw deref_Some)
qed

lemma MainFunc_end_thrown: "fheap s f \<noteq> None \<Longrightarrow> MainFunc_end True f s = Inl (NullDeref ''Fiber'')"
  by (auto simp: MainFunc_end_def deref_def)

lemma MainFunc_end_return:
  assumes "on_child s" and "this_fiber s = Some f" and "fheap s f = Some b"
  shows "MainFunc_end False f s = Inr (returned f (b\<lparr>fb_cb := None, fb_state := DESTROY\<rparr>) s)"
proof -
  let ?s = "store f (b\<lparr>fb_cb := None\<rparr>) s"
  note ex = on_child_exec [OF assms]
  have c: "on_child ?s"
    using on_child_store [OF assms(1,2)] ex by simp
  have "MainFunc_end False f s = Fiber_stop f ?s"
    using ex assms(3) by (simp add: MainFunc_end_def deref_Some)
  also have "\<dots> = Inr (returned f (b\<lparr>fb_cb := None, fb_state := DESTROY\<rparr>) ?s)"
    using Fiber_stop_eq [OF c, of f "b\<lparr>fb_cb := None\<rparr>"] assms(2) by simp
  also have "\<dots> = Inr (returned f (b\<lparr>fb_cb := None, fb_state := DESTROY\<rparr>) s)"
    by (simp add: returned_def store_def)
  finally show ?thesis .
qed

lemma returned_store [simp]: "returned f b2 (store f b1 s) = returned f b2 s"
  by (simp add: returned_def store_def)

lemma fiber_slice_eq:
  assumes "on_child s" and "this_fiber s = Some f" and "fheap s f = Some b"
  shows "fiber_slice f s = (case slice_result (fclock s) b of
    Inl e \<Rightarrow> Inl e | Inr b' \<Rightarrow> Inr (returned f b' s))"
proof (cases "fb_cb b")
  case None
  then show ?thesis
    using assms by (simp add: fiber_slice_def deref_Some slice_result_def MainFunc_end_thrown)
next
  case (Some cb)
  let ?b = "b\<lparr>fb_pc := Suc (fb_pc b)\<rparr>"
  note ex = on_child_exec [OF assms]
  have c: "on_child (store f ?b s)"
    using on_child_store [OF assms(1,2)] ex by simp
  have t: "this_fiber (store f ?b s) = Some f" "fheap (store f ?b s) f = Some ?b"
    using assms by simp_all
  show ?thesis
    using Some assms(3) switch_out_eqs [OF c t] MainFunc_end_return [OF c t]
    by (simp add: fiber_slice_def deref_Some slice_result_def MainFunc_end_thrown Let_def
        split: fcall.splits)
qed

lemma entered_simps [simp]:
  "this_fiber (entered f b s) = Some f" "fheap (entered f b s) f = Some (b\<lparr>fb_state := EXEC\<rparr>)"
  "fclock (entered f b s) = fclock s" "main_fiber (entered f b s) = main_fiber s"
  by (simp_all add: entered_def)

lemma slice_result_exec [simp]: "slice_result now (b\<lparr>fb_state := st\<rparr>) = slice_result now b"
  by (simp add: slice_result_def Let_def split: option.split fcall.split)

lemma slice_result_refs: "slice_result now b = Inr b' \<Longrightarrow> fb_refs b' = fb_refs b"
  by (auto simp: slice_result_def Let_def split: option.splits fcall.splits)

lemma entered_slice:
  assumes "on_main s" and "fheap s f = Some b" and "fb_id b \<noteq> 0" and "fb_ctx b"
  shows "fiber_slice f (entered f b s) = (case slice_result (fclock s) b of
    Inl e \<Rightarrow> Inl e | Inr b' \<Rightarrow> Inr (store f b' s))"
proof -
  have be: "returned f b2 (entered f b s) = store f b2 s" for b2
    using returned_entered [OF assms(1), of f b2 "b\<lparr>fb_state := EXEC\<rparr>" b] by simp
  show ?thesis
    using fiber_slice_eq [OF entered_on_child [OF assms], of f] by (simp add: be split: sum.split)
qed

section \<open>The life cycle of a fiber\<close>

datatype fop = OpStart | OpResume | OpNotify | OpYield | OpHold | OpSleep u64 | OpStop
  | OpAwake | OpDestroy | OpReset "(nat \<Rightarrow> fcall) option"

fun fiber_op :: "fop \<Rightarrow> ptr \<Rightarrow> fsys \<Rightarrow> fsys res" where
  "fiber_op OpStart = Fiber_start"
| "fiber_op OpResume = Fiber_resume"
| "fiber_op OpNotify = Fiber_notify"
| "fiber_op OpYield = Fiber_yield"
| "fiber_op OpHold = Fiber_hold"
| "fiber_op (OpSleep t) = Fiber_sleep t"
| "fiber_op OpStop = Fiber_stop"
| "fiber_op OpAwake = Fiber_awake"
| "fiber_op OpDestroy = Fiber_destroy"
| "fiber_op (OpReset cb) = Fiber_reset cb"

text \<open>The state machine the operations implement, as a relation on states alone.\<close>

inductive lifecycle :: "fstate \<Rightarrow> fop \<Rightarrow> fstate \<Rightarrow> bool" where
  lc_start: "lifecycle INIT OpStart READY"
| lc_resume: "lifecycle READY OpResume EXEC"
| lc_notify: "lifecycle HOLD OpNotify EXEC"
| lc_yield: "lifecycle EXEC OpYield READY"
| lc_hold: "lifecycle EXEC OpHold HOLD"
| lc_sleep: "lifecycle EXEC (OpSleep t) SLEEP"
| lc_awake: "lifecycle SLEEP OpAwake READY"
| lc_stop: "lifecycle st OpStop DESTROY"
| lc_destroy: "lifecycle st OpDestroy DESTROY"
| lc_reset: "st \<noteq> DESTROY \<Longrightarrow> st \<noteq> EXCEPT \<Longrightarrow> lifecycle st (OpReset cb) INIT"

inductive_simps lifecycle_simps:
  "lifecycle st OpStart st'" "lifecycle st OpResume st'" "lifecycle st OpNotify st'"
  "lifecycle st OpYield st'" "lifecycle st OpHold st'" "lifecycle st (OpSleep t) st'"
  "lifecycle st OpAwake st'" "lifecycle st OpStop st'" "lifecycle st OpDestroy st'"
  "lifecycle st (OpReset cb) st'"

text \<open>Which side of the switch an operation may be called on; \<open>reset\<close> does not look.\<close>

fun side_ok :: "fop \<Rightarrow> fsys \<Rightarrow> bool" where
  "side_ok OpStart s = (this_fiber s = main_fiber s)"
| "side_ok OpResume s = (this_fiber s = main_fiber s)"
| "side_ok OpNotify s = (this_fiber s = main_fiber s)"
| "side_ok OpAwake s = (this_fiber s = main_fiber s)"
| "side_ok OpDestroy s = (this_fiber s = main_fiber s)"
| "side_ok (OpReset cb) s = True"
| "side_ok op s = (this_fiber s \<noteq> main_fiber s)"

lemma fiber_inv_main: "fiber_inv s \<Longrightarrow> main_ok s"
  by (auto simp: fiber_inv_def on_main_def on_child_def)

lemma swap_to_main:
  assumes "main_ok s" and "main_fiber s = Some m" and "f \<noteq> m"
  shows "swap_to m (store f b (SetThis p s)) =
    Inr ((store f b (SetThis p s))\<lparr>running := Some m\<rparr>)"
  using assms by (auto simp: swap_to_def deref_def main_ok_def split: option.splits)

lemma swap_to_child:
  "swap_to f (store f b s) = (if fb_ctx b then Inr ((store f b s)\<lparr>running := Some f\<rparr>)
     else Inl (Undefined ''swapcontext to an uninitialised context''))"
  by (simp add: swap_to_def deref_def)

text \<open>Every operation on a child fiber, as one equation.\<close>

definition op_target :: "fop \<Rightarrow> fsys \<Rightarrow> fiber \<Rightarrow> fiber" where
  "op_target op s b = (case op of
     OpStart \<Rightarrow> b\<lparr>fb_state := READY\<rparr> | OpAwake \<Rightarrow> b\<lparr>fb_state := READY\<rparr>
   | OpResume \<Rightarrow> b\<lparr>fb_state := EXEC\<rparr> | OpNotify \<Rightarrow> b\<lparr>fb_state := EXEC\<rparr>
   | OpYield \<Rightarrow> b\<lparr>fb_state := READY\<rparr> | OpHold \<Rightarrow> b\<lparr>fb_state := HOLD\<rparr>
   | OpSleep t \<Rightarrow> b\<lparr>fb_state := SLEEP, fb_waketime := fclock s + t\<rparr>
   | OpStop \<Rightarrow> b\<lparr>fb_state := DESTROY\<rparr> | OpDestroy \<Rightarrow> b\<lparr>fb_state := DESTROY\<rparr>
   | OpReset cb \<Rightarrow> b\<lparr>fb_cb := cb, fb_ctx := True, fb_pc := 0, fb_state := INIT\<rparr>)"

definition op_control :: "fop \<Rightarrow> ptr \<Rightarrow> fsys \<Rightarrow> ptr option" where
  "op_control op f s = (if op \<in> {OpResume, OpNotify} then Some f
     else if op \<in> {OpYield, OpHold, OpStop} \<or> (\<exists>t. op = OpSleep t) then main_fiber s
     else this_fiber s)"

lemma fiber_op_eq:
  assumes inv: "fiber_inv s" and b: "fheap s f = Some b" and ch: "is_child f s"
    and op: "fiber_op op f s = Inr s'"
  shows "s' = (store f (op_target op s b) s)
      \<lparr>this_fiber := op_control op f s, running := op_control op f s\<rparr>"
    and "side_ok op s" and "lifecycle (fb_state b) op (fb_state (op_target op s b))"
proof -
  obtain m where m: "main_fiber s = Some m"
    using fiber_inv_main [OF inv] by (auto elim: main_okE)
  have fm: "f \<noteq> m"
    using is_child_not_main [OF ch fiber_inv_main [OF inv]] m by auto
  have run: "running s = this_fiber s"
    using inv by (auto simp: fiber_inv_def on_main_def on_child_def)
  have ctx: "fb_ctx b" using ch b by (simp add: is_child_def)
  note eqs = same_id_inv [OF inv] deref_Some b GetMainFiber_def m
    swap_to_main [OF fiber_inv_main [OF inv] m fm]
  have all: "s' = (store f (op_target op s b) s)
      \<lparr>this_fiber := op_control op f s, running := op_control op f s\<rparr> \<and>
      side_ok op s \<and> lifecycle (fb_state b) op (fb_state (op_target op s b))"
    using op run ctx
    by (cases op; auto simp: fiber_defs Fiber_reset_def eqs swap_to_child Let_def res_simps
        lifecycle_simps op_target_def op_control_def split: if_splits;
        simp add: store_def SetThis_def)
  then show "s' = (store f (op_target op s b) s)
      \<lparr>this_fiber := op_control op f s, running := op_control op f s\<rparr>"
    and "side_ok op s" and "lifecycle (fb_state b) op (fb_state (op_target op s b))"
    by auto
qed

lemma fiber_op_ok:
  assumes inv: "fiber_inv s" and b: "fheap s f = Some b" and ch: "is_child f s"
    and stk: "\<And>cb. op = OpReset cb \<Longrightarrow> fb_stack b"
    and side: "side_ok op s" and lc: "lifecycle (fb_state b) op st"
  shows "ok (fiber_op op f s)"
proof -
  obtain m where m: "main_fiber s = Some m"
    using fiber_inv_main [OF inv] by (auto elim: main_okE)
  have fm: "f \<noteq> m"
    using is_child_not_main [OF ch fiber_inv_main [OF inv]] m by auto
  have ctx: "fb_ctx b" using ch b by (simp add: is_child_def)
  note eqs = same_id_inv [OF inv] deref_Some b GetMainFiber_def m
    swap_to_main [OF fiber_inv_main [OF inv] m fm]
  show ?thesis
    using side lc ctx stk
    by (cases op) (auto simp: fiber_defs Fiber_reset_def eqs swap_to_child Let_def
        lifecycle_simps)
qed

lemma op_target_frame [simp]:
  "fb_id (op_target op s b) = fb_id b" "fb_ctx b \<Longrightarrow> fb_ctx (op_target op s b)"
  "fb_stack (op_target op s b) = fb_stack b"
  by (simp_all add: op_target_def split: fop.split)

lemma main_ok_store:
  assumes "main_ok s" and "is_child f s"
  shows "main_ok ((store f b s)\<lparr>this_fiber := p, running := q\<rparr>)"
  using assms is_child_not_main [OF assms(2,1)] by (auto simp: main_ok_def split: option.splits)

lemma fiber_op_inv:
  assumes inv: "fiber_inv s" and ch: "is_child f s" and op: "fiber_op op f s = Inr s'"
    and rst: "\<And>cb. op = OpReset cb \<Longrightarrow> this_fiber s \<noteq> Some f"
  shows "fiber_inv s'"
proof -
  obtain b where b: "fheap s f = Some b" "fb_id b \<noteq> 0" "fb_ctx b"
    using ch by (rule is_childE)
  note eq = fiber_op_eq [OF inv b(1) ch op]
  have mo: "main_ok s'"
    unfolding eq(1) by (rule main_ok_store [OF fiber_inv_main [OF inv] ch])
  have st: "running s' = op_control op f s" "main_fiber s' = main_fiber s"
    "this_fiber s' = op_control op f s" "fheap s' = (fheap s)(f \<mapsto> op_target op s b)"
    unfolding eq(1) by simp_all
  consider (main) "op_control op f s = main_fiber s"
    | (enter) "op \<in> {OpResume, OpNotify}"
    | (stay) "op_control op f s = this_fiber s" "this_fiber s \<noteq> main_fiber s"
      "op \<notin> {OpResume, OpNotify}"
    unfolding op_control_def by (meson insert_iff empty_iff)
  then show ?thesis
  proof cases
    case main
    then show ?thesis using mo st by (simp add: fiber_inv_def on_main_def)
  next
    case enter
    then have "on_child s'"
      using mo st b by (auto simp: on_child_def is_child_def op_control_def op_target_def)
    then show ?thesis by (simp add: fiber_inv_def)
  next
    case stay
    then have c: "on_child s" and o: "\<exists>cb. op = OpReset cb"
      using inv eq(2) is_child_not_main [OF ch fiber_inv_main [OF inv]] fiber_inv_main [OF inv]
      by (cases op; auto simp: fiber_inv_def on_main_def op_control_def)+
    then have "this_fiber s \<noteq> Some f" using rst by auto
    then have "on_child s'"
      using mo st c stay by (auto simp: on_child_def is_child_def split: option.splits)
    then show ?thesis by (simp add: fiber_inv_def)
  qed
qed

lemma resume_run_eq:
  assumes "on_main s" and "is_child f s" and "fheap s f = Some b"
  shows "resume_run f s =
    (if fb_state b = READY
     then (case slice_result (fclock s) b of Inl e \<Rightarrow> Inl e | Inr b' \<Rightarrow> Inr (store f b' s))
     else Inl (AssertFail ''The Fiber that is not ready cannot be resumed''))"
  using assms Fiber_resume_eq [OF assms(1,3)] entered_slice [OF assms(1,3)]
  by (auto simp: resume_run_def is_child_def)

lemma notify_run_eq:
  assumes "on_main s" and "is_child f s" and "fheap s f = Some b"
  shows "notify_run f s =
    (if fb_state b = HOLD
     then (case slice_result (fclock s) b of Inl e \<Rightarrow> Inl e | Inr b' \<Rightarrow> Inr (store f b' s))
     else Inl (AssertFail ''The Fiber that is not hold cannot be notified''))"
  using assms Fiber_notify_eq [OF assms(1,3)] entered_slice [OF assms(1,3)]
  by (auto simp: notify_run_def is_child_def)

section \<open>Properties\<close>

text \<open>
  C4. Every successful operation on a child fiber is a transition of the life-cycle relation
  for that fiber, keeps its identifier, and leaves every other fiber object alone.
\<close>

theorem fiber_op_refines_lifecycle:
  assumes "fiber_inv s" and "is_child f s" and "fheap s f = Some b"
    and "fiber_op op f s = Inr s'"
  shows "\<exists>b'. fheap s' f = Some b' \<and> lifecycle (fb_state b) op (fb_state b') \<and>
    fb_id b' = fb_id b \<and> (\<forall>g. g \<noteq> f \<longrightarrow> fheap s' g = fheap s g)"
  using fiber_op_eq [OF assms(1,3,2,4)] by auto

text \<open>
  C23. An operation on a child fiber succeeds exactly when it is called on the right side of
  the switch and the life cycle has a transition for it: no assertion fails otherwise, and
  no illegal call gets past the assertions.
\<close>

theorem fiber_op_accepted_iff:
  assumes "fiber_inv s" and "is_child f s" and "fheap s f = Some b" and "fb_stack b"
  shows "ok (fiber_op op f s) \<longleftrightarrow> side_ok op s \<and> (\<exists>st. lifecycle (fb_state b) op st)"
  using fiber_op_eq(2,3) [OF assms(1,3,2)] fiber_op_ok [OF assms(1,3,2)] assms(4)
  unfolding ok_iff by blast

text \<open>
  The thread invariant (the fiber that \<open>this_fiber\<close> names is the one being executed; it
  is the main fiber, or a child in state \<open>EXEC\<close>) is kept by every successful operation on a
  child fiber, a \<open>reset\<close> of the fiber that is executing excepted.
\<close>

theorem fiber_op_keeps_inv:
  assumes "fiber_inv s" and "is_child f s" and "fiber_op op f s = Inr s'"
    and "\<not> ((\<exists>cb. op = OpReset cb) \<and> this_fiber s = Some f)"
  shows "fiber_inv s'"
  using fiber_op_inv [OF assms(1-3)] assms(4) by blast

text \<open>
  Resuming a ready child from the main fiber returns to the main fiber with the thread's
  variables as they were, and its whole effect is the effect of one slice on the object of
  that fiber; resuming a fiber that is not ready fails the assertion.
\<close>

theorem resume_run_refines_slice:
  assumes "on_main s" and "is_child f s" and "fheap s f = Some b"
  shows "resume_run f s =
    (if fb_state b = READY
     then (case slice_result (fclock s) b of Inl e \<Rightarrow> Inl e | Inr b' \<Rightarrow> Inr (store f b' s))
     else Inl (AssertFail ''The Fiber that is not ready cannot be resumed''))"
  using assms by (rule resume_run_eq)

text \<open>
  \<open>notify\<close> does not only mark a held fiber as runnable: from the main fiber it runs the
  fiber for one slice, exactly as \<open>resume\<close> does for a ready one.
\<close>

theorem notify_run_refines_slice:
  assumes "on_main s" and "is_child f s" and "fheap s f = Some b"
  shows "notify_run f s =
    (if fb_state b = HOLD
     then (case slice_result (fclock s) b of Inl e \<Rightarrow> Inl e | Inr b' \<Rightarrow> Inr (store f b' s))
     else Inl (AssertFail ''The Fiber that is not hold cannot be notified''))"
  using assms by (rule notify_run_eq)

text \<open>
  A callback that throws (or an empty one, which throws \<open>std::bad_function_call\<close>) never
  brings its fiber to \<open>EXCEPT\<close>: the handler reads the identifier through a pointer it has
  reset, so the run ends in a null dereference.
\<close>

theorem throwing_fiber_crashes:
  assumes "on_main s" and "is_child f s" and "fheap s f = Some b" and "fb_state b = READY"
    and "case fb_cb b of None \<Rightarrow> True | Some cb \<Rightarrow> cb (fb_pc b) = CallThrow"
  shows "resume_run f s = Inl (NullDeref ''Fiber'')"
  using assms resume_run_eq [OF assms(1-3)]
  by (simp add: slice_result_def split: option.splits)

section \<open>Creation and destruction\<close>

definition heap_fresh :: "fsys \<Rightarrow> bool" where
  "heap_fresh s = (\<forall>a. fnext s \<le> a \<longrightarrow> fheap s a = None)"

text \<open>A thread between operations: with no fiber yet, or with its main fiber set up.\<close>

definition thread_ok :: "fsys \<Rightarrow> bool" where
  "thread_ok s = (if this_fiber s = None
     then main_fiber s = None \<and> running s = None \<and> fiberIds s = 0
     else fiber_inv s \<and> fiberIds s \<noteq> 0)"

definition boot :: fsys where
  "boot = \<lparr>main_fiber = None, this_fiber = None, fiberIds = 0, fiber_count = 0,
     running = None, fheap = Map.empty, fnext = 0, fclock = 0\<rparr>"

text \<open>The state \<open>CreatFiber\<close> constructs the new fiber in.\<close>

definition with_main :: "fsys \<Rightarrow> fsys" where
  "with_main s = (if this_fiber s = None
     then (snd (Fiber_main s))\<lparr>main_fiber := Some (fnext s)\<rparr> else s)"

lemma CreatFiber_eq: "CreatFiber cb sz mok s = Inr (Fiber_ctor cb sz mok (with_main s))"
  by (simp add: CreatFiber_def with_main_def Fiber_main_def Let_def)

lemma with_main_ok:
  assumes "thread_ok s" and "heap_fresh s"
  shows "thread_ok (with_main s)" and "heap_fresh (with_main s)"
    and "this_fiber (with_main s) \<noteq> None"
  using assms
  by (auto simp: with_main_def thread_ok_def Fiber_main_def Let_def fiber_inv_def on_main_def
      main_ok_def heap_fresh_def)

lemma fiber_inv_alloc:
  assumes "fiber_inv s" and "heap_fresh s"
  shows "fiber_inv ((store (fnext s) b s)\<lparr>fnext := n, fiberIds := i, fiber_count := c\<rparr>)"
proof -
  have "fheap s (fnext s) = None" using assms(2) by (simp add: heap_fresh_def)
  then show ?thesis
    using assms(1)
    by (auto simp: fiber_inv_def on_main_def on_child_def main_ok_def is_child_def
        split: option.splits)
qed

lemma Fiber_ctor_eq:
  "Fiber_ctor cb sz True s = (fnext s,
     (store (fnext s) \<lparr>fb_id = fiberIds s, fb_cb = cb, fb_pc = 0, fb_stacksize = sz,
        fb_stack = True, fb_ctx = True, fb_state = INIT, fb_waketime = 0, fb_refs = 1\<rparr> s)
      \<lparr>fnext := Suc (fnext s), fiberIds := fiberIds s + 1, fiber_count := fiber_count s + 1\<rparr>)"
  by (simp add: Fiber_ctor_def Let_def)

text \<open>
  On a thread that has created fewer than \<open>2 ^ 64\<close> fibers, \<open>CreatFiber\<close> with memory
  available never fails: it sets up the main fiber if there is none, and returns a fresh
  child in state \<open>INIT\<close> with a non-zero identifier, without touching any existing fiber.
\<close>

theorem CreatFiber_fresh:
  assumes "thread_ok s" and "heap_fresh s" and "fiberIds s \<noteq> - 1"
  shows "\<exists>f s' b. CreatFiber cb sz True s = Inr (f, s') \<and> fheap s f = None \<and>
    is_child f s' \<and> fheap s' f = Some b \<and> fb_state b = INIT \<and> fb_cb b = cb \<and> fb_pc b = 0 \<and>
    heap_fresh s' \<and> fiber_inv s' \<and>
    (\<forall>g x. fheap s g = Some x \<longrightarrow> fheap s' g = Some x)"
proof -
  let ?w = "with_main s"
  note w = with_main_ok [OF assms(1,2)]
  have inv: "fiber_inv ?w" and ids: "fiberIds ?w \<noteq> 0"
    using w(1,3) by (simp_all add: thread_ok_def)
  have none: "fheap s (fnext ?w) = None" "\<And>g x. fheap s g = Some x \<Longrightarrow> fheap ?w g = Some x"
    using assms(2) by (auto simp: with_main_def Fiber_main_def Let_def heap_fresh_def)
  have new: "fheap ?w (fnext ?w) = None" using w(2) by (simp add: heap_fresh_def)
  show ?thesis
    unfolding CreatFiber_eq Fiber_ctor_eq
    using fiber_inv_alloc [OF inv w(2)] ids none new w(2)
    by (auto simp: is_child_def heap_fresh_def)
qed

text \<open>
  A child fiber can be destroyed only on the main fiber and once it has ended: a fiber
  that is \<open>INIT\<close>, \<open>READY\<close>, \<open>HOLD\<close>, \<open>SLEEP\<close> or \<open>EXEC\<close> when its last owner goes fails
  the assertion of the destructor.
\<close>

theorem Fiber_dtor_accepted_iff:
  assumes "fiber_inv s" and "is_child f s" and "fheap s f = Some b"
  shows "ok (Fiber_dtor f s) \<longleftrightarrow>
    this_fiber s = main_fiber s \<and> fb_state b \<in> {DESTROY, EXCEPT}"
  using assms is_child_not_main [OF assms(2) fiber_inv_main [OF assms(1)]]
  by (auto simp: Fiber_dtor_def ok_iff res_simps Let_def deref_def)

section \<open>Witnesses\<close>

text \<open>A callback that yields once and returns, and the thread that has created it.\<close>

definition demo_cb :: "nat \<Rightarrow> fcall" where
  "demo_cb n = (if n = 0 then CallYield else CallReturn)"

definition demo_thread :: "fstate \<Rightarrow> (nat \<Rightarrow> fcall) option \<Rightarrow> fsys" where
  "demo_thread st cb = \<lparr>main_fiber = Some 0, this_fiber = Some 0, fiberIds = 2,
     fiber_count = 2, running = Some 0,
     fheap = [0 \<mapsto> \<lparr>fb_id = 0, fb_cb = None, fb_pc = 0, fb_stacksize = 0, fb_stack = False,
                    fb_ctx = True, fb_state = EXEC, fb_waketime = 0, fb_refs = 1\<rparr>,
              1 \<mapsto> \<lparr>fb_id = 1, fb_cb = cb, fb_pc = 0, fb_stacksize = 4096, fb_stack = True,
                    fb_ctx = True, fb_state = st, fb_waketime = 0, fb_refs = 1\<rparr>],
     fnext = 2, fclock = 1000\<rparr>"

definition demo_fiber :: "fstate \<Rightarrow> (nat \<Rightarrow> fcall) option \<Rightarrow> fiber" where
  "demo_fiber st cb = \<lparr>fb_id = 1, fb_cb = cb, fb_pc = 0, fb_stacksize = 4096, fb_stack = True,
                    fb_ctx = True, fb_state = st, fb_waketime = 0, fb_refs = 1\<rparr>"

lemma demo_on_main: "on_main (demo_thread st cb)"
  and demo_inv: "fiber_inv (demo_thread st cb)"
  and demo_child: "is_child 1 (demo_thread st cb)"
  and demo_heap: "fheap (demo_thread st cb) 1 = Some (demo_fiber st cb)"
  and demo_state: "fb_state (demo_fiber st cb) = st"
  and demo_stack: "fb_stack (demo_fiber st cb)"
  by (simp_all add: demo_thread_def demo_fiber_def on_main_def main_ok_def is_child_def
      fiber_inv_def)

lemmas demo_heap_Suc = demo_heap [unfolded One_nat_def]

lemma demo_start: "\<exists>s'. fiber_op OpStart 1 (demo_thread INIT cb) = Inr s'"
  using fiber_op_ok [OF demo_inv demo_heap demo_child, of OpStart INIT cb READY]
  by (simp add: demo_state lc_start demo_thread_def ok_iff)

theorem fiber_op_refines_lifecycle_witness:
  "\<exists>s' b'. fiber_op OpStart 1 (demo_thread INIT (Some demo_cb)) = Inr s' \<and>
    fheap s' 1 = Some b' \<and> lifecycle INIT OpStart (fb_state b')"
  using demo_start [of "Some demo_cb"]
    fiber_op_refines_lifecycle [OF demo_inv demo_child demo_heap, of OpStart]
  by (metis demo_state)

theorem fiber_op_accepted_iff_witness:
  "ok (fiber_op OpResume 1 (demo_thread READY (Some demo_cb))) \<and>
   \<not> ok (fiber_op OpResume 1 (demo_thread HOLD (Some demo_cb)))"
  using fiber_op_accepted_iff [OF demo_inv demo_child demo_heap demo_stack, of OpResume]
  by (auto simp: demo_state lifecycle_simps demo_thread_def)

theorem fiber_op_keeps_inv_witness:
  "\<exists>s'. fiber_op OpStart 1 (demo_thread INIT (Some demo_cb)) = Inr s' \<and> fiber_inv s'"
  using demo_start [of "Some demo_cb"] fiber_op_keeps_inv [OF demo_inv demo_child, of OpStart]
  by blast

theorem resume_run_refines_slice_witness:
  "resume_run 1 (demo_thread READY (Some demo_cb)) =
    Inr (store 1 ((demo_fiber READY (Some demo_cb))\<lparr>fb_pc := 1\<rparr>)
      (demo_thread READY (Some demo_cb)))"
  using resume_run_refines_slice [OF demo_on_main demo_child demo_heap, of READY "Some demo_cb"]
  by (simp add: demo_state slice_result_def demo_fiber_def demo_cb_def)

theorem notify_run_refines_slice_witness:
  "notify_run 1 (demo_thread HOLD (Some demo_cb)) =
    Inr (store 1 ((demo_fiber READY (Some demo_cb))\<lparr>fb_pc := 1\<rparr>)
      (demo_thread HOLD (Some demo_cb)))"
  using notify_run_refines_slice [OF demo_on_main demo_child demo_heap, of HOLD "Some demo_cb"]
  by (simp add: demo_state slice_result_def demo_fiber_def demo_cb_def)

theorem throwing_fiber_crashes_witness:
  "resume_run 1 (demo_thread READY (Some (\<lambda>_. CallThrow))) = Inl (NullDeref ''Fiber'') \<and>
   resume_run 1 (demo_thread READY None) = Inl (NullDeref ''Fiber'')"
  using throwing_fiber_crashes [OF demo_on_main demo_child demo_heap demo_state]
  by (simp add: demo_fiber_def)

theorem CreatFiber_fresh_witness:
  "thread_ok boot \<and> (\<exists>f s' b. CreatFiber (Some demo_cb) 4096 True boot = Inr (f, s') \<and>
    is_child f s' \<and> fheap s' f = Some b \<and> fb_state b = INIT)"
proof -
  have "thread_ok boot" "heap_fresh boot" "fiberIds boot \<noteq> - 1"
    by (simp_all add: boot_def thread_ok_def heap_fresh_def)
  from CreatFiber_fresh [OF this, of "Some demo_cb" 4096] this(1) show ?thesis by blast
qed

theorem Fiber_dtor_accepted_iff_witness:
  "ok (Fiber_dtor 1 (demo_thread DESTROY None)) \<and> \<not> ok (Fiber_dtor 1 (demo_thread SLEEP None))"
  using Fiber_dtor_accepted_iff [OF demo_inv demo_child demo_heap]
  by (simp add: demo_state demo_thread_def)

end
