(* ===== verification/PQueue.thy ===== *)
theory PQueue
  imports Prelude
begin

text \<open>
  \<open>std::priority_queue\<close> over a \<open>std::vector\<close>, as the scheduler uses it: a binary heap in an
  array, with the sift-up of \<open>push_heap\<close> and the hole-down-then-up of \<open>pop_heap\<close>. The
  comparator may draw random numbers (\<open>task_cmp\<close> does), so it threads a generator state and
  nothing is assumed about the answers it gives. The interface the scheduler relies on is a
  pair of locales: a bag for any comparator, and a queue whose top is minimal when the
  comparator orders by a key (\<open>sleep_cmp\<close>).
\<close>

type_synonym ('a, 'r) cmp = "'a \<Rightarrow> 'a \<Rightarrow> 'r \<Rightarrow> bool \<times> 'r"

definition parent :: "nat \<Rightarrow> nat" where
  "parent i = (i - 1) div 2"

lemma parent_less [simp]: "0 < i \<Longrightarrow> parent i < i"
  by (auto simp: parent_def)

lemma parent_neq [simp]: "0 < i \<Longrightarrow> parent i \<noteq> i"
  using parent_less [of i] by linarith

function sift_up :: "('a, 'r) cmp \<Rightarrow> 'a list \<Rightarrow> nat \<Rightarrow> 'a \<Rightarrow> 'r \<Rightarrow> 'a list \<times> 'r" where
  "sift_up cmp xs hole v r =
     (if hole = 0 then (xs[hole := v], r)
      else (case cmp (xs ! parent hole) v r of (b, r') \<Rightarrow>
        if b then sift_up cmp (xs[hole := xs ! parent hole]) (parent hole) v r'
        else (xs[hole := v], r')))"
  by pat_completeness auto
termination
  by (relation "measure (\<lambda>(cmp, xs, hole, v, r). hole)") auto

function sift_down :: "('a, 'r) cmp \<Rightarrow> 'a list \<Rightarrow> nat \<Rightarrow> 'r \<Rightarrow> 'a list \<times> nat \<times> 'r" where
  "sift_down cmp xs hole r =
     (let len = length xs; c = 2 * (hole + 1) in
      if hole < (len - 1) div 2
      then (case cmp (xs ! c) (xs ! (c - 1)) r of (b, r') \<Rightarrow>
        let c' = (if b then c - 1 else c) in sift_down cmp (xs[hole := xs ! c']) c' r')
      else if 2 \<le> len \<and> even len \<and> hole = (len - 2) div 2
      then (xs[hole := xs ! (c - 1)], c - 1, r)
      else (xs, hole, r))"
  by pat_completeness auto
termination
  by (relation "measure (\<lambda>(cmp, xs, hole, r). length xs - hole)") (auto split: if_splits)

declare sift_up.simps [simp del] sift_down.simps [simp del]

definition pq_push :: "('a, 'r) cmp \<Rightarrow> 'a \<Rightarrow> 'a list \<Rightarrow> 'r \<Rightarrow> 'a list \<times> 'r" where
  "pq_push cmp x q r = sift_up cmp (q @ [x]) (length q) x r"

definition pq_top :: "'a list \<Rightarrow> 'a option" where
  "pq_top q = (case q of [] \<Rightarrow> None | x # _ \<Rightarrow> Some x)"

definition pq_pop :: "('a, 'r) cmp \<Rightarrow> 'a list \<Rightarrow> 'r \<Rightarrow> 'a list \<times> 'r" where
  "pq_pop cmp q r =
     (if 1 < length q
      then (case sift_down cmp (butlast q) 0 r of (xs, hole, r') \<Rightarrow>
        sift_up cmp xs hole (last q) r')
      else (butlast q, r))"

definition key_cmp :: "('a \<Rightarrow> 'k::linorder) \<Rightarrow> ('a, 'r) cmp" where
  "key_cmp key a b r = (key b < key a, r)"

section \<open>The interface\<close>

locale bag_queue =
  fixes push :: "'a \<Rightarrow> 'q \<Rightarrow> 'r \<Rightarrow> 'q \<times> 'r"
    and pop :: "'q \<Rightarrow> 'r \<Rightarrow> 'q \<times> 'r"
    and top :: "'q \<Rightarrow> 'a option"
    and items :: "'q \<Rightarrow> 'a multiset"
  assumes items_push: "items (fst (push x q r)) = add_mset x (items q)"
    and items_pop: "top q = Some x \<Longrightarrow> items q = add_mset x (items (fst (pop q r)))"
    and top_None: "top q = None \<longleftrightarrow> items q = {#}"
begin

lemma top_in: "top q = Some x \<Longrightarrow> x \<in># items q"
  using items_pop [of q x undefined] by simp

lemma items_pop_diff: "top q = Some x \<Longrightarrow> items (fst (pop q r)) = items q - {#x#}"
  using items_pop [of q x r] by simp

lemma size_pop: "top q = Some x \<Longrightarrow> size (items (fst (pop q r))) < size (items q)"
  using items_pop [of q x r] by simp

lemma pop_push: "top q = Some x \<Longrightarrow> items (fst (push x (fst (pop q r)) r')) = items q"
  using items_pop [of q x r] by (simp add: items_push)

end

locale min_queue = bag_queue push pop top items
  for push :: "'a \<Rightarrow> 'q \<Rightarrow> 'r \<Rightarrow> 'q \<times> 'r" and pop :: "'q \<Rightarrow> 'r \<Rightarrow> 'q \<times> 'r"
    and top :: "'q \<Rightarrow> 'a option" and items :: "'q \<Rightarrow> 'a multiset" +
  fixes key :: "'a \<Rightarrow> 'k::linorder"
    and inv :: "'q \<Rightarrow> bool"
  assumes inv_push: "inv q \<Longrightarrow> inv (fst (push x q r))"
    and inv_pop: "inv q \<Longrightarrow> inv (fst (pop q r))"
    and top_min: "inv q \<Longrightarrow> top q = Some x \<Longrightarrow> y \<in># items q \<Longrightarrow> key x \<le> key y"
begin

text \<open>Draining the queue while the top is below a bound takes out what is below it.\<close>

lemma none_below:
  "inv q \<Longrightarrow> top q = Some x \<Longrightarrow> \<not> key x < t \<Longrightarrow> y \<in># items q \<Longrightarrow> \<not> key y < t"
  using top_min by fastforce

lemma filter_none_below:
  "inv q \<Longrightarrow> top q = Some x \<Longrightarrow> \<not> key x < t \<Longrightarrow> {#y \<in># items q. key y < t#} = {#}"
  using none_below by auto

lemma filter_pop_below:
  assumes "top q = Some x" and "key x < t"
  shows "{#y \<in># items (fst (pop q r)). \<not> key y < t#} = {#y \<in># items q. \<not> key y < t#}"
    and "{#y \<in># items q. key y < t#} = add_mset x {#y \<in># items (fst (pop q r)). key y < t#}"
  using assms items_pop [OF assms(1), of r] by simp_all

end

section \<open>The heap keeps its elements, whatever the comparator answers\<close>

lemma sift_up_mset:
  "hole < length xs \<Longrightarrow> mset (fst (sift_up cmp xs hole v r)) = mset (xs[hole := v])"
proof (induction cmp xs hole v r rule: sift_up.induct)
  case (1 cmp xs hole v r)
  show ?case
  proof (cases "hole = 0")
    case True
    then show ?thesis by (simp add: sift_up.simps)
  next
    case False
    obtain b r' where c: "cmp (xs ! parent hole) v r = (b, r')" by fastforce
    have p: "parent hole < length xs" using False 1(2) by (meson parent_less less_trans neq0_conv)
    show ?thesis
      using "1.IH" [OF False c [symmetric]] c False p 1(2)
      by (simp add: sift_up.simps [of cmp xs] mset_update_swap)
  qed
qed

lemma sift_up_length: "hole < length xs \<Longrightarrow> length (fst (sift_up cmp xs hole v r)) = length xs"
  using sift_up_mset [of hole xs cmp v r] by (metis length_list_update size_mset)

lemma sift_down_mset:
  assumes "hole < length xs" and "sift_down cmp xs hole r = (ys, h, r')"
  shows "h < length ys \<and> length ys = length xs \<and> mset (ys[h := v]) = mset (xs[hole := v])"
  using assms
proof (induction cmp xs hole r rule: sift_down.induct)
  case (1 cmp xs hole r)
  let ?c = "2 * (hole + 1)"
  show ?case
  proof (cases "hole < (length xs - 1) div 2")
    case True
    obtain b r1 where c: "cmp (xs ! ?c) (xs ! (?c - 1)) r = (b, r1)" by fastforce
    define d where "d = (if b then ?c - 1 else ?c)"
    have d: "d < length xs" using True by (auto simp: d_def)
    have "sift_down cmp (xs[hole := xs ! d]) d r1 = (ys, h, r')"
      using 1(3) True c by (cases b) (simp_all add: sift_down.simps [of cmp xs] d_def Let_def)
    then show ?thesis
      using "1.IH" [OF refl refl True c [symmetric] d_def] d 1(2) by (simp add: mset_update_swap)
  next
    case False
    show ?thesis
    proof (cases "2 \<le> length xs \<and> even (length xs) \<and> hole = (length xs - 2) div 2")
      case True
      then have "?c - 1 < length xs" by auto
      with True False 1(2,3) show ?thesis
        by (auto simp: sift_down.simps [of cmp xs] Let_def mset_update_swap)
    next
      case F2: False
      with False 1(2,3) show ?thesis
        by (auto simp: sift_down.simps [of cmp xs] Let_def)
    qed
  qed
qed

lemma pq_push_mset: "mset (fst (pq_push cmp x q r)) = add_mset x (mset q)"
  by (simp add: pq_push_def sift_up_mset)

lemma pq_pop_mset: "pq_top q = Some x \<Longrightarrow> mset q = add_mset x (mset (fst (pq_pop cmp q r)))"
proof -
  assume t: "pq_top q = Some x"
  then obtain xs where q: "q = x # xs" by (auto simp: pq_top_def split: list.splits)
  show ?thesis
  proof (cases "1 < length q")
    case True
    then have ne: "xs \<noteq> []" using q by auto
    obtain ys h r' where d: "sift_down cmp (butlast q) 0 r = (ys, h, r')"
      by (cases "sift_down cmp (butlast q) 0 r") auto
    have "h < length ys \<and> length ys = length (butlast q) \<and>
        mset (ys[h := last q]) = mset ((butlast q)[0 := last q])"
      using True by (intro sift_down_mset [OF _ d]) auto
    then have "mset (fst (pq_pop cmp q r)) = mset ((butlast q)[0 := last q])"
      using True d by (simp add: pq_pop_def sift_up_mset)
    then show ?thesis
      using q ne mset_last_butlast [of xs] by simp
  next
    case False
    then show ?thesis using q by (simp add: pq_pop_def)
  qed
qed

interpretation vecq: bag_queue "pq_push cmp" "pq_pop cmp" pq_top mset
  for cmp :: "('a, 'r) cmp"
  by unfold_locales (auto simp: pq_push_mset pq_pop_mset pq_top_def split: list.splits)

section \<open>With a comparator that orders by a key, the top is minimal\<close>

definition is_heap :: "('a \<Rightarrow> 'k::linorder) \<Rightarrow> 'a list \<Rightarrow> bool" where
  "is_heap key q = (\<forall>i<length q. 0 < i \<longrightarrow> key (q ! parent i) \<le> key (q ! i))"

text \<open>A heap but for the content of one position, the hole.\<close>

definition hole_heap :: "('a \<Rightarrow> 'k::linorder) \<Rightarrow> 'a list \<Rightarrow> nat \<Rightarrow> bool" where
  "hole_heap key xs h =
     ((\<forall>i<length xs. 0 < i \<and> i \<noteq> h \<and> parent i \<noteq> h \<longrightarrow> key (xs ! parent i) \<le> key (xs ! i)) \<and>
      (0 < h \<longrightarrow> (\<forall>i<length xs. 0 < i \<and> parent i = h \<longrightarrow> key (xs ! parent h) \<le> key (xs ! i))))"

definition above_children :: "('a \<Rightarrow> 'k::linorder) \<Rightarrow> 'a list \<Rightarrow> nat \<Rightarrow> 'a \<Rightarrow> bool" where
  "above_children key xs h v = (\<forall>i<length xs. 0 < i \<and> parent i = h \<longrightarrow> key v \<le> key (xs ! i))"

lemma hole_heapD:
  "hole_heap key xs h \<Longrightarrow> i < length xs \<Longrightarrow> 0 < i \<Longrightarrow> i \<noteq> h \<Longrightarrow> parent i \<noteq> h \<Longrightarrow>
    key (xs ! parent i) \<le> key (xs ! i)"
  "hole_heap key xs h \<Longrightarrow> 0 < h \<Longrightarrow> i < length xs \<Longrightarrow> 0 < i \<Longrightarrow> parent i = h \<Longrightarrow>
    key (xs ! parent h) \<le> key (xs ! i)"
  by (simp_all add: hole_heap_def)

lemma hole_filled:
  assumes "hole_heap key xs h" and "h < length xs" and "above_children key xs h v"
    and "0 < h \<Longrightarrow> key (xs ! parent h) \<le> key v"
  shows "is_heap key (xs[h := v])"
  unfolding is_heap_def
proof (intro allI impI)
  fix i
  assume i: "i < length (xs[h := v])" "0 < i"
  have "parent i \<noteq> i" using i(2) parent_less [of i] by auto
  then show "key (xs[h := v] ! parent i) \<le> key (xs[h := v] ! i)"
    using assms i hole_heapD(1) [OF assms(1), of i]
    by (cases "i = h"; cases "parent i = h") (auto simp: above_children_def nth_list_update)
qed

lemma hole_moved_up:
  assumes hh: "hole_heap key xs h" and h: "h < length xs" "0 < h"
    and v: "above_children key xs h v" and lt: "key v < key (xs ! parent h)"
  defines "ys \<equiv> xs[h := xs ! parent h]"
  shows "hole_heap key ys (parent h)" and "above_children key ys (parent h) v"
proof -
  let ?p = "parent h"
  have pl: "?p < h" using h(2) by simp
  have pp: "0 < ?p \<Longrightarrow> key (xs ! parent ?p) \<le> key (xs ! ?p)"
    using hole_heapD(1) [OF hh, of ?p] pl h(1) parent_less [of ?p] by linarith
  have sib: "key (xs ! ?p) \<le> key (xs ! i)" if "i < length xs" "0 < i" "parent i = ?p" "i \<noteq> h" for i
    using hole_heapD(1) [OF hh, of i] that pl by simp
  show "hole_heap key ys ?p"
    unfolding hole_heap_def
  proof (intro conjI allI impI)
    fix i
    assume i: "i < length ys" "0 < i \<and> i \<noteq> ?p \<and> parent i \<noteq> ?p"
    then have "i \<noteq> h" "parent i < i" by auto
    then show "key (ys ! parent i) \<le> key (ys ! i)"
      using i hole_heapD(1) [OF hh, of i] hole_heapD(2) [OF hh h(2), of i] h(1)
      by (cases "parent i = h") (auto simp: ys_def nth_list_update)
  next
    fix i
    assume p: "0 < ?p" and i: "i < length ys" "0 < i \<and> parent i = ?p"
    have "parent ?p \<noteq> h" using p pl parent_less [of ?p] by linarith
    then show "key (ys ! parent ?p) \<le> key (ys ! i)"
      using i pp [OF p] sib [of i] h(1) by (cases "i = h") (auto simp: ys_def intro: order_trans)
  qed
  show "above_children key ys ?p v"
    unfolding above_children_def
  proof (intro allI impI)
    fix i
    assume "i < length ys" "0 < i \<and> parent i = ?p"
    then show "key v \<le> key (ys ! i)"
      using lt sib [of i] h(1) by (cases "i = h") (auto simp: ys_def)
  qed
qed

lemma sift_up_heap:
  "hole_heap key xs hole \<Longrightarrow> hole < length xs \<Longrightarrow> above_children key xs hole v \<Longrightarrow>
    is_heap key (fst (sift_up (key_cmp key) xs hole v r))"
proof (induction hole arbitrary: xs r rule: less_induct)
  case (less hole)
  show ?case
  proof (cases "hole = 0")
    case True
    then show ?thesis
      using hole_filled [OF less.prems] by (simp add: sift_up.simps)
  next
    case False
    have p: "parent hole < hole" using False by simp
    show ?thesis
    proof (cases "key v < key (xs ! parent hole)")
      case True
      note m = hole_moved_up [OF less.prems(1,2) _ less.prems(3) True]
      show ?thesis
        using less.IH [OF p m(1) _ m(2), of r] False p less.prems(2) True
        by (simp add: sift_up.simps [of _ xs hole] key_cmp_def)
    next
      case le: False
      then show ?thesis
        using hole_filled [OF less.prems] False
        by (simp add: sift_up.simps [of _ xs hole] key_cmp_def)
    qed
  qed
qed

lemma hole_moved_down:
  assumes hh: "hole_heap key xs h" and d: "d < length xs" "0 < d" "parent d = h"
    and mn: "\<And>i. i < length xs \<Longrightarrow> 0 < i \<Longrightarrow> parent i = h \<Longrightarrow> key (xs ! d) \<le> key (xs ! i)"
  shows "hole_heap key (xs[h := xs ! d]) d"
proof -
  have hd: "h < d" using d parent_less by blast
  show ?thesis
    unfolding hole_heap_def
  proof (intro conjI allI impI)
    fix i
    assume i: "i < length (xs[h := xs ! d])" "0 < i \<and> i \<noteq> d \<and> parent i \<noteq> d"
    then have "parent i \<noteq> i" using parent_less [of i] by auto
    then show "key (xs[h := xs ! d] ! parent i) \<le> key (xs[h := xs ! d] ! i)"
      using i hole_heapD(1) [OF hh, of i] hole_heapD(2) [OF hh, of d] mn [of i] d hd
      by (cases "i = h"; cases "parent i = h") (auto simp: nth_list_update)
  next
    fix i
    assume i: "i < length (xs[h := xs ! d])" "0 < i \<and> parent i = d"
    then have "d < i" using parent_less by blast
    then show "key (xs[h := xs ! d] ! parent d) \<le> key (xs[h := xs ! d] ! i)"
      using i hole_heapD(1) [OF hh, of i] d hd by (auto simp: nth_list_update)
  qed
qed

lemma parent_cases: "0 < i \<Longrightarrow> parent i = h \<longleftrightarrow> i = 2 * h + 1 \<or> i = 2 * h + 2"
  by (auto simp: parent_def)

lemma sift_down_heap:
  assumes "hole_heap key xs hole" and "hole < length xs"
    and "sift_down (key_cmp key) xs hole r = (ys, h, r')"
  shows "hole_heap key ys h \<and> (\<forall>i<length ys. 0 < i \<longrightarrow> parent i \<noteq> h)"
  using assms
proof (induction "length xs - hole" arbitrary: xs hole r rule: less_induct)
  case less
  let ?c = "2 * hole + 2" and ?d = "2 * hole + 1"
  show ?case
  proof (cases "hole < (length xs - 1) div 2")
    case True
    define d where "d = (if key (xs ! ?d) < key (xs ! ?c) then ?d else ?c)"
    have dl: "d < length xs" "0 < d" "parent d = hole" "hole < d"
      using True by (auto simp: d_def parent_def)
    have mn: "key (xs ! d) \<le> key (xs ! i)" if "0 < i" "parent i = hole" for i
      using that by (auto simp: d_def parent_cases)
    have hh: "hole_heap key (xs[hole := xs ! d]) d"
      by (rule hole_moved_down [OF less.prems(1) dl(1,2,3) mn])
    have "sift_down (key_cmp key) (xs[hole := xs ! d]) d r = (ys, h, r')"
      using less.prems(3) True
      by (simp add: sift_down.simps [of _ xs] d_def Let_def key_cmp_def split: if_splits)
    then show ?thesis using less.hyps [OF _ hh] dl by simp
  next
    case False
    show ?thesis
    proof (cases "2 \<le> length xs \<and> even (length xs) \<and> hole = (length xs - 2) div 2")
      case True
      then have d: "?d < length xs" "parent ?d = hole" "Suc ?d = length xs"
        by (auto simp: parent_def)
      have "hole_heap key (xs[hole := xs ! ?d]) ?d"
        using d by (intro hole_moved_down [OF less.prems(1)]) (auto simp: parent_cases)
      moreover have "\<forall>i<length xs. 0 < i \<longrightarrow> parent i \<noteq> ?d"
        using d by (auto simp: parent_cases)
      ultimately show ?thesis
        using less.prems(3) True False by (auto simp: sift_down.simps [of _ xs] Let_def)
    next
      case F2: False
      then have "\<forall>i<length xs. 0 < i \<longrightarrow> parent i \<noteq> hole"
        using False by (auto simp: parent_cases; presburger)
      then show ?thesis
        using less.prems False F2 by (auto simp: sift_down.simps [of _ xs] Let_def)
    qed
  qed
qed

lemma is_heap_hole:
  assumes "is_heap key q"
  shows "hole_heap key (q @ [x]) (length q)" and "above_children key (q @ [x]) (length q) x"
proof -
  have pl: "parent i < length q" if "i \<le> length q" "0 < i" for i
    using that parent_less [of i] by linarith
  show "above_children key (q @ [x]) (length q) x"
    unfolding above_children_def
    by (metis (no_types) length_append_singleton less_Suc_eq_le less_irrefl pl)
  have "key ((q @ [x]) ! parent i) \<le> key ((q @ [x]) ! i)" if "i < length q" "0 < i" for i
    using assms that pl [of i] by (simp add: is_heap_def nth_append)
  then show "hole_heap key (q @ [x]) (length q)"
    unfolding hole_heap_def
    by (metis (no_types) length_append_singleton less_Suc_eq less_Suc_eq_le less_irrefl pl)
qed

lemma pq_push_heap: "is_heap key q \<Longrightarrow> is_heap key (fst (pq_push (key_cmp key) x q r))"
  using is_heap_hole [of key q x] by (simp add: pq_push_def sift_up_heap)

lemma is_heap_butlast: "is_heap key q \<Longrightarrow> is_heap key (butlast q)"
  unfolding is_heap_def
proof (intro allI impI)
  fix i
  assume h: "\<forall>i<length q. 0 < i \<longrightarrow> key (q ! parent i) \<le> key (q ! i)"
    and i: "i < length (butlast q)" "0 < i"
  have "parent i < length (butlast q)" using i parent_less [of i] by linarith
  then show "key (butlast q ! parent i) \<le> key (butlast q ! i)"
    using h i by (simp add: nth_butlast)
qed

lemma pq_pop_heap:
  assumes "is_heap key q"
  shows "is_heap key (fst (pq_pop (key_cmp key) q r))"
proof (cases "1 < length q")
  case True
  note b = is_heap_butlast [OF assms]
  obtain ys hl r' where d: "sift_down (key_cmp key) (butlast q) 0 r = (ys, hl, r')"
    by (cases "sift_down (key_cmp key) (butlast q) 0 r") auto
  have hh: "hole_heap key (butlast q) 0" using b by (simp add: hole_heap_def is_heap_def)
  have l: "0 < length (butlast q)" using True by simp
  have s: "hole_heap key ys hl \<and> (\<forall>i<length ys. 0 < i \<longrightarrow> parent i \<noteq> hl)"
    by (rule sift_down_heap [OF hh l d])
  have hl: "hl < length ys" using sift_down_mset [OF l d] by blast
  have "above_children key ys hl (last q)" using s by (auto simp: above_children_def)
  then have "is_heap key (fst (sift_up (key_cmp key) ys hl (last q) r'))"
    using s hl by (intro sift_up_heap) auto
  then show ?thesis using True d by (simp add: pq_pop_def)
next
  case False
  then show ?thesis using is_heap_butlast [OF assms] by (simp add: pq_pop_def)
qed

lemma is_heap_root: "is_heap key q \<Longrightarrow> i < length q \<Longrightarrow> key (q ! 0) \<le> key (q ! i)"
proof (induction i rule: less_induct)
  case (less i)
  show ?case
  proof (cases "i = 0")
    case False
    then have "parent i < i" by simp
    then have "key (q ! 0) \<le> key (q ! parent i)" using less by auto
    also have "\<dots> \<le> key (q ! i)" using less.prems False by (simp add: is_heap_def)
    finally show ?thesis .
  qed simp
qed

interpretation keyq: min_queue "pq_push (key_cmp key)" "pq_pop (key_cmp key)" pq_top mset key
  "is_heap key" for key :: "'a \<Rightarrow> 'k::linorder"
proof unfold_locales
  fix q :: "'a list" and x y
  assume "is_heap key q" "pq_top q = Some x" "y \<in># mset q"
  then show "key x \<le> key y"
    using is_heap_root [of key q] by (auto simp: pq_top_def in_set_conv_nth split: list.splits)
qed (simp_all add: pq_push_heap pq_pop_heap)

section \<open>Only the answers on the elements matter\<close>

lemma sift_up_cong:
  "hole < length xs \<Longrightarrow> (\<And>a b r. a \<in> insert v (set xs) \<Longrightarrow> b \<in> insert v (set xs) \<Longrightarrow>
      cmp a b r = cmp' a b r) \<Longrightarrow>
    sift_up cmp xs hole v r = sift_up cmp' xs hole v r"
proof (induction hole arbitrary: xs r rule: less_induct)
  case (less hole)
  show ?case
  proof (cases "hole = 0")
    case False
    then have p: "parent hole < hole" "parent hole < length xs"
      using parent_less [of hole] less.prems(1) by linarith+
    then have e: "cmp (xs ! parent hole) v r = cmp' (xs ! parent hole) v r"
      by (intro less.prems(2)) auto
    have "set (xs[hole := xs ! parent hole]) \<subseteq> set xs"
      using p by (intro set_update_subsetI) auto
    then have "sift_up cmp (xs[hole := xs ! parent hole]) (parent hole) v r' =
        sift_up cmp' (xs[hole := xs ! parent hole]) (parent hole) v r'" for r'
      using p by (intro less.IH less.prems(2)) auto
    then show ?thesis
      using False e by (simp add: sift_up.simps [of _ xs hole] split: prod.split)
  qed (simp add: sift_up.simps)
qed

lemma sift_down_cong:
  "hole < length xs \<Longrightarrow> (\<And>a b r. a \<in> set xs \<Longrightarrow> b \<in> set xs \<Longrightarrow> cmp a b r = cmp' a b r) \<Longrightarrow>
    sift_down cmp xs hole r = sift_down cmp' xs hole r"
proof (induction "length xs - hole" arbitrary: xs hole r rule: less_induct)
  case less
  let ?c = "2 * hole + 2" and ?d = "2 * hole + 1"
  show ?case
  proof (cases "hole < (length xs - 1) div 2")
    case True
    then have cd: "?c < length xs" "?d < length xs" by auto
    then have e: "cmp (xs ! ?c) (xs ! ?d) r = cmp' (xs ! ?c) (xs ! ?d) r"
      by (intro less.prems(2)) auto
    have "sift_down cmp (xs[hole := xs ! d]) d r' = sift_down cmp' (xs[hole := xs ! d]) d r'"
      if "d = ?c \<or> d = ?d" for d r'
    proof -
      have "set (xs[hole := xs ! d]) \<subseteq> set xs"
        using that cd by (intro set_update_subsetI) auto
      then show ?thesis using that cd by (intro less.hyps less.prems(2)) auto
    qed
    then show ?thesis
      using True e by (auto simp: sift_down.simps [of _ xs hole] Let_def split: prod.split)
  qed (simp add: sift_down.simps [of _ xs hole] Let_def)
qed

lemma sift_down_set:
  "hole < length xs \<Longrightarrow> sift_down cmp xs hole r = (ys, h, r') \<Longrightarrow> set ys \<subseteq> set xs"
proof (induction "length xs - hole" arbitrary: xs hole r rule: less_induct)
  case less
  let ?c = "2 * hole + 2" and ?d = "2 * hole + 1"
  have upd: "set (xs[hole := xs ! d]) \<subseteq> set xs" if "d < length xs" for d
    using that by (intro set_update_subsetI) auto
  show ?case
  proof (cases "hole < (length xs - 1) div 2")
    case True
    obtain b r1 where c: "cmp (xs ! ?c) (xs ! ?d) r = (b, r1)" by fastforce
    define d where "d = (if b then ?d else ?c)"
    have d: "hole < d" "d < length xs" "sift_down cmp (xs[hole := xs ! d]) d r1 = (ys, h, r')"
      using less.prems True c
      by (cases b; simp add: sift_down.simps [of _ xs hole] Let_def d_def)+
    have "set ys \<subseteq> set (xs[hole := xs ! d])"
      by (rule less.hyps [OF _ _ d(3)]) (use d less.prems(1) in auto)
    then show ?thesis using upd [OF d(2)] by blast
  next
    case False
    have "?d < length xs" if "2 \<le> length xs" "even (length xs)" "hole = (length xs - 2) div 2"
      using that by auto
    then have "ys = xs \<or> ys = xs[hole := xs ! ?d] \<and> ?d < length xs"
      using less.prems(2) False
      by (auto simp: sift_down.simps [of _ xs hole] Let_def split: if_splits)
    then show ?thesis using upd [of ?d] by blast
  qed
qed

lemma pq_push_cong:
  "(\<And>a b r. a \<in> insert x (set q) \<Longrightarrow> b \<in> insert x (set q) \<Longrightarrow> cmp a b r = cmp' a b r) \<Longrightarrow>
    pq_push cmp x q r = pq_push cmp' x q r"
  unfolding pq_push_def by (rule sift_up_cong) auto

lemma pq_pop_cong:
  assumes e: "\<And>a b r. a \<in> set q \<Longrightarrow> b \<in> set q \<Longrightarrow> cmp a b r = cmp' a b r"
  shows "pq_pop cmp q r = pq_pop cmp' q r"
proof (cases "1 < length q")
  case True
  then have l: "0 < length (butlast q)" "q \<noteq> []" by auto
  obtain ys h r' where d: "sift_down cmp' (butlast q) 0 r = (ys, h, r')"
    by (cases "sift_down cmp' (butlast q) 0 r") auto
  have "sift_down cmp (butlast q) 0 r = sift_down cmp' (butlast q) 0 r"
    by (rule sift_down_cong [OF l(1)]) (auto intro: e dest: in_set_butlastD)
  moreover have m: "h < length ys \<and> length ys = length (butlast q) \<and>
      mset (ys[h := x]) = mset ((butlast q)[0 := x])" for x
    by (rule sift_down_mset [OF l(1) d])
  have sub: "set ys \<subseteq> set q"
    using sift_down_set [OF l(1) d] by (auto dest: in_set_butlastD)
  have "sift_up cmp ys h (last q) r' = sift_up cmp' ys h (last q) r'"
    using m [of "last q"] sub l(2) by (intro sift_up_cong e) auto
  ultimately show ?thesis using True d by (simp add: pq_pop_def)
qed (simp add: pq_pop_def)

end
