(* ===== verification/Tasks.thy ===== *)
theory Tasks
  imports Fibers PQueue
begin

text \<open>
  The task of \<open>sylar/scheduler.h\<close> (\<open>Scheduler::Task\<close>), the two orders the scheduler's
  priority queues use, and the interface between a task queue and the fibers of its tasks:
  a bag of labelled tasks whose fibers are distinct and in the labelled state.
\<close>

section \<open>Tasks and their orders\<close>

record task =
  tk_fiber :: ptr
  tk_lasttime :: u64
  tk_thread :: int
  tk_priority :: u16

text \<open>The constructor; \<open>now_us\<close> is the reading of \<open>GetCurrentUS\<close>.\<close>

definition Task_ctor :: "ptr \<Rightarrow> int \<Rightarrow> u16 \<Rightarrow> u64 \<Rightarrow> task" where
  "Task_ctor f thr pri now_us =
     \<lparr>tk_fiber = f, tk_lasttime = now_us, tk_thread = thr,
      tk_priority = (if pri > 9 then 9 else pri)\<rparr>"

text \<open>
  The generator \<open>rand()\<close> of the C library is a parameter: a function from a generator
  state to the number drawn and the next state. \<open>draw_k\<close> is the local \<open>k\<close> after
  \<open>k = rand() % k\<close>.
\<close>

type_synonym 'r rand = "'r \<Rightarrow> nat \<times> 'r"

definition draw_range :: "task \<Rightarrow> task \<Rightarrow> u16" where
  "draw_range t1 t2 = tk_priority t1 + tk_priority t2 + 2"

definition draw_k :: "'r rand \<Rightarrow> task \<Rightarrow> task \<Rightarrow> 'r \<Rightarrow> u16 \<times> 'r" where
  "draw_k rnd t1 t2 r = (case rnd r of (n, r') \<Rightarrow> (of_nat (n mod unat (draw_range t1 t2)), r'))"

definition task_cmp :: "'r rand \<Rightarrow> (task, 'r) cmp" where
  "task_cmp rnd t1 t2 r =
     (if tk_priority t1 = tk_priority t2
      then (tk_lasttime t2 < tk_lasttime t1, r)
      else (case draw_k rnd t1 t2 r of (k, r') \<Rightarrow> (tk_priority t1 < k, r')))"

text \<open>\<open>Task::operator>\<close>, for \<open>this > t\<close>.\<close>

definition task_gt :: "'r rand \<Rightarrow> task \<Rightarrow> task \<Rightarrow> 'r \<Rightarrow> bool \<times> 'r" where
  "task_gt rnd this t r =
     (if tk_priority t = tk_priority this
      then (tk_lasttime this < tk_lasttime t, r)
      else (case draw_k rnd t this r of (k, r') \<Rightarrow> (k < tk_priority this, r')))"

definition wake :: "fsys \<Rightarrow> task \<Rightarrow> u64" where
  "wake s t = (case fheap s (tk_fiber t) of None \<Rightarrow> 0 | Some b \<Rightarrow> fb_waketime b)"

definition sleep_cmp :: "fsys \<Rightarrow> (task, 'r) cmp" where
  "sleep_cmp s t1 t2 r = (wake s t2 < wake s t1, r)"

lemma sleep_cmp_key: "sleep_cmp s = key_cmp (wake s)"
  by (intro ext) (simp add: sleep_cmp_def key_cmp_def)

text \<open>
  The sleep queue of a worker, through the interface of \<open>PQueue\<close>. (The ready queue is an
  instance of the bag there, whatever \<open>rand()\<close> returns.)
\<close>

interpretation sleepq: min_queue "pq_push (sleep_cmp s)" "pq_pop (sleep_cmp s)" pq_top mset
  "wake s" "is_heap (wake s)" for s :: fsys
  unfolding sleep_cmp_key by (rule keyq.min_queue_axioms)

lemma is_heap_cong:
  "(\<And>x. x \<in> set q \<Longrightarrow> key x = key' x) \<Longrightarrow> is_heap key q = is_heap key' q"
proof -
  assume e: "\<And>x. x \<in> set q \<Longrightarrow> key x = key' x"
  have "q ! parent i \<in> set q" "q ! i \<in> set q" if "i < length q" "0 < i" for i
    using that order.strict_trans [OF parent_less [of i], of "length q"] by simp_all
  then show ?thesis unfolding is_heap_def by (metis e)
qed

section \<open>Fibers the scheduler can run\<close>

text \<open>
  A callback the worker loop can run to its end: it does not throw, and each \<open>hold\<close> is
  followed by another \<open>hold\<close> or by a \<open>yield\<close>. (The worker takes a notified task out of
  its hold queue only when it finds it \<open>READY\<close>.)
\<close>

definition calls_ok :: "(nat \<Rightarrow> fcall) \<Rightarrow> bool" where
  "calls_ok cb = (\<forall>n. cb n \<noteq> CallThrow \<and>
     (cb n = CallHold \<longrightarrow> cb (Suc n) = CallHold \<or> cb (Suc n) = CallYield))"

definition fiber_good :: "fiber \<Rightarrow> bool" where
  "fiber_good b = (case fb_cb b of None \<Rightarrow> False
     | Some cb \<Rightarrow> calls_ok cb \<and>
         (fb_state b = HOLD \<longrightarrow> cb (fb_pc b) = CallHold \<or> cb (fb_pc b) = CallYield))"

definition fiber_in :: "fstate \<Rightarrow> fiber \<Rightarrow> bool" where
  "fiber_in st b = (fb_state b = st \<and> fb_id b \<noteq> 0 \<and> fb_ctx b \<and> fiber_good b)"

definition task_in :: "fstate \<Rightarrow> fsys \<Rightarrow> task \<Rightarrow> bool" where
  "task_in st s tk = (case fheap s (tk_fiber tk) of None \<Rightarrow> False | Some b \<Rightarrow> fiber_in st b)"

lemma task_inE:
  assumes "task_in st s tk"
  obtains b where "fheap s (tk_fiber tk) = Some b" and "fiber_in st b"
  using assms by (auto simp: task_in_def split: option.splits)

lemma fiber_in_state: "fiber_in st b \<Longrightarrow> fb_state b = st \<and> fb_id b \<noteq> 0 \<and> fb_ctx b"
  by (simp add: fiber_in_def)

lemma fiber_in_ready:
  "fiber_in INIT b \<Longrightarrow> fiber_in READY (b\<lparr>fb_state := READY\<rparr>)"
  "fiber_in SLEEP b \<Longrightarrow> fiber_in READY (b\<lparr>fb_state := READY\<rparr>)"
  by (auto simp: fiber_in_def fiber_good_def split: option.splits)

text \<open>A slice of such a fiber never crashes, and ends in one of four states.\<close>

lemma slice_good:
  assumes "fiber_in st b" and "st = READY \<or> st = HOLD"
  obtains b' where "slice_result now b = Inr b'"
    and "fb_id b' \<noteq> 0" and "fb_ctx b'"
    and "fb_state b' = DESTROY \<or> fiber_in (fb_state b') b'"
    and "fb_state b' \<in> {READY, HOLD, SLEEP, DESTROY}"
    and "st = HOLD \<Longrightarrow> fb_state b' \<in> {READY, HOLD}"
proof -
  obtain cb where cb: "fb_cb b = Some cb" "calls_ok cb"
    using assms(1) by (auto simp: fiber_in_def fiber_good_def split: option.splits)
  have nt: "cb (fb_pc b) \<noteq> CallThrow" using cb(2) by (simp add: calls_ok_def)
  have nh: "cb (fb_pc b) = CallHold \<Longrightarrow>
      cb (Suc (fb_pc b)) = CallHold \<or> cb (Suc (fb_pc b)) = CallYield"
    using cb(2) by (simp add: calls_ok_def)
  have hh: "st = HOLD \<Longrightarrow> cb (fb_pc b) = CallHold \<or> cb (fb_pc b) = CallYield"
    using assms(1) cb by (simp add: fiber_in_def fiber_good_def)
  obtain b' where b': "slice_result now b = Inr b'"
    using cb nt by (cases "cb (fb_pc b)") (auto simp: slice_result_def)
  show thesis
  proof (rule that [OF b'])
    show "fb_id b' \<noteq> 0" "fb_ctx b'" "fb_state b' \<in> {READY, HOLD, SLEEP, DESTROY}"
      using b' cb nt assms(1)
      by (auto simp: slice_result_def fiber_in_def Let_def split: fcall.splits)
    show "fb_state b' = DESTROY \<or> fiber_in (fb_state b') b'"
      using b' cb nt nh assms(1)
      by (auto simp: slice_result_def fiber_in_def fiber_good_def Let_def split: fcall.splits)
    show "fb_state b' \<in> {READY, HOLD}" if "st = HOLD"
      using b' cb hh [OF that] by (auto simp: slice_result_def)
  qed
qed

section \<open>Labelled bags of tasks\<close>

type_synonym labels = "(fstate \<times> task) multiset"

abbreviation labelled :: "fstate \<Rightarrow> task list \<Rightarrow> labels" where
  "labelled st q \<equiv> image_mset (Pair st) (mset q)"

definition fibers_of :: "labels \<Rightarrow> ptr multiset" where
  "fibers_of L = image_mset (\<lambda>p. tk_fiber (snd p)) L"

definition bag_ok :: "labels \<Rightarrow> fsys \<Rightarrow> bool" where
  "bag_ok L s = ((\<forall>f \<in># fibers_of L. count (fibers_of L) f = 1) \<and>
     (\<forall>p \<in># L. task_in (fst p) s (snd p)))"

lemma fibers_of_simps [simp]:
  "fibers_of {#} = {#}" "fibers_of (add_mset p L) = add_mset (tk_fiber (snd p)) (fibers_of L)"
  "fibers_of (L + M) = fibers_of L + fibers_of M"
  by (simp_all add: fibers_of_def)

lemma fibers_of_labelled [simp]: "fibers_of (labelled st q) = mset (map tk_fiber q)"
  by (simp add: fibers_of_def image_mset.compositionality comp_def flip: mset_map)

lemma bag_okD: "bag_ok (add_mset p L) s \<Longrightarrow> task_in (fst p) s (snd p)"
  by (simp add: bag_ok_def)

lemma bag_ok_fresh: "bag_ok (add_mset p L) s \<Longrightarrow> tk_fiber (snd p) \<notin># fibers_of L"
  by (auto simp: bag_ok_def not_in_iff)

lemma bag_ok_sub: "bag_ok (add_mset p L) s \<Longrightarrow> bag_ok L s"
  using bag_ok_fresh [of p L s] by (auto simp: bag_ok_def split: if_splits)

lemma in_fibers_of: "p \<in># L \<Longrightarrow> tk_fiber (snd p) \<in># fibers_of L"
  by (auto simp: fibers_of_def)

lemma bag_ok_frame:
  assumes "bag_ok L s" and "\<And>f. f \<in># fibers_of L \<Longrightarrow> fheap s' f = fheap s f"
  shows "bag_ok L s'"
  using assms by (auto simp: bag_ok_def task_in_def in_fibers_of)

text \<open>Relabelling one task, whose fiber object alone changes.\<close>

lemma bag_ok_move:
  assumes "bag_ok (add_mset (st, tk) L) s" and "fiber_in st' b"
    and "fheap s' = (fheap s)(tk_fiber tk \<mapsto> b)"
  shows "bag_ok (add_mset (st', tk) L) s'"
proof -
  have n: "tk_fiber tk \<notin># fibers_of L" using bag_ok_fresh [OF assms(1)] by simp
  have "bag_ok L s'"
    by (rule bag_ok_frame [OF bag_ok_sub [OF assms(1)]]) (use n assms(3) in auto)
  then show ?thesis
    using n assms(2,3) by (auto simp: bag_ok_def task_in_def not_in_iff)
qed

lemma bag_ok_insert:
  assumes "bag_ok L s" and "fiber_in st b" and "fheap s (tk_fiber tk) = Some b"
    and "tk_fiber tk \<notin># fibers_of L"
  shows "bag_ok (add_mset (st, tk) L) s"
  using assms by (auto simp: bag_ok_def task_in_def not_in_iff)

section \<open>Properties of the task order\<close>

lemma Task_ctor_priority: "tk_priority (Task_ctor f thr pri us) \<le> 9"
  by (auto simp: Task_ctor_def not_less)

lemma draw_range_unat:
  assumes "tk_priority t1 \<le> 9" and "tk_priority t2 \<le> 9"
  shows "unat (draw_range t1 t2) = unat (tk_priority t1) + unat (tk_priority t2) + 2"
proof -
  have p: "unat (tk_priority t1) \<le> 9" "unat (tk_priority t2) \<le> 9"
    using assms by (simp_all add: word_le_nat_alt)
  then show ?thesis by (simp add: draw_range_def unat_word_ariths)
qed

lemma task_cmp_same:
  "tk_priority a = tk_priority b \<Longrightarrow> task_cmp rnd a b r = key_cmp tk_lasttime a b r"
  by (simp add: task_cmp_def key_cmp_def)

text \<open>
  For tasks built by the constructor the draw of \<open>task_cmp\<close> never divides by zero and
  never wraps: the modulus is the sum of the two priorities plus 2, between 2 and 20, and a
  task of priority \<open>p\<close> loses against one of priority \<open>q\<close> exactly when the number drawn,
  reduced modulo \<open>p + q + 2\<close>, is above \<open>p\<close>.
\<close>

theorem task_cmp_draw:
  assumes "t1 = Task_ctor f1 thr1 p1 us1" and "t2 = Task_ctor f2 thr2 p2 us2"
    and "tk_priority t1 \<noteq> tk_priority t2"
  shows "unat (draw_range t1 t2) = min (unat p1) 9 + min (unat p2) 9 + 2 \<and>
    2 \<le> unat (draw_range t1 t2) \<and> unat (draw_range t1 t2) \<le> 20 \<and>
    task_cmp rnd t1 t2 r =
      (min (unat p1) 9 < fst (rnd r) mod (min (unat p1) 9 + min (unat p2) 9 + 2), snd (rnd r))"
proof -
  have pr: "unat (tk_priority (Task_ctor f thr p us)) = min (unat p) 9" for f thr p us
    by (simp add: Task_ctor_def word_less_nat_alt min_def)
  have le: "tk_priority t1 \<le> 9" "tk_priority t2 \<le> 9"
    using assms Task_ctor_priority by simp_all
  have dr: "unat (draw_range t1 t2) = min (unat p1) 9 + min (unat p2) 9 + 2"
    using draw_range_unat [OF le] pr assms(1,2) by simp
  obtain n r' where n: "rnd r = (n, r')" by fastforce
  have "n mod unat (draw_range t1 t2) < 20"
    using dr by (intro order_less_le_trans [OF mod_less_divisor]) auto
  then have "unat (of_nat (n mod unat (draw_range t1 t2)) :: u16) = n mod unat (draw_range t1 t2)"
    by (simp add: unat_of_nat)
  then have "task_cmp rnd t1 t2 r =
      (min (unat p1) 9 < n mod (min (unat p1) 9 + min (unat p2) 9 + 2), r')"
    using assms(3) n dr pr [of f1 thr1 p1 us1] assms(1)
    by (simp add: task_cmp_def draw_k_def word_less_nat_alt)
  then show ?thesis using dr n by auto
qed

theorem task_cmp_draw_witness:
  "task_cmp (\<lambda>r. (r, Suc r)) (Task_ctor 1 (-1) 5 100) (Task_ctor 2 (-1) 700 100) (9 :: nat) =
    (True, 10)"
proof -
  have "tk_priority (Task_ctor 1 (-1) 5 100) \<noteq> tk_priority (Task_ctor 2 (-1) 700 100)"
    by (simp add: Task_ctor_def)
  from task_cmp_draw [OF refl refl this, of "\<lambda>r. (r, Suc r)" "9 :: nat"] show ?thesis
    by simp
qed

end
