(* ===== verification/Workers.thy ===== *)
theory Workers
  imports Tasks
begin

text \<open>
  The worker thread of \<open>sylar/scheduler.cpp\<close> (\<open>Scheduler::WokerThread\<close>): its four queues
  and the body of the loop of \<open>WokerThread::run\<close>, phase by phase. The state of a worker
  passes through the phases with the view its thread has of the fibers (\<open>fsys\<close>) and the
  state of the random generator.
\<close>

section \<open>State\<close>

text \<open>
  \<open>w_done\<close> is a history variable: the tasks the worker has dropped after they ended.
\<close>

record woker =
  w_name :: string
  w_count :: int
  t_init :: "task list"
  t_ready :: "task list"
  t_sleep :: "task list"
  t_hold :: "task list"
  w_done :: "task list"

type_synonym 'r wstate = "woker \<times> fsys \<times> 'r"

definition woker_new :: "string \<Rightarrow> woker" where
  "woker_new name = \<lparr>w_name = (if name = [] then ''UNKNOW'' else name), w_count = 0,
     t_init = [], t_ready = [], t_sleep = [], t_hold = [], w_done = []\<rparr>"

definition isIdle :: "woker \<Rightarrow> bool" where
  "isIdle w = (if w_count w = 0 then True else False)"

section \<open>The phases of one iteration\<close>

definition push_ready :: "'r rand \<Rightarrow> task \<Rightarrow> woker \<Rightarrow> 'r \<Rightarrow> woker \<times> 'r" where
  "push_ready rnd tk w r = (case pq_push (task_cmp rnd) tk (t_ready w) r of
     (q, r') \<Rightarrow> (w\<lparr>t_ready := q\<rparr>, r'))"

text \<open>Under the lock: start every task of the \<open>t_init\<close> queue.\<close>

primrec drain_init :: "'r rand \<Rightarrow> task list \<Rightarrow> woker \<Rightarrow> fsys \<Rightarrow> 'r \<Rightarrow> 'r wstate res" where
  "drain_init rnd [] w s r = Inr (w, s, r)"
| "drain_init rnd (tk # tks) w s r =
     bindR (Fiber_start (tk_fiber tk) s) (\<lambda>s'.
     case push_ready rnd tk (w\<lparr>t_init := tks\<rparr>) r of
       (w', r') \<Rightarrow> drain_init rnd tks w' s' r')"

text \<open>Wake the sleeping tasks whose time is before \<open>t\<close>.\<close>

lemma bindR_cong [fundef_cong]:
  "m = m' \<Longrightarrow> (\<And>x. m' = Inr x \<Longrightarrow> k x = k' x) \<Longrightarrow> bindR m k = bindR m' k'"
  by (cases m') auto

lemma push_ready_sleep: "(w', r') = push_ready rnd tk w r \<Longrightarrow> t_sleep w' = t_sleep w"
  by (auto simp: push_ready_def split: prod.splits)

lemma pq_pop_shorter:
  "pq_top q = Some x \<Longrightarrow> (q', r') = pq_pop cmp q r \<Longrightarrow> length q' < length q"
  using vecq.size_pop [of q x cmp r] by (metis fst_conv size_mset)

function wake_sleepers :: "'r rand \<Rightarrow> u64 \<Rightarrow> woker \<Rightarrow> fsys \<Rightarrow> 'r \<Rightarrow> 'r wstate res" where
  "wake_sleepers rnd t w s r = (case pq_top (t_sleep w) of
     None \<Rightarrow> Inr (w, s, r)
   | Some tk \<Rightarrow> bindR (deref (Some (tk_fiber tk)) s) (\<lambda>b.
       if fb_waketime b < t
       then bindR (Fiber_awake (tk_fiber tk) s) (\<lambda>s'.
         case push_ready rnd tk w r of (w', r') \<Rightarrow>
         (case pq_pop (sleep_cmp s') (t_sleep w') r' of
           (q, r'') \<Rightarrow> wake_sleepers rnd t (w'\<lparr>t_sleep := q\<rparr>) s' r''))
       else Inr (w, s, r)))"
  by pat_completeness auto
termination
  by (relation "measure (\<lambda>(rnd, t, w, s, r). length (t_sleep w))")
    (auto simp: push_ready_sleep intro!: pq_pop_shorter)

declare wake_sleepers.simps [simp del]

text \<open>
  Notify every task of the hold queue, in order; the second list collects the tasks that
  stay in it.
\<close>

primrec notify_hold ::
    "'r rand \<Rightarrow> task list \<Rightarrow> task list \<Rightarrow> woker \<Rightarrow> fsys \<Rightarrow> 'r \<Rightarrow> 'r wstate res" where
  "notify_hold rnd [] kept w s r = Inr (w\<lparr>t_hold := kept\<rparr>, s, r)"
| "notify_hold rnd (tk # tks) kept w s r =
     bindR (notify_run (tk_fiber tk) s) (\<lambda>s'.
     bindR (deref (Some (tk_fiber tk)) s') (\<lambda>b.
     if fb_state b = READY
     then (case push_ready rnd tk w r of (w', r') \<Rightarrow> notify_hold rnd tks kept w' s' r')
     else notify_hold rnd tks (kept @ [tk]) w s' r))"

text \<open>Take one ready task, run it, and put it where its new state says.\<close>

definition run_ready :: "'r rand \<Rightarrow> woker \<Rightarrow> fsys \<Rightarrow> 'r \<Rightarrow> 'r wstate res" where
  "run_ready rnd w s r = (case pq_top (t_ready w) of
     None \<Rightarrow> Inr (w, s, r)
   | Some tk \<Rightarrow> (case pq_pop (task_cmp rnd) (t_ready w) r of (q, r1) \<Rightarrow>
       let w1 = w\<lparr>t_ready := q\<rparr> in
       bindR (resume_run (tk_fiber tk) s) (\<lambda>s'.
       bindR (deref (Some (tk_fiber tk)) s') (\<lambda>b.
       if fb_state b = HOLD then Inr (w1\<lparr>t_hold := t_hold w1 @ [tk]\<rparr>, s', r1)
       else if fb_state b = SLEEP
       then (case pq_push (sleep_cmp s') tk (t_sleep w1) r1 of
               (sl, r2) \<Rightarrow> Inr (w1\<lparr>t_sleep := sl\<rparr>, s', r2))
       else if fb_state b = READY
       then (case push_ready rnd tk w1 r1 of (w2, r2) \<Rightarrow> Inr (w2, s', r2))
       else bindR (Fiber_release (tk_fiber tk) s') (\<lambda>s''.
         Inr (w1\<lparr>w_count := w_count w1 - 1, w_done := w_done w1 @ [tk]\<rparr>, s'', r1))))))"

text \<open>
  One iteration of the loop with work to do; \<open>locked\<close> is the answer of \<open>trylock\<close>. The
  clock is read once, before the sleep queue is looked at.
\<close>

definition woker_iter :: "'r rand \<Rightarrow> bool \<Rightarrow> woker \<Rightarrow> fsys \<Rightarrow> 'r \<Rightarrow> 'r wstate res" where
  "woker_iter rnd locked w s r =
     bindR (if locked then drain_init rnd (t_init w) w s r else Inr (w, s, r)) (\<lambda>(w1, s1, r1).
     bindR (wake_sleepers rnd (fclock s1) w1 s1 r1) (\<lambda>(w2, s2, r2).
     bindR (notify_hold rnd (t_hold w2) [] w2 s2 r2) (\<lambda>(w3, s3, r3).
     run_ready rnd w3 s3 r3)))"

text \<open>
  The loop test and its two branches; \<open>None\<close> is the end of the loop. With no task the
  worker calls \<open>m_idle\<close>, which in \<open>Scheduler\<close> only logs.
\<close>

definition woker_loop :: "'r rand \<Rightarrow> bool \<Rightarrow> bool \<Rightarrow> woker \<Rightarrow> fsys \<Rightarrow> 'r \<Rightarrow> 'r wstate option res" where
  "woker_loop rnd stop locked w s r =
     (if \<not> stop \<or> 0 < w_count w
      then (if w_count w = 0 then Inr (Some (w, s, r))
            else bindR (woker_iter rnd locked w s r) (\<lambda>x. Inr (Some x)))
      else Inr None)"

section \<open>The worker invariant\<close>

definition bag :: "woker \<Rightarrow> labels" where
  "bag w = labelled INIT (t_init w) + labelled READY (t_ready w) +
     labelled SLEEP (t_sleep w) + labelled HOLD (t_hold w)"

definition tasks_of :: "woker \<Rightarrow> task multiset" where
  "tasks_of w = mset (t_init w) + mset (t_ready w) + mset (t_sleep w) + mset (t_hold w)"

definition woker_inv :: "woker \<Rightarrow> fsys \<Rightarrow> bool" where
  "woker_inv w s = (on_main s \<and> w_count w = int (size (tasks_of w)) \<and> bag_ok (bag w) s \<and>
     is_heap (wake s) (t_sleep w))"

text \<open>
  What a phase may change besides its queues: the objects of the worker's own fibers, and the
  thread's count of fibers.
\<close>

definition same_but :: "ptr set \<Rightarrow> fsys \<Rightarrow> fsys \<Rightarrow> bool" where
  "same_but F s s' = (\<exists>h n. s' = s\<lparr>fheap := h, fiber_count := n\<rparr> \<and>
     (\<forall>f. f \<notin> F \<longrightarrow> h f = fheap s f))"

definition own :: "woker \<Rightarrow> ptr set" where
  "own w = tk_fiber ` set_mset (tasks_of w)"

lemma tasks_of_bag: "image_mset snd (bag w) = tasks_of w"
  by (simp add: bag_def tasks_of_def image_mset.compositionality comp_def)

lemma fibers_of_bag: "fibers_of (bag w) = image_mset tk_fiber (tasks_of w)"
  by (simp add: bag_def tasks_of_def)

lemma own_bag: "own w = set_mset (fibers_of (bag w))"
  by (simp add: own_def fibers_of_bag)

lemma same_but_refl [simp]: "same_but F s s"
  unfolding same_but_def by (rule exI [of _ "fheap s"], rule exI [of _ "fiber_count s"]) simp

lemma same_but_trans:
  assumes "same_but F s s'" and "same_but F s' s''"
  shows "same_but F s s''"
proof -
  obtain h n h' n' where h: "s' = s\<lparr>fheap := h, fiber_count := n\<rparr>" "\<forall>f. f \<notin> F \<longrightarrow> h f = fheap s f"
    "s'' = s'\<lparr>fheap := h', fiber_count := n'\<rparr>" "\<forall>f. f \<notin> F \<longrightarrow> h' f = fheap s' f"
    using assms unfolding same_but_def by blast
  have "s'' = s\<lparr>fheap := h', fiber_count := n'\<rparr> \<and> (\<forall>f. f \<notin> F \<longrightarrow> h' f = fheap s f)"
    using h by simp
  then show ?thesis unfolding same_but_def by blast
qed

lemma same_but_store: "f \<in> F \<Longrightarrow> same_but F s (store f b s)"
  unfolding same_but_def
  by (rule exI [of _ "(fheap s)(f \<mapsto> b)"], rule exI [of _ "fiber_count s"]) (auto simp: store_def)

lemma same_but_let_go: "f \<in> F \<Longrightarrow> same_but F s (let_go f b s)"
  using same_but_store [of f F s] unfolding let_go_def same_but_def
  by (auto intro!: exI [of _ "(fheap s)(f := None)"] exI [of _ "fiber_count s - 1"])

lemma same_but_mono: "same_but F s s' \<Longrightarrow> F \<subseteq> G \<Longrightarrow> same_but G s s'"
  by (auto simp: same_but_def)

lemma push_ready_eq:
  assumes "push_ready rnd tk w r = (w', r')"
  shows "t_init w' = t_init w" "t_sleep w' = t_sleep w" "t_hold w' = t_hold w"
    "w_count w' = w_count w" "w_done w' = w_done w" "w_name w' = w_name w"
    "mset (t_ready w') = add_mset tk (mset (t_ready w))"
  using assms vecq.items_push [of "task_cmp rnd" tk "t_ready w" r]
  by (auto simp: push_ready_def split: prod.splits)

text \<open>Storing a child's object keeps the thread on its main fiber.\<close>

lemma on_main_store:
  assumes "on_main s" and "fheap s f = Some b" and "fb_id b \<noteq> 0"
  shows "on_main (store f b' s)"
  using assms by (auto simp: on_main_def main_ok_def split: option.splits)

section \<open>Every phase keeps the invariant and the tasks\<close>

definition moved :: "woker \<Rightarrow> fsys \<Rightarrow> woker \<Rightarrow> fsys \<Rightarrow> bool" where
  "moved w s w' s' = (woker_inv w' s' \<and> same_but (own w) s s' \<and> tasks_of w' = tasks_of w \<and>
     w_done w' = w_done w \<and> refs_of (fheap s') = refs_of (fheap s))"

lemma moved_refl: "woker_inv w s \<Longrightarrow> moved w s w s"
  by (simp add: moved_def)

lemma moved_trans: "moved w s w' s' \<Longrightarrow> moved w' s' w'' s'' \<Longrightarrow> moved w s w'' s''"
  by (auto simp: moved_def own_def intro: same_but_trans)

lemma woker_invD:
  assumes "woker_inv w s"
  shows "on_main s" "bag_ok (bag w) s" "is_heap (wake s) (t_sleep w)"
    "w_count w = int (size (tasks_of w))"
  using assms by (simp_all add: woker_inv_def)

lemma bag_child:
  assumes "woker_inv w s" and "bag w = add_mset (st, tk) L"
  obtains b where "fheap s (tk_fiber tk) = Some b" and "fiber_in st b"
    and "is_child (tk_fiber tk) s"
proof -
  have "task_in st s tk" using assms bag_okD [of "(st, tk)" L s] by (simp add: woker_inv_def)
  then show thesis by (auto elim!: task_inE simp: is_child_def fiber_in_def intro: that)
qed

text \<open>The sleep queue stays a heap when the object of a task outside it changes.\<close>

lemma wake_store_other: "tk_fiber x \<noteq> f \<Longrightarrow> wake (store f b s) x = wake s x"
  by (simp add: wake_def)

lemma heap_store:
  assumes "bag_ok (add_mset (st, tk) L) s" and "\<And>x. x \<in> set q \<Longrightarrow> (SLEEP, x) \<in># L"
  shows "is_heap (wake (store (tk_fiber tk) b s)) q = is_heap (wake s) q"
proof (rule is_heap_cong)
  fix x assume "x \<in> set q"
  then have "tk_fiber x \<in># fibers_of L" using in_fibers_of [OF assms(2)] by simp
  then have "tk_fiber x \<noteq> tk_fiber tk" using bag_ok_fresh [OF assms(1)] by auto
  then show "wake (store (tk_fiber tk) b s) x = wake s x" by (rule wake_store_other)
qed

lemma wake_store_same:
  "fheap s f = Some b \<Longrightarrow> fb_waketime b' = fb_waketime b \<Longrightarrow> wake (store f b' s) = wake s"
  by (auto simp: wake_def)

lemma move_ok:
  assumes inv: "woker_inv w s" and bag: "bag w = add_mset (st, tk) L"
    and bag': "bag w' = add_mset (st', tk) L" and b': "fiber_in st' b'"
    and w': "w_count w' = w_count w" "w_done w' = w_done w"
    and heap: "is_heap (wake (store (tk_fiber tk) b' s)) (t_sleep w')"
    and b: "fheap s (tk_fiber tk) = Some b" "fb_refs b' = fb_refs b"
  shows "moved w s w' (store (tk_fiber tk) b' s)"
proof -
  let ?s = "store (tk_fiber tk) b' s"
  have st: "fiber_in st b"
    using bag_child [OF inv bag] b(1) by (metis option.inject)
  have ts: "tasks_of w' = tasks_of w"
    using bag bag' by (simp flip: tasks_of_bag)
  have "on_main ?s"
    using on_main_store [OF woker_invD(1) [OF inv] b(1)] fiber_in_state [OF st] by simp
  moreover have "bag_ok (bag w') ?s"
    unfolding bag' by (rule bag_ok_move [OF _ b']) (use woker_invD(2) [OF inv] bag in simp_all)
  ultimately have "woker_inv w' ?s"
    using heap ts w' woker_invD(4) [OF inv] by (simp add: woker_inv_def)
  moreover have "same_but (own w) s ?s"
    by (rule same_but_store) (simp add: own_bag bag)
  moreover have "refs_of (fheap ?s) = refs_of (fheap s)"
    using refs_of_keep [of "fheap s" "tk_fiber tk", OF b] by simp
  ultimately show ?thesis using ts w' by (simp add: moved_def)
qed

lemma Fiber_start_eq:
  "on_main s \<Longrightarrow> fheap s f = Some b \<Longrightarrow> fb_state b = INIT \<Longrightarrow>
    Fiber_start f s = Inr (store f (b\<lparr>fb_state := READY\<rparr>) s)"
  by (simp add: Fiber_start_def same_id_on_main deref_Some)

lemma Fiber_awake_eq:
  "on_main s \<Longrightarrow> fheap s f = Some b \<Longrightarrow> fb_state b = SLEEP \<Longrightarrow>
    Fiber_awake f s = Inr (store f (b\<lparr>fb_state := READY\<rparr>) s)"
  by (simp add: Fiber_awake_def same_id_on_main deref_Some)

lemma drain_init_ok:
  "woker_inv w s \<Longrightarrow> t_init w = tks \<Longrightarrow>
    \<exists>w' s' r'. drain_init rnd tks w s r = Inr (w', s', r') \<and> moved w s w' s' \<and> t_init w' = [] \<and>
      t_sleep w' = t_sleep w \<and> t_hold w' = t_hold w \<and>
      (\<forall>f b. fheap s f = Some b \<longrightarrow> (\<exists>st. fheap s' f = Some (b\<lparr>fb_state := st\<rparr>)))"
proof (induction tks arbitrary: w s r)
  case Nil
  have "\<exists>st. b = b\<lparr>fb_state := st\<rparr>" for b :: fiber by (rule exI [of _ "fb_state b"]) simp
  then show ?case using Nil by (simp add: moved_refl)
next
  case (Cons tk tks)
  define L where "L = bag (w\<lparr>t_init := tks\<rparr>)"
  have bw: "bag w = add_mset (INIT, tk) L" using Cons.prems(2) by (simp add: bag_def L_def)
  obtain b where b: "fheap s (tk_fiber tk) = Some b" "fiber_in INIT b"
    using bag_child [OF Cons.prems(1) bw] .
  let ?b = "b\<lparr>fb_state := READY\<rparr>"
  obtain w1 r1 where p: "push_ready rnd tk (w\<lparr>t_init := tks\<rparr>) r = (w1, r1)" by fastforce
  note pr = push_ready_eq [OF p]
  have "bag w1 = add_mset (READY, tk) L" using pr by (simp add: bag_def L_def)
  moreover have "is_heap (wake (store (tk_fiber tk) ?b s)) (t_sleep w1)"
    using woker_invD(3) [OF Cons.prems(1)] pr by (simp add: wake_store_same [OF b(1)])
  ultimately have m: "moved w s w1 (store (tk_fiber tk) ?b s)"
    using move_ok [OF Cons.prems(1) bw _ fiber_in_ready(1) [OF b(2)] _ _ _ b(1)] pr by simp
  then have "woker_inv w1 (store (tk_fiber tk) ?b s)" by (simp add: moved_def)
  from Cons.IH [OF this, of r1] obtain w' s' r' where
    "drain_init rnd tks w1 (store (tk_fiber tk) ?b s) r1 = Inr (w', s', r')"
    "moved w1 (store (tk_fiber tk) ?b s) w' s'" "t_init w' = []" "t_sleep w' = t_sleep w"
    "t_hold w' = t_hold w"
    and heap: "\<And>f b. fheap (store (tk_fiber tk) ?b s) f = Some b \<Longrightarrow>
      \<exists>st. fheap s' f = Some (b\<lparr>fb_state := st\<rparr>)"
    using pr by auto
  moreover have "\<exists>st. fheap s' f = Some (c\<lparr>fb_state := st\<rparr>)" if "fheap s f = Some c" for f c
    using heap [of f "if f = tk_fiber tk then ?b else c"] that b(1) by (cases "f = tk_fiber tk") auto
  ultimately show ?case
    using Fiber_start_eq [OF woker_invD(1) [OF Cons.prems(1)] b(1)] fiber_in_state [OF b(2)] p
      moved_trans [OF m] by auto
qed

lemma wake_sleepers_ok:
  "woker_inv w s \<Longrightarrow>
    \<exists>w' s' r'. wake_sleepers rnd t w s r = Inr (w', s', r') \<and> moved w s w' s' \<and>
      (\<forall>x \<in> set (t_sleep w'). \<not> wake s' x < t)"
proof (induction "length (t_sleep w)" arbitrary: w s r rule: less_induct)
  case less
  note inv = less.prems
  show ?case
  proof (cases "pq_top (t_sleep w)")
    case None
    then show ?thesis
      using vecq.top_None [of "t_sleep w"] moved_refl [OF inv] by (simp add: wake_sleepers.simps)
  next
    case (Some tk)
    obtain w1 r1 where p: "push_ready rnd tk w r = (w1, r1)" by fastforce
    note pr = push_ready_eq [OF p]
    define L where "L = bag w - {#(SLEEP, tk)#}"
    have "tk \<in># mset (t_sleep w)" by (rule vecq.top_in [OF Some])
    then have bw: "bag w = add_mset (SLEEP, tk) L" by (auto simp: bag_def L_def)
    obtain b where b: "fheap s (tk_fiber tk) = Some b" "fiber_in SLEEP b"
      using bag_child [OF inv bw] .
    have wk: "wake s tk = fb_waketime b" using b(1) by (simp add: wake_def)
    show ?thesis
    proof (cases "fb_waketime b < t")
      case False
      then have "\<forall>x \<in> set (t_sleep w). \<not> wake s x < t"
        using sleepq.none_below [OF woker_invD(3) [OF inv] Some, of t] wk by auto
      then show ?thesis
        using False Some b(1) moved_refl [OF inv]
        by (simp add: wake_sleepers.simps [of rnd t w] deref_Some)
    next
      case True
      let ?s = "store (tk_fiber tk) (b\<lparr>fb_state := READY\<rparr>) s"
      obtain q r2 where q: "pq_pop (sleep_cmp ?s) (t_sleep w) r1 = (q, r2)" by fastforce
      let ?w = "w1\<lparr>t_sleep := q\<rparr>"
      have sq: "mset (t_sleep w) = add_mset tk (mset q)"
        using vecq.items_pop [OF Some, of "sleep_cmp ?s" r1] q by simp
      have ws: "wake ?s = wake s" by (rule wake_store_same [OF b(1)]) simp
      have "bag ?w = add_mset (READY, tk) L" using pr sq by (simp add: bag_def L_def)
      moreover have "is_heap (wake ?s) (t_sleep ?w)"
        using sleepq.inv_pop [of ?s "t_sleep w" r1] woker_invD(3) [OF inv] q ws by simp
      ultimately have m: "moved w s ?w ?s"
        using move_ok [OF inv bw _ fiber_in_ready(2) [OF b(2)] _ _ _ b(1)] pr by simp
      have "length q < length (t_sleep w)" using pq_pop_shorter [OF Some q [symmetric]] .
      then obtain w' s' r' where
        "wake_sleepers rnd t ?w ?s r2 = Inr (w', s', r')" "moved ?w ?s w' s'"
        "\<forall>x \<in> set (t_sleep w'). \<not> wake s' x < t"
        using less.hyps [of ?w ?s r2] m by (auto simp: moved_def)
      moreover have "wake_sleepers rnd t w s r = wake_sleepers rnd t ?w ?s r2"
        using Some b(1) True p q pr Fiber_awake_eq [OF woker_invD(1) [OF inv] b(1)]
          fiber_in_state [OF b(2)]
        by (simp add: wake_sleepers.simps [of rnd t w] deref_Some)
      ultimately show ?thesis using moved_trans [OF m] by auto
    qed
  qed
qed

lemma same_but_on_main:
  assumes "on_main s" and "fheap s f = Some b" and "fb_id b \<noteq> 0"
  shows "on_main (store f b' s)"
  using assms by (rule on_main_store)

lemma labelled_append [simp]: "labelled st (xs @ ys) = labelled st xs + labelled st ys"
  by simp

text \<open>One notified task; \<open>w\<close> is the worker with its hold queue as it is before the visit.\<close>

lemma notify_one:
  assumes inv: "woker_inv w s" and bw: "bag w = add_mset (HOLD, tk) L"
    and sl: "\<And>x. x \<in> set (t_sleep w) \<Longrightarrow> (SLEEP, x) \<in># L"
  obtains b where "notify_run (tk_fiber tk) s = Inr (store (tk_fiber tk) b s)"
    and "fb_state b = READY \<or> fb_state b = HOLD"
    and "\<forall>w'. bag w' = add_mset (fb_state b, tk) L \<and> t_sleep w' = t_sleep w \<and>
      w_count w' = w_count w \<and> w_done w' = w_done w \<longrightarrow>
      moved w s w' (store (tk_fiber tk) b s)"
proof -
  obtain b where b: "fheap s (tk_fiber tk) = Some b" "fiber_in HOLD b" "is_child (tk_fiber tk) s"
    using bag_child [OF inv bw] .
  obtain b' where b': "slice_result (fclock s) b = Inr b'"
    "fb_state b' = DESTROY \<or> fiber_in (fb_state b') b'" "fb_state b' \<in> {READY, HOLD}"
    using slice_good [OF b(2)] by metis
  note refs = slice_result_refs [OF b'(1)]
  have run: "notify_run (tk_fiber tk) s = Inr (store (tk_fiber tk) b' s)"
    using notify_run_eq [OF woker_invD(1) [OF inv] b(3,1)] fiber_in_state [OF b(2)] b'(1) by simp
  have fin: "fiber_in (fb_state b') b'" using b'(2,3) by auto
  have heap: "is_heap (wake (store (tk_fiber tk) b' s)) (t_sleep w)"
    using heap_store [of HOLD tk L s "t_sleep w" b'] sl woker_invD(2,3) [OF inv] bw by simp
  show thesis
    by (rule that [OF run]) (use b'(3) move_ok [OF inv bw _ fin _ _ _ b(1) refs] heap in auto)
qed

lemma notify_hold_ok:
  "woker_inv (w\<lparr>t_hold := kept @ tks\<rparr>) s \<Longrightarrow>
    \<exists>w' s' r'. notify_hold rnd tks kept w s r = Inr (w', s', r') \<and>
      moved (w\<lparr>t_hold := kept @ tks\<rparr>) s w' s'"
proof (induction tks arbitrary: kept w s r)
  case Nil
  then show ?case by (simp add: moved_refl)
next
  case (Cons tk tks)
  let ?w = "w\<lparr>t_hold := kept @ tk # tks\<rparr>"
  define L where "L = bag (w\<lparr>t_hold := kept @ tks\<rparr>)"
  have bw: "bag ?w = add_mset (HOLD, tk) L" by (simp add: bag_def L_def)
  have sl: "(SLEEP, x) \<in># L" if "x \<in> set (t_sleep ?w)" for x
    using that by (simp add: bag_def L_def)
  obtain b where run: "notify_run (tk_fiber tk) s = Inr (store (tk_fiber tk) b s)"
    and st: "fb_state b = READY \<or> fb_state b = HOLD"
    and mv: "\<forall>w'. bag w' = add_mset (fb_state b, tk) L \<and> t_sleep w' = t_sleep ?w \<and>
      w_count w' = w_count ?w \<and> w_done w' = w_done ?w \<longrightarrow>
      moved ?w s w' (store (tk_fiber tk) b s)"
    by (rule notify_one [OF Cons.prems bw sl])
  let ?s = "store (tk_fiber tk) b s"
  show ?case
  proof (cases "fb_state b = READY")
    case True
    obtain w1 r1 where p: "push_ready rnd tk w r = (w1, r1)" by fastforce
    note pr = push_ready_eq [OF p]
    have "bag (w1\<lparr>t_hold := kept @ tks\<rparr>) = add_mset (READY, tk) L"
      using pr by (simp add: bag_def L_def)
    then have m: "moved ?w s (w1\<lparr>t_hold := kept @ tks\<rparr>) ?s"
      using mv [rule_format, of "w1\<lparr>t_hold := kept @ tks\<rparr>"] True pr by simp
    then show ?thesis
      using Cons.IH [of kept w1 ?s r1] run p True moved_trans [OF m]
      by (auto simp: moved_def [of ?w] deref_Some)
  next
    case False
    then have "bag (w\<lparr>t_hold := (kept @ [tk]) @ tks\<rparr>) = add_mset (fb_state b, tk) L"
      using st by (simp add: bag_def L_def)
    then have m: "moved ?w s (w\<lparr>t_hold := (kept @ [tk]) @ tks\<rparr>) ?s"
      using mv [rule_format, of "w\<lparr>t_hold := (kept @ [tk]) @ tks\<rparr>"] by simp
    then show ?thesis
      using Cons.IH [of "kept @ [tk]" w ?s r] run False moved_trans [OF m]
      by (auto simp: moved_def [of ?w] deref_Some)
  qed
qed

text \<open>
  The last phase: the task that was run moves to the queue of its new state, or it has ended
  and leaves the worker, which lets go of its fiber.
\<close>

definition fiber_ended :: "fiber \<Rightarrow> bool" where
  "fiber_ended b = (fb_state b = DESTROY \<and> fb_id b \<noteq> 0)"

definition advanced :: "woker \<Rightarrow> fsys \<Rightarrow> woker \<Rightarrow> fsys \<Rightarrow> bool" where
  "advanced w s w' s' = (woker_inv w' s' \<and> same_but (own w) s s' \<and>
     (\<exists>ended. w_done w' = w_done w @ ended \<and> tasks_of w = tasks_of w' + mset ended \<and>
       refs_of (fheap s') = released (mset (map tk_fiber ended)) (refs_of (fheap s)) \<and>
       (\<forall>tk \<in> set ended. \<forall>b. fheap s' (tk_fiber tk) = Some b \<longrightarrow> fiber_ended b)))"

lemma moved_advanced: "moved w s w' s' \<Longrightarrow> advanced w s w' s'"
  unfolding moved_def advanced_def by (intro conjI exI [of _ "[]"]) auto

lemma moved_advanced_trans: "moved w s w' s' \<Longrightarrow> advanced w' s' w'' s'' \<Longrightarrow> advanced w s w'' s''"
  by (auto simp: moved_def advanced_def own_def intro: same_but_trans)

text \<open>Letting go of a fiber touches no other object.\<close>

lemma let_go_frame:
  "g \<noteq> f \<Longrightarrow> fheap (let_go f b s) g = fheap s g" "main_fiber (let_go f b s) = main_fiber s"
  "this_fiber (let_go f b s) = this_fiber s" "running (let_go f b s) = running s"
  by (simp_all add: let_go_def)

lemma on_main_let_go:
  assumes "on_main s" and "fheap s f = Some b" and "fb_id b \<noteq> 0"
  shows "on_main (let_go f b' s)"
proof -
  obtain m where m: "main_fiber s = Some m" "m \<noteq> f"
    using assms by (fastforce simp: on_main_def elim!: main_okE)
  then show ?thesis
    using assms(1) let_go_frame(1) [OF m(2), of b' s]
    by (simp add: on_main_def main_ok_def let_go_frame(2-4))
qed

lemma let_go_ended:
  "fheap (let_go f b s) f = Some b' \<Longrightarrow> fb_state b' = fb_state b \<and> fb_id b' = fb_id b"
  by (auto simp: let_go_def split: if_splits)

lemma end_ok:
  assumes inv: "woker_inv w s" and bw: "bag w = add_mset (st, tk) L"
    and bw': "bag w' = L" and cnt: "w_count w' = w_count w - 1"
    and dn: "w_done w' = w_done w @ [tk]" and b: "fb_state b = DESTROY" "fb_id b \<noteq> 0"
    and b0: "fheap s (tk_fiber tk) = Some b0" "fb_refs b = fb_refs b0"
    and sl: "t_sleep w' = t_sleep w" "\<And>x. x \<in> set (t_sleep w) \<Longrightarrow> (SLEEP, x) \<in># L"
  shows "advanced w s w' (let_go (tk_fiber tk) b (store (tk_fiber tk) b s))"
proof -
  let ?f = "tk_fiber tk" and ?s = "store (tk_fiber tk) b s"
  let ?t = "let_go ?f b ?s"
  have ts: "tasks_of w = add_mset tk (tasks_of w')"
    using bw bw' tasks_of_bag [of w] tasks_of_bag [of w'] by simp
  have fresh: "?f \<notin># fibers_of L"
    using bag_ok_fresh [of "(st, tk)" L s] woker_invD(2) [OF inv] bw by simp
  have frame: "fheap ?t g = fheap s g" if "g \<noteq> ?f" for g
    using let_go_frame(1) [OF that, of b ?s] that by simp
  have "fb_id b0 \<noteq> 0"
    using bag_child [OF inv bw] b0(1) fiber_in_state by (metis option.inject)
  then have "on_main ?s" using on_main_store [OF woker_invD(1) [OF inv] b0(1)] by simp
  then have "on_main ?t" by (rule on_main_let_go [of _ _ b]) (use b(2) in simp_all)
  moreover have "bag_ok L ?t"
  proof (rule bag_ok_frame)
    show "bag_ok L s" by (rule bag_ok_sub [of "(st, tk)"]) (use woker_invD(2) [OF inv] bw in simp)
    show "fheap ?t g = fheap s g" if "g \<in># fibers_of L" for g using that fresh frame by metis
  qed
  moreover have "is_heap (wake ?t) (t_sleep w') = is_heap (wake s) (t_sleep w')"
  proof (rule is_heap_cong)
    fix x assume "x \<in> set (t_sleep w')"
    then have "tk_fiber x \<noteq> ?f" using in_fibers_of [OF sl(2)] sl(1) fresh by fastforce
    then show "wake ?t x = wake s x" using frame by (simp add: wake_def)
  qed
  ultimately have "woker_inv w' ?t"
    using ts cnt woker_invD(3,4) [OF inv] sl(1) bw' by (simp add: woker_inv_def)
  moreover have "same_but (own w) s ?t"
    by (rule same_but_trans [OF same_but_store same_but_let_go]) (simp_all add: own_def ts)
  moreover have "refs_of (fheap ?t) = released {#?f#} (refs_of (fheap s))"
    using let_go_refs [of ?s ?f b] refs_of_keep [of "fheap s" ?f, OF b0] by simp
  moreover have "\<forall>b'. fheap ?t ?f = Some b' \<longrightarrow> fiber_ended b'"
    using b by (auto simp: fiber_ended_def dest!: let_go_ended)
  ultimately show ?thesis
    using ts dn unfolding advanced_def by (intro conjI exI [of _ "[tk]"]) simp_all
qed

lemma run_ready_ok:
  assumes inv: "woker_inv w s"
  shows "\<exists>w' s' r'. run_ready rnd w s r = Inr (w', s', r') \<and> advanced w s w' s'"
proof (cases "pq_top (t_ready w)")
  case None
  then show ?thesis
    using moved_advanced [OF moved_refl [OF inv]] by (simp add: run_ready_def)
next
  case (Some tk)
  obtain q r1 where q: "pq_pop (task_cmp rnd) (t_ready w) r = (q, r1)" by fastforce
  have rq: "mset (t_ready w) = add_mset tk (mset q)"
    using vecq.items_pop [OF Some, of "task_cmp rnd" r] q by simp
  define L where "L = bag (w\<lparr>t_ready := q\<rparr>)"
  have bw: "bag w = add_mset (READY, tk) L" using rq by (simp add: bag_def L_def)
  have sl: "(SLEEP, x) \<in># L" if "x \<in> set (t_sleep w)" for x
    using that by (simp add: bag_def L_def)
  obtain b where b: "fheap s (tk_fiber tk) = Some b" "fiber_in READY b" "is_child (tk_fiber tk) s"
    using bag_child [OF inv bw] .
  obtain b' where b': "slice_result (fclock s) b = Inr b'"
    "fb_state b' = DESTROY \<or> fiber_in (fb_state b') b'"
    "fb_state b' \<in> {READY, HOLD, SLEEP, DESTROY}"
    "fb_id b' \<noteq> 0"
    using slice_good [OF b(2)] by metis
  note refs = slice_result_refs [OF b'(1)]
  let ?s = "store (tk_fiber tk) b' s" and ?w = "w\<lparr>t_ready := q\<rparr>"
  have run: "resume_run (tk_fiber tk) s = Inr ?s"
    using resume_run_eq [OF woker_invD(1) [OF inv] b(3,1)] fiber_in_state [OF b(2)] b'(1) by simp
  have heap: "is_heap (wake ?s) (t_sleep w)"
    using heap_store [of READY tk L s "t_sleep w" b'] sl woker_invD(2,3) [OF inv] bw by simp
  have mv: "advanced w s w' ?s"
    if "bag w' = add_mset (fb_state b', tk) L" "fb_state b' \<noteq> DESTROY"
      "w_count w' = w_count w" "w_done w' = w_done w" "is_heap (wake ?s) (t_sleep w')" for w'
    using move_ok [OF inv bw that(1) _ that(3,4,5) b(1) refs] b'(2) that(2) moved_advanced by blast
  have eq: "run_ready rnd w s r =
      (if fb_state b' = HOLD then Inr (?w\<lparr>t_hold := t_hold w @ [tk]\<rparr>, ?s, r1)
       else if fb_state b' = SLEEP
       then (case pq_push (sleep_cmp ?s) tk (t_sleep w) r1 of
               (sl, r2) \<Rightarrow> Inr (?w\<lparr>t_sleep := sl\<rparr>, ?s, r2))
       else if fb_state b' = READY
       then (case push_ready rnd tk ?w r1 of (w2, r2) \<Rightarrow> Inr (w2, ?s, r2))
       else bindR (Fiber_release (tk_fiber tk) ?s) (\<lambda>s'.
         Inr (?w\<lparr>w_count := w_count w - 1, w_done := w_done w @ [tk]\<rparr>, s', r1)))"
    using Some q run by (simp add: run_ready_def Let_def deref_Some)
  consider (hold) "fb_state b' = HOLD" | (sleep) "fb_state b' = SLEEP"
    | (ready) "fb_state b' = READY" | (ended) "fb_state b' = DESTROY"
    using b'(3) by auto
  then show ?thesis
  proof cases
    case hold
    then show ?thesis
      using mv [of "?w\<lparr>t_hold := t_hold w @ [tk]\<rparr>"] heap eq by (simp add: bag_def L_def)
  next
    case sleep
    obtain l r2 where p: "pq_push (sleep_cmp ?s) tk (t_sleep w) r1 = (l, r2)" by fastforce
    have "mset l = add_mset tk (mset (t_sleep w))" "is_heap (wake ?s) l"
      using vecq.items_push [of "sleep_cmp ?s" tk "t_sleep w" r1] sleepq.inv_push [OF heap, of tk r1] p
      by simp_all
    then show ?thesis
      using mv [of "?w\<lparr>t_sleep := l\<rparr>"] sleep p eq by (simp add: bag_def L_def)
  next
    case ready
    obtain w2 r2 where p: "push_ready rnd tk ?w r1 = (w2, r2)" by fastforce
    then show ?thesis
      using mv [of w2] push_ready_eq [OF p] heap ready eq by (simp add: bag_def L_def)
  next
    case ended
    let ?e = "?w\<lparr>w_count := w_count w - 1, w_done := w_done w @ [tk]\<rparr>"
    have "advanced w s ?e (let_go (tk_fiber tk) b' ?s)"
      by (rule end_ok [OF inv bw _ _ _ ended b'(4) b(1) refs])
        (use sl in \<open>simp_all add: bag_def L_def\<close>)
    moreover have "on_main ?s"
      using on_main_store [OF woker_invD(1) [OF inv] b(1)] fiber_in_state [OF b(2)] by simp
    then have "Fiber_release (tk_fiber tk) ?s = Inr (let_go (tk_fiber tk) b' ?s)"
      using Fiber_release_eq [of ?s "tk_fiber tk" b'] ended b'(4) by simp
    ultimately show ?thesis using ended eq by simp
  qed
qed

lemma woker_iter_ok:
  assumes inv: "woker_inv w s"
  shows "\<exists>w' s' r'. woker_iter rnd locked w s r = Inr (w', s', r') \<and> advanced w s w' s'"
proof -
  obtain w1 s1 r1 where
    1: "(if locked then drain_init rnd (t_init w) w s r else Inr (w, s, r)) = Inr (w1, s1, r1)"
    and m1: "moved w s w1 s1"
    using drain_init_ok [OF inv refl, of rnd r] moved_refl [OF inv] by (cases locked) auto
  obtain w2 s2 r2 where 2: "wake_sleepers rnd (fclock s1) w1 s1 r1 = Inr (w2, s2, r2)"
    and m2: "moved w1 s1 w2 s2"
    using wake_sleepers_ok [of w1 s1 rnd "fclock s1" r1] m1 by (auto simp: moved_def)
  have "woker_inv (w2\<lparr>t_hold := [] @ t_hold w2\<rparr>) s2" using m2 by (simp add: moved_def)
  then obtain w3 s3 r3 where 3: "notify_hold rnd (t_hold w2) [] w2 s2 r2 = Inr (w3, s3, r3)"
    and m3: "moved w2 s2 w3 s3"
    using notify_hold_ok [where w = w2 and kept = "[]" and tks = "t_hold w2" and s = s2] by fastforce
  obtain w4 s4 r4 where 4: "run_ready rnd w3 s3 r3 = Inr (w4, s4, r4)" and a: "advanced w3 s3 w4 s4"
    using run_ready_ok [of w3 s3 rnd r3] m3 by (auto simp: moved_def)
  have "advanced w s w4 s4"
    by (rule moved_advanced_trans [OF moved_trans [OF moved_trans [OF m1 m2] m3] a])
  then show ?thesis using 1 2 3 4 by (simp add: woker_iter_def)
qed

section \<open>What waking does, exactly\<close>

lemma wake_sleepers_split:
  "woker_inv w s \<Longrightarrow> wake_sleepers rnd t w s r = Inr (w', s', r') \<Longrightarrow>
    mset (t_sleep w') = {#x \<in># mset (t_sleep w). \<not> wake s x < t#} \<and>
    mset (t_ready w') = mset (t_ready w) + {#x \<in># mset (t_sleep w). wake s x < t#} \<and>
    t_init w' = t_init w \<and> t_hold w' = t_hold w \<and> w_count w' = w_count w"
proof (induction "length (t_sleep w)" arbitrary: w s r rule: less_induct)
  case less
  note inv = less.prems(1)
  show ?case
  proof (cases "pq_top (t_sleep w)")
    case None
    then show ?thesis
      using vecq.top_None [of "t_sleep w"] less.prems(2) by (auto simp: wake_sleepers.simps)
  next
    case (Some tk)
    obtain w1 r1 where p: "push_ready rnd tk w r = (w1, r1)" by fastforce
    note pr = push_ready_eq [OF p]
    define L where "L = bag w - {#(SLEEP, tk)#}"
    have "tk \<in># mset (t_sleep w)" by (rule vecq.top_in [OF Some])
    then have bw: "bag w = add_mset (SLEEP, tk) L" by (auto simp: bag_def L_def)
    obtain b where b: "fheap s (tk_fiber tk) = Some b" "fiber_in SLEEP b"
      using bag_child [OF inv bw] .
    have wk: "wake s tk = fb_waketime b" using b(1) by (simp add: wake_def)
    show ?thesis
    proof (cases "fb_waketime b < t")
      case False
      then have nb: "\<not> wake s x < t" if "x \<in># mset (t_sleep w)" for x
        using sleepq.none_below [OF woker_invD(3) [OF inv] Some, of t x] wk that by simp
      have "{#x \<in># mset (t_sleep w). \<not> wake s x < t#} = mset (t_sleep w)"
        "{#x \<in># mset (t_sleep w). wake s x < t#} = {#}"
        using nb by (intro filter_mset_all filter_mset_none; blast)+
      moreover have "w' = w"
        using False Some b(1) less.prems(2)
        by (simp add: wake_sleepers.simps [of rnd t w] deref_Some)
      ultimately show ?thesis by simp
    next
      case True
      let ?s = "store (tk_fiber tk) (b\<lparr>fb_state := READY\<rparr>) s"
      obtain q r2 where q: "pq_pop (sleep_cmp ?s) (t_sleep w) r1 = (q, r2)" by fastforce
      let ?w = "w1\<lparr>t_sleep := q\<rparr>"
      have sq: "mset (t_sleep w) = add_mset tk (mset q)"
        using vecq.items_pop [OF Some, of "sleep_cmp ?s" r1] q by simp
      have ws: "wake ?s = wake s" by (rule wake_store_same [OF b(1)]) simp
      have "bag ?w = add_mset (READY, tk) L" using pr sq by (simp add: bag_def L_def)
      moreover have "is_heap (wake ?s) (t_sleep ?w)"
        using sleepq.inv_pop [of ?s "t_sleep w" r1] woker_invD(3) [OF inv] q ws by simp
      ultimately have m: "moved w s ?w ?s"
        using move_ok [OF inv bw _ fiber_in_ready(2) [OF b(2)] _ _ _ b(1)] pr by simp
      have "wake_sleepers rnd t ?w ?s r2 = Inr (w', s', r')"
        using Some b(1) True p q pr Fiber_awake_eq [OF woker_invD(1) [OF inv] b(1)]
          fiber_in_state [OF b(2)] less.prems(2)
        by (simp add: wake_sleepers.simps [of rnd t w] deref_Some)
      then show ?thesis
        using less.hyps [of ?w ?s r2] m pq_pop_shorter [OF Some q [symmetric]] pr sq ws True wk
        by (simp add: moved_def)
    qed
  qed
qed

section \<open>A worker with only ready tasks of one priority\<close>

definition one_priority :: "task list \<Rightarrow> bool" where
  "one_priority q = (\<forall>x \<in> set q. \<forall>y \<in> set q. tk_priority x = tk_priority y)"

lemma one_priority_push:
  "one_priority (x # q) \<Longrightarrow>
    pq_push (task_cmp rnd) x q r = pq_push (key_cmp tk_lasttime) x q r"
  unfolding one_priority_def by (intro pq_push_cong task_cmp_same) (metis list.simps(15))

lemma one_priority_pop:
  "one_priority q \<Longrightarrow> pq_pop (task_cmp rnd) q r = pq_pop (key_cmp tk_lasttime) q r"
  unfolding one_priority_def by (intro pq_pop_cong task_cmp_same) blast

lemma one_priority_mset: "mset q = mset q' \<Longrightarrow> one_priority q = one_priority q'"
  by (metis one_priority_def set_mset_mset)

text \<open>
  The situation of the starvation property: all tasks are ready, of one priority, one of
  them is older than all the others, and its callback only yields.
\<close>

definition starving :: "task \<Rightarrow> woker \<Rightarrow> fsys \<Rightarrow> bool" where
  "starving a w s = (on_main s \<and> t_init w = [] \<and> t_sleep w = [] \<and> t_hold w = [] \<and>
     one_priority (t_ready w) \<and> is_heap tk_lasttime (t_ready w) \<and> a \<in> set (t_ready w) \<and>
     (\<forall>x \<in> set (t_ready w). x \<noteq> a \<longrightarrow> tk_lasttime a < tk_lasttime x) \<and>
     (case fheap s (tk_fiber a) of None \<Rightarrow> False
      | Some b \<Rightarrow> fb_state b = READY \<and> fb_id b \<noteq> 0 \<and> fb_ctx b \<and> fb_cb b = Some (\<lambda>_. CallYield)))"

primrec woker_iters :: "'r rand \<Rightarrow> bool \<Rightarrow> nat \<Rightarrow> woker \<Rightarrow> fsys \<Rightarrow> 'r \<Rightarrow> 'r wstate res" where
  "woker_iters rnd locked 0 w s r = Inr (w, s, r)"
| "woker_iters rnd locked (Suc n) w s r =
     bindR (woker_iter rnd locked w s r) (\<lambda>(w', s', r'). woker_iters rnd locked n w' s' r')"

lemma iter_only_ready:
  assumes "t_init w = []" and "t_sleep w = []" and "t_hold w = []"
  shows "woker_iter rnd locked w s r = run_ready rnd w s r"
proof -
  have e: "w\<lparr>t_hold := []\<rparr> = w" using assms(3) by (cases w) simp
  show ?thesis
    using assms by (simp add: woker_iter_def e wake_sleepers.simps [of rnd "fclock s" w] pq_top_def)
qed

lemma starving_step:
  assumes st: "starving a w s"
  shows "\<exists>w' b r'. woker_iter rnd locked w s r = Inr (w', store (tk_fiber a) b s, r') \<and>
    starving a w' (store (tk_fiber a) b s) \<and> mset (t_ready w') = mset (t_ready w) \<and>
    w_done w' = w_done w"
proof -
  let ?f = "tk_fiber a"
  from st have q: "one_priority (t_ready w)" "is_heap tk_lasttime (t_ready w)" "a \<in> set (t_ready w)"
    "on_main s" "t_init w = []" "t_sleep w = []" "t_hold w = []"
    and old: "\<And>x. x \<in> set (t_ready w) \<Longrightarrow> x \<noteq> a \<Longrightarrow> tk_lasttime a < tk_lasttime x"
    by (simp_all add: starving_def)
  from st obtain b where b: "fheap s ?f = Some b" "fb_state b = READY" "fb_id b \<noteq> 0" "fb_ctx b"
    "fb_cb b = Some (\<lambda>_. CallYield)"
    by (auto simp: starving_def split: option.splits)
  obtain x where top: "pq_top (t_ready w) = Some x"
    using q(3) by (cases "t_ready w") (auto simp: pq_top_def)
  have "x \<in> set (t_ready w)" using vecq.top_in [OF top] by simp
  moreover have "tk_lasttime x \<le> tk_lasttime a"
    using keyq.top_min [OF q(2) top, of a] q(3) by simp
  ultimately have xa: "x = a" using old [of x] by (meson linorder_not_less)
  obtain l r1 where l: "pq_pop (key_cmp tk_lasttime) (t_ready w) r = (l, r1)" by fastforce
  obtain l2 r2 where l2: "pq_push (key_cmp tk_lasttime) a l r1 = (l2, r2)" by fastforce
  have ml: "mset (t_ready w) = add_mset a (mset l)"
    using vecq.items_pop [OF top, of "key_cmp tk_lasttime" r] l xa by simp
  have ml2: "mset l2 = mset (t_ready w)"
    using vecq.items_push [of "key_cmp tk_lasttime" a l r1] l2 ml by simp
  have hl2: "is_heap tk_lasttime l2"
    using keyq.inv_push [of tk_lasttime l a r1] keyq.inv_pop [OF q(2), of r] l l2 by simp
  have op: "one_priority (a # l)" using q(1) ml one_priority_mset [of "t_ready w" "a # l"] by simp
  let ?b = "b\<lparr>fb_pc := Suc (fb_pc b), fb_state := READY\<rparr>"
  let ?s = "store ?f ?b s" and ?w = "w\<lparr>t_ready := l2\<rparr>"
  have run: "resume_run ?f s = Inr ?s"
    using resume_run_eq [OF q(4), of ?f b] b by (simp add: is_child_def slice_result_def)
  have "run_ready rnd w s r = Inr (?w, ?s, r2)"
    by (simp add: run_ready_def push_ready_def deref_Some top xa run l l2 Let_def
        one_priority_pop [OF q(1)] one_priority_push [OF op])
  then have "woker_iter rnd locked w s r = Inr (?w, ?s, r2)"
    by (simp add: iter_only_ready [OF q(5-7)])
  moreover have "starving a ?w ?s"
    using st b hl2 on_main_store [OF q(4) b(1,3)] ml2 one_priority_mset [OF ml2]
    by (simp add: starving_def flip: set_mset_mset)
  ultimately show ?thesis using ml2 by auto
qed

lemma starving_iters:
  "starving a w s \<Longrightarrow> \<exists>w' s' r'. woker_iters rnd locked n w s r = Inr (w', s', r') \<and>
    starving a w' s' \<and> mset (t_ready w') = mset (t_ready w) \<and> w_done w' = w_done w \<and>
    (\<forall>f. f \<noteq> tk_fiber a \<longrightarrow> fheap s' f = fheap s f)"
proof (induction n arbitrary: w s r)
  case 0
  then show ?case by simp
next
  case (Suc n)
  obtain w1 b r1 where 1: "woker_iter rnd locked w s r = Inr (w1, store (tk_fiber a) b s, r1)"
    "starving a w1 (store (tk_fiber a) b s)" "mset (t_ready w1) = mset (t_ready w)"
    "w_done w1 = w_done w"
    using starving_step [OF Suc.prems, of rnd locked r] by blast
  from Suc.IH [OF 1(2), of r1] show ?case using 1 by fastforce
qed

section \<open>A held task that ends or sleeps\<close>

lemma stuck_slice:
  assumes "on_main s" and "is_child f s" and "fheap s f = Some b" and "fb_state b = HOLD"
    and "fb_cb b = Some cb" and "cb (fb_pc b) = CallReturn \<or> cb (fb_pc b) = CallSleep t"
  obtains b' where "notify_run f s = Inr (store f b' s)" and "fb_state b' \<noteq> READY"
    and "fb_state b' \<noteq> HOLD" and "fb_id b' = fb_id b" and "fb_ctx b'"
    and "on_main (store f b' s)"
proof -
  have r: "notify_run f s = (case slice_result (fclock s) b of
      Inl e \<Rightarrow> Inl e | Inr b' \<Rightarrow> Inr (store f b' s))"
    using notify_run_eq [OF assms(1-3)] assms(4) by simp
  have i: "fb_id b \<noteq> 0" "fb_ctx b" using assms(2,3) by (simp_all add: is_child_def)
  show thesis
    using r i assms(5,6) on_main_store [OF assms(1,3) i(1)]
    by (auto simp: slice_result_def Let_def intro: that)
qed

lemma iter_only_held:
  assumes "t_init w = []" and "t_ready w = []" and "t_sleep w = []" and "t_hold w = [tk]"
    and "notify_run (tk_fiber tk) s = Inr (store (tk_fiber tk) b s)" and "fb_state b \<noteq> READY"
  shows "woker_iter rnd locked w s r = Inr (w, store (tk_fiber tk) b s, r)"
proof -
  have e: "w\<lparr>t_hold := [tk]\<rparr> = w" using assms(4) by (cases w) simp
  show ?thesis
    using assms by (simp add: woker_iter_def wake_sleepers.simps [of rnd "fclock s" w] pq_top_def
        deref_Some run_ready_def e)
qed

lemma iter_only_held_fails:
  assumes "t_init w = []" and "t_sleep w = []" and "t_hold w = [tk]"
    and "notify_run (tk_fiber tk) s = Inl e"
  shows "woker_iter rnd locked w s r = Inl e"
  using assms by (simp add: woker_iter_def wake_sleepers.simps [of rnd "fclock s" w] pq_top_def)

section \<open>Properties\<close>

text \<open>
  A worker whose tasks have distinct fibers, each in the state of the queue it is in,
  never fails an assertion on callbacks that do not throw and follow a \<open>hold\<close> by a
  \<open>hold\<close> or a \<open>yield\<close>: an iteration succeeds, whatever \<open>rand\<close> draws and whether or not
  the lock is taken, keeps the invariant (\<open>m_count\<close> is the number of queued tasks), loses
  and duplicates no task, and touches no fiber but its own. The tasks it drops are those that
  have ended; it lets go of their fibers and of no other: a fiber that has no other owner is
  freed, one that has keeps its other owners and is in state \<open>DESTROY\<close>.
\<close>

theorem woker_iter_safe:
  assumes "woker_inv w s"
  shows "\<exists>w' s' r' ended. woker_iter rnd locked w s r = Inr (w', s', r') \<and> woker_inv w' s' \<and>
    w_done w' = w_done w @ ended \<and> tasks_of w = tasks_of w' + mset ended \<and>
    refs_of (fheap s') = released (mset (map tk_fiber ended)) (refs_of (fheap s)) \<and>
    (\<forall>tk \<in> set ended. \<forall>b. fheap s' (tk_fiber tk) = Some b \<longrightarrow> fiber_ended b) \<and>
    (\<forall>f. f \<notin> own w \<longrightarrow> fheap s' f = fheap s f)"
proof -
  obtain w' s' r' ended where i: "woker_iter rnd locked w s r = Inr (w', s', r')"
    "woker_inv w' s'" "same_but (own w) s s'" "w_done w' = w_done w @ ended"
    "tasks_of w = tasks_of w' + mset ended"
    "refs_of (fheap s') = released (mset (map tk_fiber ended)) (refs_of (fheap s))"
    "\<forall>tk \<in> set ended. \<forall>b. fheap s' (tk_fiber tk) = Some b \<longrightarrow> fiber_ended b"
    using woker_iter_ok [OF assms, of rnd locked r] unfolding advanced_def by blast
  moreover have "\<forall>f. f \<notin> own w \<longrightarrow> fheap s' f = fheap s f"
    using i(3) by (auto simp: same_but_def)
  ultimately show ?thesis by blast
qed

text \<open>
  C31. Waking moves exactly the sleeping tasks whose wake time lies before the clock reading
  to the ready queue, and leaves exactly the others asleep.
\<close>

theorem wake_sleepers_exact:
  assumes "woker_inv w s"
  shows "\<exists>w' s' r'. wake_sleepers rnd t w s r = Inr (w', s', r') \<and>
    mset (t_sleep w') = {#x \<in># mset (t_sleep w). \<not> wake s x < t#} \<and>
    mset (t_ready w') = mset (t_ready w) + {#x \<in># mset (t_sleep w). wake s x < t#}"
  using wake_sleepers_ok [OF assms, of rnd t r] wake_sleepers_split [OF assms, of rnd t r]
  by metis

text \<open>
  A worker leaves its loop exactly when the scheduler is stopped and the worker has no
  task of any kind left.
\<close>

theorem woker_loop_ends_iff:
  assumes "woker_inv w s"
  shows "woker_loop rnd stop locked w s r = Inr None \<longleftrightarrow> stop \<and> tasks_of w = {#}"
  using woker_iter_ok [OF assms, of rnd locked r] woker_invD(4) [OF assms]
  by (auto simp: woker_loop_def res_simps)

text \<open>
  A held task that returns or sleeps when it is notified is not taken out of the hold
  queue and \<open>m_count\<close> is not decremented: the iteration leaves the worker as it was, with
  the ended or sleeping fiber still held, and the next iteration aborts on the assertion of
  \<open>notify\<close>.
\<close>

theorem held_task_end_aborts:
  assumes "on_main s" and "is_child (tk_fiber tk) s" and "fheap s (tk_fiber tk) = Some b"
    and "fb_state b = HOLD" and "fb_cb b = Some cb"
    and "cb (fb_pc b) = CallReturn \<or> cb (fb_pc b) = CallSleep t"
    and "t_init w = []" and "t_ready w = []" and "t_sleep w = []" and "t_hold w = [tk]"
  shows "\<exists>s'. woker_iter rnd locked w s r = Inr (w, s', r) \<and>
    woker_iter rnd locked' w s' r' =
      Inl (AssertFail ''The Fiber that is not hold cannot be notified'')"
proof -
  let ?f = "tk_fiber tk"
  obtain b' where b': "notify_run ?f s = Inr (store ?f b' s)" "fb_state b' \<noteq> READY"
    "fb_state b' \<noteq> HOLD" "fb_id b' = fb_id b" "fb_ctx b'" "on_main (store ?f b' s)"
    by (rule stuck_slice [OF assms(1-6)])
  have "is_child ?f (store ?f b' s)"
    using b'(4,5) assms(2,3) by (simp add: is_child_def)
  then have "notify_run ?f (store ?f b' s) =
      Inl (AssertFail ''The Fiber that is not hold cannot be notified'')"
    using notify_run_eq [OF b'(6), of ?f b'] b'(3) by simp
  then show ?thesis
    using iter_only_held [OF assms(7-10) b'(1,2), of rnd locked r]
      iter_only_held_fails [OF assms(7,9,10), of "store ?f b' s" _ rnd locked' r'] by auto
qed


section \<open>Witnesses\<close>

definition demo_rand :: "nat rand" where
  "demo_rand r = (r, Suc r)"

definition demo_task :: task where
  "demo_task = Task_ctor 1 (-1) 5 100"

definition demo_woker :: woker where
  "demo_woker = (woker_new ''w'')\<lparr>w_count := 1, t_init := [demo_task]\<rparr>"

lemma demo_calls: "calls_ok demo_cb"
  by (simp add: calls_ok_def demo_cb_def)

lemma demo_woker_inv: "woker_inv demo_woker (demo_thread INIT (Some demo_cb))"
  by (simp add: woker_inv_def demo_on_main demo_woker_def woker_new_def tasks_of_def bag_def
      bag_ok_def task_in_def fiber_in_def fiber_good_def demo_calls demo_task_def Task_ctor_def
      demo_heap_Suc demo_fiber_def is_heap_def)

definition demo_sleeper :: woker where
  "demo_sleeper = (woker_new ''w'')\<lparr>w_count := 1, t_sleep := [demo_task]\<rparr>"

lemma demo_sleeper_inv: "woker_inv demo_sleeper (demo_thread SLEEP (Some demo_cb))"
  by (simp add: woker_inv_def demo_on_main demo_sleeper_def woker_new_def tasks_of_def bag_def
      bag_ok_def task_in_def fiber_in_def fiber_good_def demo_calls demo_task_def Task_ctor_def
      demo_heap_Suc demo_fiber_def is_heap_def)

theorem woker_iter_safe_witness:
  "\<exists>w' s' r'. woker_iter demo_rand True demo_woker (demo_thread INIT (Some demo_cb)) 0 =
    Inr (w', s', r') \<and> woker_inv w' s' \<and> tasks_of w' + mset (w_done w') = {#demo_task#}"
  using woker_iter_safe [OF demo_woker_inv, of demo_rand True 0]
  by (fastforce simp: demo_woker_def woker_new_def tasks_of_def)

theorem wake_sleepers_exact_witness:
  "\<exists>w' s' r'. wake_sleepers demo_rand 1 demo_sleeper (demo_thread SLEEP (Some demo_cb)) 0 =
    Inr (w', s', r') \<and> mset (t_sleep w') = {#} \<and> mset (t_ready w') = {#demo_task#}"
  using wake_sleepers_exact [OF demo_sleeper_inv, of demo_rand 1 0]
  by (auto simp: demo_sleeper_def woker_new_def wake_def demo_task_def Task_ctor_def demo_heap_Suc
      demo_fiber_def)

theorem woker_loop_ends_iff_witness:
  "woker_loop demo_rand True False demo_woker (demo_thread INIT (Some demo_cb)) 0 \<noteq> Inr None"
  using woker_loop_ends_iff [OF demo_woker_inv, of demo_rand True False 0]
  by (simp add: demo_woker_def woker_new_def tasks_of_def)

definition demo_holder :: woker where
  "demo_holder = (woker_new ''w'')\<lparr>w_count := 1, t_hold := [demo_task]\<rparr>"

theorem held_task_end_aborts_witness:
  "\<exists>s'. woker_iter demo_rand True demo_holder (demo_thread HOLD (Some (\<lambda>_. CallReturn))) 0 =
      Inr (demo_holder, s', 0) \<and>
    woker_iter demo_rand True demo_holder s' 0 =
      Inl (AssertFail ''The Fiber that is not hold cannot be notified'')"
proof -
  let ?cb = "\<lambda>_ :: nat. CallReturn"
  have f: "tk_fiber demo_task = 1" by (simp add: demo_task_def Task_ctor_def)
  have q: "t_init demo_holder = []" "t_ready demo_holder = []" "t_sleep demo_holder = []"
    "t_hold demo_holder = [demo_task]"
    by (simp_all add: demo_holder_def woker_new_def)
  show ?thesis
    by (rule held_task_end_aborts [OF _ _ _ demo_state, where cb = ?cb and t = 0])
      (simp_all add: f q demo_on_main demo_child [simplified] demo_heap_Suc demo_fiber_def)
qed

definition demo_runner :: woker where
  "demo_runner = (woker_new ''w'')\<lparr>w_count := 2,
     t_ready := [demo_task, Task_ctor 2 (-1) 5 200]\<rparr>"


end
