(* ===== verification/Schedulers.thy ===== *)
theory Schedulers
  imports Workers
begin

text \<open>
  The scheduler of \<open>sylar/scheduler.cpp\<close>: the task queue and \<open>submit\<close>, the allocation
  thread (\<open>AllocThread::run\<close>), \<open>start\<close> and \<open>stop\<close>, and the system they form with the worker
  threads: one shared heap of fibers, one set of thread-local variables per thread, and a
  step per event. An iteration of a thread's loop is one step: what the threads share is
  accessed under the locks the iteration holds, or is atomic.
\<close>

section \<open>State\<close>

record worker_thread =
  wt_w :: woker
  wt_tls :: tls
  wt_exited :: bool

text \<open>\<open>g_k\<close> is the local \<open>k\<close> of \<open>AllocThread::run\<close>.\<close>

record sched =
  g_tasks :: "task list"
  g_count :: u64
  g_stop :: bool
  g_workers :: "worker_thread list"
  g_thread_count :: u16
  g_name :: string
  g_k :: nat
  g_alloc_exited :: bool

text \<open>
  The whole system. \<open>y_caller\<close> holds the thread-local variables of the client thread that
  calls \<open>submit\<close>; \<open>y_accepted\<close> is a history variable, the tasks that \<open>submit\<close> has queued.
\<close>

record 'r sys =
  y_sched :: sched
  y_heap :: "ptr \<rightharpoonup> fiber"
  y_next :: ptr
  y_clock :: u64
  y_rand :: 'r
  y_caller :: tls
  y_accepted :: "task list"

definition tls_new :: tls where
  "tls_new = \<lparr>main_fiber = None, this_fiber = None, fiberIds = 0, fiber_count = 0,
     running = None\<rparr>"

definition view :: "tls \<Rightarrow> 'r sys \<Rightarrow> fsys" where
  "view t y = \<lparr>main_fiber = main_fiber t, this_fiber = this_fiber t, fiberIds = fiberIds t,
     fiber_count = fiber_count t, running = running t,
     fheap = y_heap y, fnext = y_next y, fclock = y_clock y\<rparr>"

definition tls_of :: "fsys \<Rightarrow> tls" where
  "tls_of s = \<lparr>main_fiber = main_fiber s, this_fiber = this_fiber s, fiberIds = fiberIds s,
     fiber_count = fiber_count s, running = running s\<rparr>"

section \<open>The scheduler of a thread\<close>

text \<open>
  \<open>t_scheduler\<close> of a thread: which scheduler, by number. The constructor of a scheduler sets it
  for its thread, the prologue of \<open>WokerThread::run\<close> for each worker.
\<close>

definition Scheduler_SetThis :: "nat \<Rightarrow> nat option \<Rightarrow> nat option" where
  "Scheduler_SetThis scheduler t_scheduler = Some scheduler"

definition Scheduler_GetThis :: "nat option \<Rightarrow> nat res" where
  "Scheduler_GetThis t_scheduler = bindR (SYLAR_ASSERT (t_scheduler \<noteq> None) ''t_scheduler'')
     (\<lambda>_. Inr (the t_scheduler))"

lemma Scheduler_GetThis_simps [simp]:
  "Scheduler_GetThis (Some k) = Inr k" "Scheduler_GetThis None = Inl (AssertFail ''t_scheduler'')"
  "Scheduler_GetThis (Scheduler_SetThis k t) = Inr k"
  by (simp_all add: Scheduler_GetThis_def Scheduler_SetThis_def SYLAR_ASSERT_def)

lemma Scheduler_GetThis_Inr [simp]: "Scheduler_GetThis t = Inr k \<longleftrightarrow> t = Some k"
  by (cases t) simp_all

section \<open>Submitting\<close>

text \<open>
  A task that is not queued goes when \<open>submit\<close> returns, and its pointer to the fiber with it.
\<close>

definition Scheduler_submit :: "task \<Rightarrow> sched \<Rightarrow> fsys \<Rightarrow> (sched \<times> fsys) res" where
  "Scheduler_submit t g s =
     (if \<not> g_stop g
      then if length (g_tasks g) < 10000
           then Inr (g\<lparr>g_tasks := g_tasks g @ [t], g_count := g_count g + 1\<rparr>, s)
           else bindR (Fiber_destroy (tk_fiber t) s) (\<lambda>s'.
                bindR (Fiber_release (tk_fiber t) s') (\<lambda>s''. Inr (g, s'')))
      else bindR (Fiber_release (tk_fiber t) s) (\<lambda>s'. Inr (g, s')))"

definition Scheduler_submit_fiber ::
    "ptr \<Rightarrow> int \<Rightarrow> u16 \<Rightarrow> u64 \<Rightarrow> sched \<Rightarrow> fsys \<Rightarrow> (sched \<times> fsys) res" where
  "Scheduler_submit_fiber fb thr pri now_us g s =
     Scheduler_submit (Task_ctor fb thr pri now_us) g s"

section \<open>The allocation thread\<close>

text \<open>The inner loop: at most \<open>l\<close> tasks go to the worker.\<close>

fun alloc_take :: "nat \<Rightarrow> sched \<Rightarrow> woker \<Rightarrow> sched \<times> woker" where
  "alloc_take 0 g w = (g, w)"
| "alloc_take (Suc l) g w = (case g_tasks g of
       [] \<Rightarrow> (g, w)
     | t # ts \<Rightarrow> alloc_take l
         (g\<lparr>g_tasks := ts, g_count := g_count g - 1\<rparr>)
         (w\<lparr>t_init := t_init w @ [t], w_count := w_count w + 1\<rparr>))"

definition alloc_iter :: "sched \<Rightarrow> sched" where
  "alloc_iter g =
     (if g_workers g = [] then g
      else (let k = (if length (g_workers g) \<le> g_k g then 0 else g_k g);
                wt = g_workers g ! k;
                (g', w') = (if w_count (wt_w wt) < 100000 then alloc_take 10 g (wt_w wt)
                            else (g, wt_w wt))
            in g'\<lparr>g_k := k + 1, g_workers := (g_workers g)[k := wt\<lparr>wt_w := w'\<rparr>]\<rparr>))"

text \<open>\<open>None\<close> is the end of the thread's loop.\<close>

definition alloc_loop :: "sched \<Rightarrow> sched option" where
  "alloc_loop g = (if \<not> g_stop g \<or> 0 < g_count g then Some (alloc_iter g) else None)"

section \<open>Starting and stopping\<close>

text \<open>
  Construction of a worker thread and the prologue of its \<open>run\<close>, which sets up the main
  fiber of the thread.
\<close>

definition spawn_worker :: "string \<Rightarrow> 'r sys \<Rightarrow> 'r sys res" where
  "spawn_worker name y = bindR (GetThis (view tls_new y)) (\<lambda>(m, s).
     Inr (y\<lparr>y_heap := fheap s, y_next := fnext s,
            y_sched := (y_sched y)\<lparr>g_workers := g_workers (y_sched y) @
              [\<lparr>wt_w = woker_new name, wt_tls = tls_of s, wt_exited = False\<rparr>]\<rparr>\<rparr>))"

text \<open>The loop of \<open>start\<close>; \<open>created i\<close> is the success of the i-th \<open>pthread_create\<close>.\<close>

primrec start_loop :: "(nat \<Rightarrow> bool) \<Rightarrow> nat list \<Rightarrow> 'r sys \<Rightarrow> 'r sys res" where
  "start_loop created [] y = Inr y"
| "start_loop created (i # is) y =
     (if created i
      then bindR (spawn_worker (g_name (y_sched y) @ ''_woker'' @ to_string i) y)
        (start_loop created is)
      else Inl (Uncaught ''pthread_create error''))"

text \<open>Dropping the tasks of a queue lets go of their fibers.\<close>

primrec drop_tasks :: "task list \<Rightarrow> fsys \<Rightarrow> fsys res" where
  "drop_tasks [] s = Inr s"
| "drop_tasks (tk # tks) s = bindR (Fiber_release (tk_fiber tk) s) (drop_tasks tks)"

definition Scheduler_start :: "(nat \<Rightarrow> bool) \<Rightarrow> 'r sys \<Rightarrow> 'r sys res" where
  "Scheduler_start created y =
     (if g_stop (y_sched y)
      then bindR (start_loop created [0..<unat (g_thread_count (y_sched y))]
             (y\<lparr>y_sched := (y_sched y)\<lparr>g_stop := False\<rparr>\<rparr>)) (\<lambda>y1.
           bindR (drop_tasks (g_tasks (y_sched y1)) (view (y_caller y1) y1)) (\<lambda>s.
           if created (unat (g_thread_count (y_sched y)))
           then Inr (y1\<lparr>y_heap := fheap s, y_caller := tls_of s,
                        y_sched := (y_sched y1)\<lparr>g_tasks := [], g_k := 0, g_alloc_exited := False\<rparr>\<rparr>)
           else Inl (Uncaught ''pthread_create error'')))
      else Inr y)"

text \<open>\<open>stop\<close> raises the flag and then joins every thread; the joins return when all have
  left their loops.\<close>

definition stop_flag :: "sched \<Rightarrow> sched" where
  "stop_flag g = g\<lparr>g_stop := True\<rparr>"

definition joins_return :: "sched \<Rightarrow> bool" where
  "joins_return g = (list_all wt_exited (g_workers g) \<and> g_alloc_exited g)"

section \<open>The system\<close>

datatype event =
    Submit "nat \<Rightarrow> fcall" int u16 u64
  | Alloc
  | Work nat bool
  | Tick u64
  | Stop

text \<open>The client's \<open>submit(Fiber::CreatFiber(cb), thr, pri)\<close>.\<close>

definition client_submit ::
    "(nat \<Rightarrow> fcall) \<Rightarrow> int \<Rightarrow> u16 \<Rightarrow> u64 \<Rightarrow> 'r sys \<Rightarrow> 'r sys res" where
  "client_submit cb thr pri us y =
     bindR (CreatFiber (Some cb) 4096 True (view (y_caller y) y)) (\<lambda>(f, s).
     bindR (Scheduler_submit_fiber f thr pri us (y_sched y) s) (\<lambda>(g, s').
     Inr (y\<lparr>y_sched := g, y_heap := fheap s', y_next := fnext s', y_caller := tls_of s',
            y_accepted := y_accepted y @ drop (length (g_tasks (y_sched y))) (g_tasks g)\<rparr>)))"

definition work_step :: "'r rand \<Rightarrow> nat \<Rightarrow> bool \<Rightarrow> 'r sys \<Rightarrow> 'r sys res" where
  "work_step rnd i locked y =
     (let g = y_sched y in
      if length (g_workers g) \<le> i \<or> wt_exited (g_workers g ! i) then Inr y
      else (let wt = g_workers g ! i in
        bindR (woker_loop rnd (g_stop g) locked (wt_w wt) (view (wt_tls wt) y) (y_rand y)) (\<lambda>x.
        case x of
          None \<Rightarrow> Inr (y\<lparr>y_sched := g\<lparr>g_workers := (g_workers g)[i := wt\<lparr>wt_exited := True\<rparr>]\<rparr>\<rparr>)
        | Some (w', s', r') \<Rightarrow>
            Inr (y\<lparr>y_heap := fheap s', y_next := fnext s', y_rand := r',
              y_sched := g\<lparr>g_workers :=
                (g_workers g)[i := wt\<lparr>wt_w := w', wt_tls := tls_of s'\<rparr>]\<rparr>\<rparr>))))"

definition alloc_step :: "'r sys \<Rightarrow> 'r sys" where
  "alloc_step y = (if g_alloc_exited (y_sched y) then y
     else (case alloc_loop (y_sched y) of
         None \<Rightarrow> y\<lparr>y_sched := (y_sched y)\<lparr>g_alloc_exited := True\<rparr>\<rparr>
       | Some g \<Rightarrow> y\<lparr>y_sched := g\<rparr>))"

fun sys_step :: "'r rand \<Rightarrow> event \<Rightarrow> 'r sys \<Rightarrow> 'r sys res" where
  "sys_step rnd (Submit cb thr pri us) y = client_submit cb thr pri us y"
| "sys_step rnd Alloc y = Inr (alloc_step y)"
| "sys_step rnd (Work i locked) y = work_step rnd i locked y"
| "sys_step rnd (Tick t) y = Inr (y\<lparr>y_clock := t\<rparr>)"
| "sys_step rnd Stop y = Inr (y\<lparr>y_sched := stop_flag (y_sched y)\<rparr>)"

text \<open>The system before \<open>start\<close>.\<close>

definition sys_new :: "u16 \<Rightarrow> string \<Rightarrow> u64 \<Rightarrow> 'r \<Rightarrow> 'r sys" where
  "sys_new n name now r = \<lparr>y_sched = \<lparr>g_tasks = [], g_count = 0, g_stop = True,
     g_workers = [], g_thread_count = n, g_name = name, g_k = 0, g_alloc_exited = False\<rparr>,
     y_heap = Map.empty, y_next = 0, y_clock = now, y_rand = r, y_caller = tls_new,
     y_accepted = []\<rparr>"

text \<open>
  What the client owes: callbacks the worker loop can run, fewer than \<open>2 ^ 64\<close> fibers
  created on its thread, and no submission once the scheduler is stopped.
\<close>

fun event_ok :: "event \<Rightarrow> 'r sys \<Rightarrow> bool" where
  "event_ok (Submit cb thr pri us) y = (calls_ok cb \<and> fiberIds (y_caller y) < - 1 \<and>
     \<not> g_stop (y_sched y))"
| "event_ok e y = True"

inductive reachable :: "'r rand \<Rightarrow> 'r sys \<Rightarrow> bool" for rnd where
  reach_start: "Scheduler_start (\<lambda>_. True) (sys_new n name now r) = Inr y \<Longrightarrow> reachable rnd y"
| reach_step: "reachable rnd y \<Longrightarrow> event_ok e y \<Longrightarrow> sys_step rnd e y = Inr y' \<Longrightarrow> reachable rnd y'"

section \<open>The invariant of the system\<close>

definition parts :: "(woker \<Rightarrow> 'a::comm_monoid_add) \<Rightarrow> worker_thread list \<Rightarrow> 'a" where
  "parts f ws = sum_list (map (\<lambda>wt. f (wt_w wt)) ws)"

definition sys_bag :: "sched \<Rightarrow> labels" where
  "sys_bag g = labelled INIT (g_tasks g) + parts bag (g_workers g)"

text \<open>What holds of one worker thread, apart from the bag of its tasks.\<close>

definition thread_inv :: "worker_thread \<Rightarrow> 'r sys \<Rightarrow> bool" where
  "thread_inv wt y = (on_main (view (wt_tls wt) y) \<and>
     w_count (wt_w wt) = int (size (tasks_of (wt_w wt))) \<and> w_count (wt_w wt) < 100010 \<and>
     is_heap (wake (view (wt_tls wt) y)) (t_sleep (wt_w wt)))"

definition caller_ok :: "'r sys \<Rightarrow> bool" where
  "caller_ok y = (thread_ok (view (y_caller y) y) \<and>
     (this_fiber (y_caller y) \<noteq> None \<longrightarrow> on_main (view (y_caller y) y)))"

definition conserved :: "'r sys \<Rightarrow> bool" where
  "conserved y = (mset (y_accepted y) = mset (g_tasks (y_sched y)) +
     parts tasks_of (g_workers (y_sched y)) +
     parts (\<lambda>w. mset (w_done w)) (g_workers (y_sched y)))"

definition queue_ok :: "sched \<Rightarrow> bool" where
  "queue_ok g = (length (g_tasks g) \<le> 10000 \<and> g_count g = of_nat (length (g_tasks g)))"

text \<open>
  The tasks the workers have dropped have ended and are nowhere else; their fibers are gone,
  or have ended too.
\<close>

definition done_ok :: "'r sys \<Rightarrow> bool" where
  "done_ok y = (\<forall>wt \<in> set (g_workers (y_sched y)). \<forall>tk \<in> set (w_done (wt_w wt)).
     tk_fiber tk < y_next y \<and> tk_fiber tk \<notin># fibers_of (sys_bag (y_sched y)) \<and>
     (\<forall>b. y_heap y (tk_fiber tk) = Some b \<longrightarrow> fiber_ended b))"

definition sys_inv :: "'r sys \<Rightarrow> bool" where
  "sys_inv y = (caller_ok y \<and> heap_fresh (view (y_caller y) y) \<and>
     bag_ok (sys_bag (y_sched y)) (view (y_caller y) y) \<and>
     list_all (\<lambda>wt. thread_inv wt y) (g_workers (y_sched y)) \<and>
     queue_ok (y_sched y) \<and> conserved y \<and> done_ok y)"

lemma view_simps [simp]:
  "fheap (view t y) = y_heap y" "fnext (view t y) = y_next y" "fclock (view t y) = y_clock y"
  "main_fiber (view t y) = main_fiber t" "this_fiber (view t y) = this_fiber t"
  "running (view t y) = running t" "fiberIds (view t y) = fiberIds t"
  by (simp_all add: view_def)

lemma tls_of_simps [simp]:
  "main_fiber (tls_of s) = main_fiber s" "this_fiber (tls_of s) = this_fiber s"
  "running (tls_of s) = running s" "fiberIds (tls_of s) = fiberIds s"
  by (simp_all add: tls_of_def)

lemma tls_of_view_id [simp]: "tls_of (view t y) = t"
  by (simp add: tls_of_def view_def)

lemma parts_split:
  assumes "i < length ws"
  shows "parts f ws = f (wt_w (ws ! i)) + parts f (take i ws @ drop (Suc i) ws)"
proof -
  have "parts f (take i ws @ ws ! i # drop (Suc i) ws) =
      f (wt_w (ws ! i)) + parts f (take i ws @ drop (Suc i) ws)"
    by (simp add: parts_def ac_simps)
  then show ?thesis using id_take_nth_drop [OF assms] by simp
qed

lemma parts_update:
  "i < length ws \<Longrightarrow> parts f (ws[i := wt]) = f (wt_w wt) + parts f (take i ws @ drop (Suc i) ws)"
  by (simp add: parts_def upd_conv_take_nth_drop ac_simps)

lemma parts_same: "i < length ws \<Longrightarrow> wt_w wt = wt_w (ws ! i) \<Longrightarrow> parts f (ws[i := wt]) = parts f ws"
  by (simp add: parts_update parts_split [of i ws])

lemma bag_ok_plus:
  "bag_ok (L + M) s \<longleftrightarrow> bag_ok L s \<and> bag_ok M s \<and>
    set_mset (fibers_of L) \<inter> set_mset (fibers_of M) = {}"
  (is "?l \<longleftrightarrow> ?r")
proof
  assume l: ?l
  have c: "count (fibers_of L) f + count (fibers_of M) f = 1"
    if "f \<in># fibers_of L \<or> f \<in># fibers_of M" for f
    using l that by (auto simp: bag_ok_def)
  have "count (fibers_of L) f = 1 \<and> f \<notin># fibers_of M" if "f \<in># fibers_of L" for f
    using c [of f] that by (metis Suc_eq_plus1 add_is_1 not_in_iff One_nat_def)
  moreover have "count (fibers_of M) f = 1" if "f \<in># fibers_of M" for f
    using c [of f] that by (metis add_is_1 not_in_iff One_nat_def)
  ultimately show ?r using l by (auto simp: bag_ok_def)
next
  assume ?r
  then show ?l by (auto simp: bag_ok_def not_in_iff)
qed

lemma bag_ok_heap: "fheap s' = fheap s \<Longrightarrow> bag_ok L s' = bag_ok L s"
  by (simp add: bag_ok_def task_in_def)

text \<open>What a thread knows survives changes of fibers that are not its main fiber.\<close>

lemma main_ok_frame:
  assumes "main_ok (view t y)" and "\<And>m. main_fiber t = Some m \<Longrightarrow> y_heap y' m = y_heap y m"
  shows "main_ok (view t y')"
  using assms by (auto simp: main_ok_def split: option.splits)

lemma on_main_frame:
  assumes "on_main (view t y)" and "\<And>m. main_fiber t = Some m \<Longrightarrow> y_heap y' m = y_heap y m"
  shows "on_main (view t y')"
  using assms main_ok_frame by (auto simp: on_main_def)

lemma main_id: "main_ok (view t y) \<Longrightarrow> main_fiber t = Some m \<Longrightarrow>
    \<exists>b. y_heap y m = Some b \<and> fb_id b = 0"
  by (auto simp: main_ok_def split: option.splits)

lemma bag_id:
  assumes "bag_ok L s" and "f \<in># fibers_of L"
  shows "\<exists>b. fheap s f = Some b \<and> fb_id b \<noteq> 0"
proof -
  obtain p where p: "p \<in># L" "f = tk_fiber (snd p)" using assms(2) by (auto simp: fibers_of_def)
  then have "task_in (fst p) s (snd p)" using assms(1) by (auto simp: bag_ok_def)
  then show ?thesis using p(2) by (auto elim!: task_inE simp: fiber_in_def)
qed

lemma main_not_in_bag:
  "main_ok (view t y) \<Longrightarrow> main_fiber t = Some m \<Longrightarrow> bag_ok L s \<Longrightarrow> fheap s = y_heap y \<Longrightarrow>
    m \<notin># fibers_of L"
  using main_id bag_id by fastforce

lemma thread_inv_frame:
  assumes "thread_inv wt y"
    and "\<And>m. main_fiber (wt_tls wt) = Some m \<Longrightarrow> y_heap y' m = y_heap y m"
    and "\<And>x. x \<in> set (t_sleep (wt_w wt)) \<Longrightarrow> y_heap y' (tk_fiber x) = y_heap y (tk_fiber x)"
  shows "thread_inv wt y'"
proof -
  have "is_heap (wake (view (wt_tls wt) y')) (t_sleep (wt_w wt)) =
      is_heap (wake (view (wt_tls wt) y)) (t_sleep (wt_w wt))"
    by (rule is_heap_cong) (simp add: wake_def assms(3))
  then show ?thesis
    using assms(1) on_main_frame [of "wt_tls wt" y y'] assms(2) by (simp add: thread_inv_def)
qed

lemma woker_inv_view:
  "thread_inv wt y \<Longrightarrow> bag_ok (bag (wt_w wt)) (view (wt_tls wt) y) \<Longrightarrow>
    woker_inv (wt_w wt) (view (wt_tls wt) y)"
  by (simp add: thread_inv_def woker_inv_def)

lemma caller_ok_frame:
  assumes "caller_ok y" and "y_caller y' = y_caller y"
    and "\<And>m. main_fiber (y_caller y) = Some m \<Longrightarrow> y_heap y' m = y_heap y m"
  shows "caller_ok y'"
  using assms on_main_frame [of "y_caller y" y y']
  by (auto simp: caller_ok_def thread_ok_def fiber_inv_def split: if_splits)

lemma sleep_in_bag: "x \<in> set (t_sleep w) \<Longrightarrow> tk_fiber x \<in># fibers_of (bag w)"
  by (auto simp: bag_def)


lemma sys_invD:
  assumes "sys_inv y"
  shows "caller_ok y" "heap_fresh (view t y)" "bag_ok (sys_bag (y_sched y)) (view t y)"
    "wt \<in> set (g_workers (y_sched y)) \<Longrightarrow> thread_inv wt y"
    "queue_ok (y_sched y)" "conserved y" "done_ok y"
proof -
  show "heap_fresh (view t y)" "bag_ok (sys_bag (y_sched y)) (view t y)"
    using assms bag_ok_heap [of "view t y" "view (y_caller y) y"]
    by (simp_all add: sys_inv_def heap_fresh_def)
qed (use assms in \<open>auto simp: sys_inv_def list_all_iff\<close>)

section \<open>Every step keeps the invariant\<close>

subsection \<open>Growing the heap\<close>

lemma bag_in_parts: "wt \<in> set ws \<Longrightarrow> p \<in># f (wt_w wt) \<Longrightarrow> p \<in># parts f ws"
  by (induction ws) (auto simp: parts_def)

lemma fibers_of_worker:
  assumes "wt \<in> set (g_workers g)" and "f \<in># fibers_of (bag (wt_w wt))"
  shows "f \<in># fibers_of (sys_bag g)"
proof -
  from assms(2) obtain p where p: "p \<in># bag (wt_w wt)" "f = tk_fiber (snd p)"
    by (auto simp: fibers_of_def)
  then show ?thesis
    using bag_in_parts [OF assms(1), of p bag] in_fibers_of [of p "sys_bag g"]
    by (auto simp: sys_bag_def)
qed

text \<open>
  What a step outside the workers leaves as it is: main fibers and the fibers of tasks; and no
  object comes to life at an old address.
\<close>

definition kept :: "'r sys \<Rightarrow> (ptr \<rightharpoonup> fiber) \<Rightarrow> bool" where
  "kept y h = ((\<forall>f b. y_heap y f = Some b \<longrightarrow> fb_id b = 0 \<or> f \<in># fibers_of (sys_bag (y_sched y)) \<longrightarrow>
      h f = Some b) \<and>
    (\<forall>f b. f < y_next y \<longrightarrow> h f = Some b \<longrightarrow>
      (\<exists>b0. y_heap y f = Some b0 \<and> (fiber_ended b0 \<longrightarrow> fiber_ended b))))"

lemma kept_below:
  assumes "heap_fresh (view t y)" and "\<And>f. f < y_next y \<Longrightarrow> h f = y_heap y f"
  shows "kept y h"
proof -
  have "f < y_next y" if "y_heap y f = Some b" for f b
    using assms(1) that by (metis heap_fresh_def not_less option.distinct(1) view_simps(1,2))
  then show ?thesis using assms(2) by (auto simp: kept_def)
qed

lemma kept_main:
  "kept y h \<Longrightarrow> main_ok (view t y) \<Longrightarrow> main_fiber t = Some m \<Longrightarrow> h m = y_heap y m"
  using main_id [of t y m] by (auto simp: kept_def)

lemma kept_task:
  assumes "kept y h" and "bag_ok (sys_bag (y_sched y)) (view t y)"
    and "f \<in># fibers_of (sys_bag (y_sched y))"
  shows "h f = y_heap y f"
  using bag_id [OF assms(2,3)] assms(1,3) by (auto simp: kept_def)

lemma kept_bag:
  assumes "sys_inv y" and "kept y (fheap s)"
  shows "bag_ok (sys_bag (y_sched y)) s"
proof (rule bag_ok_frame [OF sys_invD(3) [OF assms(1), of "y_caller y"]])
  fix f assume "f \<in># fibers_of (sys_bag (y_sched y))"
  then show "fheap s f = fheap (view (y_caller y) y) f"
    using kept_task [OF assms(2) sys_invD(3) [OF assms(1)]] by simp
qed

lemma kept_thread:
  assumes "sys_inv y" and "wt \<in> set (g_workers (y_sched y))" and "kept y (y_heap y')"
  shows "thread_inv wt y'"
proof (rule thread_inv_frame [OF sys_invD(4) [OF assms(1,2)]])
  have ok: "main_ok (view (wt_tls wt) y)"
    using sys_invD(4) [OF assms(1,2)] by (simp add: thread_inv_def on_main_def)
  show "y_heap y' m = y_heap y m" if "main_fiber (wt_tls wt) = Some m" for m
    by (rule kept_main [OF assms(3) ok that])
  show "y_heap y' (tk_fiber x) = y_heap y (tk_fiber x)" if "x \<in> set (t_sleep (wt_w wt))" for x
    by (rule kept_task [OF assms(3) sys_invD(3) [OF assms(1)]
        fibers_of_worker [OF assms(2) sleep_in_bag [OF that]]])
qed

lemma kept_caller:
  assumes "sys_inv y" and "kept y (y_heap y')" and "y_caller y' = y_caller y"
  shows "caller_ok y'"
proof (rule caller_ok_frame [OF sys_invD(1) [OF assms(1)] assms(3)])
  fix m assume m: "main_fiber (y_caller y) = Some m"
  then have "main_ok (view (y_caller y) y)"
    using sys_invD(1) [OF assms(1)]
    by (auto simp: caller_ok_def thread_ok_def on_main_def split: if_splits)
  then show "y_heap y' m = y_heap y m" using kept_main [OF assms(2)] m by blast
qed

text \<open>Tasks that are new in the bag must not have been dropped before.\<close>

lemma kept_done:
  assumes "sys_inv y" and "kept y (y_heap y')" and "y_next y \<le> y_next y'"
    and "\<And>v. v \<in> set (g_workers (y_sched y')) \<Longrightarrow> set (w_done (wt_w v)) \<subseteq>
      (\<Union>u \<in> set (g_workers (y_sched y)). set (w_done (wt_w u)))"
    and "\<And>f. f \<in># fibers_of (sys_bag (y_sched y')) \<Longrightarrow>
      f \<in># fibers_of (sys_bag (y_sched y)) \<or> y_next y \<le> f \<or>
      (\<exists>b. y_heap y f = Some b \<and> fb_state b \<noteq> DESTROY)"
  shows "done_ok y'"
  unfolding done_ok_def
proof (intro ballI)
  fix v tk assume "v \<in> set (g_workers (y_sched y'))" and "tk \<in> set (w_done (wt_w v))"
  then obtain u where "u \<in> set (g_workers (y_sched y))" "tk \<in> set (w_done (wt_w u))"
    using assms(4) by blast
  then have d: "tk_fiber tk < y_next y" "tk_fiber tk \<notin># fibers_of (sys_bag (y_sched y))"
    "\<And>b. y_heap y (tk_fiber tk) = Some b \<Longrightarrow> fiber_ended b"
    using sys_invD(7) [OF assms(1)] by (auto simp: done_ok_def)
  have "fiber_ended b" if "y_heap y' (tk_fiber tk) = Some b" for b
    using assms(2) d(1,3) that unfolding kept_def by blast
  moreover have "tk_fiber tk \<notin># fibers_of (sys_bag (y_sched y'))"
    using assms(5) [of "tk_fiber tk"] d by (auto simp: fiber_ended_def)
  ultimately show "tk_fiber tk < y_next y' \<and> tk_fiber tk \<notin># fibers_of (sys_bag (y_sched y')) \<and>
      (\<forall>b. y_heap y' (tk_fiber tk) = Some b \<longrightarrow> fiber_ended b)"
    using d(1) assms(3) by simp
qed

lemma on_main_view:
  "y_heap y' = fheap s \<Longrightarrow> on_main (view (tls_of s) y') = on_main s"
  by (auto simp: on_main_def main_ok_def split: option.splits)

subsection \<open>Starting\<close>

lemma parts_snoc: "parts f (ws @ [wt]) = parts f ws + f (wt_w wt)"
  by (simp add: parts_def)

lemma parts_Nil: "parts f [] = 0"
  by (simp add: parts_def)

lemma woker_new_empty:
  "bag (woker_new name) = {#}" "tasks_of (woker_new name) = {#}" "w_done (woker_new name) = []"
  "t_sleep (woker_new name) = []" "w_count (woker_new name) = 0" "t_init (woker_new name) = []"
  by (simp_all add: woker_new_def bag_def tasks_of_def)

lemma spawn_worker_ok:
  fixes y :: "'r sys"
  assumes "sys_inv y"
  shows "\<exists>y'. spawn_worker name y = Inr y' \<and> sys_inv y' \<and>
    g_tasks (y_sched y') = g_tasks (y_sched y) \<and> g_count (y_sched y') = g_count (y_sched y) \<and>
    g_stop (y_sched y') = g_stop (y_sched y) \<and>
    length (g_workers (y_sched y')) = Suc (length (g_workers (y_sched y)))"
proof -
  let ?n = "y_next y"
  let ?t = "\<lparr>main_fiber = Some ?n, this_fiber = Some ?n, fiberIds = 1, fiber_count = 1,
    running = Some ?n\<rparr>"
  let ?b = "\<lparr>fb_id = 0, fb_cb = None, fb_pc = 0, fb_stacksize = 0, fb_stack = False,
    fb_ctx = True, fb_state = EXEC, fb_waketime = 0, fb_refs = 1\<rparr>"
  let ?wt = "\<lparr>wt_w = woker_new name, wt_tls = ?t, wt_exited = False\<rparr>"
  let ?ws = "g_workers (y_sched y)"
  define y' where "y' = y\<lparr>y_heap := (y_heap y)(?n \<mapsto> ?b), y_next := Suc ?n,
    y_sched := (y_sched y)\<lparr>g_workers := ?ws @ [?wt]\<rparr>\<rparr>"
  have run: "spawn_worker name y = Inr y'"
    by (simp add: spawn_worker_def GetThis_def Fiber_main_def Let_def tls_new_def view_def
        SetThis_def store_def tls_of_def y'_def SYLAR_ASSERT_def)
  note i = sys_invD [OF assms]
  have k: "kept y (y_heap y')" by (rule kept_below [OF i(2)]) (simp add: y'_def)
  have "caller_ok y'" by (rule kept_caller [OF assms k]) (simp add: y'_def)
  moreover have "heap_fresh (view (y_caller y') y')"
    using i(2) [of "y_caller y"] by (auto simp: heap_fresh_def y'_def)
  moreover have sb: "sys_bag (y_sched y') = sys_bag (y_sched y)"
    by (simp add: sys_bag_def y'_def parts_snoc woker_new_empty)
  moreover have "bag_ok (sys_bag (y_sched y)) (view (y_caller y') y')"
    by (rule kept_bag [OF assms]) (use k in simp)
  moreover have "thread_inv ?wt y'"
    by (simp add: thread_inv_def on_main_def main_ok_def woker_new_empty is_heap_def y'_def)
  then have "list_all (\<lambda>wt. thread_inv wt y') (g_workers (y_sched y'))"
    using kept_thread [OF assms _ k] by (auto simp: y'_def list_all_iff)
  moreover have "queue_ok (y_sched y')" using i(5) by (simp add: queue_ok_def y'_def)
  moreover have "conserved y'"
    using i(6) by (simp add: conserved_def y'_def parts_snoc woker_new_empty)
  moreover have "done_ok y'"
  proof (rule kept_done [OF assms k])
    show "set (w_done (wt_w v)) \<subseteq> (\<Union>u \<in> set ?ws. set (w_done (wt_w u)))"
      if "v \<in> set (g_workers (y_sched y'))" for v
      using that by (auto simp: y'_def woker_new_empty)
  qed (simp_all add: sb, simp add: y'_def)
  ultimately have "sys_inv y'" by (simp add: sys_inv_def)
  then show ?thesis using run by (auto simp: y'_def)
qed


lemma start_loop_ok:
  "sys_inv y \<Longrightarrow> g_tasks (y_sched y) = [] \<Longrightarrow> g_count (y_sched y) = 0 \<Longrightarrow>
    \<exists>y'. start_loop (\<lambda>_. True) is y = Inr y' \<and> sys_inv y' \<and> g_tasks (y_sched y') = [] \<and>
      g_count (y_sched y') = 0 \<and> g_stop (y_sched y') = g_stop (y_sched y) \<and>
      length (g_workers (y_sched y')) = length (g_workers (y_sched y)) + length is"
proof (induction "is" arbitrary: y)
  case Nil
  then show ?case by simp
next
  case (Cons i "is")
  obtain y1 where y1: "spawn_worker (g_name (y_sched y) @ ''_woker'' @ to_string i) y = Inr y1"
    "sys_inv y1" "g_tasks (y_sched y1) = g_tasks (y_sched y)"
    "g_count (y_sched y1) = g_count (y_sched y)" "g_stop (y_sched y1) = g_stop (y_sched y)"
    "length (g_workers (y_sched y1)) = Suc (length (g_workers (y_sched y)))"
    using spawn_worker_ok [OF Cons.prems(1)] by blast
  from Cons.IH [OF y1(2)] Cons.prems y1 show ?case by auto
qed

lemma sys_inv_sched_cong:
  assumes "sys_inv y" and "y_sched y' = g" and "y_heap y' = y_heap y" and "y_next y' = y_next y"
    and "y_caller y' = y_caller y" and "y_accepted y' = y_accepted y"
    and "g_tasks g = g_tasks (y_sched y)" and "g_count g = g_count (y_sched y)"
    and "g_workers g = g_workers (y_sched y)"
  shows "sys_inv y'"
proof -
  have b: "sys_bag g = sys_bag (y_sched y)" by (simp add: sys_bag_def assms)
  have "thread_inv wt y'" if "wt \<in> set (g_workers g)" for wt
    by (rule thread_inv_frame [OF sys_invD(4) [OF assms(1)]]) (use that assms(3,9) in simp_all)
  moreover have "caller_ok y'"
    by (rule caller_ok_frame [OF sys_invD(1) [OF assms(1)] assms(5)]) (simp add: assms(3))
  moreover have "done_ok y'"
    using sys_invD(7) [OF assms(1)] unfolding done_ok_def assms(2,4) b by (simp add: assms)
  ultimately show ?thesis
    using assms(1) bag_ok_heap [of "view (y_caller y) y'" "view (y_caller y) y"]
    by (simp add: sys_inv_def list_all_iff assms(2-9) b heap_fresh_def queue_ok_def conserved_def)
qed

lemma sys_new_inv: "sys_inv (sys_new n name now r)"
  by (simp add: sys_inv_def sys_new_def caller_ok_def thread_ok_def tls_new_def heap_fresh_def
      sys_bag_def parts_Nil bag_ok_def queue_ok_def conserved_def done_ok_def)


lemma start_new_ok:
  "\<exists>y. Scheduler_start (\<lambda>_. True) (sys_new n name now r) = Inr y \<and> sys_inv y \<and>
    length (g_workers (y_sched y)) = unat n \<and> \<not> g_stop (y_sched y) \<and>
    g_tasks (y_sched y) = [] \<and> g_count (y_sched y) = 0"
proof -
  let ?init = "sys_new n name now r"
  let ?y = "?init\<lparr>y_sched := (y_sched ?init)\<lparr>g_stop := False\<rparr>\<rparr>"
  have sel: "g_stop (y_sched ?init)" "g_thread_count (y_sched ?init) = n"
    by (simp_all add: sys_new_def)
  have "sys_inv ?y" by (rule sys_inv_sched_cong [OF sys_new_inv [of n name now r] refl]) simp_all
  then obtain y1 where y1: "start_loop (\<lambda>_. True) [0..<unat n] ?y = Inr y1" "sys_inv y1"
    "g_tasks (y_sched y1) = []" "g_count (y_sched y1) = 0" "\<not> g_stop (y_sched y1)"
    "length (g_workers (y_sched y1)) = unat n"
    using start_loop_ok [of ?y "[0..<unat n]"] by (auto simp: sys_new_def)
  let ?fin = "y1\<lparr>y_sched := (y_sched y1)\<lparr>g_tasks := [], g_k := 0, g_alloc_exited := False\<rparr>\<rparr>"
  have "sys_inv ?fin" by (rule sys_inv_sched_cong [OF y1(2) refl]) (simp_all add: y1)
  moreover have "Scheduler_start (\<lambda>_. True) ?init = Inr ?fin"
    using sel y1(1,3) by (simp add: Scheduler_start_def)
  ultimately show ?thesis using y1 by (intro exI [of _ ?fin]) simp
qed

subsection \<open>Submitting\<close>

lemma Fiber_destroy_eq:
  "on_main s \<Longrightarrow> fheap s f = Some b \<Longrightarrow>
    Fiber_destroy f s = Inr (store f (b\<lparr>fb_state := DESTROY\<rparr>) s)"
  by (simp add: Fiber_destroy_def same_id_on_main deref_Some)

definition new_fiber :: "(nat \<Rightarrow> fcall) \<Rightarrow> u64 \<Rightarrow> fiber" where
  "new_fiber cb i = \<lparr>fb_id = i, fb_cb = Some cb, fb_pc = 0, fb_stacksize = 4096,
     fb_stack = True, fb_ctx = True, fb_state = INIT, fb_waketime = 0, fb_refs = 1\<rparr>"

lemma created_ok:
  assumes "sys_inv y" and "fiberIds (y_caller y) < - 1"
  shows "\<exists>f i s. CreatFiber (Some cb) 4096 True (view (y_caller y) y) = Inr (f, s) \<and> on_main s \<and>
    fiberIds s \<noteq> 0 \<and> heap_fresh s \<and> y_next y \<le> fnext s \<and>
    (\<forall>g < y_next y. fheap s g = y_heap y g) \<and> y_next y \<le> f \<and>
    fheap s f = Some (new_fiber cb i) \<and> i \<noteq> 0"
proof -
  let ?v = "view (y_caller y) y"
  let ?s = "with_main ?v"
  note i = sys_invD [OF assms(1)]
  have t: "thread_ok ?v" and f: "heap_fresh ?v"
    using i(1,2) by (simp_all add: caller_ok_def)
  note w = with_main_ok [OF t f]
  have ids: "fiberIds ?s \<noteq> 0" using w(1,3) by (simp add: thread_ok_def)
  have "fiberIds ?s \<noteq> - 1"
    using assms(2) t by (auto simp: with_main_def Fiber_main_def Let_def thread_ok_def split: if_splits)
  then have ids1: "fiberIds ?s + 1 \<noteq> 0" by (metis add_eq_0_iff2)
  have on: "on_main ?s"
    using i(1) t by (auto simp: caller_ok_def with_main_def Fiber_main_def Let_def on_main_def
        main_ok_def)
  have le: "fheap ?s g = y_heap y g" if "g < y_next y" for g
    using that by (simp add: with_main_def Fiber_main_def Let_def)
  have nx: "y_next y \<le> fnext ?s" by (simp add: with_main_def Fiber_main_def Let_def)
  have none: "fheap ?s (fnext ?s) = None" using w(2) by (simp add: heap_fresh_def)
  let ?s' = "(store (fnext ?s) (new_fiber cb (fiberIds ?s)) ?s)
    \<lparr>fnext := Suc (fnext ?s), fiberIds := fiberIds ?s + 1, fiber_count := fiber_count ?s + 1\<rparr>"
  have run: "CreatFiber (Some cb) 4096 True ?v = Inr (fnext ?s, ?s')"
    by (simp add: CreatFiber_eq Fiber_ctor_eq new_fiber_def)
  have on': "on_main ?s'"
    using on none by (auto simp: on_main_def main_ok_def split: option.splits)
  have fr: "heap_fresh ?s'" using w(2) by (auto simp: heap_fresh_def)
  have le': "\<forall>g < y_next y. fheap ?s' g = y_heap y g" using le nx by auto
  show ?thesis
    using run on' fr le' nx ids ids1 by (intro exI conjI) (assumption | simp)+
qed


text \<open>The state after a call on the client's thread.\<close>

definition client_state :: "sched \<Rightarrow> fsys \<Rightarrow> task list \<Rightarrow> 'r sys \<Rightarrow> 'r sys" where
  "client_state g s acc y = y\<lparr>y_sched := g, y_heap := fheap s, y_next := fnext s,
     y_caller := tls_of s, y_accepted := acc\<rparr>"

lemma client_state_inv:
  assumes inv: "sys_inv y" and s: "on_main s" "fiberIds s \<noteq> 0" "heap_fresh s" "y_next y \<le> fnext s"
    and k: "kept y (fheap s)"
    and g: "g_workers g = g_workers (y_sched y)" "queue_ok g" "bag_ok (sys_bag g) s"
      "mset acc + mset (g_tasks (y_sched y)) = mset (y_accepted y) + mset (g_tasks g)"
    and new: "\<And>f. f \<in># fibers_of (sys_bag g) \<Longrightarrow>
      f \<in># fibers_of (sys_bag (y_sched y)) \<or> y_next y \<le> f \<or>
      (\<exists>b. y_heap y f = Some b \<and> fb_state b \<noteq> DESTROY)"
  shows "sys_inv (client_state g s acc y)"
proof -
  let ?y = "client_state g s acc y"
  have sel: "y_heap ?y = fheap s" "y_next ?y = fnext s" "y_sched ?y = g"
    "y_caller ?y = tls_of s" "y_accepted ?y = acc"
    by (simp_all add: client_state_def)
  have m: "on_main (view (tls_of s) ?y)" using on_main_view [OF sel(1)] s(1) by simp
  then have "caller_ok ?y"
    using s(1,2) by (auto simp: caller_ok_def thread_ok_def fiber_inv_def sel on_main_def main_ok_def
        split: option.splits)
  moreover have "thread_inv wt ?y" if "wt \<in> set (g_workers g)" for wt
    by (rule kept_thread [OF inv]) (use that g(1) k sel in simp_all)
  moreover have "bag_ok (sys_bag g) (view (tls_of s) ?y)"
    using g(3) bag_ok_heap [of "view (tls_of s) ?y" s] sel by simp
  moreover have "conserved ?y"
  proof -
    have "mset acc + mset (g_tasks (y_sched y)) =
        mset (g_tasks g) + parts tasks_of (g_workers g) +
        parts (\<lambda>w. mset (w_done w)) (g_workers g) + mset (g_tasks (y_sched y))"
      using sys_invD(6) [OF inv] g(4) unfolding conserved_def by (simp add: g(1) ac_simps)
    then show ?thesis by (simp add: conserved_def sel)
  qed
  moreover have "done_ok ?y"
    by (rule kept_done [OF inv]) (use k s(4) g(1) new in \<open>auto simp: sel\<close>)
  ultimately show ?thesis
    using s(3) g(2) by (simp add: sys_inv_def sel list_all_iff heap_fresh_def)
qed

lemma submit_open:
  "\<not> g_stop g \<Longrightarrow> length (g_tasks g) < 10000 \<Longrightarrow>
    Scheduler_submit t g s = Inr (g\<lparr>g_tasks := g_tasks g @ [t], g_count := g_count g + 1\<rparr>, s)"
  "\<not> g_stop g \<Longrightarrow> \<not> length (g_tasks g) < 10000 \<Longrightarrow> on_main s \<Longrightarrow> fheap s (tk_fiber t) = Some b \<Longrightarrow>
    fb_id b \<noteq> 0 \<Longrightarrow> Scheduler_submit t g s =
      (let b' = b\<lparr>fb_state := DESTROY\<rparr>
       in Inr (g, let_go (tk_fiber t) b' (store (tk_fiber t) b' s)))"
  "g_stop g \<Longrightarrow> on_main s \<Longrightarrow> fheap s (tk_fiber t) = Some b \<Longrightarrow> fb_id b \<noteq> 0 \<Longrightarrow>
    fb_state b = INIT \<Longrightarrow> Scheduler_submit t g s = (if fb_refs b \<le> 1
      then Inl (AssertFail ''m_state == DESTROY || m_state == EXCEPT'')
      else Inr (g, let_go (tk_fiber t) b s))"
  using on_main_store [of s "tk_fiber t" b "b\<lparr>fb_state := DESTROY\<rparr>"]
  by (simp_all add: Scheduler_submit_def Fiber_destroy_eq Fiber_release_eq Let_def)

lemma Task_ctor_fiber [simp]: "tk_fiber (Task_ctor f thr pri us) = f"
  by (simp add: Task_ctor_def)

lemma on_main_this: "on_main s \<Longrightarrow> this_fiber s \<noteq> None"
  by (auto simp: on_main_def elim!: main_okE)

text \<open>The outcomes of a client's \<open>submit\<close>.\<close>

lemma client_submit_ok:
  assumes inv: "sys_inv y" and ids: "fiberIds (y_caller y) < - 1" and cb: "calls_ok cb"
    and run: "\<not> g_stop (y_sched y)"
  shows "\<exists>y' f. client_submit cb thr pri us y = Inr y' \<and> sys_inv y' \<and> y_next y \<le> f \<and>
    this_fiber (y_caller y') \<noteq> None \<and> (\<forall>g < y_next y. y_heap y' g = y_heap y g) \<and>
    (if length (g_tasks (y_sched y)) < 10000
     then y_sched y' = (y_sched y)\<lparr>g_tasks := g_tasks (y_sched y) @ [Task_ctor f thr pri us],
         g_count := g_count (y_sched y) + 1\<rparr> \<and> (\<exists>i. y_heap y' f = Some (new_fiber cb i))
     else y_sched y' = y_sched y \<and> y_heap y' f = None)"
proof -
  let ?g = "y_sched y"
  obtain f i s where c: "CreatFiber (Some cb) 4096 True (view (y_caller y) y) = Inr (f, s)"
    and s: "on_main s" "fiberIds s \<noteq> 0" "heap_fresh s" "y_next y \<le> fnext s"
    and old: "\<forall>g < y_next y. fheap s g = y_heap y g"
    and f: "y_next y \<le> f" "fheap s f = Some (new_fiber cb i)" "i \<noteq> 0"
    using created_ok [OF inv ids, of cb] by blast
  let ?t = "Task_ctor f thr pri us" and ?b = "(new_fiber cb i)\<lparr>fb_state := DESTROY\<rparr>"
  have step: "client_submit cb thr pri us y =
      Inr (client_state g s' (y_accepted y @ drop (length (g_tasks ?g)) (g_tasks g)) y)"
    if "Scheduler_submit ?t ?g s = Inr (g, s')" for g s'
    using that by (simp add: client_submit_def c Scheduler_submit_fiber_def client_state_def)
  note fresh = sys_invD(2) [OF inv, of "y_caller y"]
  have k: "kept y (fheap s)" by (rule kept_below [OF fresh]) (use old in simp)
  have bag: "bag_ok (sys_bag ?g) s" by (rule kept_bag [OF inv k])
  have fnew: "f \<notin># fibers_of (sys_bag ?g)"
    using bag_id [OF sys_invD(3) [OF inv, of "y_caller y"], of f] f(1) fresh
    by (auto simp: heap_fresh_def)
  show ?thesis
  proof (cases "length (g_tasks ?g) < 10000")
    case True
    let ?h = "?g\<lparr>g_tasks := g_tasks ?g @ [?t], g_count := g_count ?g + 1\<rparr>"
    have sb: "sys_bag ?h = add_mset (INIT, ?t) (sys_bag ?g)" by (simp add: sys_bag_def)
    have "fiber_in INIT (new_fiber cb i)"
      using f(3) cb by (simp add: fiber_in_def fiber_good_def new_fiber_def)
    then have "bag_ok (sys_bag ?h) s"
      unfolding sb by (intro bag_ok_insert [OF bag]) (use f(2) fnew in simp_all)
    moreover have "queue_ok ?h" using sys_invD(5) [OF inv] True by (simp add: queue_ok_def)
    ultimately have "sys_inv (client_state ?h s (y_accepted y @ [?t]) y)"
      by (intro client_state_inv [OF inv s k]) (use f(1) in \<open>auto simp: sb\<close>)
    then show ?thesis
      using step [OF submit_open(1) [OF run True]] True f on_main_this [OF s(1)] old
      by (intro exI [of _ "client_state ?h s (y_accepted y @ [?t]) y"] exI [of _ f])
        (auto simp: client_state_def)
  next
    case False
    let ?s = "let_go f ?b (store f ?b s)"
    have fi: "fb_id ?b \<noteq> 0" "fb_id (new_fiber cb i) \<noteq> 0" "fb_refs ?b = 1"
      using f(3) by (simp_all add: new_fiber_def)
    have h: "fheap ?s = (fheap s)(f := None)" "fiberIds ?s = fiberIds s" "fnext ?s = fnext s"
      using fi(3) by (simp_all add: let_go_def fun_eq_iff)
    have on: "on_main ?s"
      by (rule on_main_let_go [of _ _ ?b]) (use on_main_store [OF s(1) f(2) fi(2)] fi in simp_all)
    have k': "kept y (fheap ?s)"
      by (rule kept_below [OF fresh]) (use old f(1) in \<open>auto simp: h\<close>)
    have "sys_inv (client_state ?g ?s (y_accepted y) y)"
      by (intro client_state_inv [OF inv on _ _ _ k'] kept_bag [OF inv k'])
        (use s sys_invD(5) [OF inv] in \<open>simp_all add: h heap_fresh_def\<close>)
    moreover have "Scheduler_submit ?t ?g s = Inr (?g, ?s)"
      using submit_open(2) [OF run False s(1), of ?t "new_fiber cb i"] f(2) fi(2)
      by (simp add: Let_def)
    ultimately show ?thesis
      using step False f(1) on_main_this [OF on] old
      by (intro exI [of _ "client_state ?g ?s (y_accepted y) y"] exI [of _ f])
        (auto simp: client_state_def h)
  qed
qed


subsection \<open>Allocating\<close>

lemma alloc_take_eq:
  "alloc_take l g w =
    (g\<lparr>g_tasks := drop l (g_tasks g), g_count := g_count g - of_nat (min l (length (g_tasks g)))\<rparr>,
     w\<lparr>t_init := t_init w @ take l (g_tasks g),
       w_count := w_count w + int (min l (length (g_tasks g)))\<rparr>)"
proof (induction l g w rule: alloc_take.induct)
  case (2 l g w)
  then show ?case by (cases "g_tasks g") (simp_all add: algebra_simps)
qed simp

definition given :: "sched \<Rightarrow> nat" where
  "given g = (if w_count (wt_w (g_workers g ! (if length (g_workers g) \<le> g_k g then 0 else g_k g)))
     < 100000 then min 10 (length (g_tasks g)) else 0)"

definition turn :: "sched \<Rightarrow> nat" where
  "turn g = (if length (g_workers g) \<le> g_k g then 0 else g_k g)"

lemma turn_less: "g_workers g \<noteq> [] \<Longrightarrow> turn g < length (g_workers g)"
  by (simp add: turn_def)

text \<open>What one iteration does: the first tasks of the queue go to the worker whose turn it is.\<close>

lemma alloc_iter_eq:
  assumes "g_workers g \<noteq> []" and "n = given g" and "wt = g_workers g ! turn g"
  shows "alloc_iter g = g\<lparr>g_tasks := drop n (g_tasks g), g_count := g_count g - of_nat n,
    g_k := turn g + 1,
    g_workers := (g_workers g)[turn g := wt\<lparr>wt_w := (wt_w wt)
      \<lparr>t_init := t_init (wt_w wt) @ take n (g_tasks g), w_count := w_count (wt_w wt) + int n\<rparr>\<rparr>]\<rparr>"
  using assms
  by (auto simp: alloc_iter_def Let_def alloc_take_eq given_def turn_def min_def)

lemma given_le: "given g \<le> length (g_tasks g)" "given g \<le> 10"
  by (simp_all add: given_def)

lemma given_pos: "0 < given g \<Longrightarrow> w_count (wt_w (g_workers g ! turn g)) < 100000"
  by (auto simp: given_def turn_def split: if_splits)

lemma labelled_take_drop:
  "labelled st q = labelled st (take n q) + labelled st (drop n q)"
  by (metis append_take_drop_id image_mset_union mset_append)

lemma mset_take_drop: "mset q = mset (take n q) + mset (drop n q)"
  by (metis append_take_drop_id mset_append)

lemma alloc_iter_bag:
  assumes "g_workers g \<noteq> []"
  shows "sys_bag (alloc_iter g) = sys_bag g"
  using parts_split [OF turn_less [OF assms], of bag] labelled_take_drop [of INIT "g_tasks g" "given g"]
  by (simp add: sys_bag_def alloc_iter_eq [OF assms refl refl] parts_update [OF turn_less [OF assms]]
      bag_def ac_simps)

lemma alloc_iter_inv:
  fixes y :: "'r sys"
  assumes inv: "sys_inv y" and ne: "g_workers (y_sched y) \<noteq> []"
  shows "sys_inv (y\<lparr>y_sched := alloc_iter (y_sched y)\<rparr>)"
proof -
  let ?g = "y_sched y"
  define n where "n = given ?g"
  define i where "i = turn ?g"
  define wt where "wt = g_workers ?g ! i"
  let ?ws = "g_workers ?g"
  let ?w = "(wt_w wt)\<lparr>t_init := t_init (wt_w wt) @ take n (g_tasks ?g),
    w_count := w_count (wt_w wt) + int n\<rparr>"
  let ?wt = "wt\<lparr>wt_w := ?w\<rparr>"
  let ?h = "alloc_iter ?g"
  have i: "i < length ?ws" using turn_less [OF ne] by (simp add: i_def)
  have h: "?h = ?g\<lparr>g_tasks := drop n (g_tasks ?g), g_count := g_count ?g - of_nat n,
      g_k := i + 1, g_workers := ?ws[i := ?wt]\<rparr>"
    unfolding i_def by (rule alloc_iter_eq [OF ne n_def]) (simp add: wt_def i_def)
  have wt: "wt \<in> set ?ws" using i by (simp add: wt_def)
  note sb = alloc_iter_bag [OF ne]
  have n: "n \<le> length (g_tasks ?g)" "n \<le> 10" "0 < n \<Longrightarrow> w_count (wt_w wt) < 100000"
    using given_le [of ?g] given_pos [of ?g] by (simp_all add: n_def wt_def i_def)
  have t: "thread_inv wt y" by (rule sys_invD(4) [OF inv wt])
  then have "thread_inv ?wt (y\<lparr>y_sched := ?h\<rparr>)"
    using n by (cases "n = 0") (auto simp: thread_inv_def tasks_of_def view_def)
  moreover have "thread_inv v (y\<lparr>y_sched := ?h\<rparr>)" if "v \<in> set ?ws" for v
    using sys_invD(4) [OF inv that] by (simp add: thread_inv_def view_def)
  ultimately have "list_all (\<lambda>v. thread_inv v (y\<lparr>y_sched := ?h\<rparr>)) (g_workers ?h)"
    by (auto simp: h list_all_iff dest!: set_update_subset_insert [THEN subsetD])
  moreover have "caller_ok (y\<lparr>y_sched := ?h\<rparr>)"
    by (rule caller_ok_frame [OF sys_invD(1) [OF inv]]) simp_all
  moreover have "queue_ok ?h"
    using sys_invD(5) [OF inv] n(1) by (auto simp: queue_ok_def h)
  moreover have "conserved (y\<lparr>y_sched := ?h\<rparr>)"
    using sys_invD(6) [OF inv] parts_split [OF i, of tasks_of]
      parts_split [OF i, of "\<lambda>w. mset (w_done w)"] mset_take_drop [of "g_tasks ?g" n]
    by (simp add: conserved_def h parts_update [OF i] tasks_of_def wt_def ac_simps)
  moreover have "done_ok (y\<lparr>y_sched := ?h\<rparr>)"
  proof (rule kept_done [OF inv])
    show "kept y (y_heap (y\<lparr>y_sched := ?h\<rparr>))" by (simp add: kept_def)
    show "set (w_done (wt_w v)) \<subseteq> (\<Union>u \<in> set ?ws. set (w_done (wt_w u)))"
      if "v \<in> set (g_workers (y_sched (y\<lparr>y_sched := ?h\<rparr>)))" for v
      using that wt by (auto simp: h dest!: set_update_subset_insert [THEN subsetD])
  qed (simp_all add: sb)
  ultimately show ?thesis
    using sys_invD(2,3) [OF inv] bag_ok_heap [of "view (y_caller y) (y\<lparr>y_sched := ?h\<rparr>)" "view (y_caller y) y"] inv
    by (simp add: sys_inv_def sb heap_fresh_def)
qed


subsection \<open>Working\<close>

lemma advanced_refl: "woker_inv w s \<Longrightarrow> advanced w s w s"
  by (rule moved_advanced [OF moved_refl])

lemma woker_loop_ok:
  assumes "woker_inv w s"
  shows "\<exists>x. woker_loop rnd stop locked w s r = Inr x \<and>
    (case x of None \<Rightarrow> True | Some (w', s', r') \<Rightarrow> advanced w s w' s')"
proof (cases "\<not> stop \<or> 0 < w_count w")
  case True
  then show ?thesis
    using woker_iter_ok [OF assms, of rnd locked r] advanced_refl [OF assms]
    by (auto simp: woker_loop_def)
qed (auto simp: woker_loop_def)

lemma advancedD:
  assumes "advanced w s w' s'"
  obtains h n ended where "s' = s\<lparr>fheap := h, fiber_count := n\<rparr>"
    and "\<And>f. f \<notin> own w \<Longrightarrow> h f = fheap s f"
    and "w_done w' = w_done w @ ended" and "tasks_of w = tasks_of w' + mset ended"
    and "refs_of h = released (mset (map tk_fiber ended)) (refs_of (fheap s))"
    and "\<And>tk b. tk \<in> set ended \<Longrightarrow> h (tk_fiber tk) = Some b \<Longrightarrow> fiber_ended b"
    and "woker_inv w' s'"
proof -
  obtain h n ended where h: "s' = s\<lparr>fheap := h, fiber_count := n\<rparr>"
    "\<forall>f. f \<notin> own w \<longrightarrow> h f = fheap s f" "w_done w' = w_done w @ ended"
    "tasks_of w = tasks_of w' + mset ended"
    "refs_of (fheap s') = released (mset (map tk_fiber ended)) (refs_of (fheap s))"
    "\<forall>tk \<in> set ended. \<forall>b. fheap s' (tk_fiber tk) = Some b \<longrightarrow> fiber_ended b"
    "woker_inv w' s'"
    using assms unfolding advanced_def same_but_def by blast
  show thesis by (rule that [OF h(1) _ h(3,4)]) (use h in auto)
qed

lemma tls_of_view [simp]:
  "tls_of (view t y\<lparr>fheap := h, fiber_count := n\<rparr>) = t\<lparr>fiber_count := n\<rparr>"
  by (simp add: tls_of_def view_def)

lemma sys_bag_split:
  "i < length (g_workers g) \<Longrightarrow> sys_bag g = bag (wt_w (g_workers g ! i)) +
    (labelled INIT (g_tasks g) + parts bag (take i (g_workers g) @ drop (Suc i) (g_workers g)))"
  by (simp add: sys_bag_def parts_split [of i] ac_simps)

lemma sys_bag_update:
  "i < length (g_workers g) \<Longrightarrow> sys_bag (g\<lparr>g_workers := (g_workers g)[i := wt]\<rparr>) = bag (wt_w wt) +
    (labelled INIT (g_tasks g) + parts bag (take i (g_workers g) @ drop (Suc i) (g_workers g)))"
  by (simp add: sys_bag_def parts_update ac_simps)

lemma others_in_rest:
  assumes "j < length (g_workers g)" and "j \<noteq> i" and "i < length (g_workers g)"
    and "f \<in># fibers_of (bag (wt_w (g_workers g ! j)))"
  shows "f \<in># fibers_of (labelled INIT (g_tasks g) +
    parts bag (take i (g_workers g) @ drop (Suc i) (g_workers g)))"
proof -
  let ?r = "take i (g_workers g) @ drop (Suc i) (g_workers g)"
  have "g_workers g ! j \<in> set ?r"
  proof (cases "j < i")
    case True
    then show ?thesis using assms(1) by (auto simp: in_set_conv_nth intro!: disjI1 exI [of _ j])
  next
    case False
    then have "g_workers g ! j = drop (Suc i) (g_workers g) ! (j - Suc i)"
      "j - Suc i < length (drop (Suc i) (g_workers g))"
      using assms(1,2) by auto
    then have "g_workers g ! j \<in> set (drop (Suc i) (g_workers g))" by (metis nth_mem)
    then show ?thesis by simp
  qed
  moreover obtain p where "p \<in># bag (wt_w (g_workers g ! j))" "f = tk_fiber (snd p)"
    using assms(4) by (auto simp: fibers_of_def)
  ultimately have "f \<in># fibers_of (parts bag ?r)"
    using bag_in_parts [of _ ?r p bag] in_fibers_of [of p "parts bag ?r"] by blast
  then show ?thesis by simp
qed

text \<open>The state after an iteration of worker \<open>i\<close>.\<close>

definition worked :: "nat \<Rightarrow> woker \<Rightarrow> fsys \<Rightarrow> 'r \<Rightarrow> 'r sys \<Rightarrow> 'r sys" where
  "worked i w s r y = y\<lparr>y_heap := fheap s, y_rand := r, y_sched := (y_sched y)
     \<lparr>g_workers := (g_workers (y_sched y))
        [i := (g_workers (y_sched y) ! i)\<lparr>wt_w := w, wt_tls := tls_of s\<rparr>]\<rparr>\<rparr>"

lemma worked_simps:
  "y_heap (worked i w s r y) = fheap s" "y_next (worked i w s r y) = y_next y"
  "y_caller (worked i w s r y) = y_caller y" "y_accepted (worked i w s r y) = y_accepted y"
  "y_sched (worked i w s r y) = (y_sched y)\<lparr>g_workers := (g_workers (y_sched y))
        [i := (g_workers (y_sched y) ! i)\<lparr>wt_w := w, wt_tls := tls_of s\<rparr>]\<rparr>"
  "y_clock (worked i w s r y) = y_clock y"
  by (simp_all add: worked_def)

lemma worked_inv:
  assumes inv: "sys_inv y" and i: "i < length (g_workers (y_sched y))"
    and wt: "wt = g_workers (y_sched y) ! i"
    and adv: "advanced (wt_w wt) (view (wt_tls wt) y) w' s'"
  shows "sys_inv (worked i w' s' r y) \<and> fnext s' = y_next y"
proof -
  let ?g = "y_sched y" and ?w = "wt_w wt" and ?v = "view (wt_tls wt) y"
  define rest where "rest = labelled INIT (g_tasks ?g) +
    parts bag (take i (g_workers ?g) @ drop (Suc i) (g_workers ?g))"
  obtain h n ended where s': "s' = ?v\<lparr>fheap := h, fiber_count := n\<rparr>" and h: "\<And>f. f \<notin> own ?w \<Longrightarrow> h f = y_heap y f"
    and d: "w_done w' = w_done ?w @ ended" and ts: "tasks_of ?w = tasks_of w' + mset ended"
    and e: "\<And>tk b. tk \<in> set ended \<Longrightarrow> h (tk_fiber tk) = Some b \<Longrightarrow> fiber_ended b"
    and w': "woker_inv w' s'"
    using advancedD [OF adv] by (metis view_simps(1))
  let ?y = "worked i w' s' r y"
  have hs: "fheap s' = h" by (simp add: s')
  note y' = worked_simps [of i w' s' r y] hs
  have sb: "sys_bag ?g = bag ?w + rest" and sb': "sys_bag (y_sched ?y) = bag w' + rest"
    using sys_bag_split [OF i] sys_bag_update [OF i] by (simp_all add: rest_def wt y')
  have b: "bag_ok (bag ?w + rest) s" if "fheap s = y_heap y" for s
    using sys_invD(3) [OF inv, of "y_caller y"] bag_ok_heap [of s "view (y_caller y) y"] sb that
    by simp
  have dis: "own ?w \<inter> set_mset (fibers_of rest) = {}"
    using b [of ?v] by (simp add: bag_ok_plus own_bag)
  have sub: "own w' \<subseteq> own ?w" by (auto simp: own_def ts)
  have rest': "bag_ok rest s" if "fheap s = h" for s
  proof (rule bag_ok_frame)
    show "bag_ok rest ?v" using b [of ?v] by (simp add: bag_ok_plus)
    show "fheap s f = fheap ?v f" if "f \<in># fibers_of rest" for f
      using that dis h [of f] \<open>fheap s = h\<close> by auto
  qed
  have bag': "bag_ok (bag w' + rest) s" if "fheap s = h" for s
    using rest' [OF that] dis sub w' bag_ok_heap [of s s' "bag w'"] that
    by (auto simp: bag_ok_plus woker_inv_def s' own_bag)
  have main: "h m = y_heap y m" if "main_ok (view t y)" "main_fiber t = Some m" for t m
  proof (rule h)
    have "m \<notin># fibers_of (bag ?w + rest)"
      by (rule main_not_in_bag [OF that b [of "view t y"]]) simp_all
    then show "m \<notin> own ?w" by (simp add: own_bag)
  qed
  have "caller_ok ?y"
  proof (rule caller_ok_frame [OF sys_invD(1) [OF inv] y'(3)])
    show "y_heap ?y m = y_heap y m" if m: "main_fiber (y_caller y) = Some m" for m
      unfolding y' by (rule main [OF _ m])
        (use sys_invD(1) [OF inv] m in \<open>auto simp: caller_ok_def thread_ok_def on_main_def split: if_splits\<close>)
  qed
  moreover have "thread_inv (g_workers ?g ! j) ?y" if j: "j < length (g_workers ?g)" "j \<noteq> i" for j
  proof (rule thread_inv_frame)
    let ?u = "g_workers ?g ! j"
    show t: "thread_inv ?u y" using sys_invD(4) [OF inv] j(1) by simp
    show "y_heap ?y m = y_heap y m" if m: "main_fiber (wt_tls ?u) = Some m" for m
      unfolding y' by (rule main [OF _ m]) (use t in \<open>simp add: thread_inv_def on_main_def\<close>)
    show "y_heap ?y (tk_fiber x) = y_heap y (tk_fiber x)" if "x \<in> set (t_sleep (wt_w ?u))" for x
      using others_in_rest [OF j i sleep_in_bag [OF that]] dis h [of "tk_fiber x"]
      by (auto simp: y' rest_def)
  qed
  moreover have "thread_inv (wt\<lparr>wt_w := w', wt_tls := tls_of s'\<rparr>) ?y"
  proof -
    have t: "thread_inv wt y" using sys_invD(4) [OF inv] i by (simp add: wt)
    have v: "view (tls_of s') ?y = s'" unfolding view_def y' by (simp add: s' tls_of_def view_def)
    have "w_count w' \<le> w_count ?w"
      using t w' by (simp add: thread_inv_def woker_inv_def ts)
    then show ?thesis using t w' by (simp add: thread_inv_def v woker_inv_def)
  qed
  ultimately have "caller_ok ?y \<and> list_all (\<lambda>v. thread_inv v ?y) (g_workers (y_sched ?y))"
    using i by (auto simp: y' list_all_length nth_list_update wt)
  moreover have "heap_fresh (view (y_caller ?y) ?y)"
  proof -
    have "h a = None" if "y_next y \<le> a" for a
    proof -
      have n: "y_heap y a = None"
        using sys_invD(2) [OF inv, of "y_caller y"] that by (simp add: heap_fresh_def)
      then have "a \<notin># fibers_of (bag ?w)" using bag_id [OF b [of ?v], of a] by auto
      then show ?thesis using h [of a] n by (simp add: own_bag)
    qed
    then show ?thesis by (simp add: heap_fresh_def y')
  qed
  moreover have "queue_ok (y_sched ?y)" using sys_invD(5) [OF inv] by (simp add: queue_ok_def y')
  moreover have "conserved ?y"
    using sys_invD(6) [OF inv] parts_split [OF i, of tasks_of]
      parts_split [OF i, of "\<lambda>w. mset (w_done w)"]
      ts [unfolded wt] d [unfolded wt]
    by (simp add: conserved_def y' parts_update [OF i] ac_simps)
  moreover have "done_ok ?y"
    unfolding done_ok_def sb'
  proof (intro ballI)
    fix u tk assume u: "u \<in> set (g_workers (y_sched ?y))" and tk: "tk \<in> set (w_done (wt_w u))"
    show "tk_fiber tk < y_next ?y \<and> tk_fiber tk \<notin># fibers_of (bag w' + rest) \<and>
      (\<forall>b. y_heap ?y (tk_fiber tk) = Some b \<longrightarrow> fiber_ended b)"
    proof (cases "tk \<in> set ended")
      case True
      have "bag_ok (bag ?w) ?v" using b [of ?v] by (simp add: bag_ok_plus)
      then have c: "count (fibers_of (bag ?w)) (tk_fiber tk) = 1"
        using True by (simp add: bag_ok_def fibers_of_bag ts)
      have "tk_fiber tk \<in># image_mset tk_fiber (mset ended)" using True by auto
      then have "0 < count (image_mset tk_fiber (mset ended)) (tk_fiber tk)"
        by (simp only: count_greater_zero_iff)
      then have "count (fibers_of (bag w')) (tk_fiber tk) = 0"
        using c unfolding fibers_of_bag ts image_mset_union count_union by linarith
      then have "tk_fiber tk \<notin># fibers_of (bag w')" by (simp only: not_in_iff)
      moreover have o: "tk_fiber tk \<in> own ?w" using True by (auto simp: own_def ts)
      moreover have "tk_fiber tk < y_next y"
        using bag_id [OF b [of ?v], of "tk_fiber tk"] o sys_invD(2) [OF inv, of "y_caller y"]
        by (auto simp: own_bag heap_fresh_def not_less [symmetric])
      ultimately show ?thesis using dis e [OF True] by (auto simp: y')
    next
      case False
      have "\<exists>v \<in> set (g_workers ?g). tk \<in> set (w_done (wt_w v))"
        using u tk False nth_mem [OF i]
        by (auto simp: y' d wt dest!: set_update_subset_insert [THEN subsetD])
      then have o: "tk_fiber tk < y_next y" "tk_fiber tk \<notin># fibers_of (bag ?w + rest)"
        "\<forall>b. y_heap y (tk_fiber tk) = Some b \<longrightarrow> fiber_ended b"
        using sys_invD(7) [OF inv] by (auto simp: done_ok_def sb)
      then have n: "tk_fiber tk \<notin> own ?w" by (simp add: own_bag)
      then have "tk_fiber tk \<notin># fibers_of (bag w')" using sub by (auto simp: own_bag)
      then show ?thesis using o h [OF n] by (simp add: y')
    qed
  qed
  ultimately have "sys_inv ?y"
    using bag' [of "view (y_caller ?y) ?y"] sb' by (simp add: sys_inv_def y')
  then show ?thesis by (simp add: s')
qed


lemma work_step_ok:
  assumes inv: "sys_inv y"
  shows "\<exists>y'. work_step rnd i locked y = Inr y' \<and> sys_inv y'"
proof (cases "length (g_workers (y_sched y)) \<le> i \<or> wt_exited (g_workers (y_sched y) ! i)")
  case True
  then show ?thesis using inv by (auto simp: work_step_def Let_def)
next
  case False
  let ?g = "y_sched y"
  define wt where "wt = g_workers ?g ! i"
  have i: "i < length (g_workers ?g)" using False by simp
  have t: "thread_inv wt y" using sys_invD(4) [OF inv] i by (simp add: wt_def)
  have b: "bag_ok (bag (wt_w wt)) (view (wt_tls wt) y)"
    using sys_invD(3) [OF inv, of "wt_tls wt"] sys_bag_split [OF i]
    by (simp add: bag_ok_plus wt_def)
  obtain x where x: "woker_loop rnd (g_stop ?g) locked (wt_w wt) (view (wt_tls wt) y) (y_rand y) = Inr x"
    "case x of None \<Rightarrow> True | Some (w', s', r') \<Rightarrow>
      advanced (wt_w wt) (view (wt_tls wt) y) w' s'"
    using woker_loop_ok [OF woker_inv_view [OF t b], of rnd "g_stop ?g" locked "y_rand y"] by blast
  show ?thesis
  proof (cases x)
    case None
    let ?h = "?g\<lparr>g_workers := (g_workers ?g)[i := wt\<lparr>wt_exited := True\<rparr>]\<rparr>"
    have step: "work_step rnd i locked y = Inr (y\<lparr>y_sched := ?h\<rparr>)"
      using False x(1) None by (simp add: work_step_def Let_def wt_def)
    have sb: "sys_bag ?h = sys_bag ?g"
      by (simp add: sys_bag_def parts_same [OF i] wt_def)
    have same: "\<exists>u \<in> set (g_workers ?g). wt_w v = wt_w u" if "v \<in> set (g_workers ?h)" for v
      using that i by (auto simp: wt_def dest!: set_update_subset_insert [THEN subsetD])
    have "thread_inv (wt\<lparr>wt_exited := True\<rparr>) (y\<lparr>y_sched := ?h\<rparr>)"
      "\<And>v. thread_inv v (y\<lparr>y_sched := ?h\<rparr>) = thread_inv v y"
      using t by (simp_all add: thread_inv_def view_def)
    then have "list_all (\<lambda>v. thread_inv v (y\<lparr>y_sched := ?h\<rparr>)) (g_workers ?h)"
      using sys_invD(4) [OF inv]
      by (auto simp: list_all_iff dest!: set_update_subset_insert [THEN subsetD])
    moreover have "done_ok (y\<lparr>y_sched := ?h\<rparr>)"
      unfolding done_ok_def
    proof (intro ballI)
      fix v tk
      assume "v \<in> set (g_workers (y_sched (y\<lparr>y_sched := ?h\<rparr>)))" and tk: "tk \<in> set (w_done (wt_w v))"
      then obtain u where "u \<in> set (g_workers ?g)" "wt_w v = wt_w u" using same by auto
      then show "tk_fiber tk < y_next (y\<lparr>y_sched := ?h\<rparr>) \<and>
        tk_fiber tk \<notin># fibers_of (sys_bag (y_sched (y\<lparr>y_sched := ?h\<rparr>))) \<and>
        (\<forall>b. y_heap (y\<lparr>y_sched := ?h\<rparr>) (tk_fiber tk) = Some b \<longrightarrow> fiber_ended b)"
        using sys_invD(7) [OF inv] tk by (simp add: done_ok_def sb)
    qed
    moreover have "conserved (y\<lparr>y_sched := ?h\<rparr>)"
      using sys_invD(6) [OF inv] by (simp add: conserved_def parts_same [OF i] wt_def)
    moreover have "caller_ok (y\<lparr>y_sched := ?h\<rparr>)"
      by (rule caller_ok_frame [OF sys_invD(1) [OF inv]]) simp_all
    moreover have "bag_ok (sys_bag ?h) (view (y_caller y) (y\<lparr>y_sched := ?h\<rparr>))"
      using sys_invD(3) [OF inv, of "y_caller y"] unfolding sb by (simp add: view_def)
    ultimately have "sys_inv (y\<lparr>y_sched := ?h\<rparr>)"
      using inv by (simp add: sys_inv_def queue_ok_def heap_fresh_def)
    then show ?thesis using step by blast
  next
    case (Some p)
    obtain w' s' r' where p: "p = (w', s', r')" by (cases p) auto
    have adv: "advanced (wt_w wt) (view (wt_tls wt) y) w' s'" using x(2) Some p by simp
    have "work_step rnd i locked y = Inr (worked i w' s' r' y)"
      using False x(1) Some p worked_inv [OF inv i wt_def adv, of r']
      by (simp add: work_step_def Let_def worked_def wt_def)
    then show ?thesis using worked_inv [OF inv i wt_def adv, of r'] by blast
  qed
qed

lemma alloc_step_inv:
  assumes inv: "sys_inv y"
  shows "sys_inv (alloc_step y)"
proof -
  have e: "sys_inv (y\<lparr>y_sched := (y_sched y)\<lparr>g_alloc_exited := True\<rparr>\<rparr>)"
    by (rule sys_inv_sched_cong [OF inv refl]) simp_all
  have "sys_inv (y\<lparr>y_sched := alloc_iter (y_sched y)\<rparr>)"
  proof (cases "g_workers (y_sched y) = []")
    case True
    then show ?thesis using inv by (simp add: alloc_iter_def)
  next
    case False
    then show ?thesis by (rule alloc_iter_inv [OF inv])
  qed
  then show ?thesis using inv e by (simp add: alloc_step_def alloc_loop_def)
qed

lemma sys_step_ok:
  assumes inv: "sys_inv y" and e: "event_ok e y"
  shows "\<exists>y'. sys_step rnd e y = Inr y' \<and> sys_inv y'"
proof (cases e)
  case (Submit cb thr pri us)
  then show ?thesis using client_submit_ok [OF inv, of cb thr pri us] e by auto
next
  case (Work i locked)
  then show ?thesis using work_step_ok [OF inv] by simp
next
  case (Tick t)
  then show ?thesis by (auto intro: sys_inv_sched_cong [OF inv refl])
next
  case Stop
  then show ?thesis by (auto simp: stop_flag_def intro: sys_inv_sched_cong [OF inv refl])
qed (use alloc_step_inv [OF inv] in simp)

lemma reachable_inv: "reachable rnd y \<Longrightarrow> sys_inv y"
proof (induction rule: reachable.induct)
  case (reach_start n name now r y)
  then show ?case using start_new_ok [of n name now r] by auto
next
  case (reach_step y e y')
  then show ?case using sys_step_ok [of y e rnd] by auto
qed


primrec run_events :: "'r rand \<Rightarrow> event list \<Rightarrow> 'r sys \<Rightarrow> 'r sys res" where
  "run_events rnd [] y = Inr y"
| "run_events rnd (e # es) y = bindR (sys_step rnd e y) (run_events rnd es)"

section \<open>The tasks that are finished, and runs\<close>

definition all_done :: "'r sys \<Rightarrow> task list" where
  "all_done y = concat (map (\<lambda>wt. w_done (wt_w wt)) (g_workers (y_sched y)))"

lemma client_submit_workers:
  assumes "client_submit cb thr pri us y = Inr y'"
  shows "g_workers (y_sched y') = g_workers (y_sched y)"
    and "g_alloc_exited (y_sched y') = g_alloc_exited (y_sched y)"
  using assms
  by (auto simp: client_submit_def res_simps Scheduler_submit_fiber_def Scheduler_submit_def
      split: if_splits)

lemma run_reachable:
  fixes y :: "'r sys"
  shows "reachable rnd y \<Longrightarrow> run_events rnd es y = Inr y' \<Longrightarrow>
    list_all (\<lambda>e. \<forall>z :: 'r sys. event_ok e z) es \<Longrightarrow> reachable rnd y'"
proof (induction es arbitrary: y)
  case (Cons e es)
  then obtain z where "sys_step rnd e y = Inr z" "run_events rnd es z = Inr y'"
    by (auto simp: res_simps)
  then show ?case using Cons.IH [of z] Cons.prems reach_step [of rnd y e z] by simp
qed simp

section \<open>Properties\<close>

text \<open>
  C1. As long as the client keeps to its side (\<open>event_ok\<close>, now and in every step before), the
  scheduler, started with any number of worker threads, never fails an assertion or touches a
  missing fiber: whatever the interleaving of submissions, of iterations of the allocation thread
  and of the workers, of clock ticks and of a \<open>stop\<close>, and whatever \<open>rand\<close> draws, the next step
  succeeds. The client's side is to submit only callbacks that do not throw and follow each \<open>hold\<close>
  by a \<open>hold\<close> or a \<open>yield\<close> (\<open>calls_ok\<close>), to create fewer than \<open>2 ^ 64\<close> fibers, and not to submit
  once \<open>stop\<close> has been called. Each of the first and the last is needed: a callback that throws
  ends the worker (\<open>throwing_fiber_crashes\<close>) and a submission after \<open>stop\<close> aborts
  (\<open>submit_after_stop_aborts\<close>).
\<close>

theorem scheduler_safe:
  assumes "reachable rnd y" and "event_ok e y"
  shows "\<exists>y'. sys_step rnd e y = Inr y'"
  using sys_step_ok [OF reachable_inv [OF assms(1)] assms(2)] by blast

text \<open>
  C8. No task is lost or duplicated: the tasks that \<open>submit\<close> has accepted are those in the
  queue of the scheduler, those in the queues of the workers and those the workers have
  finished, the fiber of a finished task is gone or in state \<open>DESTROY\<close>, and it is the fiber
  of no queued task.
\<close>

theorem tasks_conserved:
  assumes "reachable rnd y"
  shows "mset (y_accepted y) = mset (g_tasks (y_sched y)) +
      (\<Sum>wt \<leftarrow> g_workers (y_sched y). tasks_of (wt_w wt)) + mset (all_done y) \<and>
    (\<forall>tk \<in> set (all_done y). (\<forall>b. y_heap y (tk_fiber tk) = Some b \<longrightarrow> fiber_ended b) \<and>
      (\<forall>tk' \<in># mset (g_tasks (y_sched y)) +
        (\<Sum>wt \<leftarrow> g_workers (y_sched y). tasks_of (wt_w wt)). tk_fiber tk' \<noteq> tk_fiber tk))"
proof -
  note i = reachable_inv [OF assms]
  let ?ws = "g_workers (y_sched y)"
  have d: "parts (\<lambda>w. mset (w_done w)) ?ws = mset (all_done y)"
  proof -
    have "sum_list (map (\<lambda>wt. mset (w_done (wt_w wt))) ws) =
        mset (concat (map (\<lambda>wt. w_done (wt_w wt)) ws))" for ws
      by (induction ws) simp_all
    then show ?thesis by (simp add: parts_def all_done_def)
  qed
  have f: "fibers_of (parts bag ws) = image_mset tk_fiber (parts tasks_of ws)" for ws
    by (induction ws) (simp_all add: parts_def fibers_of_bag)
  have "\<forall>b. y_heap y (tk_fiber tk) = Some b \<longrightarrow> fiber_ended b"
    and "\<forall>tk' \<in># mset (g_tasks (y_sched y)) + parts tasks_of ?ws. tk_fiber tk' \<noteq> tk_fiber tk"
    if tk: "tk \<in> set (all_done y)" for tk
  proof -
    obtain wt where wt: "wt \<in> set ?ws" "tk \<in> set (w_done (wt_w wt))"
      using tk by (auto simp: all_done_def)
    then have n: "tk_fiber tk \<notin># fibers_of (sys_bag (y_sched y))"
      and "\<forall>b. y_heap y (tk_fiber tk) = Some b \<longrightarrow> fiber_ended b"
      using sys_invD(7) [OF i] by (simp_all add: done_ok_def)
    then show "\<forall>b. y_heap y (tk_fiber tk) = Some b \<longrightarrow> fiber_ended b" by simp
    have "fibers_of (sys_bag (y_sched y)) =
        image_mset tk_fiber (mset (g_tasks (y_sched y)) + parts tasks_of ?ws)"
      by (simp add: sys_bag_def f)
    then show "\<forall>tk' \<in># mset (g_tasks (y_sched y)) + parts tasks_of ?ws. tk_fiber tk' \<noteq> tk_fiber tk"
      using n by (metis (no_types, lifting) image_eqI set_image_mset)
  qed
  then show ?thesis
    using sys_invD(6) [OF i] d by (simp add: conserved_def parts_def)
qed

text \<open>
  C39. The queue of the scheduler never holds more than 10000 tasks and \<open>m_count\<close> is its
  length; every worker's \<open>m_count\<close> is the number of its tasks, never negative, and below
  100010.
\<close>

theorem queue_bounds:
  assumes "reachable rnd y"
  shows "length (g_tasks (y_sched y)) \<le> 10000 \<and>
    unat (g_count (y_sched y)) = length (g_tasks (y_sched y)) \<and>
    (\<forall>wt \<in> set (g_workers (y_sched y)). 0 \<le> w_count (wt_w wt) \<and> w_count (wt_w wt) < 100010 \<and>
      w_count (wt_w wt) = int (size (tasks_of (wt_w wt))))"
proof -
  have "w_count (wt_w wt) = int (size (tasks_of (wt_w wt))) \<and> size (tasks_of (wt_w wt)) < 100010"
    if "wt \<in> set (g_workers (y_sched y))" for wt
    using sys_invD(4) [OF reachable_inv [OF assms] that] by (simp add: thread_inv_def)
  then show ?thesis
    using sys_invD(5) [OF reachable_inv [OF assms]] by (simp add: queue_ok_def unat_of_nat)
qed

text \<open>
  The allocation thread serves the workers in turn, round robin, and in FIFO order: an
  iteration moves the first (at most 10) tasks of the queue, in order, to the end of the
  \<open>t_init\<close> queue of the worker whose turn it is, if that worker has fewer than 100000 tasks,
  and changes nothing else.
\<close>

theorem alloc_iter_round_robin:
  assumes "reachable rnd y" and "g = y_sched y" and "g_workers g \<noteq> []"
    and "i = (if length (g_workers g) \<le> g_k g then 0 else g_k g)"
    and "n = (if w_count (wt_w (g_workers g ! i)) < 100000 then min 10 (length (g_tasks g)) else 0)"
  shows "g_tasks (alloc_iter g) = drop n (g_tasks g) \<and>
    unat (g_count (alloc_iter g)) = length (g_tasks g) - n \<and> g_k (alloc_iter g) = i + 1 \<and>
    length (g_workers (alloc_iter g)) = length (g_workers g) \<and>
    t_init (wt_w (g_workers (alloc_iter g) ! i)) =
      t_init (wt_w (g_workers g ! i)) @ take n (g_tasks g) \<and>
    w_count (wt_w (g_workers (alloc_iter g) ! i)) = w_count (wt_w (g_workers g ! i)) + int n \<and>
    (\<forall>j. j \<noteq> i \<longrightarrow> g_workers (alloc_iter g) ! j = g_workers g ! j)"
proof -
  have it: "i = turn g" "n = given g" using assms(4,5) by (simp_all add: turn_def given_def)
  have i: "i < length (g_workers g)" unfolding it by (rule turn_less [OF assms(3)])
  have "unat (g_count g - of_nat n) = length (g_tasks g) - n"
  proof -
    have q: "length (g_tasks g) \<le> 10000" "g_count g = of_nat (length (g_tasks g))"
      using sys_invD(5) [OF reachable_inv [OF assms(1)]] by (simp_all add: queue_ok_def assms(2))
    then have "g_count g - of_nat n = of_nat (length (g_tasks g) - n)"
      using given_le [of g] by (simp add: it)
    then show ?thesis using q(1) by (simp add: unat_of_nat)
  qed
  then show ?thesis
    using i by (simp add: alloc_iter_eq [OF assms(3) it(2), of "g_workers g ! turn g"] it)
qed

text \<open>
  The two outcomes of \<open>submit\<close> while the scheduler runs: with room in the queue the task goes
  to its end, with a fresh fiber in state \<open>INIT\<close> that it alone owns; with the queue full the
  fiber is destroyed and freed.
\<close>

theorem submit_outcomes:
  assumes "reachable rnd y" and "event_ok (Submit cb thr pri us) y"
  shows "\<exists>y' f. sys_step rnd (Submit cb thr pri us) y = Inr y' \<and> y_heap y f = None \<and>
    (if length (g_tasks (y_sched y)) < 10000
     then y_sched y' = (y_sched y)\<lparr>g_tasks := g_tasks (y_sched y) @ [Task_ctor f thr pri us],
         g_count := g_count (y_sched y) + 1\<rparr> \<and> (\<exists>i. y_heap y' f = Some (new_fiber cb i))
     else y_sched y' = y_sched y \<and> y_heap y' f = None)"
proof -
  note i = reachable_inv [OF assms(1)]
  have "y_heap y f = None" if "y_next y \<le> f" for f
    using sys_invD(2) [OF i, of "y_caller y"] that by (simp add: heap_fresh_def)
  then show ?thesis
    using client_submit_ok [OF i, of cb thr pri us] assms(2)
    by (simp only: event_ok.simps sys_step.simps) blast
qed


text \<open>
  A task submitted after \<open>stop\<close> is dropped with its fiber in state \<open>INIT\<close>, so that
  the destructor of the fiber fails its assertion and ends the program.
\<close>

theorem submit_after_stop_aborts:
  assumes "reachable rnd y" and "fiberIds (y_caller y) < - 1" and "g_stop (y_sched y)"
  shows "sys_step rnd (Submit cb thr pri us) y =
    Inl (AssertFail ''m_state == DESTROY || m_state == EXCEPT'')"
proof -
  obtain f i s where c: "CreatFiber (Some cb) 4096 True (view (y_caller y) y) = Inr (f, s)"
    and s: "on_main s" and f: "fheap s f = Some (new_fiber cb i)" "i \<noteq> 0"
    using created_ok [OF reachable_inv [OF assms(1)] assms(2), of cb] by blast
  have "Scheduler_submit (Task_ctor f thr pri us) (y_sched y) s =
      Inl (AssertFail ''m_state == DESTROY || m_state == EXCEPT'')"
    using submit_open(3) [OF assms(3) s, of "Task_ctor f thr pri us" "new_fiber cb i"] f
    by (simp add: new_fiber_def)
  then show ?thesis by (simp add: client_submit_def c Scheduler_submit_fiber_def)
qed

text \<open>
  Submitting from inside a fiber when the queue is full aborts: \<open>destroy\<close> insists on
  being called in the main fiber.
\<close>

theorem full_queue_submit_in_fiber:
  assumes "on_child s" and "\<not> g_stop g" and "10000 \<le> length (g_tasks g)"
  shows "Scheduler_submit t g s =
    Inl (AssertFail ''Fiber::destroy() must be called in main fiber.'')"
  using assms(2,3) by (simp add: Scheduler_submit_def Fiber_destroy_def same_id_on_child [OF assms(1)])

section \<open>Witnesses\<close>

definition run_of :: "'r sys \<Rightarrow> 'r sys res \<Rightarrow> 'r sys" where
  "run_of y m = (case m of Inl _ \<Rightarrow> y | Inr y' \<Rightarrow> y')"

definition demo_run :: "event list \<Rightarrow> nat sys res" where
  "demo_run es = bindR (Scheduler_start (\<lambda>_. True) (sys_new 1 ''s'' 0 0)) (run_events demo_rand es)"

definition demo_state_after :: "event list \<Rightarrow> nat sys" where
  "demo_state_after es = run_of (sys_new 1 ''s'' 0 0) (demo_run es)"

abbreviation demo_submit :: event where
  "demo_submit \<equiv> Submit demo_cb (-1) 5 100"

definition demo_started :: "nat sys" where
  "demo_started = demo_state_after []"

definition demo_queued :: "nat sys" where
  "demo_queued = demo_state_after [demo_submit]"

text \<open>
  The scheduler is stopped while its only task is in the queue; the worker, which has none,
  ends first, and the allocation thread gives the task to it and ends too.
\<close>

definition demo_stopped :: "nat sys" where
  "demo_stopped = demo_state_after [demo_submit, Stop, Work 0 True, Alloc, Alloc]"

lemma demo_started_check:
  "case demo_run [] of Inl _ \<Rightarrow> False | Inr y \<Rightarrow> fiberIds (y_caller y) < - 1 \<and>
    \<not> g_stop (y_sched y) \<and> length (g_tasks (y_sched y)) = 0 \<and> length (g_workers (y_sched y)) = 1"
  by code_simp

lemma demo_queued_check:
  "case demo_run [demo_submit] of Inl _ \<Rightarrow> False | Inr y \<Rightarrow>
    length (g_workers (y_sched y)) = 1 \<and> g_k (y_sched y) = 0 \<and>
    w_count (wt_w (g_workers (y_sched y) ! 0)) = 0 \<and> length (g_tasks (y_sched y)) = 1"
  by code_simp

lemma demo_stopped_check:
  "case demo_run [demo_submit, Stop, Work 0 True, Alloc, Alloc] of Inl _ \<Rightarrow> False | Inr y \<Rightarrow>
    joins_return (y_sched y) \<and> g_stop (y_sched y) \<and> fiberIds (y_caller y) < - 1 \<and>
    map (\<lambda>wt. map tk_fiber (t_init (wt_w wt))) (g_workers (y_sched y)) = [[2]]"
  by code_simp

lemma demo_run_ok:
  "(case demo_run es of Inl _ \<Rightarrow> False | Inr y \<Rightarrow> P y) \<Longrightarrow>
    demo_run es = Inr (demo_state_after es) \<and> P (demo_state_after es)"
  by (cases "demo_run es") (simp_all add: demo_state_after_def run_of_def)

lemmas demo_started_facts = demo_run_ok [OF demo_started_check, folded demo_started_def]
lemmas demo_queued_facts = demo_run_ok [OF demo_queued_check, folded demo_queued_def]
lemmas demo_stopped_facts = demo_run_ok [OF demo_stopped_check, folded demo_stopped_def]

lemma run_events_append:
  "run_events rnd (es @ fs) y = bindR (run_events rnd es y) (run_events rnd fs)"
proof (induction es arbitrary: y)
  case (Cons e es)
  then show ?case by (cases "sys_step rnd e y") simp_all
qed simp

lemma demo_run_append: "demo_run (es @ fs) = bindR (demo_run es) (run_events demo_rand fs)"
  by (simp add: demo_run_def run_events_append [abs_def] bindR_assoc)

lemma demo_started_reachable: "reachable demo_rand demo_started"
  using demo_started_facts reach_start by (auto simp: demo_run_def res_simps)

lemma demo_submit_ok: "event_ok demo_submit demo_started"
  using demo_started_facts by (simp add: demo_calls)

lemma demo_queued_reachable: "reachable demo_rand demo_queued"
proof -
  have "bindR (sys_step demo_rand demo_submit demo_started) Inr = Inr demo_queued"
    using demo_queued_facts demo_run_append [of "[]" "[demo_submit]"] demo_started_facts
    by (simp cong: bindR_cong)
  then have "sys_step demo_rand demo_submit demo_started = Inr demo_queued"
    by (cases "sys_step demo_rand demo_submit demo_started") simp_all
  then show ?thesis by (rule reach_step [OF demo_started_reachable demo_submit_ok])
qed

lemma demo_stopped_reachable: "reachable demo_rand demo_stopped"
proof (rule run_reachable [OF demo_queued_reachable])
  show "run_events demo_rand [Stop, Work 0 True, Alloc, Alloc] demo_queued = Inr demo_stopped"
    using demo_run_append [of "[demo_submit]" "[Stop, Work 0 True, Alloc, Alloc]"]
      demo_queued_facts demo_stopped_facts by simp
  show "list_all (\<lambda>e. \<forall>z :: nat sys. event_ok e z) [Stop, Work 0 True, Alloc, Alloc]"
    unfolding list_all_iff by (intro ballI allI) auto
qed

theorem scheduler_safe_witness:
  "\<exists>y'. sys_step demo_rand (Work 0 True) demo_queued = Inr y'"
  using scheduler_safe [OF demo_queued_reachable, of "Work 0 True"] by simp

theorem tasks_conserved_witness:
  "mset (y_accepted demo_queued) = mset (g_tasks (y_sched demo_queued)) +
    (\<Sum>wt \<leftarrow> g_workers (y_sched demo_queued). tasks_of (wt_w wt)) + mset (all_done demo_queued)"
  using tasks_conserved [OF demo_queued_reachable] by blast

theorem queue_bounds_witness:
  "unat (g_count (y_sched demo_queued)) = length (g_tasks (y_sched demo_queued))"
  using queue_bounds [OF demo_queued_reachable] by blast

lemma demo_queued_workers: "g_workers (y_sched demo_queued) \<noteq> []"
  using demo_queued_facts by auto

theorem alloc_iter_round_robin_witness:
  "g_tasks (alloc_iter (y_sched demo_queued)) = [] \<and>
   w_count (wt_w (g_workers (alloc_iter (y_sched demo_queued)) ! 0)) = 1"
  using alloc_iter_round_robin [OF demo_queued_reachable refl demo_queued_workers refl refl]
    demo_queued_facts by simp

theorem submit_outcomes_witness:
  "\<exists>y' f. sys_step demo_rand (Submit demo_cb (-1) 5 100) demo_started = Inr y' \<and>
    map tk_fiber (g_tasks (y_sched y')) = [f]"
  using submit_outcomes [OF demo_started_reachable demo_submit_ok] demo_started_facts by auto

theorem submit_after_stop_aborts_witness:
  "sys_step demo_rand demo_submit demo_stopped =
    Inl (AssertFail ''m_state == DESTROY || m_state == EXCEPT'')"
  using submit_after_stop_aborts [OF demo_stopped_reachable] demo_stopped_facts by simp

definition demo_full :: "nat \<Rightarrow> sched" where
  "demo_full n = (y_sched demo_started)\<lparr>g_tasks := replicate n demo_task\<rparr>"

lemma demo_full_facts: "\<not> g_stop (demo_full n)" "length (g_tasks (demo_full n)) = n"
  using demo_started_facts by (simp_all add: demo_full_def)

theorem full_queue_submit_in_fiber_witness:
  "\<not> ok (Scheduler_submit demo_task (demo_full 10000)
    ((demo_thread EXEC (Some demo_cb))\<lparr>this_fiber := Some 1, running := Some 1\<rparr>))"
proof -
  have "on_child ((demo_thread EXEC (Some demo_cb))\<lparr>this_fiber := Some 1, running := Some 1\<rparr>)"
    by (simp add: on_child_def main_ok_def is_child_def demo_thread_def)
  from full_queue_submit_in_fiber [OF this demo_full_facts(1) [of 10000]]
    demo_full_facts(2) [of 10000]
  show ?thesis by (simp add: ok_def)
qed

end
