(* ===== verification/Restarts.thy ===== *)
theory Restarts
  imports Schedulers
begin

text \<open>
  Stopping a scheduler that has tasks, and starting it again (\<open>start\<close>, \<open>stop\<close> and the loops of the
  threads of \<open>sylar/scheduler.cpp\<close>): the allocation thread gives tasks to workers that have ended,
  after \<open>stop\<close> because a worker looks only at its own tasks before it ends, and after a restart
  because \<open>start\<close> adds its workers behind the ones that have ended.
\<close>

section \<open>The workers that have ended\<close>

lemma spawn_worker_workers:
  "spawn_worker name y = Inr y' \<Longrightarrow>
    \<exists>wt. g_workers (y_sched y') = g_workers (y_sched y) @ [wt] \<and> g_stop (y_sched y') = g_stop (y_sched y)"
  by (auto simp: spawn_worker_def res_simps)

lemma start_loop_workers:
  "start_loop created is y = Inr y' \<Longrightarrow>
    \<exists>ws. g_workers (y_sched y') = g_workers (y_sched y) @ ws \<and> g_stop (y_sched y') = g_stop (y_sched y)"
proof (induction "is" arbitrary: y)
  case (Cons i "is")
  then obtain z where "spawn_worker (g_name (y_sched y) @ ''_woker'' @ to_string i) y = Inr z"
    "start_loop created is z = Inr y'" by (auto simp: res_simps split: if_splits)
  then show ?case using spawn_worker_workers Cons.IH [of z] by fastforce
qed simp

lemma restart_sched:
  assumes "Scheduler_start created y = Inr y1" and "g_stop (y_sched y)"
  shows "\<exists>ws. g_workers (y_sched y1) = g_workers (y_sched y) @ ws" and "\<not> g_stop (y_sched y1)"
    and "g_tasks (y_sched y1) = []" and "g_k (y_sched y1) = 0" and "\<not> g_alloc_exited (y_sched y1)"
proof -
  obtain z s where z: "start_loop created [0..<unat (g_thread_count (y_sched y))]
      (y\<lparr>y_sched := (y_sched y)\<lparr>g_stop := False\<rparr>\<rparr>) = Inr z"
    "y1 = z\<lparr>y_heap := fheap s, y_caller := tls_of s, y_sched := (y_sched z)\<lparr>g_tasks := [], g_k := 0, g_alloc_exited := False\<rparr>\<rparr>"
    using assms by (auto simp: Scheduler_start_def res_simps split: if_splits)
  then show "\<exists>ws. g_workers (y_sched y1) = g_workers (y_sched y) @ ws" "\<not> g_stop (y_sched y1)"
    "g_tasks (y_sched y1) = []" "g_k (y_sched y1) = 0" "\<not> g_alloc_exited (y_sched y1)"
    using start_loop_workers [OF z(1)] by auto
qed

text \<open>A task in the queue of a worker that has ended.\<close>

definition buried :: "task \<Rightarrow> nat \<Rightarrow> 'r sys \<Rightarrow> bool" where
  "buried tk i y = (i < length (g_workers (y_sched y)) \<and> wt_exited (g_workers (y_sched y) ! i) \<and>
     tk \<in> set (t_init (wt_w (g_workers (y_sched y) ! i))))"

lemma buried_alloc:
  assumes "buried tk i y"
  shows "buried tk i (alloc_step y)"
proof -
  let ?g = "y_sched y"
  have ne: "g_workers ?g \<noteq> []" using assms by (auto simp: buried_def)
  show ?thesis
    using assms alloc_iter_eq [OF ne refl refl]
    by (cases "i = turn ?g")
      (auto simp: buried_def alloc_step_def alloc_loop_def nth_list_update)
qed

lemma buried_step:
  assumes "buried tk i y" and "sys_step rnd e y = Inr y'"
  shows "buried tk i y'"
proof (cases e)
  case (Submit cb thr pri us)
  then show ?thesis using client_submit_workers(1) [of cb thr pri us y y'] assms by (simp add: buried_def)
next
  case Alloc
  then show ?thesis using buried_alloc assms by auto
next
  case (Work j locked)
  then have w: "work_step rnd j locked y = Inr y'" using assms(2) by simp
  show ?thesis
  proof (cases "j = i")
    case True
    then have "y' = y" using w assms(1) by (simp add: work_step_def Let_def buried_def)
    then show ?thesis using assms(1) by simp
  next
    case False
    then show ?thesis using w assms(1)
      by (auto simp: work_step_def Let_def buried_def res_simps split: if_splits option.splits)
  qed
qed (use assms in \<open>auto simp: buried_def stop_flag_def\<close>)

lemma buried_run: "buried tk i y \<Longrightarrow> run_events rnd es y = Inr y' \<Longrightarrow> buried tk i y'"
  by (induction es arbitrary: y) (fastforce simp: res_simps dest: buried_step)+

text \<open>The allocation thread gives the first task of the queue to the worker whose turn it is.\<close>

lemma alloc_buries:
  assumes ne: "g_workers (y_sched y) \<noteq> []" and i: "i = turn (y_sched y)"
    and e: "wt_exited (g_workers (y_sched y) ! i)" "w_count (wt_w (g_workers (y_sched y) ! i)) < 100000"
    and t: "g_tasks (y_sched y) = tk # ts" and r: "\<not> g_alloc_exited (y_sched y)"
    and c: "\<not> g_stop (y_sched y) \<or> 0 < g_count (y_sched y)"
  shows "buried tk i (alloc_step y)"
proof -
  let ?g = "y_sched y"
  have l: "i < length (g_workers ?g)" using turn_less [OF ne] i by simp
  have "given ?g \<noteq> 0" using e(2) t i by (simp add: given_def turn_def)
  then obtain n where n: "given ?g = Suc n" by (cases "given ?g") simp_all
  have "alloc_step y = y\<lparr>y_sched := alloc_iter ?g\<rparr>" using r c by (auto simp: alloc_step_def alloc_loop_def)
  then show ?thesis
    using alloc_iter_eq [OF ne n [symmetric] refl] l e t i by (simp add: buried_def)
qed

section \<open>The turn of the allocation thread\<close>

text \<open>While the flag is not raised, the turns go round, one for each iteration.\<close>

lemma turn_alloc_iter:
  assumes "g_workers g \<noteq> []"
  shows "turn (alloc_iter g) = Suc (turn g) mod length (g_workers g)"
proof -
  have "g_k (alloc_iter g) = Suc (turn g)" "length (g_workers (alloc_iter g)) = length (g_workers g)"
    using alloc_iter_eq [OF assms refl refl] by simp_all
  then show ?thesis using turn_less [OF assms] unfolding turn_def [of "alloc_iter g"] by (auto simp: mod_Suc)
qed

lemma step_turn:
  assumes "sys_step rnd e y = Inr y'" and "e \<noteq> Stop" and "\<not> g_stop (y_sched y)" and "\<not> g_alloc_exited (y_sched y)"
    and "g_workers (y_sched y) \<noteq> []"
  shows "\<not> g_stop (y_sched y') \<and> \<not> g_alloc_exited (y_sched y') \<and>
    length (g_workers (y_sched y')) = length (g_workers (y_sched y)) \<and>
    turn (y_sched y') = (if e = Alloc then Suc (turn (y_sched y)) mod length (g_workers (y_sched y)) else turn (y_sched y))"
proof (cases e)
  case (Submit cb thr pri us)
  then have "client_submit cb thr pri us y = Inr y'" using assms(1) by simp
  then have "g_stop (y_sched y') = g_stop (y_sched y) \<and> g_k (y_sched y') = g_k (y_sched y) \<and>
      g_workers (y_sched y') = g_workers (y_sched y) \<and> g_alloc_exited (y_sched y') = g_alloc_exited (y_sched y)"
    by (auto simp: client_submit_def res_simps Scheduler_submit_fiber_def Scheduler_submit_def split: if_splits)
  then show ?thesis using assms Submit by (simp add: turn_def)
next
  case Alloc
  have "y' = y\<lparr>y_sched := alloc_iter (y_sched y)\<rparr>"
    using assms(1,3,4) Alloc by (simp add: alloc_step_def alloc_loop_def)
  then show ?thesis
    using alloc_iter_eq [OF assms(5) refl refl] turn_alloc_iter [OF assms(5)] assms(3,4) Alloc by simp
next
  case (Work i b)
  then show ?thesis using assms
    by (auto simp: work_step_def Let_def res_simps turn_def split: if_splits option.splits)
qed (use assms in \<open>auto simp: turn_def\<close>)

lemma run_turn:
  "run_events rnd es y = Inr y' \<Longrightarrow> Stop \<notin> set es \<Longrightarrow> \<not> g_stop (y_sched y) \<Longrightarrow>
    \<not> g_alloc_exited (y_sched y) \<Longrightarrow> g_workers (y_sched y) \<noteq> [] \<Longrightarrow>
    \<not> g_stop (y_sched y') \<and> \<not> g_alloc_exited (y_sched y') \<and>
    length (g_workers (y_sched y')) = length (g_workers (y_sched y)) \<and>
    turn (y_sched y') = (turn (y_sched y) + count_list es Alloc) mod length (g_workers (y_sched y))"
proof (induction es arbitrary: y)
  case Nil
  then show ?case using turn_less [of "y_sched y"] by simp
next
  case (Cons e es)
  obtain z where z: "sys_step rnd e y = Inr z" "run_events rnd es z = Inr y'"
    using Cons.prems(1) by (auto simp: res_simps)
  have "e \<noteq> Stop" using Cons.prems(2) by auto
  note s = step_turn [OF z(1) this Cons.prems(3-5)]
  have "g_workers (y_sched z) \<noteq> []" using s Cons.prems(5) by (metis length_0_conv)
  then show ?case using Cons.IH [OF z(2)] s Cons.prems(2) by (auto simp: mod_simps)
qed

lemma exited_step:
  assumes "sys_step rnd e y = Inr y'" and "i < length (g_workers (y_sched y))" and "wt_exited (g_workers (y_sched y) ! i)"
  shows "i < length (g_workers (y_sched y')) \<and> wt_exited (g_workers (y_sched y') ! i)"
proof (cases e)
  case (Submit cb thr pri us)
  then show ?thesis using client_submit_workers(1) [of cb thr pri us y y'] assms by simp
next
  case Alloc
  have ne: "g_workers (y_sched y) \<noteq> []" using assms(2) by auto
  show ?thesis
    using assms Alloc alloc_iter_eq [OF ne refl refl]
    by (cases "i = turn (y_sched y)") (auto simp: alloc_step_def alloc_loop_def)
next
  case (Work j b)
  then show ?thesis using assms
    by (cases "i = j") (auto simp: work_step_def Let_def res_simps split: if_splits option.splits)
qed (use assms in \<open>auto simp: stop_flag_def\<close>)

lemma exited_run:
  "run_events rnd es y = Inr y' \<Longrightarrow> i < length (g_workers (y_sched y)) \<Longrightarrow> wt_exited (g_workers (y_sched y) ! i) \<Longrightarrow>
    wt_exited (g_workers (y_sched y') ! i)"
  by (induction es arbitrary: y) (fastforce simp: res_simps dest: exited_step)+

lemma queue_count_pos:
  assumes "queue_ok g" and "g_tasks g = tk # ts"
  shows "0 < g_count g"
proof -
  have l: "length ts < 10000" and c: "g_count g = of_nat (Suc (length ts))"
    using assms by (simp_all add: queue_ok_def)
  have "unat (of_nat (Suc (length ts)) :: u64) = Suc (length ts)"
    using l by (simp add: unat_of_nat take_bit_nat_eq_self del: of_nat_Suc)
  then show ?thesis unfolding c by (simp add: word_greater_zero_iff unat_eq_0 del: of_nat_Suc flip: unat_eq_zero)
qed

text \<open>A task in the queue of a worker has been accepted and is not finished.\<close>

lemma buried_unfinished:
  assumes inv: "sys_inv y" and b: "buried tk i y"
  shows "tk \<in> set (y_accepted y) \<and> tk \<notin> set (all_done y)"
proof -
  let ?ws = "g_workers (y_sched y)"
  have i: "i < length ?ws" and t: "tk \<in># tasks_of (wt_w (?ws ! i))"
    using b by (simp_all add: buried_def tasks_of_def)
  then have p: "tk \<in># parts tasks_of ?ws" using parts_split [OF i, of tasks_of] by simp
  then have "tk \<in># mset (y_accepted y)" using sys_invD(6) [OF inv] by (simp add: conserved_def)
  moreover have "fibers_of (parts bag ws) = image_mset tk_fiber (parts tasks_of ws)" for ws
    by (induction ws) (simp_all add: parts_def fibers_of_bag)
  then have "tk_fiber tk \<in># fibers_of (sys_bag (y_sched y))" using p by (simp add: sys_bag_def)
  then have "tk \<notin> set (all_done y)" using sys_invD(7) [OF inv] by (fastforce simp: done_ok_def all_done_def)
  ultimately show ?thesis by simp
qed

section \<open>Properties\<close>

text \<open>The events without a submission, which aborts once the flag is raised
  (\<open>submit_after_stop_aborts\<close>).\<close>

fun no_submit :: "event \<Rightarrow> bool" where
  "no_submit (Submit cb thr pri us) = False"
| "no_submit e = True"

text \<open>
  C28. \<open>stop\<close> can lose an accepted task. When the flag is raised while a task is in the queue of the
  scheduler, the worker whose turn is next ends in its next iteration exactly when it has no task of
  its own: its loop test does not look at the queue. The allocation thread, which goes on while the
  queue is not empty, then gives it that task; and whatever the threads do afterwards, the accepted
  task stays in the queue of the worker that has ended, unfinished.
\<close>

theorem stop_loses_task:
  assumes "reachable rnd y" and "g_stop (y_sched y)" and "\<not> g_alloc_exited (y_sched y)"
    and "i = turn (y_sched y)" and "i < length (g_workers (y_sched y))"
    and "\<not> wt_exited (g_workers (y_sched y) ! i)" and "g_tasks (y_sched y) = tk # ts"
  shows "\<exists>y1. sys_step rnd (Work i b) y = Inr y1 \<and>
    (wt_exited (g_workers (y_sched y1) ! i) \<longleftrightarrow> w_count (wt_w (g_workers (y_sched y) ! i)) = 0) \<and>
    (w_count (wt_w (g_workers (y_sched y) ! i)) = 0 \<longrightarrow>
      (\<forall>es y2. run_events rnd (Alloc # es) y1 = Inr y2 \<and> list_all no_submit es \<longrightarrow>
        tk \<in> set (y_accepted y2) \<and> tk \<in> set (t_init (wt_w (g_workers (y_sched y2) ! i))) \<and>
        wt_exited (g_workers (y_sched y2) ! i) \<and> tk \<notin> set (all_done y2)))"
proof -
  let ?g = "y_sched y" and ?wt = "g_workers (y_sched y) ! i"
  note inv = reachable_inv [OF assms(1)]
  have c0: "0 \<le> w_count (wt_w ?wt)"
    using sys_invD(4) [OF inv nth_mem [OF assms(5)]] by (simp add: thread_inv_def)
  obtain y1 where y1: "sys_step rnd (Work i b) y = Inr y1" using sys_step_ok [OF inv, of "Work i b" rnd] by auto
  have "reachable rnd y1" by (rule reach_step [OF assms(1) _ y1]) simp
  have ex: "wt_exited (g_workers (y_sched y1) ! i) \<longleftrightarrow> w_count (wt_w ?wt) = 0"
  proof (cases "w_count (wt_w ?wt) = 0")
    case True
    then show ?thesis using y1 assms(2,5,6) by (auto simp: work_step_def woker_loop_def Let_def)
  next
    case False
    then obtain w' s' r' where "woker_iter rnd b (wt_w ?wt) (view (wt_tls ?wt) y) (y_rand y) = Inr (w', s', r')"
      "y1 = y\<lparr>y_heap := fheap s', y_next := fnext s', y_rand := r',
         y_sched := ?g\<lparr>g_workers := (g_workers ?g)[i := ?wt\<lparr>wt_w := w', wt_tls := tls_of s'\<rparr>]\<rparr>\<rparr>"
      using y1 assms(5,6) c0 by (auto simp: work_step_def woker_loop_def Let_def res_simps)
    then show ?thesis using assms(5,6) False by simp
  qed
  have "tk \<in> set (y_accepted y2) \<and> tk \<in> set (t_init (wt_w (g_workers (y_sched y2) ! i))) \<and>
      wt_exited (g_workers (y_sched y2) ! i) \<and> tk \<notin> set (all_done y2)"
    if z: "w_count (wt_w ?wt) = 0" and r: "run_events rnd (Alloc # es) y1 = Inr y2" "list_all no_submit es"
    for es y2
  proof -
    have s: "y_sched y1 = ?g\<lparr>g_workers := (g_workers ?g)[i := ?wt\<lparr>wt_exited := True\<rparr>]\<rparr>"
      using y1 assms(2,5,6) z by (auto simp: work_step_def woker_loop_def Let_def)
    have "0 < g_count ?g" by (rule queue_count_pos [OF _ assms(7)]) (rule sys_invD(5) [OF inv])
    then have "buried tk i (alloc_step y1)"
      using assms(3-5,7) z s by (intro alloc_buries) (auto simp: turn_def)
    then have bu: "buried tk i y2" using buried_run r(1) by simp
    have "list_all (\<lambda>e. \<forall>z :: 'a sys. event_ok e z) (Alloc # es)"
      using r(2) by (auto simp: list_all_iff elim!: no_submit.elims)
    then have "reachable rnd y2" using run_reachable [OF \<open>reachable rnd y1\<close> r(1)] by blast
    from buried_unfinished [OF reachable_inv [OF this] bu] show ?thesis using bu by (simp add: buried_def)
  qed
  then show ?thesis using y1 ex by blast
qed

text \<open>
  C29. A scheduler that is started again after a \<open>stop\<close> whose joins have returned goes on feeding the
  workers that have ended, because \<open>start\<close> adds the new workers behind the old ones and the turns of
  the allocation thread go round over all of them. Whatever the events since the restart, as long as
  \<open>stop\<close> is not among them: when the allocation thread has made \<open>a\<close> iterations, the remainder of
  \<open>a\<close> by the number of workers is the place of an old worker, that worker holds fewer than 100000
  tasks, and the queue is not empty, then the next iteration gives the first task of the queue to
  that worker, and it stays in its queue for ever, whatever happens afterwards.
\<close>

theorem restart_feeds_exited:
  assumes "g_stop (y_sched y)" and "joins_return (y_sched y)" and "Scheduler_start (\<lambda>_. True) y = Inr y1"
    and "run_events rnd es y1 = Inr y2" and "Stop \<notin> set es"
    and "i = count_list es Alloc mod length (g_workers (y_sched y2))" and "i < length (g_workers (y_sched y))"
    and "w_count (wt_w (g_workers (y_sched y2) ! i)) < 100000" and "g_tasks (y_sched y2) = tk # ts"
    and "run_events rnd (Alloc # es') y2 = Inr y3"
  shows "tk \<in> set (t_init (wt_w (g_workers (y_sched y3) ! i))) \<and> wt_exited (g_workers (y_sched y3) ! i)"
proof -
  note r = restart_sched [OF assms(3,1)]
  obtain ws where ws: "g_workers (y_sched y1) = g_workers (y_sched y) @ ws" using r(1) by blast
  have ne: "g_workers (y_sched y1) \<noteq> []" using ws assms(7) by auto
  have t1: "turn (y_sched y1) = 0" using r(4) ne by (simp add: turn_def)
  note t = run_turn [OF assms(4,5) r(2,5) ne, unfolded t1]
  have i1: "i < length (g_workers (y_sched y1))" "wt_exited (g_workers (y_sched y1) ! i)"
    using ws assms(2,7) by (auto simp: joins_return_def list_all_length nth_append)
  have e: "wt_exited (g_workers (y_sched y2) ! i)" by (rule exited_run [OF assms(4) i1])
  have ne2: "g_workers (y_sched y2) \<noteq> []" using t ne by (metis length_0_conv)
  have i2: "i = turn (y_sched y2)" using t assms(6) by simp
  have "buried tk i (alloc_step y2)"
    by (rule alloc_buries [OF ne2 i2 e assms(8,9)]) (use t in simp_all)
  moreover have "run_events rnd es' (alloc_step y2) = Inr y3" using assms(10) by simp
  ultimately have "buried tk i y3" by (rule buried_run)
  then show ?thesis by (simp add: buried_def)
qed

section \<open>Instances\<close>

text \<open>The flag is raised while the only task is in the queue; the worker has none.\<close>

definition demo_stopping :: "nat sys" where
  "demo_stopping = demo_state_after [demo_submit, Stop]"

lemma demo_stopping_check:
  "case demo_run [demo_submit, Stop] of Inl _ \<Rightarrow> False | Inr y \<Rightarrow>
    g_stop (y_sched y) \<and> \<not> g_alloc_exited (y_sched y) \<and> turn (y_sched y) = 0 \<and>
    map (\<lambda>wt. (wt_exited wt, w_count (wt_w wt))) (g_workers (y_sched y)) = [(False, 0)] \<and>
    map tk_fiber (g_tasks (y_sched y)) = [2]"
  by code_simp

lemmas demo_stopping_facts = demo_run_ok [OF demo_stopping_check, folded demo_stopping_def]

lemma demo_stopping_reachable: "reachable demo_rand demo_stopping"
proof (rule run_reachable [OF demo_queued_reachable])
  show "run_events demo_rand [Stop] demo_queued = Inr demo_stopping"
    using demo_run_append [of "[demo_submit]" "[Stop]"] demo_queued_facts demo_stopping_facts by simp
  show "list_all (\<lambda>e. \<forall>z :: nat sys. event_ok e z) [Stop]"
    unfolding list_all_iff by (intro ballI allI) auto
qed

lemma demo_lost_check:
  "case demo_run [demo_submit, Stop, Work 0 True, Alloc, Work 0 True, Alloc, Tick 9] of Inl _ \<Rightarrow> False
     | Inr y \<Rightarrow> True"
  by code_simp

theorem stop_loses_task_witness:
  "\<exists>tk y2. run_events demo_rand [Work 0 True, Alloc, Work 0 True, Alloc, Tick 9] demo_stopping = Inr y2 \<and>
    tk \<in> set (y_accepted y2) \<and> tk \<notin> set (all_done y2)"
proof -
  note f = demo_stopping_facts [THEN conjunct2]
  obtain wt where wt: "g_workers (y_sched demo_stopping) = [wt]" "\<not> wt_exited wt" "w_count (wt_w wt) = 0"
    using f by auto
  obtain tk where tk: "g_tasks (y_sched demo_stopping) = [tk]" using f by auto
  have c: "g_stop (y_sched demo_stopping)" "\<not> g_alloc_exited (y_sched demo_stopping)"
    "0 = turn (y_sched demo_stopping)" "0 < length (g_workers (y_sched demo_stopping))"
    "\<not> wt_exited (g_workers (y_sched demo_stopping) ! 0)" using f wt by simp_all
  let ?es = "[Work 0 True, Alloc, Work 0 True, Alloc, Tick 9]"
  have "\<exists>y2. bindR (Inr demo_stopping) (run_events demo_rand ?es) = Inr y2"
    using demo_run_ok [OF demo_lost_check, THEN conjunct1] demo_stopping_facts [THEN conjunct1]
      demo_run_append [of "[demo_submit, Stop]" ?es] by (metis append.simps)
  then obtain y2 where y2: "run_events demo_rand ?es demo_stopping = Inr y2" by auto
  then obtain y1 where y1: "sys_step demo_rand (Work 0 True) demo_stopping = Inr y1"
    "run_events demo_rand (Alloc # [Work 0 True, Alloc, Tick 9]) y1 = Inr y2"
    unfolding run_events.simps(2) [of demo_rand "Work 0 True"] bindR_eq_Inr by blast
  have "list_all no_submit [Work 0 True, Alloc, Tick 9]" by simp
  moreover have "w_count (wt_w (g_workers (y_sched demo_stopping) ! 0)) = 0" by (simp add: wt)
  ultimately have "tk \<in> set (y_accepted y2) \<and> tk \<notin> set (all_done y2)"
    using stop_loses_task [OF demo_stopping_reachable c tk, of True] y1(2)
    unfolding y1(1) sum.inject by blast
  then show ?thesis using y2 by blast
qed

text \<open>
  The restarted scheduler of one thread has an old worker and a new one. The allocation thread makes
  two iterations before the task is submitted, so that its turn is at the old worker again.
\<close>

definition demo_restart_run :: "nat sys \<Rightarrow> nat sys res" where
  "demo_restart_run y2 = run_events demo_rand [Alloc, Work 0 True, Work 1 True, Alloc] y2"

lemma demo_restart_check:
  "case demo_run [demo_submit, Stop, Work 0 True, Alloc, Alloc] of Inl _ \<Rightarrow> False | Inr y \<Rightarrow>
    length (g_workers (y_sched y)) = 1 \<and>
    (case Scheduler_start (\<lambda>_. True) y of Inl _ \<Rightarrow> False | Inr y1 \<Rightarrow>
      case run_events demo_rand [Alloc, Work 1 True, Alloc, demo_submit] y1 of Inl _ \<Rightarrow> False | Inr y2 \<Rightarrow>
        length (g_workers (y_sched y2)) = 2 \<and> w_count (wt_w (g_workers (y_sched y2) ! 0)) = 1 \<and>
        length (g_tasks (y_sched y2)) = 1 \<and> ok (demo_restart_run y2))"
  by code_simp

theorem restart_feeds_exited_witness:
  "\<exists>y1 y2 y3 tk. Scheduler_start (\<lambda>_. True) demo_stopped = Inr y1 \<and>
    run_events demo_rand [Alloc, Work 1 True, Alloc, demo_submit] y1 = Inr y2 \<and> g_tasks (y_sched y2) = [tk] \<and>
    run_events demo_rand [Alloc, Work 0 True, Work 1 True, Alloc] y2 = Inr y3 \<and>
    tk \<in> set (t_init (wt_w (g_workers (y_sched y3) ! 0)))"
proof -
  note f = demo_run_ok [OF demo_restart_check, folded demo_stopped_def]
  obtain y1 y2 y3 tk where y: "Scheduler_start (\<lambda>_. True) demo_stopped = Inr y1"
    "run_events demo_rand [Alloc, Work 1 True, Alloc, demo_submit] y1 = Inr y2"
    "run_events demo_rand [Alloc, Work 0 True, Work 1 True, Alloc] y2 = Inr y3"
    "length (g_workers (y_sched demo_stopped)) = 1" "length (g_workers (y_sched y2)) = 2"
    "w_count (wt_w (g_workers (y_sched y2) ! 0)) = 1" "g_tasks (y_sched y2) = [tk]"
    using f unfolding demo_restart_run_def ok_iff by (auto split: sum.splits simp: length_Suc_conv)
  have s: "g_stop (y_sched demo_stopped)" "joins_return (y_sched demo_stopped)"
    using demo_stopped_facts by simp_all
  have "Stop \<notin> set [Alloc, Work 1 True, Alloc, demo_submit]" by simp
  from restart_feeds_exited [OF s y(1,2) this, of 0 tk "[]" "[Work 0 True, Work 1 True, Alloc]" y3] y
  have "tk \<in> set (t_init (wt_w (g_workers (y_sched y3) ! 0)))" by (simp del: run_events.simps)
  then show ?thesis using y by blast
qed

end
