(* ===== verification/Owners.thy ===== *)
theory Owners
  imports Schedulers
begin

text \<open>
  Who owns the fibers of a scheduler: the shared pointers (\<open>Fiber::ptr\<close>) of
  \<open>sylar/fiber.h\<close> and \<open>sylar/scheduler.h\<close> are those of the threads to their main fibers and of
  the queued tasks to theirs. The use counts of the heap are the numbers of these pointers, so
  that no fiber is freed too early and none is left behind.
\<close>

section \<open>Counting pointers\<close>

text \<open>The use counts when the pointers are the elements of \<open>M\<close>.\<close>

definition counted :: "ptr multiset \<Rightarrow> ptr \<rightharpoonup> nat" where
  "counted M f = (if f \<in># M then Some (count M f) else None)"

lemma counted_None [simp]: "counted M f = None \<longleftrightarrow> f \<notin># M"
  by (simp add: counted_def)

lemma counted_empty [simp]: "counted {#} = Map.empty"
  by (simp add: counted_def fun_eq_iff)

lemma counted_new: "f \<notin># M \<Longrightarrow> counted (add_mset f M) = (counted M)(f \<mapsto> 1)"
  by (auto simp: counted_def fun_eq_iff count_eq_zero_iff)

lemma counted_copy: "counted M f = Some n \<Longrightarrow> counted (add_mset f M) = (counted M)(f \<mapsto> Suc n)"
  by (auto simp: counted_def fun_eq_iff split: if_splits)

lemma released_counted: "released M (counted (M + N)) = counted N"
proof
  show "released M (counted (M + N)) f = counted N f" for f
    by (cases "f \<in># M"; cases "f \<in># N")
      (auto simp: released_def counted_def not_in_iff simp flip: count_greater_zero_iff)
qed

text \<open>A pointer that may be null.\<close>

definition opt_mset :: "'a option \<Rightarrow> 'a multiset" where
  "opt_mset p = (case p of None \<Rightarrow> {#} | Some a \<Rightarrow> {#a#})"

lemma opt_mset_simps [simp]: "opt_mset None = {#}" "opt_mset (Some a) = {#a#}"
  by (simp_all add: opt_mset_def)

section \<open>The owners\<close>

definition mains :: "'r sys \<Rightarrow> ptr multiset" where
  "mains y = opt_mset (main_fiber (y_caller y)) +
     (\<Sum>wt \<leftarrow> g_workers (y_sched y). opt_mset (main_fiber (wt_tls wt)))"

definition owners :: "'r sys \<Rightarrow> ptr multiset" where
  "owners y = mains y + fibers_of (sys_bag (y_sched y))"

text \<open>A step of a worker does not change its main fiber.\<close>

lemma mains_update:
  assumes "i < length ws" and "main_fiber (wt_tls wt) = main_fiber (wt_tls (ws ! i))"
  shows "map (\<lambda>v. opt_mset (main_fiber (wt_tls v))) (ws[i := wt]) =
    map (\<lambda>v. opt_mset (main_fiber (wt_tls v))) ws"
proof -
  have "(map (\<lambda>v. opt_mset (main_fiber (wt_tls v))) ws)[i := opt_mset (main_fiber (wt_tls wt))] =
      map (\<lambda>v. opt_mset (main_fiber (wt_tls v))) ws"
    using assms by (simp add: list_update_same_conv)
  then show ?thesis by (simp add: map_update)
qed

text \<open>\<open>M\<close> are the pointers held outside the scheduler.\<close>

definition refs_ok :: "ptr multiset \<Rightarrow> 'r sys \<Rightarrow> bool" where
  "refs_ok M y = (refs_of (y_heap y) = counted (owners y + M))"

lemma refs_ok_dom: "refs_ok M y \<Longrightarrow> y_heap y f = None \<longleftrightarrow> f \<notin># owners y + M"
  unfolding refs_ok_def by (metis counted_None refs_of_None)

text \<open>Adding an object with one pointer to it, and following a change without effect on them.\<close>

lemma refs_ok_new:
  assumes "refs_ok M y" and "y_heap y f = None" and "refs_of (y_heap y') = (refs_of (y_heap y))(f \<mapsto> 1)"
    and "owners y' + M' = add_mset f (owners y + M)"
  shows "refs_ok M' y'"
  using counted_new [of f "owners y + M"] refs_ok_dom [OF assms(1), of f] assms
  by (simp add: refs_ok_def)

lemma refs_ok_cong:
  assumes "refs_ok M y" and "refs_of (y_heap y') = refs_of (y_heap y)" and "owners y' + M' = owners y + M"
  shows "refs_ok M' y'"
  using assms by (simp add: refs_ok_def)

section \<open>Every step keeps the counts right\<close>

lemma spawn_refs:
  assumes "sys_inv y" and "refs_ok M y" and "spawn_worker name y = Inr y'"
  shows "refs_ok M y'"
proof -
  let ?n = "y_next y"
  have new: "y_heap y ?n = None"
    using sys_invD(2) [OF assms(1), of "y_caller y"] by (simp add: heap_fresh_def)
  have y': "refs_of (y_heap y') = (refs_of (y_heap y))(?n \<mapsto> 1)" "y_caller y' = y_caller y"
    "g_tasks (y_sched y') = g_tasks (y_sched y)"
    "\<exists>wt. g_workers (y_sched y') = g_workers (y_sched y) @ [wt] \<and> main_fiber (wt_tls wt) = Some ?n \<and>
      wt_w wt = woker_new name"
    using assms(3) by (auto simp: spawn_worker_def GetThis_def Fiber_main_def Let_def tls_new_def)
  then have "owners y' = add_mset ?n (owners y)"
    by (auto simp: owners_def mains_def sys_bag_def parts_snoc woker_new_empty)
  then show ?thesis using refs_ok_new [OF assms(2) new y'(1)] by simp
qed

lemma start_loop_refs:
  "sys_inv y \<Longrightarrow> refs_ok M y \<Longrightarrow> start_loop created is y = Inr y' \<Longrightarrow> refs_ok M y'"
proof (induction "is" arbitrary: y)
  case (Cons i "is")
  let ?name = "g_name (y_sched y) @ ''_woker'' @ to_string i"
  obtain z where z: "spawn_worker ?name y = Inr z" "start_loop created is z = Inr y'"
    using Cons.prems(3) by (auto simp: res_simps split: if_splits)
  have "sys_inv z" using spawn_worker_ok [OF Cons.prems(1), of ?name] z(1) by auto
  then show ?case using Cons.IH [OF _ spawn_refs [OF Cons.prems(1,2) z(1)] z(2)] by blast
qed simp

text \<open>A fiber that the client has just made: the client's pointer is the only one.\<close>

lemma created_refs:
  assumes inv: "sys_inv y" and refs: "refs_ok M y"
    and c: "CreatFiber cb sz True (view (y_caller y) y) = Inr (f, s)"
  shows "refs_ok (add_mset f M) (client_state (y_sched y) s acc y)"
proof -
  let ?v = "view (y_caller y) y"
  let ?w = "with_main ?v"
  let ?z = "client_state (y_sched y) ?w acc y"
  have t: "thread_ok ?v" and fr: "heap_fresh ?v"
    using sys_invD(1,2) [OF inv] by (simp_all add: caller_ok_def)
  have w: "refs_ok M ?z"
  proof (cases "this_fiber ?v = None")
    case True
    then have m: "main_fiber (y_caller y) = None" using t by (simp add: thread_ok_def)
    have n: "y_heap y (y_next y) = None" using fr by (simp add: heap_fresh_def)
    have h: "refs_of (fheap ?w) = (refs_of (y_heap y))(y_next y \<mapsto> 1)" "main_fiber ?w = Some (y_next y)"
      using True by (simp_all add: with_main_def Fiber_main_def Let_def)
    then have "owners ?z = add_mset (y_next y) (owners y)"
      using m by (simp add: owners_def mains_def client_state_def)
    then show ?thesis using refs_ok_new [OF refs n, of ?z] h(1) by (simp add: client_state_def)
  next
    case False
    then show ?thesis
      using refs by (auto simp: with_main_def client_state_def refs_ok_def owners_def mains_def)
  qed
  have fs: "f = fnext ?w" "refs_of (fheap s) = (refs_of (fheap ?w))(f \<mapsto> 1)" "main_fiber s = main_fiber ?w"
    using c by (auto simp: CreatFiber_eq Fiber_ctor_eq)
  have n: "y_heap ?z f = None"
    using with_main_ok(2) [OF t fr] fs(1) by (simp add: client_state_def heap_fresh_def)
  show ?thesis
    by (rule refs_ok_new [OF w n]) (simp_all add: client_state_def fs(2,3) owners_def mains_def)
qed

lemma client_submit_refs:
  assumes inv: "sys_inv y" and refs: "refs_ok M y" and ids: "fiberIds (y_caller y) < - 1"
    and run: "\<not> g_stop (y_sched y)" and r: "client_submit cb thr pri us y = Inr y'"
  shows "refs_ok M y'"
proof -
  let ?g = "y_sched y"
  obtain f i s where c: "CreatFiber (Some cb) 4096 True (view (y_caller y) y) = Inr (f, s)"
    and s: "on_main s" and f: "fheap s f = Some (new_fiber cb i)" "i \<noteq> 0"
    using created_ok [OF inv ids, of cb] by blast
  let ?t = "Task_ctor f thr pri us"
  have h: "refs_ok (add_mset f M) (client_state ?g s acc y)" for acc
    by (rule created_refs [OF inv refs c])
  have y': "y' = client_state g s' (y_accepted y @ drop (length (g_tasks ?g)) (g_tasks g)) y"
    if "Scheduler_submit ?t ?g s = Inr (g, s')" for g s'
    using that r by (simp add: client_submit_def c Scheduler_submit_fiber_def client_state_def)
  show ?thesis
  proof (cases "length (g_tasks ?g) < 10000")
    case True
    show ?thesis
      unfolding y' [OF submit_open(1) [OF run True]]
      by (rule refs_ok_cong [OF h [of "[]"]])
        (simp_all add: client_state_def owners_def mains_def sys_bag_def)
  next
    case False
    let ?b = "(new_fiber cb i)\<lparr>fb_state := DESTROY\<rparr>"
    let ?s = "let_go f ?b (store f ?b s)"
    have e: "Scheduler_submit ?t ?g s = Inr (?g, ?s)"
      using submit_open(2) [OF run False s, of ?t "new_fiber cb i"] f by (simp add: Let_def new_fiber_def)
    have "refs_of (fheap ?s) = released {#f#} (refs_of (fheap s))"
      using let_go_refs [of "store f ?b s" f ?b] refs_of_keep [of "fheap s" f "new_fiber cb i" ?b] f(1) by simp
    also have "\<dots> = released {#f#} (counted ({#f#} + (owners (client_state ?g s [] y) + M)))"
      using h [of "[]"] by (simp add: refs_ok_def client_state_def)
    also have "\<dots> = counted (owners (client_state ?g s [] y) + M)" by (rule released_counted)
    finally show ?thesis
      unfolding y' [OF e] by (simp add: refs_ok_def client_state_def owners_def mains_def let_go_def)
  qed
qed

lemma worked_refs:
  assumes inv: "sys_inv y" and refs: "refs_ok M y" and i: "i < length (g_workers (y_sched y))"
    and wt: "wt = g_workers (y_sched y) ! i"
    and adv: "advanced (wt_w wt) (view (wt_tls wt) y) w' s'"
  shows "refs_ok M (worked i w' s' r y)"
proof -
  let ?g = "y_sched y" and ?y = "worked i w' s' r y"
  let ?ws = "g_workers ?g"
  obtain h n ended where s': "s' = view (wt_tls wt) y\<lparr>fheap := h, fiber_count := n\<rparr>"
    and ts: "tasks_of (wt_w wt) = tasks_of w' + mset ended"
    and r: "refs_of h = released (mset (map tk_fiber ended)) (refs_of (fheap (view (wt_tls wt) y)))"
    by (rule advancedD [OF adv])
  have b: "fibers_of (bag (wt_w wt)) = mset (map tk_fiber ended) + fibers_of (bag w')"
    by (simp add: fibers_of_bag ts)
  have o: "owners y = mset (map tk_fiber ended) + owners ?y"
  proof -
    let ?rest = "labelled INIT (g_tasks ?g) + parts bag (take i ?ws @ drop (Suc i) ?ws)"
    have "sys_bag ?g = bag (wt_w wt) + ?rest" "sys_bag (y_sched ?y) = bag w' + ?rest"
      using sys_bag_split [OF i] sys_bag_update [OF i] by (simp_all add: wt worked_simps)
    then have "fibers_of (sys_bag ?g) = mset (map tk_fiber ended) + fibers_of (sys_bag (y_sched ?y))"
      using b by simp
    moreover have "mains ?y = mains y"
      using mains_update [OF i, of "wt\<lparr>wt_w := w', wt_tls := tls_of s'\<rparr>"]
      by (simp add: mains_def worked_simps wt s' del: map_update)
    ultimately show ?thesis by (simp add: owners_def)
  qed
  have "refs_of h = released (mset (map tk_fiber ended))
      (counted (mset (map tk_fiber ended) + (owners ?y + M)))"
    using r refs o by (simp add: refs_ok_def add.assoc)
  also have "\<dots> = counted (owners ?y + M)" by (rule released_counted)
  finally show ?thesis by (simp add: refs_ok_def worked_simps s')
qed

lemma alloc_step_refs:
  assumes "refs_ok M y"
  shows "refs_ok M (alloc_step y)"
proof (cases "g_alloc_exited (y_sched y) \<or> \<not> (\<not> g_stop (y_sched y) \<or> 0 < g_count (y_sched y)) \<or>
    g_workers (y_sched y) = []")
  case True
  then show ?thesis
    by (auto simp: alloc_step_def alloc_loop_def alloc_iter_def
        intro!: refs_ok_cong [OF assms] simp: owners_def mains_def sys_bag_def)
next
  case False
  let ?g = "y_sched y"
  have ne: "g_workers ?g \<noteq> []" using False by simp
  have "mains (alloc_step y) = mains y"
    using False mains_update [OF turn_less [OF ne]]
    by (simp add: mains_def alloc_step_def alloc_loop_def alloc_iter_eq [OF ne refl refl])
  then show ?thesis
    using False alloc_iter_bag [OF ne]
    by (auto simp: alloc_step_def alloc_loop_def owners_def intro!: refs_ok_cong [OF assms])
qed

lemma work_stepE:
  assumes inv: "sys_inv y" and r: "work_step rnd i locked y = Inr y'"
  obtains (none) "y' = y"
    | (exit) wt where "i < length (g_workers (y_sched y))" and "wt = g_workers (y_sched y) ! i"
        and "y' = y\<lparr>y_sched := (y_sched y)\<lparr>g_workers :=
          (g_workers (y_sched y))[i := wt\<lparr>wt_exited := True\<rparr>]\<rparr>\<rparr>"
    | (iter) wt w' s' r' where "i < length (g_workers (y_sched y))" and "wt = g_workers (y_sched y) ! i"
        and "advanced (wt_w wt) (view (wt_tls wt) y) w' s'" and "y' = worked i w' s' r' y"
proof (cases "length (g_workers (y_sched y)) \<le> i \<or> wt_exited (g_workers (y_sched y) ! i)")
  case True
  then show thesis using r none by (auto simp: work_step_def Let_def)
next
  case False
  then have i: "i < length (g_workers (y_sched y))" "\<not> wt_exited (g_workers (y_sched y) ! i)" by auto
  define wt where "wt = g_workers (y_sched y) ! i"
  have w: "woker_inv (wt_w wt) (view (wt_tls wt) y)"
  proof (rule woker_inv_view)
    show "thread_inv wt y" using sys_invD(4) [OF inv] i(1) by (simp add: wt_def)
    show "bag_ok (bag (wt_w wt)) (view (wt_tls wt) y)"
      using sys_invD(3) [OF inv, of "wt_tls wt"] sys_bag_split [OF i(1)]
      by (simp add: bag_ok_plus wt_def)
  qed
  obtain x where x: "woker_loop rnd (g_stop (y_sched y)) locked (wt_w wt) (view (wt_tls wt) y)
      (y_rand y) = Inr x"
    "case x of None \<Rightarrow> True | Some (w', s', r') \<Rightarrow> advanced (wt_w wt) (view (wt_tls wt) y) w' s'"
    using woker_loop_ok [OF w, of rnd "g_stop (y_sched y)" locked "y_rand y"] by blast
  show thesis
  proof (cases x)
    case None
    then show thesis using exit [OF i(1) wt_def] r i x(1) by (simp add: work_step_def Let_def wt_def)
  next
    case (Some p)
    obtain w' s' r' where p: "p = (w', s', r')" by (cases p) auto
    have adv: "advanced (wt_w wt) (view (wt_tls wt) y) w' s'" using x(2) Some p by simp
    have "y' = worked i w' s' r' y"
      using r i x(1) Some p worked_inv [OF inv i(1) wt_def adv, of r']
      by (simp add: work_step_def Let_def worked_def wt_def)
    then show thesis by (rule iter [OF i(1) wt_def adv])
  qed
qed

lemma work_step_refs:
  assumes inv: "sys_inv y" and refs: "refs_ok M y" and r: "work_step rnd i locked y = Inr y'"
  shows "refs_ok M y'"
  using inv r
proof (cases rule: work_stepE)
  case (exit wt)
  then show ?thesis
    using mains_update [OF exit(1), of "wt\<lparr>wt_exited := True\<rparr>"]
    by (intro refs_ok_cong [OF refs]) (simp_all add: owners_def mains_def sys_bag_def parts_same)
next
  case (iter wt w' s' r')
  then show ?thesis using worked_refs [OF inv refs] by simp
qed (use refs in simp)

text \<open>What a step leaves alone: the fibers that are no tasks.\<close>

lemma sys_step_frame:
  assumes inv: "sys_inv y" and e: "event_ok e y" and r: "sys_step rnd e y = Inr y'"
    and f: "f < y_next y" "f \<notin># fibers_of (sys_bag (y_sched y))"
  shows "y_heap y' f = y_heap y f"
proof (cases e)
  case (Submit cb thr pri us)
  then show ?thesis using client_submit_ok [OF inv, of cb thr pri us] e r f(1) by auto
next
  case (Work i locked)
  then have w: "work_step rnd i locked y = Inr y'" using r by simp
  show ?thesis
    using inv w
  proof (cases rule: work_stepE)
    case (iter wt w' s' r')
    obtain h n where "s' = view (wt_tls wt) y\<lparr>fheap := h, fiber_count := n\<rparr>"
      "\<And>f. f \<notin> own (wt_w wt) \<Longrightarrow> h f = fheap (view (wt_tls wt) y) f"
      by (rule advancedD [OF iter(3)]) blast
    moreover have "f \<notin> own (wt_w wt)"
      using f(2) fibers_of_worker [of wt "y_sched y" f] iter(1,2) by (auto simp: own_bag)
    ultimately show ?thesis using iter(4) by (simp add: worked_simps)
  qed simp_all
qed (use r in \<open>auto simp: alloc_step_def split: option.split\<close>)

text \<open>What it changes: accepted tasks are never forgotten, and a stop is not taken back.\<close>

lemma sys_step_extends:
  assumes inv: "sys_inv y" and e: "event_ok e y" and r: "sys_step rnd e y = Inr y'"
  shows "set (y_accepted y) \<subseteq> set (y_accepted y')"
    and "this_fiber (y_caller y) \<noteq> None \<Longrightarrow> this_fiber (y_caller y') \<noteq> None"
    and "e \<noteq> Stop \<Longrightarrow> g_stop (y_sched y') = g_stop (y_sched y)"
proof -
  have *: "set (y_accepted y) \<subseteq> set (y_accepted y') \<and>
    (this_fiber (y_caller y) \<noteq> None \<longrightarrow> this_fiber (y_caller y') \<noteq> None) \<and>
    (e \<noteq> Stop \<longrightarrow> g_stop (y_sched y') = g_stop (y_sched y))"
  proof (cases e)
    case (Submit cb thr pri us)
    then have s: "client_submit cb thr pri us y = Inr y'" using r by simp
    have "set (y_accepted y) \<subseteq> set (y_accepted y')"
      using s by (auto simp: client_submit_def res_simps)
    then show ?thesis
      using client_submit_ok [OF inv, of cb thr pri us] e Submit s by (auto split: if_splits)
  next
    case (Work i locked)
    then have w: "work_step rnd i locked y = Inr y'" using r by simp
    show ?thesis using inv w by (cases rule: work_stepE) (simp_all add: worked_simps)
  next
    case Alloc
    have "g_stop (alloc_iter (y_sched y)) = g_stop (y_sched y)"
      by (cases "g_workers (y_sched y) = []")
        (simp add: alloc_iter_def, simp add: alloc_iter_eq [OF _ refl refl])
    then show ?thesis using Alloc r by (auto simp: alloc_step_def alloc_loop_def split: if_splits)
  qed (use r in auto)
  then show "set (y_accepted y) \<subseteq> set (y_accepted y')"
    and "this_fiber (y_caller y) \<noteq> None \<Longrightarrow> this_fiber (y_caller y') \<noteq> None"
    and "e \<noteq> Stop \<Longrightarrow> g_stop (y_sched y') = g_stop (y_sched y)" by blast+
qed

text \<open>A task stays a task until it has ended.\<close>

lemma bag_step:
  assumes "sys_inv y" and "sys_inv y'" and "set (y_accepted y) \<subseteq> set (y_accepted y')"
    and "f \<in># fibers_of (sys_bag (y_sched y))"
  shows "f \<in># fibers_of (sys_bag (y_sched y')) \<or> (\<forall>b. y_heap y' f = Some b \<longrightarrow> fiber_ended b)"
proof -
  have b: "fibers_of (sys_bag g) = image_mset tk_fiber (mset (g_tasks g) + parts tasks_of (g_workers g))" for g
  proof -
    have "fibers_of (parts bag ws) = image_mset tk_fiber (parts tasks_of ws)" for ws
      by (induction ws) (simp_all add: parts_def fibers_of_bag)
    then show ?thesis by (simp add: sys_bag_def)
  qed
  have d: "tk \<in># parts (\<lambda>w. mset (w_done w)) ws \<Longrightarrow> \<exists>wt \<in> set ws. tk \<in> set (w_done (wt_w wt))" for tk ws
    by (induction ws) (auto simp: parts_def)
  obtain tk where tk: "f = tk_fiber tk"
    "tk \<in># mset (g_tasks (y_sched y)) + parts tasks_of (g_workers (y_sched y))"
    using assms(4) unfolding b by auto
  then have "tk \<in># mset (y_accepted y)" using sys_invD(6) [OF assms(1)] by (auto simp: conserved_def)
  then have "tk \<in># mset (y_accepted y')" using assms(3) by auto
  then have "tk \<in># mset (g_tasks (y_sched y')) + parts tasks_of (g_workers (y_sched y')) \<or>
      tk \<in># parts (\<lambda>w. mset (w_done w)) (g_workers (y_sched y'))"
    using sys_invD(6) [OF assms(2)] by (simp only: conserved_def union_iff disj_assoc)
  then show ?thesis
  proof
    assume "tk \<in># mset (g_tasks (y_sched y')) + parts tasks_of (g_workers (y_sched y'))"
    then show ?thesis using tk(1) unfolding b by auto
  next
    assume "tk \<in># parts (\<lambda>w. mset (w_done w)) (g_workers (y_sched y'))"
    from d [OF this] show ?thesis using sys_invD(7) [OF assms(2)] tk(1) by (auto simp: done_ok_def)
  qed
qed

lemma sys_step_refs:
  assumes "sys_inv y" and "refs_ok M y" and "event_ok e y" and "sys_step rnd e y = Inr y'"
  shows "refs_ok M y'"
proof (cases e)
  case (Submit cb thr pri us)
  then show ?thesis using client_submit_refs [OF assms(1,2)] assms(3,4) by simp
next
  case Alloc
  then show ?thesis using alloc_step_refs [OF assms(2)] assms(4) by auto
next
  case (Work i locked)
  then show ?thesis using work_step_refs [OF assms(1,2)] assms(4) by simp
qed (use assms(2,4) in \<open>auto simp: refs_ok_def owners_def mains_def stop_flag_def sys_bag_def\<close>)

lemma start_refs:
  assumes "Scheduler_start (\<lambda>_. True) (sys_new n name now r) = Inr y"
  shows "refs_ok {#} y"
proof -
  let ?y = "(sys_new n name now r)\<lparr>y_sched := (y_sched (sys_new n name now r))\<lparr>g_stop := False\<rparr>\<rparr>"
  have inv: "sys_inv ?y" by (rule sys_inv_sched_cong [OF sys_new_inv [of n name now r] refl]) simp_all
  obtain y1 where y1: "start_loop (\<lambda>_. True) [0..<unat n] ?y = Inr y1" "g_tasks (y_sched y1) = []"
    using start_loop_ok [OF inv, of "[0..<unat n]"] by (auto simp: sys_new_def)
  have "refs_ok {#} ?y"
    by (simp add: refs_ok_def owners_def mains_def sys_new_def sys_bag_def parts_Nil refs_of_def
        tls_new_def fun_eq_iff)
  then have refs: "refs_ok {#} y1" by (rule start_loop_refs [OF inv _ y1(1)])
  have "y = y1\<lparr>y_sched := (y_sched y1)\<lparr>g_tasks := [], g_k := 0, g_alloc_exited := False\<rparr>\<rparr>"
    using assms y1 by (simp add: Scheduler_start_def sys_new_def)
  then show ?thesis
    using y1(2) by (intro refs_ok_cong [OF refs]) (simp_all add: owners_def mains_def sys_bag_def)
qed

lemma reachable_refs: "reachable rnd y \<Longrightarrow> refs_ok {#} y"
proof (induction rule: reachable.induct)
  case (reach_start n name now r y)
  then show ?case by (rule start_refs)
next
  case (reach_step y e y')
  then show ?case using sys_step_refs [OF reachable_inv] by blast
qed

lemma in_sum_mset: "f \<in># (\<Sum>x \<leftarrow> xs. g x) \<longleftrightarrow> (\<exists>x \<in> set xs. f \<in># g x)"
  by (induction xs) auto

text \<open>Main fibers have identifier 0, the fibers of tasks do not.\<close>

lemma mains_id:
  assumes "sys_inv y" and "f \<in># mains y"
  shows "\<exists>b. y_heap y f = Some b \<and> fb_id b = 0"
proof -
  have "\<exists>t. main_fiber t = Some f \<and> main_ok (view t y)"
  proof (cases "f \<in># opt_mset (main_fiber (y_caller y))")
    case True
    then have "main_fiber (y_caller y) = Some f" by (auto simp: opt_mset_def split: option.splits)
    then show ?thesis
      using sys_invD(1) [OF assms(1)]
      by (auto simp: caller_ok_def thread_ok_def on_main_def split: if_splits)
  next
    case False
    then obtain wt where "wt \<in> set (g_workers (y_sched y))" "f \<in># opt_mset (main_fiber (wt_tls wt))"
      using assms(2) by (auto simp: mains_def in_sum_mset)
    then show ?thesis
      using sys_invD(4) [OF assms(1)]
      by (intro exI [of _ "wt_tls wt"])
        (auto simp: opt_mset_def thread_inv_def on_main_def split: option.splits)
  qed
  then show ?thesis using main_id by blast
qed

lemma task_not_main:
  assumes "sys_inv y" and "f \<in># fibers_of (sys_bag (y_sched y))"
  shows "f \<notin># mains y"
  using mains_id [OF assms(1), of f] bag_id [OF sys_invD(3) [OF assms(1), of "y_caller y"] assms(2)]
  by auto

text \<open>The use count of a fiber is the number of its owners, and a task is the only one of its fiber.\<close>

lemma refs_count:
  assumes "refs_ok M y" and "y_heap y f = Some b"
  shows "fb_refs b = count (owners y + M) f"
proof -
  have "refs_of (y_heap y) f = counted (owners y + M) f" using assms(1) by (simp add: refs_ok_def)
  then show ?thesis using assms(2) by (simp add: refs_of_def counted_def split: if_splits)
qed

lemma task_one_owner:
  assumes "sys_inv y" and "f \<in># fibers_of (sys_bag (y_sched y))"
  shows "count (owners y) f = 1"
proof -
  have "count (fibers_of (sys_bag (y_sched y))) f = 1"
    using sys_invD(3) [OF assms(1), of "y_caller y"] assms(2) by (simp add: bag_ok_def)
  then show ?thesis using task_not_main [OF assms] by (simp add: owners_def not_in_iff)
qed

lemma done_gone:
  assumes "sys_inv y" and "refs_ok {#} y" and "tk \<in> set (all_done y)"
  shows "y_heap y (tk_fiber tk) = None"
proof (rule ccontr)
  assume n: "y_heap y (tk_fiber tk) \<noteq> None"
  obtain wt where "wt \<in> set (g_workers (y_sched y))" "tk \<in> set (w_done (wt_w wt))"
    using assms(3) by (auto simp: all_done_def)
  then have d: "tk_fiber tk \<notin># fibers_of (sys_bag (y_sched y))"
    "\<forall>b. y_heap y (tk_fiber tk) = Some b \<longrightarrow> fiber_ended b"
    using sys_invD(7) [OF assms(1)] by (auto simp: done_ok_def)
  have "tk_fiber tk \<in># owners y" using refs_ok_dom [OF assms(2), of "tk_fiber tk"] n by simp
  then have "tk_fiber tk \<in># mains y" using d(1) by (simp add: owners_def)
  then show False using mains_id [OF assms(1)] d(2) by (fastforce simp: fiber_ended_def)
qed

section \<open>Letting go of many pointers\<close>

text \<open>
  The pointers \<open>M\<close> can go: what nobody else owns has ended.
\<close>

definition droppable :: "ptr multiset \<Rightarrow> fsys \<Rightarrow> bool" where
  "droppable M s = (\<forall>f \<in># M. case fheap s f of None \<Rightarrow> False
     | Some b \<Rightarrow> fb_id b \<noteq> 0 \<and> count M f \<le> fb_refs b \<and>
         (count M f = fb_refs b \<longrightarrow> fb_state b = DESTROY \<or> fb_state b = EXCEPT))"

lemma release_droppable:
  assumes "on_main s" and "droppable (add_mset f M) s"
  shows "\<exists>s'. Fiber_release f s = Inr s' \<and> on_main s' \<and> droppable M s' \<and>
    refs_of (fheap s') = released {#f#} (refs_of (fheap s)) \<and>
    (\<forall>g. g \<noteq> f \<longrightarrow> fheap s' g = fheap s g)"
proof -
  obtain b where b: "fheap s f = Some b" "fb_id b \<noteq> 0" "Suc (count M f) \<le> fb_refs b"
    "Suc (count M f) = fb_refs b \<longrightarrow> fb_state b = DESTROY \<or> fb_state b = EXCEPT"
    using assms(2) by (auto simp: droppable_def split: option.splits)
  let ?s = "let_go f b s"
  have "Fiber_release f s = Inr ?s"
    using Fiber_release_eq [OF assms(1) b(1,2)] b(3,4) by auto
  moreover have "on_main ?s" by (rule on_main_let_go [OF assms(1) b(1,2)])
  moreover have "refs_of (fheap ?s) = released {#f#} (refs_of (fheap s))"
    by (rule let_go_refs [OF b(1)])
  moreover have frame: "\<forall>g. g \<noteq> f \<longrightarrow> fheap ?s g = fheap s g" using let_go_frame(1) by blast
  moreover have "droppable M ?s"
    unfolding droppable_def
  proof
    fix g assume g: "g \<in># M"
    show "case fheap ?s g of None \<Rightarrow> False
      | Some b \<Rightarrow> fb_id b \<noteq> 0 \<and> count M g \<le> fb_refs b \<and>
         (count M g = fb_refs b \<longrightarrow> fb_state b = DESTROY \<or> fb_state b = EXCEPT)"
    proof (cases "g = f")
      case True
      then have "count M f \<noteq> 0" using g by (simp add: count_eq_zero_iff)
      then obtain n where "count M f = Suc n" by (cases "count M f") simp_all
      then show ?thesis using True b by (auto simp: let_go_def)
    next
      case False
      then have "fheap ?s g = fheap s g" "f \<noteq> g" using frame by auto
      then show ?thesis
        using bspec [OF assms(2) [unfolded droppable_def], of g] g by (simp split: option.splits)
    qed
  qed
  ultimately show ?thesis by blast
qed

section \<open>Properties\<close>

text \<open>
  C12. No fiber is freed while it is needed and none is left behind: the fibers that exist are
  exactly the main fibers of the threads and the fibers of the queued tasks, and the use count
  of each is the number of its owners. The fiber of a task has one owner, the task, and when a
  worker has finished the task its fiber is gone.
\<close>

theorem fibers_owned:
  assumes "reachable rnd y"
  shows "(\<forall>f. y_heap y f = None \<longleftrightarrow> f \<notin># owners y) \<and>
    (\<forall>f b. y_heap y f = Some b \<longrightarrow> fb_refs b = count (owners y) f) \<and>
    (\<forall>f \<in># fibers_of (sys_bag (y_sched y)). count (owners y) f = 1) \<and>
    (\<forall>tk \<in> set (all_done y). y_heap y (tk_fiber tk) = None)"
proof -
  note i = reachable_inv [OF assms] and r = reachable_refs [OF assms]
  have dom: "y_heap y f = None \<longleftrightarrow> f \<notin># owners y" for f
    using refs_ok_dom [OF r, of f] by simp
  have cnt: "fb_refs b = count (owners y) f" if "y_heap y f = Some b" for f b
    using refs_count [OF r that] by simp
  show ?thesis using dom cnt task_one_owner [OF i] done_gone [OF i r] by blast
qed

section \<open>An instance\<close>

text \<open>One worker has taken the only task, and after three iterations has finished it.\<close>

definition demo_finished :: "nat sys" where
  "demo_finished = demo_state_after [demo_submit, Alloc, Work 0 True, Work 0 True]"

lemma demo_finished_check:
  "case demo_run [demo_submit, Alloc, Work 0 True, Work 0 True] of Inl _ \<Rightarrow> False | Inr y \<Rightarrow>
    length (all_done y) = 1"
  by code_simp

lemmas demo_finished_facts = demo_run_ok [OF demo_finished_check, folded demo_finished_def]

lemma demo_finished_reachable: "reachable demo_rand demo_finished"
proof (rule run_reachable [OF demo_queued_reachable])
  show "run_events demo_rand [Alloc, Work 0 True, Work 0 True] demo_queued = Inr demo_finished"
    using demo_run_append [of "[demo_submit]" "[Alloc, Work 0 True, Work 0 True]"]
      demo_queued_facts demo_finished_facts by simp
  show "list_all (\<lambda>e. \<forall>z :: nat sys. event_ok e z) [Alloc, Work 0 True, Work 0 True]"
    unfolding list_all_iff by (intro ballI allI) auto
qed

theorem fibers_owned_witness:
  "\<exists>tk. all_done demo_finished = [tk] \<and> y_heap demo_finished (tk_fiber tk) = None"
proof -
  obtain tk where tk: "all_done demo_finished = [tk]"
    using demo_finished_facts by (auto simp: length_Suc_conv)
  then have "tk \<in> set (all_done demo_finished)" by simp
  then show ?thesis using fibers_owned [OF demo_finished_reachable] tk by blast
qed

end
