(* ===== verification/Progress.thy ===== *)
theory Progress
  imports Owners
begin

text \<open>
  That work gets done: the tasks of a worker (\<open>WokerThread::run\<close> of \<open>sylar/scheduler.cpp\<close>) whose
  callbacks yield a finite number of times and then return are all finished after a number of
  fair rounds that is known in advance, whatever their priorities and whatever \<open>rand\<close> draws.
\<close>

section \<open>The work that is left\<close>

text \<open>The callback of a fiber yields \<open>n\<close> times from where it is, and returns.\<close>

definition yields_for :: "nat \<Rightarrow> fiber \<Rightarrow> bool" where
  "yields_for n b = (case fb_cb b of None \<Rightarrow> False
     | Some cb \<Rightarrow> cb (fb_pc b + n) = CallReturn \<and> (\<forall>i < n. cb (fb_pc b + i) = CallYield))"

text \<open>\<open>k f\<close> is the number of calls that fiber \<open>f\<close> has left before it returns.\<close>

definition bounded :: "(ptr \<Rightarrow> nat) \<Rightarrow> woker \<Rightarrow> fsys \<Rightarrow> bool" where
  "bounded k w s = (woker_inv w s \<and> t_sleep w = [] \<and> t_hold w = [] \<and>
     (\<forall>tk \<in># tasks_of w. case fheap s (tk_fiber tk) of None \<Rightarrow> False
        | Some b \<Rightarrow> yields_for (k (tk_fiber tk)) b))"

definition slices :: "(ptr \<Rightarrow> nat) \<Rightarrow> woker \<Rightarrow> nat" where
  "slices k w = (\<Sum>tk \<in># tasks_of w. Suc (k (tk_fiber tk)))"

lemma slices_0: "slices k w = 0 \<longleftrightarrow> tasks_of w = {#}"
  by (cases "tasks_of w") (simp_all add: slices_def)

lemma yields_state [simp]: "yields_for n (b\<lparr>fb_state := st\<rparr>) = yields_for n b"
  by (simp add: yields_for_def split: option.split)

lemma yields_slice:
  "yields_for 0 b \<Longrightarrow> slice_result now b = Inr (b\<lparr>fb_pc := Suc (fb_pc b), fb_cb := None, fb_state := DESTROY\<rparr>)"
  "yields_for (Suc n) b \<Longrightarrow> slice_result now b = Inr (b\<lparr>fb_pc := Suc (fb_pc b), fb_state := READY\<rparr>) \<and>
    yields_for n (b\<lparr>fb_pc := Suc (fb_pc b), fb_state := READY\<rparr>)"
proof -
  show "slice_result now b = Inr (b\<lparr>fb_pc := Suc (fb_pc b), fb_cb := None, fb_state := DESTROY\<rparr>)"
    if "yields_for 0 b"
    using that by (auto simp: yields_for_def slice_result_def Let_def split: option.splits)
  assume y: "yields_for (Suc n) b"
  then obtain cb where cb: "fb_cb b = Some cb" "cb (fb_pc b + Suc n) = CallReturn"
    "\<And>i. i < Suc n \<Longrightarrow> cb (fb_pc b + i) = CallYield"
    by (auto simp: yields_for_def split: option.splits)
  have "cb (fb_pc b) = CallYield" using cb(3) [of 0] by simp
  moreover have "cb (Suc (fb_pc b) + i) = CallYield" if "i < n" for i using cb(3) [of "Suc i"] that by simp
  ultimately show "slice_result now b = Inr (b\<lparr>fb_pc := Suc (fb_pc b), fb_state := READY\<rparr>) \<and>
      yields_for n (b\<lparr>fb_pc := Suc (fb_pc b), fb_state := READY\<rparr>)"
    using cb(1,2) by (simp add: slice_result_def yields_for_def Let_def)
qed

section \<open>One iteration does one slice\<close>

lemma slices_other:
  assumes "\<And>x. x \<in># T \<Longrightarrow> tk_fiber x \<noteq> f"
  shows "(\<Sum>x \<in># T. Suc ((k(f := n)) (tk_fiber x))) = (\<Sum>x \<in># T. Suc (k (tk_fiber x)))"
  by (intro arg_cong [of _ _ sum_mset] image_mset_cong) (use assms in simp)

lemma run_ready_slice:
  assumes b: "bounded k w s" and n: "t_ready w \<noteq> []"
  obtains w' s' r' k' where "run_ready rnd w s r = Inr (w', s', r')" and "bounded k' w' s'"
    and "Suc (slices k' w') = slices k w" and "\<And>f. f \<notin> own w \<Longrightarrow> k' f = k f"
proof -
  have inv: "woker_inv w s" and q: "t_sleep w = []" "t_hold w = []" using b by (simp_all add: bounded_def)
  obtain tk where tk: "pq_top (t_ready w) = Some tk"
    using n vecq.top_None [of "t_ready w"] by (cases "pq_top (t_ready w)") auto
  let ?f = "tk_fiber tk"
  obtain q' r1 where p: "pq_pop (task_cmp rnd) (t_ready w) r = (q', r1)" by fastforce
  have rq: "mset (t_ready w) = add_mset tk (mset q')"
    using vecq.items_pop [OF tk, of "task_cmp rnd" r] p by simp
  let ?T = "mset (t_init w) + mset q'"
  have ts: "tasks_of w = add_mset tk ?T" by (simp add: tasks_of_def q rq)
  have bw: "bag w = add_mset (READY, tk) (labelled INIT (t_init w) + labelled READY q')"
    by (simp add: bag_def q rq)
  obtain c where c: "fheap s ?f = Some c" "fiber_in READY c" "is_child ?f s"
    using bag_child [OF inv bw] .
  have o: "?f \<in> own w" by (simp add: own_def ts)
  have y: "yields_for (k ?f) c" using b c(1) ts by (auto simp: bounded_def)
  have "?f \<notin> tk_fiber ` set_mset ?T"
    using bag_ok_fresh [of "(READY, tk)" "labelled INIT (t_init w) + labelled READY q'" s] woker_invD(2) [OF inv]
    unfolding bw by (simp add: fibers_of_def image_image image_Un)
  then have other: "tk_fiber x \<noteq> ?f" if "x \<in># ?T" for x
    using that by (metis imageI)
  have yo: "case fheap s' (tk_fiber x) of None \<Rightarrow> False | Some b \<Rightarrow> yields_for ((k(?f := m)) (tk_fiber x)) b"
    if "x \<in># ?T" "\<And>g. g \<noteq> ?f \<Longrightarrow> fheap s' g = fheap s g" for x s' m
  proof -
    have "case fheap s (tk_fiber x) of None \<Rightarrow> False | Some b \<Rightarrow> yields_for (k (tk_fiber x)) b"
      using b that(1) ts by (simp add: bounded_def)
    then show ?thesis using that(2) [OF other [OF that(1)]] other [OF that(1)] by (simp split: option.splits)
  qed
  have so: "(\<Sum>x \<in># ?T. Suc ((k(?f := m)) (tk_fiber x))) = (\<Sum>x \<in># ?T. Suc (k (tk_fiber x)))" for m
    by (rule slices_other) (use other in blast)
  obtain w0 s0 r0 where ok: "run_ready rnd w s r = Inr (w0, s0, r0)" "woker_inv w0 s0"
    using run_ready_ok [OF inv, of rnd r] by (auto simp: advanced_def)
  note run = resume_run_eq [OF woker_invD(1) [OF inv] c(3,1)]
  show thesis
  proof (cases "k ?f")
    case 0
    let ?b = "c\<lparr>fb_pc := Suc (fb_pc c), fb_cb := None, fb_state := DESTROY\<rparr>"
    let ?s = "store ?f ?b s"
    let ?w = "w\<lparr>t_ready := q', w_count := w_count w - 1, w_done := w_done w @ [tk]\<rparr>"
    have "on_main ?s"
      using on_main_store [OF woker_invD(1) [OF inv] c(1)] fiber_in_state [OF c(2)] by simp
    then have "Fiber_release ?f ?s = Inr (let_go ?f ?b ?s)"
      using Fiber_release_eq [of ?s ?f ?b] fiber_in_state [OF c(2)] by simp
    then have e: "run_ready rnd w s r = Inr (?w, let_go ?f ?b ?s, r1)"
      using tk p run yields_slice(1) [of c] y 0 fiber_in_state [OF c(2)]
      by (simp add: run_ready_def Let_def deref_Some)
    have t: "tasks_of ?w = ?T" by (simp add: tasks_of_def q)
    have fr: "fheap (let_go ?f ?b ?s) g = fheap s g" if "g \<noteq> ?f" for g
      using let_go_frame(1) [OF that, of ?b ?s] that by simp
    have iw: "woker_inv ?w (let_go ?f ?b ?s)" using ok e by auto
    have "bounded k ?w (let_go ?f ?b ?s)"
      using q yo [OF _ fr, of _ "k ?f", unfolded fun_upd_triv] by (simp add: bounded_def iw t)
    moreover have "Suc (slices k ?w) = slices k w" by (simp add: slices_def t ts 0)
    ultimately show thesis by (rule that [OF e]) simp
  next
    case (Suc m)
    let ?b = "c\<lparr>fb_pc := Suc (fb_pc c), fb_state := READY\<rparr>"
    let ?s = "store ?f ?b s"
    obtain w2 r2 where w2: "push_ready rnd tk (w\<lparr>t_ready := q'\<rparr>) r1 = (w2, r2)" by fastforce
    note pr = push_ready_eq [OF w2]
    have sl: "slice_result (fclock s) c = Inr ?b" "yields_for m ?b"
      using yields_slice(2) [of m c] y Suc by auto
    have e: "run_ready rnd w s r = Inr (w2, ?s, r2)"
      using tk p run sl(1) w2 fiber_in_state [OF c(2)] by (simp add: run_ready_def Let_def deref_Some)
    have t: "tasks_of w2 = add_mset tk ?T" using pr by (simp add: tasks_of_def q)
    have iw: "woker_inv w2 ?s" using ok e by auto
    have "bounded (k(?f := m)) w2 ?s"
      using pr q yo [of _ ?s m] sl(2) by (simp add: bounded_def t iw)
    moreover have "Suc (slices (k(?f := m)) w2) = slices k w" 
      using so [of m] by (simp add: slices_def t ts Suc fun_upd_same del: fun_upd_apply)
    ultimately show thesis by (rule that [OF e]) (use o in auto)
  qed
qed

lemma run_ready_none: "t_ready w = [] \<Longrightarrow> run_ready rnd w s r = Inr (w, s, r)"
  by (simp add: run_ready_def pq_top_def)

text \<open>
  An iteration never adds to the work, does a slice of it when a fiber is ready or \<open>trylock\<close>
  succeeds, and leaves the tasks alone when it does none.
\<close>

lemma iter_slice:
  assumes b: "bounded k w s" and n: "tasks_of w \<noteq> {#}"
  obtains w' s' r' k' where "woker_iter rnd locked w s r = Inr (w', s', r')" and "bounded k' w' s'"
    and "if locked \<or> t_ready w \<noteq> [] then Suc (slices k' w') = slices k w else w' = w \<and> k' = k"
    and "\<And>f. f \<notin> own w \<Longrightarrow> k' f = k f"
proof -
  have inv: "woker_inv w s" and q: "t_sleep w = []" "t_hold w = []" using b by (simp_all add: bounded_def)
  have e: "w1\<lparr>t_hold := []\<rparr> = w1" if "t_hold w1 = []" for w1 :: woker using that by (cases w1) simp
  have wake: "wake_sleepers rnd c w1 s1 r1 = Inr (w1, s1, r1)" if "t_sleep w1 = []" for c w1 s1 r1
    using that by (simp add: wake_sleepers.simps [of rnd c w1] pq_top_def)
  show thesis
  proof (cases locked)
    case True
    obtain w1 s1 r1 where d: "drain_init rnd (t_init w) w s r = Inr (w1, s1, r1)"
      and m: "moved w s w1 s1" "t_init w1 = []" "t_sleep w1 = []" "t_hold w1 = []"
      and h: "\<And>f b. fheap s f = Some b \<Longrightarrow> \<exists>st. fheap s1 f = Some (b\<lparr>fb_state := st\<rparr>)"
      using drain_init_ok [OF inv refl, of rnd r] q by auto
    have ts: "tasks_of w1 = tasks_of w" using m(1) by (simp add: moved_def)
    have "case fheap s1 (tk_fiber tk) of None \<Rightarrow> False | Some b \<Rightarrow> yields_for (k (tk_fiber tk)) b"
      if t: "tk \<in># tasks_of w" for tk
    proof -
      obtain b where "fheap s (tk_fiber tk) = Some b" "yields_for (k (tk_fiber tk)) b"
        using b t by (fastforce simp: bounded_def split: option.splits)
      then show ?thesis using h by fastforce
    qed
    then have b1: "bounded k w1 s1" using m ts by (simp add: bounded_def moved_def)
    have "t_ready w1 \<noteq> []" using n ts m(2-4) by (auto simp: tasks_of_def)
    then obtain w' s' r' k' where r: "run_ready rnd w1 s1 r1 = Inr (w', s', r')" "bounded k' w' s'"
      "Suc (slices k' w') = slices k w1" "\<And>f. f \<notin> own w1 \<Longrightarrow> k' f = k f"
      by (rule run_ready_slice [OF b1, of rnd r1]) blast
    have "woker_iter rnd locked w s r = Inr (w', s', r')"
      using d r(1) m(3,4) True by (simp add: woker_iter_def wake e)
    then show thesis using that [of w' s' r' k'] r(2-4) True by (simp add: slices_def own_def ts)
  next
    case False
    then have i: "woker_iter rnd locked w s r = run_ready rnd w s r"
      using q by (simp add: woker_iter_def wake e)
    show thesis
    proof (cases "t_ready w = []")
      case True
      then show thesis using that [of w s r k] b False i by (simp add: run_ready_none)
    next
      case ready: False
      obtain w' s' r' k' where "run_ready rnd w s r = Inr (w', s', r')" "bounded k' w' s'"
        "Suc (slices k' w') = slices k w" "\<And>f. f \<notin> own w \<Longrightarrow> k' f = k f"
        by (rule run_ready_slice [OF b ready, of rnd r]) blast
      then show thesis using that [of w' s' r' k'] ready i by simp
    qed
  qed
qed

section \<open>The system\<close>

text \<open>The tasks that are queued, at the scheduler or at a worker.\<close>

definition all_tasks :: "'r sys \<Rightarrow> task multiset" where
  "all_tasks y = mset (g_tasks (y_sched y)) + parts tasks_of (g_workers (y_sched y))"

definition left :: "(ptr \<Rightarrow> nat) \<Rightarrow> 'r sys \<Rightarrow> nat" where
  "left k y = (\<Sum>tk \<in># all_tasks y. Suc (k (tk_fiber tk)))"

definition willing :: "(ptr \<Rightarrow> nat) \<Rightarrow> (ptr \<Rightarrow> fiber option) \<Rightarrow> task multiset \<Rightarrow> bool" where
  "willing k h T = (\<forall>tk \<in># T. case h (tk_fiber tk) of None \<Rightarrow> False | Some b \<Rightarrow> yields_for (k (tk_fiber tk)) b)"

text \<open>
  The scheduler runs, no task sleeps or is held, and the callback of every queued task returns
  after \<open>k\<close> more yields.
\<close>

definition calm :: "(ptr \<Rightarrow> nat) \<Rightarrow> 'r sys \<Rightarrow> bool" where
  "calm k y = (\<not> g_stop (y_sched y) \<and> \<not> g_alloc_exited (y_sched y) \<and> g_workers (y_sched y) \<noteq> [] \<and>
     (\<forall>wt \<in> set (g_workers (y_sched y)).
        \<not> wt_exited wt \<and> t_sleep (wt_w wt) = [] \<and> t_hold (wt_w wt) = []) \<and>
     willing k (y_heap y) (all_tasks y))"

lemma willing_plus: "willing k h (T + U) \<longleftrightarrow> willing k h T \<and> willing k h U"
  by (auto simp: willing_def)

lemma willing_cong:
  assumes "\<And>tk. tk \<in># T \<Longrightarrow> h (tk_fiber tk) = h' (tk_fiber tk) \<and> k (tk_fiber tk) = k' (tk_fiber tk)"
    and "willing k h T"
  shows "willing k' h' T"
  unfolding willing_def
proof
  fix tk assume t: "tk \<in># T"
  show "case h' (tk_fiber tk) of None \<Rightarrow> False | Some b \<Rightarrow> yields_for (k' (tk_fiber tk)) b"
    using assms(1) [OF t] bspec [OF assms(2) [unfolded willing_def] t] by (simp split: option.splits)
qed

lemma parts_none: "(\<And>wt. wt \<in> set ws \<Longrightarrow> f (wt_w wt) = {#}) \<Longrightarrow> parts f ws = {#}"
  by (induction ws) (simp_all add: parts_def)

lemma parts_done: "parts (\<lambda>w. mset (w_done w)) (g_workers (y_sched y)) = mset (all_done y)"
proof -
  have "parts (\<lambda>w. mset (w_done w)) ws = mset (concat (map (\<lambda>wt. w_done (wt_w wt)) ws))" for ws
    by (induction ws) (simp_all add: parts_def)
  then show ?thesis by (simp add: all_done_def)
qed

lemma fibers_of_parts: "fibers_of (parts bag ws) = image_mset tk_fiber (parts tasks_of ws)"
  by (induction ws) (simp_all add: parts_def fibers_of_bag)

lemma fibers_of_queue: "fibers_of (labelled st q) = image_mset tk_fiber (mset q)"
  by (simp add: fibers_of_def image_mset.compositionality comp_def)

text \<open>A step that keeps the scheduler calm, loses no task and adds no work.\<close>

definition onward :: "(ptr \<Rightarrow> nat) \<Rightarrow> 'r sys \<Rightarrow> (ptr \<Rightarrow> nat) \<Rightarrow> 'r sys \<Rightarrow> bool" where
  "onward k y k' y' = (sys_inv y' \<and> calm k' y' \<and> y_accepted y' = y_accepted y \<and>
     length (g_workers (y_sched y')) = length (g_workers (y_sched y)) \<and> left k' y' \<le> left k y)"

definition busy :: "nat \<Rightarrow> 'r sys \<Rightarrow> bool" where
  "busy j y = (tasks_of (wt_w (g_workers (y_sched y) ! j)) \<noteq> {#})"

lemma onward_refl: "sys_inv y \<Longrightarrow> calm k y \<Longrightarrow> onward k y k y"
  by (simp add: onward_def)

lemma onward_trans: "onward k y k1 y1 \<Longrightarrow> onward k1 y1 k2 y2 \<Longrightarrow> onward k y k2 y2"
  by (simp add: onward_def)

lemma onwardD:
  assumes "onward k y k' y'"
  shows "sys_inv y'" and "calm k' y'" and "y_accepted y' = y_accepted y"
    and "length (g_workers (y_sched y')) = length (g_workers (y_sched y))" and "left k' y' \<le> left k y"
  using assms by (simp_all add: onward_def)

text \<open>Whatever the allocation thread does, no task is lost; and if there is a task, a worker has
  one afterwards.\<close>

lemma alloc_calm:
  assumes inv: "sys_inv y" and c: "calm k y"
  shows "onward k y k (alloc_step y) \<and> (\<forall>j. busy j y \<longrightarrow> busy j (alloc_step y)) \<and>
    (all_tasks y \<noteq> {#} \<longrightarrow> (\<exists>i < length (g_workers (y_sched y)). busy i (alloc_step y)))"
proof -
  let ?g = "y_sched y" and ?i = "turn (y_sched y)"
  let ?ws = "g_workers ?g"
  have ne: "?ws \<noteq> []" and st: "\<not> g_stop ?g" "\<not> g_alloc_exited ?g" using c by (simp_all add: calm_def)
  note i = turn_less [OF ne] and e = alloc_iter_eq [OF ne refl refl]
  have s: "alloc_step y = y\<lparr>y_sched := alloc_iter ?g\<rparr>"
    using st by (simp add: alloc_step_def alloc_loop_def)
  have ts: "all_tasks (alloc_step y) = all_tasks y"
    using parts_split [OF i, of tasks_of] mset_take_drop [of "g_tasks ?g" "given ?g"]
    by (simp add: all_tasks_def s e parts_update [OF i] tasks_of_def ac_simps)
  have "calm k (alloc_step y)"
    using c i ts nth_mem [OF i] by (auto simp: calm_def s e dest!: set_update_subset_insert [THEN subsetD])
  moreover have more: "busy j (alloc_step y)" if "busy j y" for j
    using that i by (cases "j = ?i") (auto simp: busy_def s e tasks_of_def)
  moreover have "\<exists>j < length ?ws. busy j (alloc_step y)" if t: "all_tasks y \<noteq> {#}"
  proof (cases "\<exists>j < length ?ws. busy j y")
    case True
    then show ?thesis using more by blast
  next
    case False
    then have "parts tasks_of ?ws = {#}" by (intro parts_none) (auto simp: in_set_conv_nth busy_def)
    then have q: "g_tasks ?g \<noteq> []" using t by (simp add: all_tasks_def)
    have "w_count (wt_w (?ws ! ?i)) = 0"
      using sys_invD(4) [OF inv nth_mem [OF i]] False i by (auto simp: thread_inv_def busy_def)
    then have "0 < given ?g" using q by (simp add: given_def turn_def)
    then show ?thesis using i q by (intro exI [of _ ?i]) (auto simp: busy_def s e tasks_of_def)
  qed
  ultimately show ?thesis using alloc_step_inv [OF inv] ts by (simp add: s e left_def onward_def)
qed

text \<open>An iteration of a worker that has tasks and gets the lock does one of the slices that are
  left; one that does not get it does a slice or nothing.\<close>

lemma work_calm:
  fixes y :: "'r sys"
  assumes inv: "sys_inv y" and c: "calm k y" and i: "i < length (g_workers (y_sched y))"
  shows "\<exists>y' k'. work_step rnd i b y = Inr y' \<and> onward k y k' y' \<and>
    (\<forall>j. busy j y \<longrightarrow> left k' y' < left k y \<or> busy j y' \<and> \<not> (j = i \<and> b))"
proof -
  let ?g = "y_sched y"
  define wt where "wt = g_workers ?g ! i"
  let ?w = "wt_w wt" and ?v = "view (wt_tls wt) y"
  define rest where "rest = mset (g_tasks ?g) + parts tasks_of (take i (g_workers ?g) @ drop (Suc i) (g_workers ?g))"
  have cw: "\<not> g_stop ?g" "\<not> wt_exited wt" "t_sleep ?w = []" "t_hold ?w = []"
    using c nth_mem [OF i] by (auto simp: calm_def wt_def)
  have at: "all_tasks y = tasks_of ?w + rest"
    by (simp add: all_tasks_def parts_split [OF i] rest_def wt_def ac_simps)
  have t: "thread_inv wt y" using sys_invD(4) [OF inv] i by (simp add: wt_def)
  have sb: "bag_ok (sys_bag ?g) ?v" by (rule sys_invD(3) [OF inv])
  have wi: "woker_inv ?w ?v"
    by (rule woker_inv_view [OF t]) (use sb sys_bag_split [OF i] in \<open>simp add: bag_ok_plus wt_def\<close>)
  have dis: "tk_fiber x \<notin> own ?w" if "x \<in># rest" for x
  proof -
    have "own ?w \<inter> set_mset (image_mset tk_fiber rest) = {}"
      using sb unfolding sys_bag_split [OF i] bag_ok_plus [of "bag _"]
      by (simp add: own_bag wt_def rest_def fibers_of_parts fibers_of_queue)
    then show ?thesis using that by auto
  qed
  show ?thesis
  proof (cases "tasks_of ?w = {#}")
    case True
    then have "w_count ?w = 0" using t by (simp add: thread_inv_def)
    then have "work_step rnd i b y = Inr y"
      using i cw by (simp add: work_step_def woker_loop_def Let_def wt_def)
    then show ?thesis using onward_refl [OF inv c] True by (auto simp: wt_def busy_def)
  next
    case False
    have bw: "bounded k ?w ?v" using wi cw c by (simp add: bounded_def calm_def willing_def at)
    obtain w' s' r' k' where r: "woker_iter rnd b ?w ?v (y_rand y) = Inr (w', s', r')" "bounded k' w' s'"
      "if b \<or> t_ready ?w \<noteq> [] then Suc (slices k' w') = slices k ?w else w' = ?w \<and> k' = k"
      "\<And>f. f \<notin> own ?w \<Longrightarrow> k' f = k f"
      by (rule iter_slice [OF bw False, of rnd b "y_rand y"]) blast
    have adv: "advanced ?w ?v w' s'" using woker_iter_ok [OF wi, of rnd b "y_rand y"] r(1) by simp
    note winv = worked_inv [OF inv i wt_def adv, of r']
    obtain h m where h: "s' = ?v\<lparr>fheap := h, fiber_count := m\<rparr>" "\<And>f. f \<notin> own ?w \<Longrightarrow> h f = y_heap y f"
      by (rule advancedD [OF adv]) auto
    let ?y = "worked i w' s' r' y"
    have step: "work_step rnd i b y = Inr ?y"
    proof -
      have "0 < w_count ?w" using t False by (simp add: thread_inv_def nonempty_has_size)
      then show ?thesis using i cw r(1) winv
        by (simp add: work_step_def woker_loop_def worked_def Let_def wt_def [symmetric])
    qed
    have at': "all_tasks ?y = tasks_of w' + rest"
      by (simp add: all_tasks_def worked_simps parts_update [OF i] rest_def ac_simps)
    have "willing k (y_heap y) rest" using c by (simp add: calm_def at willing_plus)
    then have "willing k' (fheap s') rest"
      by (rule willing_cong [rotated]) (use dis h r(4) in auto)
    moreover have "willing k' (fheap s') (tasks_of w')" using r(2) by (simp add: bounded_def willing_def)
    ultimately have c': "calm k' ?y"
      using c r(2) cw(2) [unfolded wt_def] by (auto simp: calm_def worked_simps at' willing_plus bounded_def
        dest!: set_update_subset_insert [THEN subsetD])
    have "(\<Sum>tk \<in># rest. Suc (k' (tk_fiber tk))) = (\<Sum>tk \<in># rest. Suc (k (tk_fiber tk)))"
      by (intro arg_cong [of _ _ sum_mset] image_mset_cong) (use r(4) dis in simp)
    then have l: "left k' ?y + slices k ?w = left k y + slices k' w'" by (simp add: left_def at at' slices_def)
    then have "onward k y k' ?y" using winv c' r(3) by (auto simp: onward_def worked_simps split: if_splits)
    moreover have "left k' ?y < left k y \<or> busy j ?y \<and> \<not> (j = i \<and> b)" if "busy j y" for j
    proof (cases "b \<or> t_ready ?w \<noteq> []")
      case True
      then show ?thesis using l r(3) by simp
    next
      case stuck: False
      then have "busy j ?y" using that r(3) i by (cases "j = i") (auto simp: busy_def worked_simps wt_def)
      then show ?thesis using stuck by simp
    qed
    ultimately show ?thesis using step by blast
  qed
qed

section \<open>Fair schedules\<close>

text \<open>
  The events of a round are turns of the threads, in any order and number, and the clock. The
  round is fair when, after an iteration of the allocation thread, every worker has a turn in
  which its \<open>trylock\<close> succeeds.
\<close>

definition after :: "('a \<Rightarrow> bool) \<Rightarrow> 'a list \<Rightarrow> 'a list" where
  "after P es = tl (dropWhile (\<lambda>e. \<not> P e) es)"

lemma after_split:
  assumes "x \<in> set (after P es)"
  obtains as e where "es = as @ e # after P es" and "P e"
proof -
  have "dropWhile (\<lambda>e. \<not> P e) es \<noteq> []" using assms unfolding after_def by (metis list.sel(2) list.set(1) empty_iff)
  then obtain e bs where d: "dropWhile (\<lambda>e. \<not> P e) es = e # bs" by (cases "dropWhile (\<lambda>e. \<not> P e) es") auto
  then have "P e" using hd_dropWhile [of "\<lambda>e. \<not> P e" es] by simp
  then show thesis using that [of "takeWhile (\<lambda>e. \<not> P e) es" e] d
    takeWhile_dropWhile_id [of "\<lambda>e. \<not> P e" es] by (simp add: after_def)
qed

fun turn_event :: "event \<Rightarrow> bool" where
  "turn_event (Submit cb thr pri us) = False"
| "turn_event Stop = False"
| "turn_event e = True"

definition fair_round :: "nat \<Rightarrow> event list \<Rightarrow> bool" where
  "fair_round m es = (list_all turn_event es \<and>
     (\<forall>i < m. Work i True \<in> set (after (\<lambda>e. e = Alloc) es)))"

lemma step_calm:
  assumes inv: "sys_inv y" and c: "calm k y" and e: "turn_event e"
  shows "\<exists>y' k'. sys_step rnd e y = Inr y' \<and> onward k y k' y' \<and>
    (\<forall>j. busy j y \<longrightarrow> left k' y' < left k y \<or> busy j y' \<and> (j < length (g_workers (y_sched y)) \<longrightarrow> e \<noteq> Work j True))"
proof (cases e)
  case Alloc
  then show ?thesis using alloc_calm [OF inv c] by auto
next
  case (Work i b)
  show ?thesis
  proof (cases "i < length (g_workers (y_sched y))")
    case True
    then show ?thesis using work_calm [OF inv c True, of rnd b] Work by auto
  next
    case False
    then have "work_step rnd i b y = Inr y" by (simp add: work_step_def)
    then show ?thesis using onward_refl [OF inv c] Work False by auto
  qed
next
  case (Tick t)
  let ?y = "y\<lparr>y_clock := t\<rparr>"
  have "sys_inv ?y" using sys_step_ok [OF inv, of "Tick t" rnd] by auto
  moreover have "calm k ?y" "left k ?y = left k y" using c by (simp_all add: calm_def left_def all_tasks_def)
  ultimately show ?thesis using Tick by (auto simp: onward_def busy_def)
qed (use e in auto)

lemma run_calm:
  "sys_inv y \<Longrightarrow> calm k y \<Longrightarrow> list_all turn_event es \<Longrightarrow>
    \<exists>y' k'. run_events rnd es y = Inr y' \<and> onward k y k' y' \<and>
      (\<forall>j. busy j y \<longrightarrow> left k' y' < left k y \<or>
        busy j y' \<and> (j < length (g_workers (y_sched y)) \<longrightarrow> Work j True \<notin> set es))"
proof (induction es arbitrary: y k)
  case Nil
  then show ?case using onward_refl by fastforce
next
  case (Cons e es)
  obtain y1 k1 where 1: "sys_step rnd e y = Inr y1" "onward k y k1 y1"
    "\<forall>j. busy j y \<longrightarrow> left k1 y1 < left k y \<or> busy j y1 \<and> (j < length (g_workers (y_sched y)) \<longrightarrow> e \<noteq> Work j True)"
    using step_calm [OF Cons.prems(1,2), of e rnd] Cons.prems(3) by auto
  note o = onwardD [OF 1(2)]
  obtain y' k' where 2: "run_events rnd es y1 = Inr y'" "onward k1 y1 k' y'"
    "\<forall>j. busy j y1 \<longrightarrow> left k' y' < left k1 y1 \<or>
      busy j y' \<and> (j < length (g_workers (y_sched y1)) \<longrightarrow> Work j True \<notin> set es)"
    using Cons.IH [OF o(1,2)] Cons.prems(3) by auto
  have "left k' y' < left k y \<or>
      busy j y' \<and> (j < length (g_workers (y_sched y)) \<longrightarrow> Work j True \<notin> set (e # es))"
    if j: "busy j y" for j
  proof (cases "left k1 y1 < left k y")
    case True
    then show ?thesis using onwardD(5) [OF 2(2)] by simp
  next
    case False
    then show ?thesis using 1(3) 2(3) j o(4,5) by auto
  qed
  then show ?case using 1(1) 2(1) onward_trans [OF 1(2) 2(2)] by auto
qed

text \<open>A fair round does at least one of the slices that are left.\<close>

lemma left_0: "left k y = 0 \<longleftrightarrow> all_tasks y = {#}"
  by (cases "all_tasks y") (simp_all add: left_def)

lemma fair_round_calm:
  assumes inv: "sys_inv y" and c: "calm k y" and f: "fair_round (length (g_workers (y_sched y))) es"
  shows "\<exists>y' k'. run_events rnd es y = Inr y' \<and> onward k y k' y' \<and> left k' y' \<le> left k y - 1"
proof -
  let ?m = "length (g_workers (y_sched y))"
  have "0 < ?m" using c by (simp add: calm_def)
  then have "Work 0 True \<in> set (after (\<lambda>e. e = Alloc) es)" using f by (simp add: fair_round_def)
  then obtain as where es: "es = as @ Alloc # after (\<lambda>e. e = Alloc) es" by (auto elim: after_split)
  define bs where "bs = after (\<lambda>e. e = Alloc) es"
  have t: "list_all turn_event as" "list_all turn_event bs"
    using f es by (metis fair_round_def bs_def list_all_append list.pred_inject(2))+
  obtain y1 k1 where 1: "run_events rnd as y = Inr y1" "onward k y k1 y1"
    using run_calm [OF inv c t(1), of rnd] by blast
  note o = onwardD [OF 1(2)] and a = alloc_calm [OF onwardD(1,2) [OF 1(2)]]
  let ?y = "alloc_step y1"
  obtain y' k' where 2: "run_events rnd bs ?y = Inr y'" "onward k1 ?y k' y'"
    "\<forall>j. busy j ?y \<longrightarrow> left k' y' < left k1 ?y \<or>
      busy j y' \<and> (j < length (g_workers (y_sched ?y)) \<longrightarrow> Work j True \<notin> set bs)"
    using run_calm [OF _ _ t(2), of ?y k1 rnd] onwardD(1,2) a by blast
  have l: "left k1 ?y \<le> left k1 y1" "length (g_workers (y_sched ?y)) = ?m"
    using onwardD(4,5) a o(4) by fastforce+
  have "left k' y' \<le> left k y - 1"
  proof (cases "all_tasks y1 = {#}")
    case True
    then show ?thesis using left_0 [of k1 y1] l(1) onwardD(5) [OF 2(2)] by simp
  next
    case False
    then obtain j where j: "j < ?m" "busy j ?y" using a o(4) by auto
    then have "Work j True \<in> set bs" using f by (simp add: fair_round_def bs_def)
    then show ?thesis using 2(3) j l o(5) by fastforce
  qed
  moreover have "run_events rnd es y = Inr y'"
    using 1(1) 2(1) es by (metis bs_def run_events_append bindR_Inr run_events.simps(2) sys_step.simps(2))
  moreover have "onward k y k' y'" using onward_trans [OF 1(2)] onward_trans 2(2) a by blast
  ultimately show ?thesis by blast
qed

lemma fair_rounds_calm:
  "sys_inv y \<Longrightarrow> calm k y \<Longrightarrow> left k y \<le> length rs \<Longrightarrow>
    list_all (fair_round (length (g_workers (y_sched y)))) rs \<Longrightarrow>
    \<exists>y' k'. run_events rnd (concat rs) y = Inr y' \<and> onward k y k' y' \<and> all_tasks y' = {#}"
proof (induction rs arbitrary: y k)
  case Nil
  then show ?case using onward_refl [of y k] by (auto simp: left_0 intro!: exI [of _ k])
next
  case (Cons es rs)
  obtain y1 k1 where 1: "run_events rnd es y = Inr y1" "onward k y k1 y1" "left k1 y1 \<le> left k y - 1"
    using fair_round_calm [OF Cons.prems(1,2), of es rnd] Cons.prems(4) by auto
  note o = onwardD [OF 1(2)]
  have "left k1 y1 \<le> length rs" "list_all (fair_round (length (g_workers (y_sched y1)))) rs"
    using 1(3) Cons.prems(3,4) o(4) by simp_all
  from Cons.IH [OF o(1,2) this] obtain y' k' where
    "run_events rnd (concat rs) y1 = Inr y'" "onward k1 y1 k' y'" "all_tasks y' = {#}" by blast
  then show ?case using 1(1) onward_trans [OF 1(2)] by (auto simp: run_events_append)
qed

text \<open>
  C9. The accepted tasks get done, under any fair schedule, as long as all of them are willing: if
  the scheduler runs, no task sleeps or is held, and every queued callback returns after a known
  number of yields (\<open>calm\<close>), then after as many fair rounds as there are slices left all the tasks
  that \<open>submit\<close> has ever accepted are finished. In a round the threads run in any order, as often
  as the schedule likes and with any answers of \<open>trylock\<close>, only that somewhere after an iteration
  of the allocation thread every worker has one iteration that gets its lock; nothing is submitted
  and \<open>stop\<close> is not called meanwhile. Priorities, the number of tasks, their places and the draws
  of \<open>rand\<close> are arbitrary. One callback that yields for ever is enough to starve others
  (\<open>oldest_yielder_starves\<close>), so the condition is on every queued task and not on one of them.
\<close>

theorem accepted_tasks_finish:
  assumes "reachable rnd y" and "calm k y" and "left k y \<le> length rs"
    and "list_all (fair_round (length (g_workers (y_sched y)))) rs"
  shows "\<exists>y'. run_events rnd (concat rs) y = Inr y' \<and>
    y_accepted y' = y_accepted y \<and> mset (all_done y') = mset (y_accepted y)"
proof -
  obtain y' k' where y': "run_events rnd (concat rs) y = Inr y'" "onward k y k' y'" "all_tasks y' = {#}"
    using fair_rounds_calm [OF reachable_inv [OF assms(1)] assms(2-4), of rnd] by blast
  then show ?thesis
    using sys_invD(6) [OF onwardD(1) [OF y'(2)]] onwardD(3) [OF y'(2)]
    by (auto simp: conserved_def parts_done all_tasks_def)
qed

text \<open>The round robin, with one turn of each worker, is fair.\<close>

definition one_round :: "nat \<Rightarrow> event list" where
  "one_round m = Alloc # map (\<lambda>i. Work i True) [0..<m]"

lemma one_round_fair: "fair_round m (one_round m)"
  by (auto simp: fair_round_def one_round_def after_def list_all_iff)

lemma demo_calm_check:
  "case demo_run [demo_submit] of Inl _ \<Rightarrow> False | Inr y \<Rightarrow>
    map tk_fiber (g_tasks (y_sched y)) = [2] \<and> \<not> g_stop (y_sched y) \<and> \<not> g_alloc_exited (y_sched y) \<and>
    map (\<lambda>wt. (wt_exited wt, t_init (wt_w wt), t_ready (wt_w wt), t_sleep (wt_w wt), t_hold (wt_w wt)))
      (g_workers (y_sched y)) = [(False, [], [], [], [])] \<and>
    (case y_heap y 2 of None \<Rightarrow> False | Some b \<Rightarrow> case fb_cb b of None \<Rightarrow> False
       | Some cb \<Rightarrow> cb (fb_pc b) = CallYield \<and> cb (Suc (fb_pc b)) = CallReturn)"
  by code_simp

lemma demo_calm: "calm (\<lambda>_. 1) demo_queued \<and> left (\<lambda>_. 1) demo_queued = 2 \<and>
  length (g_workers (y_sched demo_queued)) = 1 \<and> y_accepted demo_queued \<noteq> []"
proof -
  note f = demo_run_ok [OF demo_calm_check, folded demo_queued_def, THEN conjunct2]
  obtain wt where wt: "g_workers (y_sched demo_queued) = [wt]" "\<not> wt_exited wt" "t_init (wt_w wt) = []"
    "t_ready (wt_w wt) = []" "t_sleep (wt_w wt) = []" "t_hold (wt_w wt) = []"
    using f by auto
  obtain tk where tk: "g_tasks (y_sched demo_queued) = [tk]" "tk_fiber tk = 2" using f by auto
  have at: "all_tasks demo_queued = {#tk#}" by (simp add: all_tasks_def tk wt parts_def tasks_of_def)
  have "willing (\<lambda>_. 1) (y_heap demo_queued) {#tk#}"
    using f by (auto simp: willing_def tk yields_for_def split: option.splits)
  moreover have "y_accepted demo_queued \<noteq> []"
    using sys_invD(6) [OF reachable_inv [OF demo_queued_reachable]] tk by (auto simp: conserved_def)
  ultimately show ?thesis using f wt by (simp add: calm_def at left_def)
qed

theorem accepted_tasks_finish_witness:
  "\<exists>y' tk. run_events demo_rand [Work 0 True, Alloc, Work 0 False, Tick 9, Work 0 True, Work 0 False,
      Alloc, Work 0 True] demo_queued = Inr y' \<and>
    tk \<in> set (y_accepted demo_queued) \<and> tk \<in> set (all_done y')"
proof -
  let ?rs = "[[Work 0 True, Alloc, Work 0 False, Tick 9, Work 0 True], [Work 0 False, Alloc, Work 0 True]]"
  have m: "length (g_workers (y_sched demo_queued)) = 1" using demo_calm by simp
  have "list_all (fair_round (length (g_workers (y_sched demo_queued)))) ?rs"
    unfolding m by (simp add: fair_round_def after_def)
  from accepted_tasks_finish [OF demo_queued_reachable conjunct1 [OF demo_calm] _ this] demo_calm
  obtain y' where "run_events demo_rand (concat ?rs) demo_queued = Inr y'"
    "mset (all_done y') = mset (y_accepted demo_queued)"
    by auto
  then show ?thesis using demo_calm by (metis append.simps append_Nil2 concat.simps hd_in_set set_mset_mset)
qed

end
