(* ===== verification/Destructions.thy ===== *)
theory Destructions
  imports Owners Progress
begin

text \<open>
  The end of a scheduler (\<open>Scheduler::~Scheduler\<close> in \<open>sylar/scheduler.cpp\<close>, the members in
  \<open>sylar/scheduler.h\<close>): it stops, joins its threads and drops its queues, and with a queue go the
  pointers to the fibers of its tasks.
\<close>

section \<open>The destructor\<close>

text \<open>
  Its body: a scheduler that runs is stopped, which raises the flag and waits for the threads; the
  client's own \<open>stop\<close> has waited for them otherwise.
\<close>

definition Scheduler_dtor :: "sched \<Rightarrow> sched" where
  "Scheduler_dtor g = (if \<not> g_stop g then stop_flag g else g)"

text \<open>Members go in the reverse of the order in which they are declared.\<close>

definition woker_tasks :: "woker \<Rightarrow> task list" where
  "woker_tasks w = t_hold w @ t_sleep w @ t_ready w @ t_init w"

definition sched_tasks :: "sched \<Rightarrow> task list" where
  "sched_tasks g = concat (map (\<lambda>wt. woker_tasks (wt_w wt)) (g_workers g)) @ g_tasks g"

text \<open>\<open>None\<close>: a thread has not ended yet.\<close>

definition Scheduler_delete :: "'r sys \<Rightarrow> fsys res option" where
  "Scheduler_delete y = (let g = Scheduler_dtor (y_sched y) in
     if joins_return g then Some (drop_tasks (sched_tasks g) (view (y_caller y) y)) else None)"

section \<open>What it drops\<close>

lemma woker_tasks_bag: "mset (woker_tasks w) = tasks_of w"
  by (simp add: woker_tasks_def tasks_of_def ac_simps)

lemma sched_tasks_all: "mset (sched_tasks (y_sched y)) = all_tasks y"
proof -
  have "mset (concat (map (\<lambda>wt. woker_tasks (wt_w wt)) ws)) = parts tasks_of ws" for ws
    by (induction ws) (simp_all add: parts_def woker_tasks_bag)
  then show ?thesis by (simp add: sched_tasks_def all_tasks_def add.commute)
qed

lemma Scheduler_dtor_simps [simp]:
  "joins_return (Scheduler_dtor g) = joins_return g" "sched_tasks (Scheduler_dtor g) = sched_tasks g"
  by (simp_all add: Scheduler_dtor_def stop_flag_def joins_return_def sched_tasks_def)

text \<open>The fiber of a task is in the state of its queue.\<close>

lemma in_sys_bag:
  assumes "tk \<in># all_tasks y"
  shows "\<exists>st \<in> {INIT, READY, SLEEP, HOLD}. (st, tk) \<in># sys_bag (y_sched y)"
proof -
  have "\<exists>st \<in> {INIT, READY, SLEEP, HOLD}. (st, tk) \<in># parts bag ws" if "tk \<in># parts tasks_of ws" for ws
    using that by (induction ws) (auto simp: parts_def bag_def tasks_of_def)
  then show ?thesis using assms by (auto simp: all_tasks_def sys_bag_def)
qed

lemma task_state:
  assumes "sys_inv y" and "tk \<in># all_tasks y"
  shows "\<exists>b. y_heap y (tk_fiber tk) = Some b \<and> fb_id b \<noteq> 0 \<and> fb_state b \<noteq> DESTROY \<and> fb_state b \<noteq> EXCEPT"
proof -
  obtain st where st: "st \<in> {INIT, READY, SLEEP, HOLD}" "(st, tk) \<in># sys_bag (y_sched y)"
    using in_sys_bag [OF assms(2)] by blast
  have "task_in st (view (y_caller y) y) tk"
    using sys_invD(3) [OF assms(1), of "y_caller y"] st(2) by (fastforce simp: bag_ok_def)
  then show ?thesis using st(1) by (auto elim!: task_inE simp: fiber_in_def)
qed

text \<open>The first pointer dropped is the last one to its fiber, which has not ended.\<close>

lemma drop_first:
  assumes inv: "sys_inv y" and refs: "refs_ok {#} y" and tk: "tk \<in># all_tasks y"
  shows "drop_tasks (tk # tks) (view (y_caller y) y) =
    Inl (AssertFail ''m_state == DESTROY || m_state == EXCEPT'')"
proof -
  let ?s = "view (y_caller y) y"
  obtain b where b: "y_heap y (tk_fiber tk) = Some b" "fb_id b \<noteq> 0" "fb_state b \<noteq> DESTROY" "fb_state b \<noteq> EXCEPT"
    using task_state [OF inv tk] by blast
  have f: "tk_fiber tk \<in># fibers_of (sys_bag (y_sched y))"
    using tk by (auto simp: sys_bag_def fibers_of_parts fibers_of_queue all_tasks_def)
  have "fb_refs b = 1" using refs_count [OF refs b(1)] task_one_owner [OF inv f] by simp
  moreover have "this_fiber ?s = main_fiber ?s \<and> main_fiber ?s \<noteq> Some (tk_fiber tk)"
    using sys_invD(1) [OF inv] b(1,2)
    by (auto simp: caller_ok_def thread_ok_def on_main_def split: if_splits elim!: main_okE)
  ultimately show ?thesis
    using b by (auto simp: Fiber_release_def Fiber_dtor_def deref_def SYLAR_ASSERT_def Let_def)
qed

section \<open>Properties\<close>

text \<open>
  C36. The destructor of a scheduler returns when the threads have ended, and then exactly when no
  task is left in any queue: all accepted tasks have been run to their ends, and the only fibers
  that still exist are the main fibers of the threads. One task left in one queue, as a stop may
  leave it behind, and the destructor of its fiber aborts the program.
\<close>

theorem scheduler_delete_exact:
  assumes "reachable rnd y"
  shows "(case Scheduler_delete y of
      None \<Rightarrow> \<not> joins_return (y_sched y)
    | Some (Inl e) \<Rightarrow> all_tasks y \<noteq> {#} \<and> e = AssertFail ''m_state == DESTROY || m_state == EXCEPT''
    | Some (Inr s) \<Rightarrow> all_tasks y = {#} \<and> mset (all_done y) = mset (y_accepted y) \<and>
        (\<forall>f. fheap s f \<noteq> None \<longleftrightarrow> f \<in># mains y))"
proof (cases "joins_return (y_sched y)")
  case True
  note inv = reachable_inv [OF assms] and refs = reachable_refs [OF assms]
  have d: "Scheduler_delete y = Some (drop_tasks (sched_tasks (y_sched y)) (view (y_caller y) y))"
    using True by (simp add: Scheduler_delete_def)
  show ?thesis
  proof (cases "sched_tasks (y_sched y)")
    case Nil
    then have none: "all_tasks y = {#}" using sched_tasks_all [of y] by simp
    then have "mset (all_done y) = mset (y_accepted y)"
      using sys_invD(6) [OF inv] by (simp add: conserved_def parts_done all_tasks_def)
    moreover have "fibers_of (sys_bag (y_sched y)) = {#}"
      using none by (simp add: sys_bag_def fibers_of_parts fibers_of_queue all_tasks_def)
    then have "y_heap y f \<noteq> None \<longleftrightarrow> f \<in># mains y" for f
      using refs_ok_dom [OF refs, of f] by (simp add: owners_def)
    ultimately show ?thesis using d Nil none by simp
  next
    case (Cons tk tks)
    then have "tk \<in># all_tasks y" using sched_tasks_all [of y] by (metis list.set_intros(1) set_mset_mset)
    from drop_first [OF inv refs this] this show ?thesis using d Cons by auto
  qed
qed (simp add: Scheduler_delete_def)

section \<open>An instance\<close>

text \<open>The worker has ended before the task was given to it.\<close>

theorem scheduler_delete_exact_witness:
  "Scheduler_delete demo_stopped = Some (Inl (AssertFail ''m_state == DESTROY || m_state == EXCEPT''))"
proof -
  have t: "map (\<lambda>wt. map tk_fiber (t_init (wt_w wt))) (g_workers (y_sched demo_stopped)) = [[2]]"
    "joins_return (y_sched demo_stopped)" using demo_stopped_facts by simp_all
  obtain wt tk where "g_workers (y_sched demo_stopped) = [wt]" "t_init (wt_w wt) = [tk]"
    using t(1) by (auto simp: map_eq_Cons_conv)
  then have "tk \<in># all_tasks demo_stopped" by (simp add: all_tasks_def parts_def tasks_of_def)
  then show ?thesis
    using scheduler_delete_exact [OF demo_stopped_reachable] t(2)
    by (auto split: option.splits sum.splits simp: Scheduler_delete_def)
qed

end
