(* ===== verification/Locks.thy ===== *)
theory Locks
  imports Prelude
begin

text \<open>
  Locks and their guards (\<open>sylar/mutex.h\<close>, \<open>sylar/mutex.cpp\<close>). An operation that has to wait
  is not enabled (\<open>None\<close>); a thread that waits is one whose step is not enabled yet. The locks
  of pthread and the atomic flag are as POSIX and the language define them: releasing what one
  does not hold is undefined. Guards are templates: the operations of the lock are parameters.
\<close>

type_synonym tid = nat

section \<open>The locks\<close>

text \<open>\<open>Mutex\<close> and \<open>Spinlock\<close>: the thread that holds it.\<close>

type_synonym mutex = "tid option"

definition Mutex_new :: mutex where
  "Mutex_new = None"

definition Mutex_lock :: "tid \<Rightarrow> mutex \<Rightarrow> mutex option" where
  "Mutex_lock t m = (if m = None then Some (Some t) else None)"

definition Mutex_trylock :: "tid \<Rightarrow> mutex \<Rightarrow> bool \<times> mutex" where
  "Mutex_trylock t m = (if m = None then (True, Some t) else (False, m))"

definition Mutex_unlock :: "tid \<Rightarrow> mutex \<Rightarrow> mutex res" where
  "Mutex_unlock t m = (if m = Some t then Inr None else Inl (Undefined ''pthread_mutex_unlock''))"

definition Spinlock_new :: mutex where
  "Spinlock_new = None"

definition Spinlock_lock :: "tid \<Rightarrow> mutex \<Rightarrow> mutex option" where
  "Spinlock_lock t m = (if m = None then Some (Some t) else None)"

definition Spinlock_unlock :: "tid \<Rightarrow> mutex \<Rightarrow> mutex res" where
  "Spinlock_unlock t m = (if m = Some t then Inr None else Inl (Undefined ''pthread_spin_unlock''))"

text \<open>\<open>CASLock\<close>: an atomic flag; each turn of the loop of \<open>lock\<close> sets it and tests what it was.\<close>

definition test_and_set :: "bool \<Rightarrow> bool \<times> bool" where
  "test_and_set flag = (flag, True)"

definition CASLock_new :: bool where
  "CASLock_new = False"

definition CASLock_lock :: "tid \<Rightarrow> bool \<Rightarrow> bool option" where
  "CASLock_lock t flag = (case test_and_set flag of (True, _) \<Rightarrow> None | (False, flag1) \<Rightarrow> Some flag1)"

definition CASLock_unlock :: "tid \<Rightarrow> bool \<Rightarrow> bool res" where
  "CASLock_unlock t flag = Inr False"

text \<open>\<open>RWMutex\<close>: readers, with repetitions, and a writer.\<close>

record rwlock =
  rw_readers :: "tid list"
  rw_writer :: "tid option"

datatype mode = Read | Write

definition RWMutex_new :: rwlock where
  "RWMutex_new = \<lparr>rw_readers = [], rw_writer = None\<rparr>"

definition RWMutex_rdlock :: "tid \<Rightarrow> rwlock \<Rightarrow> rwlock option" where
  "RWMutex_rdlock t l = (if rw_writer l = None then Some (l\<lparr>rw_readers := t # rw_readers l\<rparr>) else None)"

definition RWMutex_wrlock :: "tid \<Rightarrow> rwlock \<Rightarrow> rwlock option" where
  "RWMutex_wrlock t l = (if rw_writer l = None \<and> rw_readers l = [] then Some (l\<lparr>rw_writer := Some t\<rparr>)
     else None)"

definition RWMutex_tryrdlock :: "tid \<Rightarrow> rwlock \<Rightarrow> bool \<times> rwlock" where
  "RWMutex_tryrdlock t l = (case RWMutex_rdlock t l of None \<Rightarrow> (False, l) | Some l1 \<Rightarrow> (True, l1))"

definition RWMutex_trywrlock :: "tid \<Rightarrow> rwlock \<Rightarrow> bool \<times> rwlock" where
  "RWMutex_trywrlock t l = (case RWMutex_wrlock t l of None \<Rightarrow> (False, l) | Some l1 \<Rightarrow> (True, l1))"

definition RWMutex_unlock :: "tid \<Rightarrow> rwlock \<Rightarrow> rwlock res" where
  "RWMutex_unlock t l = (if rw_writer l = Some t then Inr (l\<lparr>rw_writer := None\<rparr>)
     else if t \<in> set (rw_readers l) then Inr (l\<lparr>rw_readers := remove1 t (rw_readers l)\<rparr>)
     else Inl (Undefined ''pthread_rwlock_unlock''))"

definition RWMutex_lock :: "mode \<Rightarrow> tid \<Rightarrow> rwlock \<Rightarrow> rwlock option" where
  "RWMutex_lock k = (case k of Read \<Rightarrow> RWMutex_rdlock | Write \<Rightarrow> RWMutex_wrlock)"

text \<open>
  The null locks, for debugging. The tries of \<open>NullRWMutex\<close> claim to fail although nothing is ever
  in their way.
\<close>

definition NullMutex_lock :: "tid \<Rightarrow> unit \<Rightarrow> unit option" where
  "NullMutex_lock t u = Some u"

definition NullMutex_trylock :: "tid \<Rightarrow> unit \<Rightarrow> unit" where
  "NullMutex_trylock t u = u"

definition NullMutex_unlock :: "tid \<Rightarrow> unit \<Rightarrow> unit res" where
  "NullMutex_unlock t u = Inr u"

definition NullRWMutex_rdlock :: "tid \<Rightarrow> unit \<Rightarrow> unit option" where
  "NullRWMutex_rdlock t u = Some u"

definition NullRWMutex_tryrdlock :: "tid \<Rightarrow> unit \<Rightarrow> bool \<times> unit" where
  "NullRWMutex_tryrdlock t u = (False, u)"

definition NullRWMutex_wrlock :: "tid \<Rightarrow> unit \<Rightarrow> unit option" where
  "NullRWMutex_wrlock t u = Some u"

definition NullRWMutex_trywrlock :: "tid \<Rightarrow> unit \<Rightarrow> bool \<times> unit" where
  "NullRWMutex_trywrlock t u = (False, u)"

definition NullRWMutex_unlock :: "tid \<Rightarrow> unit \<Rightarrow> unit res" where
  "NullRWMutex_unlock t u = Inr u"

definition NullRWMutex_lock :: "mode \<Rightarrow> tid \<Rightarrow> unit \<Rightarrow> unit option" where
  "NullRWMutex_lock k = (case k of Read \<Rightarrow> NullRWMutex_rdlock | Write \<Rightarrow> NullRWMutex_wrlock)"

text \<open>\<open>Semaphore\<close>, with the largest count the system allows; exceptions are values.\<close>

definition SEM_VALUE_MAX :: u32 where
  "SEM_VALUE_MAX = 0x7FFFFFFF"

definition Semaphore_new :: "u32 \<Rightarrow> u32 res" where
  "Semaphore_new n = (if SEM_VALUE_MAX < n then Inl (Uncaught ''sem_init error'') else Inr n)"

definition Semaphore_wait :: "u32 \<Rightarrow> u32 option" where
  "Semaphore_wait n = (if n = 0 then None else Some (n - 1))"

definition Semaphore_notify :: "u32 \<Rightarrow> u32 res" where
  "Semaphore_notify n = (if n = SEM_VALUE_MAX then Inl (Uncaught ''sem_post error'') else Inr (n + 1))"

section \<open>The guards\<close>

text \<open>
  The flag is \<open>m_locked\<close>. \<open>lock\<close> is the operation of the lock that the kind of guard uses.
\<close>

definition ScopedLock_new :: "(tid \<Rightarrow> 's \<Rightarrow> 's option) \<Rightarrow> tid \<Rightarrow> 's \<Rightarrow> ('s \<times> bool) option" where
  "ScopedLock_new lock t s = map_option (\<lambda>s1. (s1, True)) (lock t s)"

definition ScopedLock_lock :: "(tid \<Rightarrow> 's \<Rightarrow> 's option) \<Rightarrow> tid \<Rightarrow> 's \<times> bool \<Rightarrow> ('s \<times> bool) option" where
  "ScopedLock_lock lock t g = (if \<not> snd g then map_option (\<lambda>s1. (s1, True)) (lock t (fst g)) else Some g)"

definition ScopedLock_unlock :: "(tid \<Rightarrow> 's \<Rightarrow> 's res) \<Rightarrow> tid \<Rightarrow> 's \<times> bool \<Rightarrow> ('s \<times> bool) res" where
  "ScopedLock_unlock unlock t g =
     (if snd g then bindR (unlock t (fst g)) (\<lambda>s1. Inr (s1, False)) else Inr g)"

definition ScopedLock_delete :: "(tid \<Rightarrow> 's \<Rightarrow> 's res) \<Rightarrow> tid \<Rightarrow> 's \<times> bool \<Rightarrow> 's res" where
  "ScopedLock_delete unlock t g = bindR (ScopedLock_unlock unlock t g) (\<lambda>g1. Inr (fst g1))"

definition ReadScopedLock_new :: "tid \<Rightarrow> rwlock \<Rightarrow> (rwlock \<times> bool) option" where
  "ReadScopedLock_new t s = map_option (\<lambda>s1. (s1, True)) (RWMutex_rdlock t s)"

definition ReadScopedLock_lock :: "tid \<Rightarrow> rwlock \<times> bool \<Rightarrow> (rwlock \<times> bool) option" where
  "ReadScopedLock_lock t g =
     (if \<not> snd g then map_option (\<lambda>s1. (s1, True)) (RWMutex_rdlock t (fst g)) else Some g)"

definition ReadScopedLock_unlock :: "tid \<Rightarrow> rwlock \<times> bool \<Rightarrow> (rwlock \<times> bool) res" where
  "ReadScopedLock_unlock t g =
     (if snd g then bindR (RWMutex_unlock t (fst g)) (\<lambda>s1. Inr (s1, False)) else Inr g)"

definition WriteScopedLock_new :: "tid \<Rightarrow> rwlock \<Rightarrow> (rwlock \<times> bool) option" where
  "WriteScopedLock_new t s = map_option (\<lambda>s1. (s1, True)) (RWMutex_wrlock t s)"

definition WriteScopedLock_lock :: "tid \<Rightarrow> rwlock \<times> bool \<Rightarrow> (rwlock \<times> bool) option" where
  "WriteScopedLock_lock t g =
     (if \<not> snd g then map_option (\<lambda>s1. (s1, True)) (RWMutex_wrlock t (fst g)) else Some g)"

definition WriteScopedLock_unlock :: "tid \<Rightarrow> rwlock \<times> bool \<Rightarrow> (rwlock \<times> bool) res" where
  "WriteScopedLock_unlock t g =
     (if snd g then bindR (RWMutex_unlock t (fst g)) (\<lambda>s1. Inr (s1, False)) else Inr g)"

lemma rw_guards:
  "ReadScopedLock_new = ScopedLock_new (RWMutex_lock Read)"
  "ReadScopedLock_lock = ScopedLock_lock (RWMutex_lock Read)"
  "ReadScopedLock_unlock = ScopedLock_unlock RWMutex_unlock"
  "WriteScopedLock_new = ScopedLock_new (RWMutex_lock Write)"
  "WriteScopedLock_lock = ScopedLock_lock (RWMutex_lock Write)"
  "WriteScopedLock_unlock = ScopedLock_unlock RWMutex_unlock"
  by (simp_all add: fun_eq_iff ReadScopedLock_new_def ReadScopedLock_lock_def ReadScopedLock_unlock_def
      WriteScopedLock_new_def WriteScopedLock_lock_def WriteScopedLock_unlock_def ScopedLock_new_def
      ScopedLock_lock_def ScopedLock_unlock_def RWMutex_lock_def)

section \<open>Threads with guards\<close>

text \<open>
  Threads that share one lock, each with at most one guard on it: of a kind, and locked or
  not. \<open>gs_fault\<close> is set by a step that goes wrong.
\<close>

record ('k, 's) guards =
  gs_lock :: 's
  gs_guard :: "tid \<Rightarrow> ('k \<times> bool) option"
  gs_fault :: "fault option"

definition guards_new :: "'s \<Rightarrow> ('k, 's) guards" where
  "guards_new s = \<lparr>gs_lock = s, gs_guard = (\<lambda>t. None), gs_fault = None\<rparr>"

definition put_guard :: "tid \<Rightarrow> 'k \<Rightarrow> 's \<times> bool \<Rightarrow> ('k, 's) guards \<Rightarrow> ('k, 's) guards" where
  "put_guard t k g c = c\<lparr>gs_lock := fst g, gs_guard := (gs_guard c)(t \<mapsto> (k, snd g))\<rparr>"

inductive guard_step :: "('k \<Rightarrow> tid \<Rightarrow> 's \<Rightarrow> 's option) \<Rightarrow> (tid \<Rightarrow> 's \<Rightarrow> 's res) \<Rightarrow>
    ('k, 's) guards \<Rightarrow> ('k, 's) guards \<Rightarrow> bool" for lock unlock where
  new: "gs_guard c t = None \<Longrightarrow> ScopedLock_new (lock k) t (gs_lock c) = Some g \<Longrightarrow>
    guard_step lock unlock c (put_guard t k g c)"
| lock: "gs_guard c t = Some (k, b) \<Longrightarrow> ScopedLock_lock (lock k) t (gs_lock c, b) = Some g \<Longrightarrow>
    guard_step lock unlock c (put_guard t k g c)"
| unlock: "gs_guard c t = Some (k, b) \<Longrightarrow> ScopedLock_unlock unlock t (gs_lock c, b) = Inr g \<Longrightarrow>
    guard_step lock unlock c (put_guard t k g c)"
| unlock_fault: "gs_guard c t = Some (k, b) \<Longrightarrow> ScopedLock_unlock unlock t (gs_lock c, b) = Inl f \<Longrightarrow>
    guard_step lock unlock c (c\<lparr>gs_fault := Some f\<rparr>)"
| delete: "gs_guard c t = Some (k, b) \<Longrightarrow> ScopedLock_delete unlock t (gs_lock c, b) = Inr s \<Longrightarrow>
    guard_step lock unlock c (c\<lparr>gs_lock := s, gs_guard := (gs_guard c)(t := None)\<rparr>)"
| delete_fault: "gs_guard c t = Some (k, b) \<Longrightarrow> ScopedLock_delete unlock t (gs_lock c, b) = Inl f \<Longrightarrow>
    guard_step lock unlock c (c\<lparr>gs_fault := Some f\<rparr>)"

inductive guards_reach :: "('k \<Rightarrow> tid \<Rightarrow> 's \<Rightarrow> 's option) \<Rightarrow> (tid \<Rightarrow> 's \<Rightarrow> 's res) \<Rightarrow> 's \<Rightarrow>
    ('k, 's) guards \<Rightarrow> bool" for lock unlock s0 where
  start: "guards_reach lock unlock s0 (guards_new s0)"
| step: "guards_reach lock unlock s0 c \<Longrightarrow> guard_step lock unlock c c' \<Longrightarrow> guards_reach lock unlock s0 c'"

text \<open>Who holds the lock, by the guards.\<close>

definition holders :: "('k, 's) guards \<Rightarrow> ('k \<times> tid) set" where
  "holders c = {(k, t). gs_guard c t = Some (k, True)}"

section \<open>What a lock promises\<close>

text \<open>
  \<open>repr s H\<close>: the state \<open>s\<close> is that of a lock held by \<open>H\<close>. A lock that can be taken is then
  held in addition, a holder can release it, two holders are of kinds that go together, and a
  lock nobody holds can be taken.
\<close>

locale lockable =
  fixes lock :: "'k \<Rightarrow> tid \<Rightarrow> 's \<Rightarrow> 's option" and unlock :: "tid \<Rightarrow> 's \<Rightarrow> 's res"
    and repr :: "'s \<Rightarrow> ('k \<times> tid) set \<Rightarrow> bool" and compat :: "'k \<Rightarrow> 'k \<Rightarrow> bool" and s0 :: 's
  assumes new: "repr s0 {}"
    and take_repr: "repr s H \<Longrightarrow> t \<notin> snd ` H \<Longrightarrow> lock k t s = Some s' \<Longrightarrow> repr s' (insert (k, t) H)"
    and free_repr: "repr s H \<Longrightarrow> (k, t) \<in> H \<Longrightarrow> \<exists>s'. unlock t s = Inr s' \<and> repr s' (H - {(k, t)})"
    and excl: "repr s H \<Longrightarrow> (k, t) \<in> H \<Longrightarrow> (j, u) \<in> H \<Longrightarrow> t \<noteq> u \<Longrightarrow> compat k j"
    and free: "repr s {} \<Longrightarrow> lock k t s \<noteq> None"
begin

lemma unlock_guard:
  assumes "repr (gs_lock c) (holders c)" and "gs_guard c t = Some (k, b)"
  shows "\<exists>s. ScopedLock_unlock unlock t (gs_lock c, b) = Inr (s, False) \<and> repr s (holders c - {(k, t)})"
proof (cases b)
  case True
  then have "(k, t) \<in> holders c" using assms(2) by (simp add: holders_def)
  then show ?thesis using free_repr [OF assms(1)] True by (fastforce simp: ScopedLock_unlock_def)
next
  case False
  then have "holders c - {(k, t)} = holders c" using assms(2) by (auto simp: holders_def)
  then show ?thesis using assms(1) False by (simp add: ScopedLock_unlock_def)
qed

lemma holders_put:
  "holders (put_guard t k (s, b) c) = {(j, u). (j, u) \<in> holders c \<and> u \<noteq> t} \<union> (if b then {(k, t)} else {})"
  by (auto simp: holders_def put_guard_def)

lemma holders_one:
  "gs_guard c t = Some (k, b) \<Longrightarrow> {(j, u). (j, u) \<in> holders c \<and> u \<noteq> t} = holders c - {(k, t)}"
  by (auto simp: holders_def)

lemma holders_none:
  "gs_guard c t = None \<or> gs_guard c t = Some (k, False) \<Longrightarrow>
    {(j, u). (j, u) \<in> holders c \<and> u \<noteq> t} = holders c \<and> t \<notin> snd ` holders c"
  by (auto simp: holders_def)

lemma step_inv:
  assumes "guard_step lock unlock c c'" and "repr (gs_lock c) (holders c)" and "gs_fault c = None"
  shows "repr (gs_lock c') (holders c') \<and> gs_fault c' = None"
  using assms(1)
proof cases
  case (new t k g)
  then obtain s where s: "lock k t (gs_lock c) = Some s" "g = (s, True)"
    by (auto simp: ScopedLock_new_def)
  have h: "{(j, u). (j, u) \<in> holders c \<and> u \<noteq> t} = holders c" "t \<notin> snd ` holders c"
    using holders_none [of c t] new(2) by auto
  show ?thesis using take_repr [OF assms(2) h(2) s(1)] assms(3) new(1)
    by (simp add: s(2) holders_put h(1)) (simp add: put_guard_def)
next
  case (lock t k b g)
  show ?thesis
  proof (cases b)
    case True
    then have "g = (gs_lock c, True)" using lock(3) by (simp add: ScopedLock_lock_def)
    then have "put_guard t k g c = c"
      using lock(2) True by (cases c) (simp add: put_guard_def fun_upd_idem)
    then show ?thesis using assms(2,3) lock(1) by simp
  next
    case False
    then obtain s where s: "lock k t (gs_lock c) = Some s" "g = (s, True)"
      using lock(3) by (auto simp: ScopedLock_lock_def)
    have h: "{(j, u). (j, u) \<in> holders c \<and> u \<noteq> t} = holders c" "t \<notin> snd ` holders c"
      using holders_none [of c t k] lock(2) False by auto
    show ?thesis using take_repr [OF assms(2) h(2) s(1)] assms(3) lock(1)
      by (simp add: s(2) holders_put h(1)) (simp add: put_guard_def)
  qed
next
  case (unlock t k b g)
  obtain s where s: "g = (s, False)" "repr s (holders c - {(k, t)})"
    using unlock_guard [OF assms(2) unlock(2)] unlock(3) by auto
  show ?thesis using s assms(3) unlock(1)
    by (simp add: holders_put holders_one [OF unlock(2)]) (simp add: put_guard_def)
next
  case (unlock_fault t k b f)
  then show ?thesis using unlock_guard [OF assms(2) unlock_fault(2)] by auto
next
  case (delete t k b s)
  have "repr s (holders c - {(k, t)})"
    using unlock_guard [OF assms(2) delete(2)] delete(3) by (auto simp: ScopedLock_delete_def)
  moreover have "holders c' = holders c - {(k, t)}"
    using delete(2) by (auto simp: delete(1) holders_def)
  ultimately show ?thesis using assms(3) by (simp add: delete(1))
next
  case (delete_fault t k b f)
  then show ?thesis using unlock_guard [OF assms(2) delete_fault(2)] by (auto simp: ScopedLock_delete_def)
qed

lemma reach_inv:
  "guards_reach lock unlock s0 c \<Longrightarrow> repr (gs_lock c) (holders c) \<and> gs_fault c = None"
proof (induction rule: guards_reach.induct)
  case start
  have "holders (guards_new s0) = ({} :: ('k \<times> tid) set)" by (simp add: holders_def guards_new_def)
  then show ?case using new by (simp add: guards_new_def)
qed (use step_inv in blast)

text \<open>No step fails, holders go together, and a lock without a locked guard can be taken.\<close>

lemma guards_safe:
  assumes "guards_reach lock unlock s0 c"
  shows "gs_fault c = None \<and>
    (\<forall>t u k j. gs_guard c t = Some (k, True) \<and> gs_guard c u = Some (j, True) \<and> t \<noteq> u \<longrightarrow> compat k j) \<and>
    ((\<forall>t k. gs_guard c t \<noteq> Some (k, True)) \<longrightarrow> (\<forall>k t. lock k t (gs_lock c) \<noteq> None))"
proof -
  note inv = reach_inv [OF assms]
  have "holders c = {}" if "\<forall>t k. gs_guard c t \<noteq> Some (k, True)" using that by (auto simp: holders_def)
  then show ?thesis using inv excl [of "gs_lock c" "holders c"] free [of "gs_lock c"]
    by (auto simp: holders_def)
qed

end

section \<open>The locks keep the promise\<close>

definition mutex_repr :: "mutex \<Rightarrow> (unit \<times> tid) set \<Rightarrow> bool" where
  "mutex_repr m H = (H = (case m of None \<Rightarrow> {} | Some t \<Rightarrow> {((), t)}))"

definition CASLock_repr :: "bool \<Rightarrow> (unit \<times> tid) set \<Rightarrow> bool" where
  "CASLock_repr flag H = (if flag then \<exists>t. H = {((), t)} else H = {})"

definition RWMutex_repr :: "rwlock \<Rightarrow> (mode \<times> tid) set \<Rightarrow> bool" where
  "RWMutex_repr l H = (distinct (rw_readers l) \<and> (case rw_writer l of
       None \<Rightarrow> H = Pair Read ` set (rw_readers l)
     | Some w \<Rightarrow> rw_readers l = [] \<and> H = {(Write, w)}))"

definition both_read :: "mode \<Rightarrow> mode \<Rightarrow> bool" where
  "both_read k j = (k = Read \<and> j = Read)"

interpretation mutex: lockable "\<lambda>_. Mutex_lock" Mutex_unlock mutex_repr "\<lambda>_ _. False" Mutex_new
  by unfold_locales
    (auto simp: mutex_repr_def Mutex_new_def Mutex_lock_def Mutex_unlock_def split: if_splits option.splits)

interpretation spin: lockable "\<lambda>_. Spinlock_lock" Spinlock_unlock mutex_repr "\<lambda>_ _. False" Spinlock_new
  by unfold_locales
    (auto simp: mutex_repr_def Spinlock_new_def Spinlock_lock_def Spinlock_unlock_def
      split: if_splits option.splits)

interpretation cas: lockable "\<lambda>_. CASLock_lock" CASLock_unlock CASLock_repr "\<lambda>_ _. False" CASLock_new
  by unfold_locales
    (auto simp: CASLock_repr_def CASLock_new_def CASLock_lock_def CASLock_unlock_def test_and_set_def
      split: if_splits bool.splits)

text \<open>The null locks keep it too, for holders of which any two go together.\<close>

interpretation nolock: lockable "\<lambda>_. NullMutex_lock" NullMutex_unlock "\<lambda>_ _. True" "\<lambda>_ _. True" "()"
  by unfold_locales (simp_all add: NullMutex_lock_def NullMutex_unlock_def)

interpretation norw: lockable NullRWMutex_lock NullRWMutex_unlock "\<lambda>_ _. True" "\<lambda>_ _. True" "()"
  by unfold_locales
    (simp_all add: NullRWMutex_lock_def NullRWMutex_rdlock_def NullRWMutex_wrlock_def NullRWMutex_unlock_def
      split: mode.split)

lemma null_guards_share:
  "\<exists>c. guards_reach (\<lambda>_. NullMutex_lock) NullMutex_unlock () c \<and> {((), t), ((), u)} \<subseteq> holders c"
proof -
  have g: "ScopedLock_new NullMutex_lock t () = Some ((), True)" for t
    by (simp add: ScopedLock_new_def NullMutex_lock_def)
  have n: "guards_reach (\<lambda>_. NullMutex_lock) NullMutex_unlock () (put_guard t () ((), True) c)"
    if "guards_reach (\<lambda>_. NullMutex_lock) NullMutex_unlock () c" "gs_guard c t = None" for c t
    using guards_reach.step [OF that(1) guard_step.new [OF that(2)]] g by simp
  let ?c = "put_guard t () ((), True) (guards_new ())"
  have c: "guards_reach (\<lambda>_. NullMutex_lock) NullMutex_unlock () ?c"
    by (rule n [OF guards_reach.start]) (simp add: guards_new_def)
  show ?thesis
  proof (cases "t = u")
    case True
    then show ?thesis using c by (intro exI [of _ ?c]) (simp add: holders_def put_guard_def)
  next
    case False
    then have "guards_reach (\<lambda>_. NullMutex_lock) NullMutex_unlock () (put_guard u () ((), True) ?c)"
      using n [OF c, of u] by (simp add: put_guard_def guards_new_def)
    then show ?thesis by (intro exI conjI) (assumption, simp add: holders_def put_guard_def)
  qed
qed

interpretation rw: lockable RWMutex_lock RWMutex_unlock RWMutex_repr both_read RWMutex_new
proof unfold_locales
  fix s H t k s' assume "RWMutex_repr s H" "t \<notin> snd ` H" "RWMutex_lock k t s = Some s'"
  then show "RWMutex_repr s' (insert (k, t) H)"
    by (cases k) (auto simp: RWMutex_repr_def RWMutex_lock_def RWMutex_rdlock_def RWMutex_wrlock_def
        image_image split: if_splits option.splits)
next
  fix s H k t assume r: "RWMutex_repr s H" "(k, t) \<in> H"
  show "\<exists>s'. RWMutex_unlock t s = Inr s' \<and> RWMutex_repr s' (H - {(k, t)})"
  proof (cases "rw_writer s")
    case None
    then have "t \<in> set (rw_readers s)" "k = Read" using r by (auto simp: RWMutex_repr_def)
    then show ?thesis using r None
      by (auto simp: RWMutex_unlock_def RWMutex_repr_def)
  next
    case (Some w)
    then show ?thesis using r by (auto simp: RWMutex_unlock_def RWMutex_repr_def)
  qed
qed (auto simp: RWMutex_repr_def RWMutex_new_def both_read_def RWMutex_lock_def RWMutex_rdlock_def
    RWMutex_wrlock_def split: option.splits mode.splits)

section \<open>Properties\<close>

text \<open>
  Scoped locks on a \<open>CASLock\<close>: whatever the threads do with their guards and in whatever
  order, at most one of them has a locked guard, no operation goes wrong, and when no guard is
  locked the next turn of any waiting \<open>lock\<close> succeeds.
\<close>

theorem CASLock_guards_exclude:
  assumes "guards_reach (\<lambda>_ :: unit. CASLock_lock) CASLock_unlock CASLock_new c"
  shows "gs_fault c = None \<and>
    (\<forall>t u. gs_guard c t = Some ((), True) \<and> gs_guard c u = Some ((), True) \<longrightarrow> t = u) \<and>
    ((\<forall>t. gs_guard c t \<noteq> Some ((), True)) \<longrightarrow> (\<forall>t. CASLock_lock t (gs_lock c) \<noteq> None))"
  using cas.guards_safe [OF assms] by auto

text \<open>
  C24. Read and write guards on a \<open>RWMutex\<close>: no operation goes wrong (each \<open>unlock\<close> releases what
  its guard took), a locked write guard is the only locked guard, and when no guard is locked the
  lock can be taken for reading and for writing.
\<close>

theorem RWMutex_guards_safe:
  assumes "guards_reach RWMutex_lock RWMutex_unlock RWMutex_new c"
  shows "gs_fault c = None \<and>
    (\<forall>t u k. gs_guard c t = Some (Write, True) \<and> gs_guard c u = Some (k, True) \<longrightarrow> t = u) \<and>
    ((\<forall>t k. gs_guard c t \<noteq> Some (k, True)) \<longrightarrow>
      (\<forall>t. RWMutex_rdlock t (gs_lock c) \<noteq> None \<and> RWMutex_wrlock t (gs_lock c) \<noteq> None))"
proof -
  note safe = rw.guards_safe [OF assms]
  have "t = u" if "gs_guard c t = Some (Write, True)" "gs_guard c u = Some (k, True)" for t u k
    using safe that by (auto simp: both_read_def)
  moreover have "RWMutex_rdlock t (gs_lock c) \<noteq> None \<and> RWMutex_wrlock t (gs_lock c) \<noteq> None"
    if "\<forall>t k. gs_guard c t \<noteq> Some (k, True)" for t
  proof -
    have l: "RWMutex_lock k t (gs_lock c) \<noteq> None" for k using safe that by blast
    show ?thesis using l [of Read] l [of Write] by (simp add: RWMutex_lock_def)
  qed
  ultimately show ?thesis using safe by blast
qed

text \<open>The same of scoped locks on a \<open>Mutex\<close> and on a \<open>Spinlock\<close>.\<close>

lemma Mutex_guards_exclude:
  assumes "guards_reach (\<lambda>_ :: unit. Mutex_lock) Mutex_unlock Mutex_new c"
  shows "gs_fault c = None \<and>
    (\<forall>t u. gs_guard c t = Some ((), True) \<and> gs_guard c u = Some ((), True) \<longrightarrow> t = u)"
  using mutex.guards_safe [OF assms] by auto

lemma Spinlock_guards_exclude:
  assumes "guards_reach (\<lambda>_ :: unit. Spinlock_lock) Spinlock_unlock Spinlock_new c"
  shows "gs_fault c = None \<and>
    (\<forall>t u. gs_guard c t = Some ((), True) \<and> gs_guard c u = Some ((), True) \<longrightarrow> t = u)"
  using spin.guards_safe [OF assms] by auto

section \<open>Instances\<close>

theorem CASLock_guards_exclude_witness:
  "\<exists>c. guards_reach (\<lambda>_ :: unit. CASLock_lock) CASLock_unlock CASLock_new c \<and>
    gs_guard c 1 = Some ((), True) \<and> gs_guard c 2 \<noteq> Some ((), True)"
proof -
  let ?c = "put_guard 1 () (True, True) (guards_new CASLock_new)"
  have "guard_step (\<lambda>_ :: unit. CASLock_lock) CASLock_unlock (guards_new CASLock_new) ?c"
    by (rule guard_step.new)
      (simp_all add: guards_new_def ScopedLock_new_def CASLock_lock_def CASLock_new_def test_and_set_def)
  then have r: "guards_reach (\<lambda>_ :: unit. CASLock_lock) CASLock_unlock CASLock_new ?c"
    by (rule guards_reach.step [OF guards_reach.start])
  have "gs_guard ?c 1 = Some ((), True)" by (simp add: put_guard_def)
  moreover have "gs_guard ?c 2 \<noteq> Some ((), True)"
    using CASLock_guards_exclude [OF r] calculation by fastforce
  ultimately show ?thesis using r by blast
qed

theorem RWMutex_guards_safe_witness:
  "\<exists>c. guards_reach RWMutex_lock RWMutex_unlock RWMutex_new c \<and>
    gs_guard c 1 = Some (Write, True) \<and> gs_guard c 2 \<noteq> Some (Read, True)"
proof -
  let ?c = "put_guard 1 Write (RWMutex_new\<lparr>rw_writer := Some 1\<rparr>, True) (guards_new RWMutex_new)"
  have "guard_step RWMutex_lock RWMutex_unlock (guards_new RWMutex_new) ?c"
    by (rule guard_step.new)
      (simp_all add: guards_new_def ScopedLock_new_def RWMutex_lock_def RWMutex_wrlock_def RWMutex_new_def)
  then have r: "guards_reach RWMutex_lock RWMutex_unlock RWMutex_new ?c"
    by (rule guards_reach.step [OF guards_reach.start])
  have "gs_guard ?c 1 = Some (Write, True)" by (simp add: put_guard_def)
  moreover have "gs_guard ?c 2 \<noteq> Some (Read, True)"
    using RWMutex_guards_safe [OF r] calculation by fastforce
  ultimately show ?thesis using r by blast
qed

end
