(* ===== verification/Threads.thy ===== *)
theory Threads
  imports Locks
begin

text \<open>
  Threads (\<open>sylar/thread.h\<close>, \<open>sylar/thread.cpp\<close>): the constructor and the new thread run side by
  side, and a semaphore makes the constructor wait until the object is ready. A member that the
  code has not initialised is \<open>None\<close>.
\<close>

section \<open>State\<close>

record 'cb thread =
  th_id :: "int option"
  th_thread :: "u64 option"
  th_cb :: "'cb option"
  th_name :: string
  th_sem :: u32

text \<open>The thread-local variables of a thread, and the name the system shows.\<close>

record tlocal =
  tl_this :: bool
  tl_name :: string
  tl_os_name :: string

definition Thread_SetThis :: "bool \<Rightarrow> tlocal \<Rightarrow> tlocal" where
  "Thread_SetThis b l = l\<lparr>tl_this := b\<rparr>"

definition Thread_SetName :: "string \<Rightarrow> tlocal \<Rightarrow> tlocal" where
  "Thread_SetName n l = l\<lparr>tl_name := n\<rparr>"

text \<open>The members before the body of the constructor creates the thread.\<close>

definition Thread_ctor :: "'cb \<Rightarrow> string \<Rightarrow> 'cb thread" where
  "Thread_ctor cb name = \<lparr>th_id = None, th_thread = None, th_cb = Some cb,
     th_name = (if name = [] then ''UNKNOW'' else name), th_sem = 0\<rparr>"

definition Thread_default :: "'cb thread" where
  "Thread_default = \<lparr>th_id = None, th_thread = None, th_cb = None, th_name = [], th_sem = 0\<rparr>"

text \<open>\<open>join\<close> and the destructor; the result of the destructor is whether it detaches.\<close>

definition Thread_join :: "(u64 \<Rightarrow> bool) \<Rightarrow> 'cb thread \<Rightarrow> 'cb thread res" where
  "Thread_join pthread_join th = (case th_thread th of None \<Rightarrow> Inl (Undefined ''m_thread'')
     | Some h \<Rightarrow> if h \<noteq> 0
         then (if pthread_join h then Inr (th\<lparr>th_thread := Some 0\<rparr>) else Inl (Uncaught ''pthread_join error''))
         else Inr th)"

definition Thread_dtor :: "'cb thread \<Rightarrow> bool res" where
  "Thread_dtor th = (case th_thread th of None \<Rightarrow> Inl (Undefined ''m_thread'') | Some h \<Rightarrow> Inr (h \<noteq> 0))"

section \<open>Construction\<close>

text \<open>
  Where the constructor is (before \<open>pthread_create\<close>, at \<open>m_semaphore.wait()\<close>, done, or left by
  an exception) and which statement of \<open>run\<close> the new thread is at.
\<close>

datatype creator = Creating | Waiting | Returned | Threw string

datatype run_pc = NotStarted | AtThis | AtName | AtId | AtOsName | AtSwap | AtNotify | AtCall | Ended

record 'cb machine =
  mc_creator :: creator
  mc_pc :: run_pc
  mc_thread :: "'cb thread"
  mc_local :: tlocal
  mc_cb :: "'cb option"
  mc_called :: "'cb list"

definition machine_new :: "'cb \<Rightarrow> string \<Rightarrow> 'cb machine" where
  "machine_new cb name = \<lparr>mc_creator = Creating, mc_pc = NotStarted, mc_thread = Thread_ctor cb name,
     mc_local = \<lparr>tl_this = False, tl_name = ''UNKNOW'', tl_os_name = []\<rparr>, mc_cb = None, mc_called = []\<rparr>"

text \<open>One statement of \<open>run\<close>; \<open>tid\<close> is what \<open>GetThreadId\<close> gives.\<close>

definition run_step :: "int \<Rightarrow> 'cb machine \<Rightarrow> 'cb machine res" where
  "run_step tid m = (let th = mc_thread m in case mc_pc m of
     AtThis \<Rightarrow> Inr (m\<lparr>mc_pc := AtName, mc_local := Thread_SetThis True (mc_local m)\<rparr>)
   | AtName \<Rightarrow> Inr (m\<lparr>mc_pc := AtId, mc_local := Thread_SetName (th_name th) (mc_local m)\<rparr>)
   | AtId \<Rightarrow> Inr (m\<lparr>mc_pc := AtOsName, mc_thread := th\<lparr>th_id := Some tid\<rparr>\<rparr>)
   | AtOsName \<Rightarrow> Inr (m\<lparr>mc_pc := AtSwap, mc_local := (mc_local m)\<lparr>tl_os_name := take 15 (th_name th)\<rparr>\<rparr>)
   | AtSwap \<Rightarrow> Inr (m\<lparr>mc_pc := AtNotify, mc_cb := th_cb th, mc_thread := th\<lparr>th_cb := mc_cb m\<rparr>\<rparr>)
   | AtNotify \<Rightarrow> bindR (Semaphore_notify (th_sem th)) (\<lambda>n.
       Inr (m\<lparr>mc_pc := AtCall, mc_thread := th\<lparr>th_sem := n\<rparr>\<rparr>))
   | AtCall \<Rightarrow> (case mc_cb m of None \<Rightarrow> Inl (Uncaught ''bad_function_call'')
       | Some cb \<Rightarrow> Inr (m\<lparr>mc_pc := Ended, mc_called := mc_called m @ [cb]\<rparr>))
   | NotStarted \<Rightarrow> Inl (Undefined ''run'') | Ended \<Rightarrow> Inl (Undefined ''run''))"

inductive machine_step :: "int \<Rightarrow> 'cb machine \<Rightarrow> 'cb machine \<Rightarrow> bool" for tid where
  create: "mc_creator m = Creating \<Longrightarrow> h \<noteq> 0 \<Longrightarrow>
    machine_step tid m (m\<lparr>mc_creator := Waiting, mc_pc := AtThis, mc_thread := (mc_thread m)\<lparr>th_thread := Some h\<rparr>\<rparr>)"
| create_fails: "mc_creator m = Creating \<Longrightarrow>
    machine_step tid m (m\<lparr>mc_creator := Threw ''pthread_create error''\<rparr>)"
| wait: "mc_creator m = Waiting \<Longrightarrow> Semaphore_wait (th_sem (mc_thread m)) = Some n \<Longrightarrow>
    machine_step tid m (m\<lparr>mc_creator := Returned, mc_thread := (mc_thread m)\<lparr>th_sem := n\<rparr>\<rparr>)"
| run: "mc_pc m \<noteq> NotStarted \<Longrightarrow> mc_pc m \<noteq> Ended \<Longrightarrow> run_step tid m = Inr m' \<Longrightarrow>
    machine_step tid m m'"

inductive machine_reach :: "int \<Rightarrow> 'cb \<Rightarrow> string \<Rightarrow> 'cb machine \<Rightarrow> bool" for tid cb name where
  start: "machine_reach tid cb name (machine_new cb name)"
| step: "machine_reach tid cb name m \<Longrightarrow> machine_step tid m m' \<Longrightarrow> machine_reach tid cb name m'"

section \<open>Invariant\<close>

fun pc_nat :: "run_pc \<Rightarrow> nat" where
  "pc_nat NotStarted = 0" | "pc_nat AtThis = 1" | "pc_nat AtName = 2" | "pc_nat AtId = 3"
| "pc_nat AtOsName = 4" | "pc_nat AtSwap = 5" | "pc_nat AtNotify = 6" | "pc_nat AtCall = 7"
| "pc_nat Ended = 8"

text \<open>What has been done before each statement, and how far the constructor can be.\<close>

definition machine_inv :: "int \<Rightarrow> 'cb \<Rightarrow> string \<Rightarrow> 'cb machine \<Rightarrow> bool" where
  "machine_inv tid cb name m =
     (let th = mc_thread m; p = pc_nat (mc_pc m); nm = (if name = [] then ''UNKNOW'' else name) in
      th_name th = nm \<and>
      (mc_creator m \<in> {Creating, Threw ''pthread_create error''} \<longleftrightarrow> mc_pc m = NotStarted) \<and>
      (mc_creator m \<in> {Waiting, Returned, Creating, Threw ''pthread_create error''}) \<and>
      (p \<noteq> 0 \<longrightarrow> (\<exists>h. th_thread th = Some h \<and> h \<noteq> 0)) \<and>
      (2 \<le> p \<longrightarrow> tl_this (mc_local m)) \<and> (3 \<le> p \<longrightarrow> tl_name (mc_local m) = nm) \<and>
      (4 \<le> p \<longrightarrow> th_id th = Some tid) \<and> (5 \<le> p \<longrightarrow> tl_os_name (mc_local m) = take 15 nm) \<and>
      (if 6 \<le> p then mc_cb m = Some cb \<and> th_cb th = None else mc_cb m = None \<and> th_cb th = Some cb) \<and>
      (p < 7 \<longrightarrow> th_sem th = 0 \<and> mc_creator m \<noteq> Returned) \<and>
      (7 \<le> p \<longrightarrow> th_sem th = (if mc_creator m = Returned then 0 else 1)) \<and>
      mc_called m = (if p = 8 then [cb] else []))"

lemma machine_inv_new: "machine_inv tid cb name (machine_new cb name)"
  by (simp add: machine_inv_def machine_new_def Thread_ctor_def)

lemma run_step_inv:
  assumes "machine_inv tid cb name m" and "mc_pc m \<noteq> NotStarted" and "mc_pc m \<noteq> Ended"
  shows "\<exists>m'. run_step tid m = Inr m' \<and> machine_inv tid cb name m' \<and> pc_nat (mc_pc m') = Suc (pc_nat (mc_pc m)) \<and>
    mc_creator m' = mc_creator m"
  using assms
  by (cases "mc_pc m")
    (auto simp: run_step_def machine_inv_def Let_def Thread_SetThis_def Thread_SetName_def
      Semaphore_notify_def SEM_VALUE_MAX_def)

lemma machine_step_inv:
  assumes "machine_step tid m m'" and inv: "machine_inv tid cb name m"
  shows "machine_inv tid cb name m'"
  using assms(1)
proof cases
  case (wait n)
  have "7 \<le> pc_nat (mc_pc m)" "n = 0" "th_sem (mc_thread m) = 1"
    using wait inv by (auto simp: machine_inv_def Let_def Semaphore_wait_def split: if_splits)
  then show ?thesis using wait(1,2) inv by (auto simp: machine_inv_def Let_def)
next
  case run
  then show ?thesis using run_step_inv [OF inv] by auto
qed (use inv in \<open>auto simp: machine_inv_def Let_def\<close>)

lemma machine_reach_inv: "machine_reach tid cb name m \<Longrightarrow> machine_inv tid cb name m"
  by (induction rule: machine_reach.induct) (auto intro: machine_inv_new machine_step_inv)

section \<open>Properties\<close>

text \<open>
  C25. When the constructor of a thread returns, the object is complete: its id is that of the
  new thread, the callback has been moved out of it, and the new thread knows its own object and
  name (\<open>UNKNOW\<close> when none was given; the system sees fifteen characters of it). From then on no
  step of the new thread changes the object, and the callback is called at most once.
\<close>

theorem thread_started:
  assumes "machine_reach tid cb name m" and "mc_creator m = Returned"
  shows "th_id (mc_thread m) = Some tid \<and> th_cb (mc_thread m) = None \<and> tl_this (mc_local m) \<and>
    tl_name (mc_local m) = (if name = [] then ''UNKNOW'' else name) \<and>
    tl_os_name (mc_local m) = take 15 (tl_name (mc_local m)) \<and>
    mc_called m = (if mc_pc m = Ended then [cb] else []) \<and>
    (\<forall>m'. machine_step tid m m' \<longrightarrow> mc_thread m' = mc_thread m \<and> mc_called m' = [cb])"
proof -
  have inv: "machine_inv tid cb name m" by (rule machine_reach_inv [OF assms(1)])
  then have p: "7 \<le> pc_nat (mc_pc m)" using assms(2) by (auto simp: machine_inv_def Let_def)
  have "mc_thread m' = mc_thread m \<and> mc_called m' = [cb]" if "machine_step tid m m'" for m'
    using that
  proof cases
    case run
    then have "mc_pc m = AtCall" using p by (cases "mc_pc m") auto
    then show ?thesis using run(3) inv by (auto simp: run_step_def machine_inv_def Let_def)
  qed (use assms(2) in auto)
  moreover have "pc_nat (mc_pc m) = 8 \<longleftrightarrow> mc_pc m = Ended" by (cases "mc_pc m") auto
  ultimately show ?thesis using inv p by (auto simp: machine_inv_def Let_def)
qed

text \<open>
  Starting a thread never gets stuck and never fails once the system has made the thread:
  in every reachable state, while the constructor waits some step is enabled, every statement of
  the new thread succeeds, and the new thread reaches the call of its callback in at most six
  steps of its own.
\<close>

theorem thread_start_progress:
  assumes "machine_reach tid cb name m"
  shows "(mc_creator m = Waiting \<longrightarrow> (\<exists>m'. machine_step tid m m')) \<and>
    (mc_pc m \<noteq> NotStarted \<and> mc_pc m \<noteq> Ended \<longrightarrow>
      (\<exists>m'. run_step tid m = Inr m' \<and> pc_nat (mc_pc m') = Suc (pc_nat (mc_pc m)))) \<and>
    (mc_creator m = Waiting \<and> pc_nat (mc_pc m) = 7 \<longrightarrow>
      (\<exists>m'. machine_step tid m m' \<and> mc_creator m' = Returned))"
proof -
  have inv: "machine_inv tid cb name m" by (rule machine_reach_inv [OF assms])
  have run: "\<exists>m'. run_step tid m = Inr m' \<and> pc_nat (mc_pc m') = Suc (pc_nat (mc_pc m))"
    if "mc_pc m \<noteq> NotStarted" "mc_pc m \<noteq> Ended"
    using run_step_inv [OF inv that] by blast
  have wake: "\<exists>m'. machine_step tid m m' \<and> mc_creator m' = Returned"
    if "mc_creator m = Waiting" "7 \<le> pc_nat (mc_pc m)"
  proof -
    have "Semaphore_wait (th_sem (mc_thread m)) = Some 0"
      using inv that by (simp add: machine_inv_def Let_def Semaphore_wait_def)
    from machine_step.wait [OF that(1) this] show ?thesis by fastforce
  qed
  have "\<exists>m'. machine_step tid m m'" if w: "mc_creator m = Waiting"
  proof (cases "7 \<le> pc_nat (mc_pc m)")
    case True
    then show ?thesis using wake w by blast
  next
    case False
    then have "mc_pc m \<noteq> Ended" by auto
    moreover have "mc_pc m \<noteq> NotStarted" using inv w by (auto simp: machine_inv_def Let_def)
    ultimately show ?thesis using run machine_step.run by blast
  qed
  then show ?thesis using run wake by auto
qed

text \<open>A thread made by the default constructor cannot be destroyed or joined.\<close>

lemma Thread_default_undefined:
  "Thread_dtor Thread_default = Inl (Undefined ''m_thread'') \<and>
    Thread_join j Thread_default = Inl (Undefined ''m_thread'')"
  by (simp add: Thread_dtor_def Thread_join_def Thread_default_def)

section \<open>Instances\<close>

lemma reach_pc:
  "k \<le> 6 \<Longrightarrow> \<exists>m. machine_reach tid cb name m \<and> mc_creator m = Waiting \<and> pc_nat (mc_pc m) = Suc k"
proof (induction k)
  case 0
  let ?m = "(machine_new cb name)\<lparr>mc_creator := Waiting, mc_pc := AtThis,
    mc_thread := (mc_thread (machine_new cb name))\<lparr>th_thread := Some 1\<rparr>\<rparr>"
  have "machine_step tid (machine_new cb name) ?m"
    by (rule machine_step.create) (simp_all add: machine_new_def)
  then have "machine_reach tid cb name ?m" by (rule machine_reach.step [OF machine_reach.start])
  then show ?case by (intro exI [of _ ?m]) simp
next
  case (Suc k)
  then obtain m where m: "machine_reach tid cb name m" "mc_creator m = Waiting" "pc_nat (mc_pc m) = Suc k"
    by auto
  have pc: "mc_pc m \<noteq> NotStarted" "mc_pc m \<noteq> Ended" using m(3) Suc.prems by auto
  obtain m' where m': "run_step tid m = Inr m'" "pc_nat (mc_pc m') = Suc (Suc k)" "mc_creator m' = Waiting"
    using run_step_inv [OF machine_reach_inv [OF m(1)] pc] m by auto
  then show ?case using machine_reach.step [OF m(1) machine_step.run [OF pc m'(1)]] by blast
qed

theorem thread_started_witness:
  "\<exists>m. machine_reach 42 True ''a name longer than fifteen'' m \<and> mc_creator m = Returned \<and>
    th_id (mc_thread m) = Some 42 \<and> tl_os_name (mc_local m) = ''a name longer t''"
proof -
  obtain m where m: "machine_reach 42 True ''a name longer than fifteen'' m" "mc_creator m = Waiting"
    "pc_nat (mc_pc m) = Suc 6"
    using reach_pc [where k = 6 and tid = 42 and cb = True and name = "''a name longer than fifteen''"] by auto
  have "th_sem (mc_thread m) = 1"
    using machine_reach_inv [OF m(1)] m(2,3) by (simp add: machine_inv_def Let_def)
  then have "Semaphore_wait (th_sem (mc_thread m)) = Some 0" by (simp add: Semaphore_wait_def)
  from machine_reach.step [OF m(1) machine_step.wait [OF m(2) this]]
  obtain m' where "machine_reach 42 True ''a name longer than fifteen'' m'" "mc_creator m' = Returned"
    by fastforce
  then show ?thesis using thread_started [of 42 True "''a name longer than fifteen''" m'] by auto
qed

theorem thread_start_progress_witness:
  "\<exists>m m'. machine_reach 42 True [] m \<and> mc_pc m = AtCall \<and> machine_step 42 m m' \<and> mc_creator m' = Returned"
proof -
  obtain m where m: "machine_reach 42 True [] m" "mc_creator m = Waiting" "pc_nat (mc_pc m) = Suc 6"
    using reach_pc [where k = 6 and tid = 42 and cb = True and name = "[]"] by auto
  then have "mc_pc m = AtCall" by (cases "mc_pc m") auto
  then show ?thesis using thread_start_progress [OF m(1)] m by fastforce
qed

end
