(* ===== verification/Startups.thy ===== *)
theory Startups
  imports Threads Schedulers
begin

text \<open>
  How the threads of a scheduler start (\<open>sylar/scheduler.cpp\<close>): the constructors of
  \<open>WokerThread\<close> and \<open>AllocThread\<close> create the thread and wait for its semaphore, while the new
  thread goes through the statements before its loop. What \<open>Schedulers\<close> takes as one step, the
  start of a thread, is here the interleaving of the two.
\<close>

section \<open>State\<close>

text \<open>The statements of both \<open>run\<close> functions before their loops.\<close>

datatype stmt = DoSetThis | DoSetScheduler | DoSetName | DoSetId | DoSetOsName | DoNotify | DoMainFiber

definition WokerThread_prologue :: "stmt list" where
  "WokerThread_prologue =
     [DoSetThis, DoSetScheduler, DoSetName, DoSetId, DoSetOsName, DoNotify, DoMainFiber]"

definition AllocThread_prologue :: "stmt list" where
  "AllocThread_prologue = [DoSetThis, DoSetName, DoSetId, DoSetOsName, DoNotify]"

text \<open>
  The object and the thread-local variables of the new thread. \<open>su_rest\<close> is what the thread has
  still to do before its loop. \<open>su_base_name\<close> is \<open>Thread::m_name\<close>, which \<open>getName\<close> returns; a
  worker has a second \<open>m_name\<close> of its own.
\<close>

record startup =
  su_creator :: creator
  su_rest :: "stmt list"
  su_id :: "int option"
  su_thread :: "u64 option"
  su_sem :: u32
  su_base_name :: string
  su_name :: string
  su_local :: tlocal
  su_scheduler :: "nat option"
  su_fiber :: "ptr option"

definition startup_new :: "string \<Rightarrow> string \<Rightarrow> startup" where
  "startup_new base name = \<lparr>su_creator = Creating, su_rest = [], su_id = None, su_thread = None, su_sem = 0,
     su_base_name = base, su_name = name,
     su_local = \<lparr>tl_this = False, tl_name = ''UNKNOW'', tl_os_name = []\<rparr>, su_scheduler = None,
     su_fiber = None\<rparr>"

text \<open>The members when the bodies of the constructors create the thread.\<close>

definition WokerThread_ctor :: "string \<Rightarrow> startup" where
  "WokerThread_ctor name = startup_new [] (if name = [] then ''UNKNOW'' else name)"

definition AllocThread_ctor :: "string \<Rightarrow> startup" where
  "AllocThread_ctor name = (let n = (if name = [] then ''UNKNOW'' else name) in startup_new n n)"

text \<open>\<open>s\<close> is the heap as the thread finds it, with its own thread-local variables; the new objects of
  the heap are those of \<open>spawn_worker\<close>.\<close>

fun startup_stmt :: "int \<Rightarrow> nat \<Rightarrow> fsys \<Rightarrow> stmt \<Rightarrow> startup \<Rightarrow> startup res" where
  "startup_stmt tid k s DoSetThis u = Inr (u\<lparr>su_local := Thread_SetThis True (su_local u)\<rparr>)"
| "startup_stmt tid k s DoSetScheduler u = Inr (u\<lparr>su_scheduler := Scheduler_SetThis k (su_scheduler u)\<rparr>)"
| "startup_stmt tid k s DoSetName u = Inr (u\<lparr>su_local := Thread_SetName (su_name u) (su_local u)\<rparr>)"
| "startup_stmt tid k s DoSetId u = Inr (u\<lparr>su_id := Some tid\<rparr>)"
| "startup_stmt tid k s DoSetOsName u = Inr (u\<lparr>su_local := (su_local u)\<lparr>tl_os_name := take 15 (su_name u)\<rparr>\<rparr>)"
| "startup_stmt tid k s DoNotify u = bindR (Semaphore_notify (su_sem u)) (\<lambda>n. Inr (u\<lparr>su_sem := n\<rparr>))"
| "startup_stmt tid k s DoMainFiber u = bindR (GetThis s) (\<lambda>(f, s'). Inr (u\<lparr>su_fiber := Some f\<rparr>))"

inductive startup_step :: "stmt list \<Rightarrow> int \<Rightarrow> nat \<Rightarrow> startup \<Rightarrow> startup \<Rightarrow> bool" for prologue tid k where
  created: "su_creator u = Creating \<Longrightarrow> h \<noteq> 0 \<Longrightarrow>
    startup_step prologue tid k u (u\<lparr>su_creator := Waiting, su_thread := Some h, su_rest := prologue\<rparr>)"
| not_created: "su_creator u = Creating \<Longrightarrow>
    startup_step prologue tid k u (u\<lparr>su_creator := Threw ''pthread_create error''\<rparr>)"
| waited: "su_creator u = Waiting \<Longrightarrow> Semaphore_wait (su_sem u) = Some n \<Longrightarrow>
    startup_step prologue tid k u (u\<lparr>su_creator := Returned, su_sem := n\<rparr>)"
| ran: "su_rest u = st # sts \<Longrightarrow> this_fiber s = None \<Longrightarrow> startup_stmt tid k s st u = Inr u' \<Longrightarrow>
    startup_step prologue tid k u (u'\<lparr>su_rest := sts\<rparr>)"

inductive startup_reach :: "stmt list \<Rightarrow> int \<Rightarrow> nat \<Rightarrow> startup \<Rightarrow> startup \<Rightarrow> bool" for prologue tid k u0 where
  begun: "startup_reach prologue tid k u0 u0"
| stepped: "startup_reach prologue tid k u0 u \<Longrightarrow> startup_step prologue tid k u u' \<Longrightarrow>
    startup_reach prologue tid k u0 u'"

section \<open>Invariant\<close>

text \<open>What the statements \<open>ds\<close> have done.\<close>

definition has_done :: "int \<Rightarrow> nat \<Rightarrow> string \<Rightarrow> string \<Rightarrow> stmt list \<Rightarrow> startup \<Rightarrow> bool" where
  "has_done tid k base name ds u = (su_base_name u = base \<and> su_name u = name \<and>
     (DoSetId \<in> set ds \<longrightarrow> su_id u = Some tid) \<and> tl_this (su_local u) = (DoSetThis \<in> set ds) \<and>
     (DoSetName \<in> set ds \<longrightarrow> tl_name (su_local u) = name) \<and>
     (DoSetOsName \<in> set ds \<longrightarrow> tl_os_name (su_local u) = take 15 name) \<and>
     su_scheduler u = (if DoSetScheduler \<in> set ds then Some k else None) \<and>
     (su_fiber u \<noteq> None) = (DoMainFiber \<in> set ds))"

definition startup_inv :: "stmt list \<Rightarrow> int \<Rightarrow> nat \<Rightarrow> string \<Rightarrow> string \<Rightarrow> startup \<Rightarrow> bool" where
  "startup_inv prologue tid k base name u =
     (if su_creator u \<in> {Waiting, Returned}
      then (\<exists>h. su_thread u = Some h \<and> h \<noteq> 0) \<and> (\<exists>ds. prologue = ds @ su_rest u \<and> has_done tid k base name ds u \<and>
        (if DoNotify \<in> set ds then unat (su_sem u) + (if su_creator u = Returned then 1 else 0) = 1
         else su_creator u = Waiting \<and> su_sem u = 0))
      else su_rest u = [] \<and> has_done tid k base name [] u \<and> su_sem u = 0)"

lemma has_done_simps [simp]:
  "has_done tid k base name ds (u\<lparr>su_creator := c\<rparr>) = has_done tid k base name ds u"
  "has_done tid k base name ds (u\<lparr>su_thread := h\<rparr>) = has_done tid k base name ds u"
  "has_done tid k base name ds (u\<lparr>su_sem := n\<rparr>) = has_done tid k base name ds u"
  "has_done tid k base name ds (u\<lparr>su_rest := sts\<rparr>) = has_done tid k base name ds u"
  by (simp_all add: has_done_def)

lemma GetThis_fresh: "this_fiber s = None \<Longrightarrow> \<exists>f s'. GetThis s = Inr (f, s')"
  by (simp add: GetThis_def Fiber_main_def Let_def)

lemma startup_stmt_done:
  assumes "has_done tid k base name ds u" and "this_fiber s = None" and "su_sem u < 2"
  shows "\<exists>u'. startup_stmt tid k s st u = Inr u' \<and> has_done tid k base name (ds @ [st]) u' \<and>
    su_creator u' = su_creator u \<and> su_thread u' = su_thread u \<and>
    su_sem u' = (if st = DoNotify then su_sem u + 1 else su_sem u)"
proof -
  have "su_sem u \<noteq> SEM_VALUE_MAX" using assms(3) by (auto simp: SEM_VALUE_MAX_def)
  moreover obtain f s' where "GetThis s = Inr (f, s')" using GetThis_fresh [OF assms(2)] by blast
  ultimately show ?thesis
    using assms(1) by (cases st)
      (simp_all add: has_done_def Thread_SetThis_def Thread_SetName_def Scheduler_SetThis_def Semaphore_notify_def)
qed

lemma startup_step_inv:
  assumes "startup_step prologue tid k u u'" and inv: "startup_inv prologue tid k base name u"
    and d: "distinct prologue"
  shows "startup_inv prologue tid k base name u'"
  using assms(1)
proof cases
  case (created h)
  then show ?thesis using inv by (simp add: startup_inv_def)
next
  case not_created
  then show ?thesis using inv by (simp add: startup_inv_def)
next
  case (waited n)
  then obtain ds where ds: "prologue = ds @ su_rest u" "has_done tid k base name ds u"
    "if DoNotify \<in> set ds then unat (su_sem u) = 1 else su_sem u = 0" "\<exists>h. su_thread u = Some h \<and> h \<noteq> 0"
    using inv by (fastforce simp: startup_inv_def split: if_splits)
  have n: "su_sem u \<noteq> 0" "n = su_sem u - 1" using waited(3) by (simp_all add: Semaphore_wait_def split: if_splits)
  then have "DoNotify \<in> set ds" using ds(3) by (auto split: if_splits)
  moreover then have "su_sem u = 1" using ds(3) by (simp add: word_unat_eq_iff)
  ultimately show ?thesis using ds(1,2,4) n(2) unfolding startup_inv_def by (auto simp: waited(1))
next
  case (ran st sts s v)
  then have c: "su_creator u \<in> {Waiting, Returned}" using inv by (auto simp: startup_inv_def split: if_splits)
  then obtain h ds where h: "su_thread u = Some h" "h \<noteq> 0" and ds: "prologue = ds @ st # sts"
    "has_done tid k base name ds u"
    "if DoNotify \<in> set ds then unat (su_sem u) + (if su_creator u = Returned then 1 else 0) = 1
      else su_creator u = Waiting \<and> su_sem u = 0"
    using inv ran(2) by (auto simp: startup_inv_def)
  have "unat (su_sem u) < 2" using ds(3) by (auto split: if_splits)
  then have "su_sem u < 2" by (simp add: word_less_nat_alt)
  then obtain w where w: "startup_stmt tid k s st u = Inr w" "has_done tid k base name (ds @ [st]) w"
    "su_creator w = su_creator u" "su_thread w = su_thread u"
    "su_sem w = (if st = DoNotify then su_sem u + 1 else su_sem u)"
    using startup_stmt_done [OF ds(2) ran(3)] by blast
  have st: "DoNotify \<in> set ds \<longrightarrow> st \<noteq> DoNotify" using d ds(1) by auto
  have u': "u' = w\<lparr>su_rest := sts\<rparr>" using ran(1,4) w(1) by simp
  have "has_done tid k base name (ds @ [st]) u'" using w(2) by (simp add: u')
  moreover have "if DoNotify \<in> set (ds @ [st]) then unat (su_sem u') + (if su_creator u' = Returned then 1 else 0) = 1
      else su_creator u' = Waiting \<and> su_sem u' = 0"
    using ds(3) st w(3,5) by (auto simp: u' split: if_splits)
  ultimately show ?thesis
    using c h w(3,4) ds(1) unfolding startup_inv_def by (auto simp: u' intro!: exI [of _ "ds @ [st]"])
qed

lemma startup_reach_inv:
  assumes "startup_reach prologue tid k (startup_new base name) u" and "distinct prologue"
  shows "startup_inv prologue tid k base name u"
  using assms(1)
proof induction
  case begun
  show ?case by (simp add: startup_inv_def startup_new_def has_done_def)
next
  case (stepped u u')
  then show ?case using startup_step_inv assms(2) by blast
qed

section \<open>Both kinds of threads\<close>

lemma prologues_distinct: "distinct WokerThread_prologue" "distinct AllocThread_prologue"
  by (simp_all add: WokerThread_prologue_def AllocThread_prologue_def)

text \<open>What has been done when the semaphore has been raised.\<close>

lemma before_notify:
  assumes "ds @ rest = xs @ DoNotify # ys" and "DoNotify \<in> set ds" and "DoNotify \<notin> set xs"
  shows "set xs \<subseteq> set ds"
  using assms by (auto simp: append_eq_append_conv2 Cons_eq_append_conv)

text \<open>
  When the constructor of a worker returns, the thread exists, the object has its id, and the
  thread knows itself, its scheduler and its name; before its loop it has made its main fiber too.
  Yet \<open>getName\<close> gives the empty name, since the worker's own \<open>m_name\<close> hides the one it reads.
\<close>

theorem worker_started:
  assumes "startup_reach WokerThread_prologue tid k (WokerThread_ctor name) u"
  shows "(su_creator u = Returned \<longrightarrow> (\<exists>h. su_thread u = Some h \<and> h \<noteq> 0) \<and> su_id u = Some tid \<and>
      tl_this (su_local u) \<and> su_scheduler u = Some k \<and>
      tl_name (su_local u) = (if name = [] then ''UNKNOW'' else name) \<and>
      (su_rest u = [] \<longrightarrow> su_fiber u \<noteq> None)) \<and>
    su_base_name u = []"
proof -
  let ?n = "if name = [] then ''UNKNOW'' else name"
  have inv: "startup_inv WokerThread_prologue tid k [] ?n u"
    by (rule startup_reach_inv [OF assms [unfolded WokerThread_ctor_def] prologues_distinct(1)])
  show ?thesis
  proof (cases "su_creator u = Returned")
    case True
    then obtain h ds where ds: "su_thread u = Some h" "h \<noteq> 0" "WokerThread_prologue = ds @ su_rest u"
      "has_done tid k [] ?n ds u" "DoNotify \<in> set ds"
      using inv unfolding startup_inv_def by (auto split: if_splits)
    have "{DoSetThis, DoSetScheduler, DoSetName, DoSetId} \<subseteq> set ds"
      using before_notify [OF _ ds(5), of "su_rest u" "[DoSetThis, DoSetScheduler, DoSetName, DoSetId, DoSetOsName]"
          "[DoMainFiber]"] ds(3) by (simp add: WokerThread_prologue_def)
    moreover have "su_rest u = [] \<longrightarrow> DoMainFiber \<in> set ds"
      using ds(3) by (auto simp: WokerThread_prologue_def)
    ultimately show ?thesis using ds(1,2,4) unfolding has_done_def by auto
  next
    case False
    have "su_base_name u = []" using inv unfolding startup_inv_def has_done_def by (auto split: if_splits)
    then show ?thesis using False by simp
  qed
qed

text \<open>The allocation thread has a name, and knows no scheduler: \<open>GetThis\<close> would abort there.\<close>

theorem alloc_started:
  assumes "startup_reach AllocThread_prologue tid k (AllocThread_ctor name) u" and "su_creator u = Returned"
  shows "(\<exists>h. su_thread u = Some h \<and> h \<noteq> 0) \<and> su_id u = Some tid \<and> tl_this (su_local u) \<and>
    tl_name (su_local u) = (if name = [] then ''UNKNOW'' else name) \<and> su_base_name u = tl_name (su_local u) \<and>
    su_rest u = [] \<and> Scheduler_GetThis (su_scheduler u) = Inl (AssertFail ''t_scheduler'')"
proof -
  let ?n = "if name = [] then ''UNKNOW'' else name"
  have inv: "startup_inv AllocThread_prologue tid k ?n ?n u"
    by (rule startup_reach_inv [OF assms(1) [unfolded AllocThread_ctor_def Let_def] prologues_distinct(2)])
  then obtain h ds where ds: "su_thread u = Some h" "h \<noteq> 0" "AllocThread_prologue = ds @ su_rest u"
    "has_done tid k ?n ?n ds u" "DoNotify \<in> set ds"
    using assms(2) unfolding startup_inv_def by (auto split: if_splits)
  have s: "{DoSetThis, DoSetName, DoSetId} \<subseteq> set ds"
    using before_notify [OF _ ds(5), of "su_rest u" "[DoSetThis, DoSetName, DoSetId, DoSetOsName]" "[]"] ds(3)
    by (simp add: AllocThread_prologue_def)
  have "su_rest u = []"
  proof (cases "su_rest u" rule: rev_cases)
    case (snoc ys y)
    then have "[DoSetThis, DoSetName, DoSetId, DoSetOsName] = ds @ ys"
      using ds(3) by (simp add: AllocThread_prologue_def)
    then have "set ds \<subseteq> {DoSetThis, DoSetName, DoSetId, DoSetOsName}"
      by (metis Un_upper1 empty_set list.simps(15) set_append)
    then show ?thesis using ds(5) by auto
  qed
  moreover have "DoSetScheduler \<notin> set AllocThread_prologue" by (simp add: AllocThread_prologue_def)
  then have "DoSetScheduler \<notin> set ds" unfolding ds(3) by simp
  ultimately show ?thesis using ds(1,2,4) s unfolding has_done_def by auto
qed

text \<open>A constructor that waits is never stuck: the new thread can go on, or the semaphore is raised.\<close>

lemma startup_progress:
  assumes "startup_inv prologue tid k base name u" and "su_creator u = Waiting" and "DoNotify \<in> set prologue"
  shows "\<exists>u'. startup_step prologue tid k u u'"
proof (cases "su_rest u")
  case Nil
  then have "su_sem u = 1"
    using assms by (auto simp: startup_inv_def word_unat_eq_iff)
  then show ?thesis using startup_step.waited [OF assms(2), of 0] by (auto simp: Semaphore_wait_def)
next
  case (Cons st sts)
  obtain ds where ds: "has_done tid k base name ds u"
    "if DoNotify \<in> set ds then unat (su_sem u) = 1 else su_sem u = 0"
    using assms(1,2) by (fastforce simp: startup_inv_def split: if_splits)
  have "unat (su_sem u) < 2" using ds(2) by (auto split: if_splits)
  then have "su_sem u < 2" by (simp add: word_less_nat_alt)
  moreover have b: "this_fiber boot = None" by (simp add: boot_def)
  ultimately obtain u' where "startup_stmt tid k boot st u = Inr u'"
    using startup_stmt_done [OF ds(1)] by blast
  from startup_step.ran [OF Cons b this] show ?thesis by blast
qed

end
