(* ===== verification/IOManagers.thy ===== *)
theory IOManagers
  imports Schedulers
begin

text \<open>
  The I/O manager of \<open>sylar/iomanager.h\<close> and \<open>sylar/iomanager.cpp\<close>: a scheduler that submits
  a fiber when a file descriptor is ready. The kernel side is a parameter: the result of every
  \<open>epoll_ctl\<close> and the events \<open>epoll_wait\<close> returns are arguments. The interest list the kernel
  keeps is a history variable, updated by the calls that succeed.
\<close>

unbundle bit_operations_syntax

section \<open>State\<close>

text \<open>
  \<open>Event\<close> is an enumeration used as a bit set. The constants of \<open>epoll\<close> are those of its
  interface.
\<close>

type_synonym evset = u32

definition NONE :: evset where "NONE = 0"
definition READ_EV :: evset where "READ_EV = 1"
definition WRITE_EV :: evset where "WRITE_EV = 4"
definition EPOLLIN :: evset where "EPOLLIN = 1"
definition EPOLLOUT :: evset where "EPOLLOUT = 4"
definition EPOLLERR :: evset where "EPOLLERR = 8"
definition EPOLLHUP :: evset where "EPOLLHUP = 16"
definition EPOLLET :: evset where "EPOLLET = 2147483648"

datatype ctl_op = CTL_ADD | CTL_MOD | CTL_DEL

record evctx =
  ec_scheduler :: "nat option"
  ec_fiber :: "ptr option"

record fdctx =
  fc_read :: evctx
  fc_write :: evctx
  fc_fd :: int
  fc_events :: evset

text \<open>
  \<open>im_ctxs\<close> is the vector of pointers to the contexts, \<open>im_heap\<close> the contexts themselves.
  \<open>im_scheds\<close> are the schedulers the event contexts point to, by number. \<open>im_epoll\<close> is the
  interest list.
\<close>

record iom =
  im_ctxs :: "ptr list"
  im_heap :: "ptr \<rightharpoonup> fdctx"
  im_next :: ptr
  im_pending :: u64
  im_stopping :: bool
  im_scheds :: "nat \<Rightarrow> sched"
  im_epoll :: "int \<rightharpoonup> evset"

definition evctx_new :: evctx where
  "evctx_new = \<lparr>ec_scheduler = None, ec_fiber = None\<rparr>"

definition fdctx_new :: "nat \<Rightarrow> fdctx" where
  "fdctx_new i = \<lparr>fc_read = evctx_new, fc_write = evctx_new, fc_fd = int i, fc_events = NONE\<rparr>"

section \<open>Contexts\<close>

definition getContext :: "evset \<Rightarrow> fdctx \<Rightarrow> evctx res" where
  "getContext ev c = (if ev = READ_EV then Inr (fc_read c)
     else if ev = WRITE_EV then Inr (fc_write c)
     else Inl (AssertFail ''getContext''))"

definition setContext :: "evset \<Rightarrow> evctx \<Rightarrow> fdctx \<Rightarrow> fdctx" where
  "setContext ev x c = (if ev = READ_EV then c\<lparr>fc_read := x\<rparr> else c\<lparr>fc_write := x\<rparr>)"

text \<open>\<open>resetContext\<close> lets go of the fiber.\<close>

definition resetContext :: "evctx \<Rightarrow> fsys \<Rightarrow> (evctx \<times> fsys) res" where
  "resetContext x s = bindR (Fiber_ptr_release (ec_fiber x) s) (\<lambda>s'.
     Inr (x\<lparr>ec_scheduler := None, ec_fiber := None\<rparr>, s'))"

text \<open>
  \<open>triggerEvent\<close> submits a copy of the pointer to the fiber: \<open>ctx.fiber\<close> keeps its value.
  \<open>us\<close> is the clock in microseconds.
\<close>

definition triggerEvent ::
    "u64 \<Rightarrow> evset \<Rightarrow> fdctx \<Rightarrow> (nat \<Rightarrow> sched) \<Rightarrow> fsys \<Rightarrow> (fdctx \<times> (nat \<Rightarrow> sched) \<times> fsys) res" where
  "triggerEvent us ev c gs s =
     bindR (SYLAR_ASSERT (fc_events c AND ev \<noteq> 0) ''events & event'') (\<lambda>_.
     let c1 = c\<lparr>fc_events := fc_events c AND NOT ev\<rparr> in
     bindR (getContext ev c1) (\<lambda>x.
     case (ec_scheduler x, ec_fiber x) of
       (None, _) \<Rightarrow> Inl (NullDeref ''ctx.scheduler'')
     | (Some k, None) \<Rightarrow> Inl (Undefined ''task without a fiber'')
     | (Some k, Some f) \<Rightarrow>
         bindR (Fiber_copy f s) (\<lambda>s1.
         bindR (Scheduler_submit_fiber f (-1) 5 us (gs k) s1) (\<lambda>(g, s').
         Inr (setContext ev (x\<lparr>ec_scheduler := None\<rparr>) c1, gs(k := g), s')))))"

text \<open>\<open>contextResize\<close>: new elements of the vector are null, and get a context.\<close>

fun fill_ctxs :: "nat \<Rightarrow> nat \<Rightarrow> iom \<Rightarrow> iom" where
  "fill_ctxs i 0 m = m"
| "fill_ctxs i (Suc n) m = fill_ctxs (Suc i) n (m\<lparr>im_ctxs := im_ctxs m @ [im_next m],
     im_heap := (im_heap m)(im_next m \<mapsto> fdctx_new i), im_next := Suc (im_next m)\<rparr>)"

definition contextResize :: "nat \<Rightarrow> iom \<Rightarrow> iom" where
  "contextResize sz m =
     (let m1 = m\<lparr>im_ctxs := take sz (im_ctxs m)\<rparr>
      in fill_ctxs (length (im_ctxs m1)) (sz - length (im_ctxs m1)) m1)"

definition IOManager_new :: "(nat \<Rightarrow> sched) \<Rightarrow> iom" where
  "IOManager_new gs = contextResize 32 \<lparr>im_ctxs = [], im_heap = Map.empty, im_next = 0,
     im_pending = 0, im_stopping = False, im_scheds = gs, im_epoll = Map.empty\<rparr>"

text \<open>Indexing the vector: a negative \<open>int\<close> becomes a huge \<open>size_t\<close>.\<close>

definition ctx_at :: "int \<Rightarrow> iom \<Rightarrow> (ptr \<times> fdctx) res" where
  "ctx_at fd m = (if 0 \<le> fd \<and> nat fd < length (im_ctxs m)
     then (let p = im_ctxs m ! nat fd in
       case im_heap m p of None \<Rightarrow> Inl (Dangling p) | Some c \<Rightarrow> Inr (p, c))
     else Inl (OutOfBounds fd))"

definition put_ctx :: "ptr \<Rightarrow> fdctx \<Rightarrow> iom \<Rightarrow> iom" where
  "put_ctx p c m = m\<lparr>im_heap := (im_heap m)(p \<mapsto> c)\<rparr>"

definition epoll_ctl :: "int \<Rightarrow> ctl_op \<Rightarrow> int \<Rightarrow> evset \<Rightarrow> iom \<Rightarrow> iom" where
  "epoll_ctl rt op fd evs m = (if rt \<noteq> 0 then m
     else m\<lparr>im_epoll := (im_epoll m)(fd := (case op of CTL_DEL \<Rightarrow> None | _ \<Rightarrow> Some evs))\<rparr>)"

section \<open>Operations\<close>

text \<open>
  \<open>seen\<close> is the size of the vector read under the read lock, which is released before the
  write lock is taken; \<open>rt\<close> is the result of \<open>epoll_ctl\<close>; \<open>this\<close> is \<open>t_scheduler\<close>; the
  factor 1.5 is exact on \<open>int\<close>.
\<close>

definition addEvent :: "nat \<Rightarrow> int \<Rightarrow> nat option \<Rightarrow> bool \<Rightarrow> int \<Rightarrow> evset \<Rightarrow>
    (nat \<Rightarrow> fcall) option \<Rightarrow> iom \<Rightarrow> fsys \<Rightarrow> (int \<times> iom \<times> fsys) res" where
  "addEvent seen rt this malloc_ok fd ev cb m s =
     (if im_stopping m then Inr (-1, m, s)
      else (let m1 = (if fd < int seen then m else contextResize (nat (fd * 3 div 2)) m) in
       bindR (ctx_at fd m1) (\<lambda>(p, c).
       bindR (SYLAR_ASSERT (fc_events c AND ev = 0) ''!(fd_ctx->events & event)'') (\<lambda>_.
       let op = (if fc_events c \<noteq> 0 then CTL_MOD else CTL_ADD);
           m2 = epoll_ctl rt op fd (EPOLLET OR fc_events c OR ev) m1 in
       if rt \<noteq> 0 then Inr (-1, m2, s)
       else (let m3 = m2\<lparr>im_pending := im_pending m2 + 1\<rparr>;
                 c1 = c\<lparr>fc_events := fc_events c OR ev\<rparr> in
         bindR (getContext ev c1) (\<lambda>x.
         bindR (SYLAR_ASSERT (ec_scheduler x = None \<and> ec_fiber x = None)
                  ''!event_ctx.scheduler && !event_ctx.fiber'') (\<lambda>_.
         bindR (Scheduler_GetThis this) (\<lambda>k.
         bindR (CreatFiber cb 4096 malloc_ok s) (\<lambda>(f, s').
         bindR (deref (Some f) s') (\<lambda>b.
         bindR (SYLAR_ASSERT (fb_state b = INIT) ''state='') (\<lambda>_.
         Inr (0, put_ctx p (setContext ev (x\<lparr>ec_scheduler := Some k, ec_fiber := Some f\<rparr>) c1) m3,
              s'))))))))))))"

definition delEvent :: "int \<Rightarrow> int \<Rightarrow> evset \<Rightarrow> iom \<Rightarrow> fsys \<Rightarrow> (bool \<times> iom \<times> fsys) res" where
  "delEvent rt fd ev m s =
     (if int (length (im_ctxs m)) \<le> fd then Inr (False, m, s)
      else bindR (ctx_at fd m) (\<lambda>(p, c).
       if fc_events c AND ev = 0 then Inr (False, m, s)
       else (let new_events = fc_events c AND NOT ev;
                 op = (if new_events \<noteq> 0 then CTL_MOD else CTL_DEL);
                 m1 = epoll_ctl rt op fd (EPOLLET OR new_events) m in
         if rt \<noteq> 0 then Inr (False, m1, s)
         else (let m2 = m1\<lparr>im_pending := im_pending m1 - 1\<rparr>;
                   c1 = c\<lparr>fc_events := new_events\<rparr> in
           bindR (getContext ev c1) (\<lambda>x.
           bindR (resetContext x s) (\<lambda>(x', s').
           Inr (True, put_ctx p (setContext ev x' c1) m2, s')))))))"

definition cancelEvent ::
    "int \<Rightarrow> u64 \<Rightarrow> int \<Rightarrow> evset \<Rightarrow> iom \<Rightarrow> fsys \<Rightarrow> (bool \<times> iom \<times> fsys) res" where
  "cancelEvent rt us fd ev m s =
     (if int (length (im_ctxs m)) \<le> fd then Inr (False, m, s)
      else bindR (ctx_at fd m) (\<lambda>(p, c).
       if fc_events c AND ev = 0 then Inr (False, m, s)
       else (let new_events = fc_events c AND NOT ev;
                 op = (if new_events \<noteq> 0 then CTL_MOD else CTL_DEL);
                 m1 = epoll_ctl rt op fd (EPOLLET OR new_events) m in
         if rt \<noteq> 0 then Inr (False, m1, s)
         else bindR (triggerEvent us ev c (im_scheds m1) s) (\<lambda>(c', gs, s').
           Inr (True, put_ctx p c' (m1\<lparr>im_scheds := gs, im_pending := im_pending m1 - 1\<rparr>), s')))))"

text \<open>The test and the two calls that end \<open>cancelAll\<close> and an event of \<open>idle\<close>.\<close>

definition trigger_if :: "u64 \<Rightarrow> bool \<Rightarrow> evset \<Rightarrow> ptr \<Rightarrow> iom \<Rightarrow> fsys \<Rightarrow> (iom \<times> fsys) res" where
  "trigger_if us cond ev p m s = (if \<not> cond then Inr (m, s)
     else (case im_heap m p of None \<Rightarrow> Inl (Dangling p)
       | Some c \<Rightarrow> bindR (triggerEvent us ev c (im_scheds m) s) (\<lambda>(c', gs, s').
           Inr (put_ctx p c' (m\<lparr>im_scheds := gs, im_pending := im_pending m - 1\<rparr>), s'))))"

definition events_at :: "ptr \<Rightarrow> iom \<Rightarrow> evset" where
  "events_at p m = (case im_heap m p of None \<Rightarrow> 0 | Some c \<Rightarrow> fc_events c)"

definition cancelAll :: "int \<Rightarrow> u64 \<Rightarrow> int \<Rightarrow> iom \<Rightarrow> fsys \<Rightarrow> (bool \<times> iom \<times> fsys) res" where
  "cancelAll rt us fd m s =
     (if int (length (im_ctxs m)) \<le> fd then Inr (False, m, s)
      else bindR (ctx_at fd m) (\<lambda>(p, c).
       if fc_events c = 0 then Inr (False, m, s)
       else (let m1 = epoll_ctl rt CTL_DEL fd 0 m in
         if rt \<noteq> 0 then Inr (False, m1, s)
         else bindR (trigger_if us (events_at p m1 AND READ_EV \<noteq> 0) READ_EV p m1 s) (\<lambda>(m2, s2).
              bindR (trigger_if us (events_at p m2 AND WRITE_EV \<noteq> 0) WRITE_EV p m2 s2) (\<lambda>(m3, s3).
              bindR (SYLAR_ASSERT (events_at p m3 = 0) ''fd_ctx->events == 0'') (\<lambda>_.
              Inr (True, m3, s3)))))))"

text \<open>One event of the array \<open>epoll_wait\<close> has filled: the context pointer and the event bits.\<close>

definition idle_event ::
    "int \<Rightarrow> u64 \<Rightarrow> ptr \<Rightarrow> evset \<Rightarrow> iom \<Rightarrow> fsys \<Rightarrow> (iom \<times> fsys) res" where
  "idle_event rt us p evs m s = (case im_heap m p of None \<Rightarrow> Inl (Dangling p)
     | Some c \<Rightarrow>
       (let evs1 = (if evs AND (EPOLLERR OR EPOLLHUP) \<noteq> 0
                    then evs OR ((EPOLLIN OR EPOLLOUT) AND fc_events c) else evs);
            re1 = (if evs1 AND EPOLLIN \<noteq> 0 then NONE OR READ_EV else NONE);
            real_events = (if evs1 AND EPOLLOUT \<noteq> 0 then re1 OR WRITE_EV else re1) in
        if fc_events c AND real_events = NONE then Inr (m, s)
        else (let left_events = fc_events c AND NOT real_events;
                  op = (if left_events \<noteq> 0 then CTL_MOD else CTL_DEL);
                  m1 = epoll_ctl rt op (fc_fd c) (EPOLLET OR left_events) m in
          if rt \<noteq> 0 then Inr (m1, s)
          else bindR (trigger_if us (real_events AND READ_EV \<noteq> 0) READ_EV p m1 s) (\<lambda>(m2, s2).
               trigger_if us (real_events AND WRITE_EV \<noteq> 0) WRITE_EV p m2 s2))))"

text \<open>The loop over the events of one \<open>epoll_wait\<close>, each with the result of its \<open>epoll_ctl\<close>.\<close>

primrec idle_events ::
    "u64 \<Rightarrow> (int \<times> ptr \<times> evset) list \<Rightarrow> iom \<Rightarrow> fsys \<Rightarrow> (iom \<times> fsys) res" where
  "idle_events us [] m s = Inr (m, s)"
| "idle_events us (e # es) m s =
     bindR (idle_event (fst e) us (fst (snd e)) (snd (snd e)) m s) (\<lambda>(m', s').
     idle_events us es m' s')"

text \<open>
  \<open>stop\<close> raises \<open>m_stopping\<close>, waits until no event is pending, and then stops the scheduler.
\<close>

definition IOManager_stopping :: "iom \<Rightarrow> iom" where
  "IOManager_stopping m = m\<lparr>im_stopping := True\<rparr>"

definition stop_proceeds :: "iom \<Rightarrow> bool" where
  "stop_proceeds m = (im_pending m = 0)"


text \<open>One iteration of the loop of \<open>idle\<close>; \<open>None\<close> when the loop is left.\<close>

definition idle_iter :: "woker \<Rightarrow> bool \<Rightarrow> u64 \<Rightarrow> (int \<times> ptr \<times> evset) list \<Rightarrow> iom \<Rightarrow> fsys \<Rightarrow>
    (iom \<times> fsys) option res" where
  "idle_iter w stop us es m s = (if isIdle w \<and> \<not> stop
     then bindR (idle_events us es m s) (\<lambda>x. Inr (Some x)) else Inr None)"

section \<open>The invariant\<close>

definition slot_ok :: "evset \<Rightarrow> evctx \<Rightarrow> evset \<Rightarrow> bool" where
  "slot_ok ev x evs = (if evs AND ev \<noteq> 0 then ec_scheduler x \<noteq> None \<and> ec_fiber x \<noteq> None
     else ec_scheduler x = None)"

definition fdctx_ok :: "int \<Rightarrow> fdctx \<Rightarrow> bool" where
  "fdctx_ok fd c = (fc_fd c = fd \<and> fc_events c \<in> {0, 1, 4, 5} \<and>
     slot_ok READ_EV (fc_read c) (fc_events c) \<and> slot_ok WRITE_EV (fc_write c) (fc_events c))"

definition nbits :: "evset \<Rightarrow> nat" where
  "nbits e = (if e AND READ_EV \<noteq> 0 then 1 else 0) + (if e AND WRITE_EV \<noteq> 0 then 1 else 0)"

definition npend :: "iom \<Rightarrow> nat" where
  "npend m = sum_list (map (\<lambda>p. nbits (events_at p m)) (im_ctxs m))"

definition iom_core :: "iom \<Rightarrow> bool" where
  "iom_core m = (distinct (im_ctxs m) \<and> (\<forall>p \<in> set (im_ctxs m). p < im_next m) \<and>
     (\<forall>i < length (im_ctxs m). (case im_heap m (im_ctxs m ! i) of None \<Rightarrow> False
        | Some c \<Rightarrow> fdctx_ok (int i) c)) \<and>
     im_pending m = of_nat (npend m))"

definition interest :: "evset \<Rightarrow> evset option" where
  "interest e = (if e = 0 then None else Some (EPOLLET OR e))"

definition registered :: "iom \<Rightarrow> int \<Rightarrow> evset option" where
  "registered m fd = (if 0 \<le> fd \<and> nat fd < length (im_ctxs m)
     then interest (events_at (im_ctxs m ! nat fd) m) else None)"

definition iom_inv :: "iom \<Rightarrow> bool" where
  "iom_inv m = (iom_core m \<and> (\<forall>fd. im_epoll m fd = registered m fd))"

named_theorems ev_defs "the constants of events"
lemmas [ev_defs] = NONE_def READ_EV_def WRITE_EV_def EPOLLIN_def EPOLLOUT_def EPOLLERR_def
  EPOLLHUP_def EPOLLET_def

lemma ctx_atE:
  assumes "ctx_at fd m = Inr (p, c)"
  shows "0 \<le> fd" and "nat fd < length (im_ctxs m)" and "p = im_ctxs m ! nat fd"
    and "im_heap m p = Some c"
  using assms by (auto simp: ctx_at_def Let_def split: if_splits option.splits)

lemma core_ctx:
  assumes "iom_core m" and "i < length (im_ctxs m)" and "im_heap m (im_ctxs m ! i) = Some c"
  shows "fdctx_ok (int i) c"
  using assms by (auto simp: iom_core_def)

lemma npend_update:
  assumes "distinct ps" and "p \<in> set ps"
  shows "sum_list (map (\<lambda>q. if q = p then a else f q) ps) + f p = sum_list (map f ps) + (a :: nat)"
  using assms
proof (induction ps)
  case (Cons q ps)
  show ?case
  proof (cases "q = p")
    case True
    then have "map (\<lambda>q. if q = p then a else f q) ps = map f ps"
      using Cons.prems(1) by (intro map_cong refl) auto
    then have "sum_list (map (\<lambda>q. if q = p then a else f q) ps) = sum_list (map f ps)"
      by (rule arg_cong)
    then show ?thesis using True by simp
  next
    case False
    then show ?thesis using Cons by simp
  qed
qed simp

lemma events_put [simp]:
  "events_at q (put_ctx p c m) = (if q = p then fc_events c else events_at q m)"
  by (simp add: events_at_def put_ctx_def)

lemma put_ctx_simps [simp]:
  "im_ctxs (put_ctx p c m) = im_ctxs m" "im_next (put_ctx p c m) = im_next m"
  "im_pending (put_ctx p c m) = im_pending m" "im_epoll (put_ctx p c m) = im_epoll m"
  "im_heap (put_ctx p c m) = (im_heap m)(p \<mapsto> c)" "im_scheds (put_ctx p c m) = im_scheds m"
  "im_stopping (put_ctx p c m) = im_stopping m"
  by (simp_all add: put_ctx_def)

text \<open>Changing one context, with the pending count following its bits.\<close>

lemma core_put:
  assumes core: "iom_core m" and i: "i < length (im_ctxs m)" and p: "p = im_ctxs m ! i"
    and c: "fdctx_ok (int i) c"
    and m': "im_ctxs m' = im_ctxs m" "im_heap m' = (im_heap m)(p \<mapsto> c)" "im_next m' = im_next m"
    and pend: "im_pending m' + of_nat (nbits (events_at p m)) =
      im_pending m + of_nat (nbits (fc_events c))"
  shows "iom_core m'"
proof -
  have d: "distinct (im_ctxs m)" and pm: "p \<in> set (im_ctxs m)"
    and n: "im_pending m = of_nat (npend m)"
    using core i p by (simp_all add: iom_core_def)
  have e: "events_at q m' = (if q = p then fc_events c else events_at q m)" for q
    by (simp add: events_at_def m'(2))
  have "npend m' + nbits (events_at p m) = npend m + nbits (fc_events c)"
    using npend_update [OF d pm, of "nbits (fc_events c)" "\<lambda>q. nbits (events_at q m)"]
    by (simp add: npend_def m'(1) e if_distrib cong: if_cong)
  then have "im_pending m' + of_nat (nbits (events_at p m)) =
      of_nat (npend m') + of_nat (nbits (events_at p m))"
    using pend n by (metis of_nat_add)
  then have "im_pending m' = of_nat (npend m')" by simp
  moreover have "case im_heap m' (im_ctxs m' ! j) of None \<Rightarrow> False | Some c \<Rightarrow> fdctx_ok (int j) c"
    if "j < length (im_ctxs m')" for j
    using that core c i p d by (auto simp: iom_core_def m' nth_eq_iff_index_eq)
  ultimately show ?thesis using core by (simp add: iom_core_def m')
qed

lemma ev_cases: "fc_events c \<in> {0, 1, 4, 5} \<Longrightarrow> ev \<in> {READ_EV, WRITE_EV} \<Longrightarrow>
    (fc_events c = 0 \<or> fc_events c = 1 \<or> fc_events c = 4 \<or> fc_events c = 5) \<and> (ev = 1 \<or> ev = 4)"
  by (auto simp: ev_defs)

text \<open>What \<open>triggerEvent\<close> does to the context.\<close>

lemma triggerEvent_ctx:
  assumes "triggerEvent us ev c gs s = Inr (c', gs', s')" and "ev \<in> {READ_EV, WRITE_EV}"
    and "fdctx_ok fd c"
  shows "fdctx_ok fd c' \<and> fc_events c' = fc_events c AND NOT ev \<and>
    nbits (fc_events c) = Suc (nbits (fc_events c'))"
proof -
  have b: "fc_events c AND ev \<noteq> 0"
    using assms(1) by (auto simp: triggerEvent_def res_simps)
  obtain x k f g where x: "getContext ev (c\<lparr>fc_events := fc_events c AND NOT ev\<rparr>) = Inr x"
    "ec_scheduler x = Some k" "ec_fiber x = Some f"
    "c' = setContext ev (x\<lparr>ec_scheduler := None\<rparr>) (c\<lparr>fc_events := fc_events c AND NOT ev\<rparr>)"
    using assms(1) by (auto simp: triggerEvent_def res_simps Let_def split: option.splits)
  have e: "fc_events c \<in> {0, 1, 4, 5}" using assms(3) by (simp add: fdctx_ok_def)
  show ?thesis
    using ev_cases [OF e assms(2)] assms(3) x b
    by (elim conjE disjE)
      (auto simp: fdctx_ok_def slot_ok_def getContext_def setContext_def nbits_def ev_defs)
qed

lemma epoll_ctl_simps [simp]:
  "im_ctxs (epoll_ctl rt op fd e m) = im_ctxs m" "im_heap (epoll_ctl rt op fd e m) = im_heap m"
  "im_next (epoll_ctl rt op fd e m) = im_next m" "im_scheds (epoll_ctl rt op fd e m) = im_scheds m"
  "im_pending (epoll_ctl rt op fd e m) = im_pending m"
  "im_stopping (epoll_ctl rt op fd e m) = im_stopping m"
  "events_at p (epoll_ctl rt op fd e m) = events_at p m"
  by (simp_all add: epoll_ctl_def events_at_def)

lemma epoll_ctl_epoll:
  "im_epoll (epoll_ctl rt op fd e m) = (if rt \<noteq> 0 then im_epoll m
     else (im_epoll m)(fd := (case op of CTL_DEL \<Rightarrow> None | _ \<Rightarrow> Some e)))"
  by (simp add: epoll_ctl_def)

lemma core_cong:
  assumes "im_ctxs m' = im_ctxs m" "im_heap m' = im_heap m" "im_next m' = im_next m"
    "im_pending m' = im_pending m"
  shows "iom_core m' = iom_core m"
proof -
  have "events_at p m' = events_at p m" for p by (simp add: events_at_def assms(2))
  then show ?thesis by (simp add: iom_core_def npend_def assms)
qed

lemma trigger_if_ok:
  assumes core: "iom_core m" and i: "i < length (im_ctxs m)" and p: "p = im_ctxs m ! i"
    and ev: "ev \<in> {READ_EV, WRITE_EV}" and r: "trigger_if us cond ev p m s = Inr (m', s')"
  shows "iom_core m' \<and> im_ctxs m' = im_ctxs m \<and> im_epoll m' = im_epoll m \<and>
    im_stopping m' = im_stopping m \<and>
    (\<forall>q. events_at q m' = (if q = p \<and> cond then events_at p m AND NOT ev else events_at q m))"
proof (cases cond)
  case False
  then show ?thesis using r core by (simp add: trigger_if_def)
next
  case True
  then obtain c c' gs where c: "im_heap m p = Some c"
    "triggerEvent us ev c (im_scheds m) s = Inr (c', gs, s')"
    "m' = put_ctx p c' (m\<lparr>im_scheds := gs, im_pending := im_pending m - 1\<rparr>)"
    using r by (auto simp: trigger_if_def res_simps split: option.splits)
  have "fdctx_ok (int i) c" by (rule core_ctx [OF core i]) (use c(1) p in simp)
  note t = triggerEvent_ctx [OF c(2) ev this]
  have e: "events_at p m = fc_events c" by (simp add: events_at_def c(1))
  have "iom_core m'"
    by (rule core_put [OF core i p, of c']) (use t in \<open>simp_all add: c(3) e\<close>)
  then show ?thesis using True t e by (simp add: c(3) events_at_def)
qed


subsection \<open>Growing the vector\<close>

lemma fill_ctxs_ok:
  assumes "iom_inv m" and "i = length (im_ctxs m)"
  shows "iom_inv (fill_ctxs i n m) \<and> length (im_ctxs (fill_ctxs i n m)) = i + n \<and>
    take i (im_ctxs (fill_ctxs i n m)) = im_ctxs m \<and>
    im_pending (fill_ctxs i n m) = im_pending m \<and>
    im_stopping (fill_ctxs i n m) = im_stopping m \<and> im_scheds (fill_ctxs i n m) = im_scheds m \<and>
    (\<forall>p \<in> set (im_ctxs m). im_heap (fill_ctxs i n m) p = im_heap m p)"
  using assms
proof (induction n arbitrary: i m)
  case (Suc n)
  let ?m = "m\<lparr>im_ctxs := im_ctxs m @ [im_next m],
     im_heap := (im_heap m)(im_next m \<mapsto> fdctx_new i), im_next := Suc (im_next m)\<rparr>"
  have core: "iom_core m" using Suc.prems by (simp add: iom_inv_def)
  have lt: "p < im_next m" if "p \<in> set (im_ctxs m)" for p
    using core that by (simp add: iom_core_def)
  have ev: "events_at p ?m = (if p = im_next m then 0 else events_at p m)" for p
    by (simp add: events_at_def fdctx_new_def NONE_def)
  have nth: "im_ctxs ?m ! j = (if j = i then im_next m else im_ctxs m ! j)" if "j < Suc i" for j
    using that Suc.prems(2) by (simp add: nth_append)
  have old: "events_at (im_ctxs m ! j) ?m = events_at (im_ctxs m ! j) m" if "j < i" for j
    using ev lt [of "im_ctxs m ! j"] that Suc.prems(2) by auto
  have np: "map (\<lambda>p. nbits (events_at p ?m)) (im_ctxs m) = map (\<lambda>p. nbits (events_at p m)) (im_ctxs m)"
    using ev lt by (intro map_cong refl) auto
  have "npend ?m = npend m"
    unfolding npend_def using arg_cong [OF np, of sum_list] by (simp add: ev nbits_def)
  moreover have "fdctx_ok (int i) (fdctx_new i)"
    by (simp add: fdctx_ok_def fdctx_new_def slot_ok_def evctx_new_def ev_defs)
  moreover have "case im_heap ?m (im_ctxs ?m ! j) of None \<Rightarrow> False | Some c \<Rightarrow> fdctx_ok (int j) c"
    if "j < length (im_ctxs ?m)" for j
  proof (cases "j = i")
    case True
    then show ?thesis using nth [of j] calculation(2) by simp
  next
    case False
    then have j: "j < i" using that Suc.prems(2) by simp
    then have "im_ctxs m ! j < im_next m" using lt Suc.prems(2) by simp
    moreover have "case im_heap m (im_ctxs m ! j) of None \<Rightarrow> False | Some c \<Rightarrow> fdctx_ok (int j) c"
      using core j Suc.prems(2) by (simp add: iom_core_def)
    ultimately show ?thesis using nth [of j] j by simp
  qed
  ultimately have "iom_core ?m"
    using core lt by (auto simp: iom_core_def less_SucI)
  moreover have "registered ?m fd = registered m fd" for fd
  proof -
    consider "0 \<le> fd" "nat fd < i" | "0 \<le> fd" "nat fd = i" | "fd < 0 \<or> i < nat fd" by linarith
    then show ?thesis
      by cases (use Suc.prems(2) nth old ev in \<open>auto simp: registered_def interest_def nth_append\<close>)
  qed
  ultimately have inv: "iom_inv ?m" using Suc.prems(1) by (simp add: iom_inv_def)
  have step: "fill_ctxs i (Suc n) m = fill_ctxs (Suc i) n ?m" by simp
  have len: "Suc i = length (im_ctxs ?m)" by (simp add: Suc.prems(2))
  note R = Suc.IH [OF inv len]
  have r: "iom_inv (fill_ctxs (Suc i) n ?m)" "length (im_ctxs (fill_ctxs (Suc i) n ?m)) = Suc i + n"
    "take (Suc i) (im_ctxs (fill_ctxs (Suc i) n ?m)) = im_ctxs ?m"
    and r4: "im_pending (fill_ctxs (Suc i) n ?m) = im_pending ?m"
    "im_stopping (fill_ctxs (Suc i) n ?m) = im_stopping ?m"
    "im_scheds (fill_ctxs (Suc i) n ?m) = im_scheds ?m"
    and r7: "\<forall>p \<in> set (im_ctxs ?m). im_heap (fill_ctxs (Suc i) n ?m) p = im_heap ?m p"
    using R by blast+
  have "take i (im_ctxs (fill_ctxs (Suc i) n ?m)) = take i (im_ctxs ?m)"
    unfolding r(3) [symmetric] take_take by simp
  moreover have "im_heap (fill_ctxs (Suc i) n ?m) p = im_heap m p" if "p \<in> set (im_ctxs m)" for p
  proof -
    have "im_heap (fill_ctxs (Suc i) n ?m) p = im_heap ?m p" by (rule bspec [OF r7]) (simp add: that)
    then show ?thesis using lt [OF that] by simp
  qed
  ultimately show ?case unfolding step using r r4 Suc.prems(2) by simp
qed simp

lemma contextResize_ok:
  assumes "iom_inv m" and "length (im_ctxs m) \<le> sz"
  shows "iom_inv (contextResize sz m) \<and> length (im_ctxs (contextResize sz m)) = sz \<and>
    take (length (im_ctxs m)) (im_ctxs (contextResize sz m)) = im_ctxs m \<and>
    im_pending (contextResize sz m) = im_pending m \<and>
    im_stopping (contextResize sz m) = im_stopping m \<and>
    im_scheds (contextResize sz m) = im_scheds m \<and>
    (\<forall>p \<in> set (im_ctxs m). im_heap (contextResize sz m) p = im_heap m p)"
  using fill_ctxs_ok [OF assms(1) refl, of "sz - length (im_ctxs m)"] assms(2)
  by (simp add: contextResize_def)

lemma IOManager_new_ok:
  "iom_inv (IOManager_new gs) \<and> length (im_ctxs (IOManager_new gs)) = 32"
proof -
  let ?m = "\<lparr>im_ctxs = [], im_heap = Map.empty, im_next = 0,
     im_pending = 0, im_stopping = False, im_scheds = gs, im_epoll = Map.empty\<rparr>"
  have "iom_inv ?m"
    by (simp add: iom_inv_def iom_core_def registered_def npend_def)
  then show ?thesis using contextResize_ok [of ?m 32] by (simp add: IOManager_new_def)
qed


section \<open>Every operation keeps the invariant\<close>

lemma iom_inv_put:
  assumes inv: "iom_inv m" and i: "i < length (im_ctxs m)" and p: "p = im_ctxs m ! i"
    and core: "iom_core m'" and ctxs: "im_ctxs m' = im_ctxs m"
    and ev: "\<And>q. events_at q m' = (if q = p then e else events_at q m)"
    and ep: "im_epoll m' = (im_epoll m)(int i := interest e)"
  shows "iom_inv m'"
proof -
  have d: "distinct (im_ctxs m)" using inv by (simp add: iom_inv_def iom_core_def)
  have "im_epoll m' fd = registered m' fd" for fd
  proof (cases "fd = int i")
    case True
    then show ?thesis using i p ev by (simp add: ep registered_def ctxs)
  next
    case False
    then have "im_ctxs m ! nat fd \<noteq> p" if "0 \<le> fd" "nat fd < length (im_ctxs m)"
      using that d i p by (auto simp: nth_eq_iff_index_eq)
    then show ?thesis using False inv ev by (auto simp: ep registered_def ctxs iom_inv_def)
  qed
  then show ?thesis using core by (simp add: iom_inv_def)
qed

lemma iom_inv_cong:
  assumes "iom_inv m" "im_ctxs m' = im_ctxs m" "im_heap m' = im_heap m" "im_next m' = im_next m"
    "im_pending m' = im_pending m" "im_epoll m' = im_epoll m"
  shows "iom_inv m'"
  using assms core_cong [of m' m] by (simp add: iom_inv_def registered_def events_at_def)

lemma epoll_ctl_err [simp]: "rt \<noteq> 0 \<Longrightarrow> epoll_ctl rt op fd e m = m"
  by (simp add: epoll_ctl_def)

lemma ctx_at_inv:
  assumes "iom_inv m" and "ctx_at fd m = Inr (p, c)"
  obtains i where "fd = int i" "i < length (im_ctxs m)" "p = im_ctxs m ! i" "im_heap m p = Some c"
    "fdctx_ok (int i) c" "events_at p m = fc_events c"
proof -
  note e = ctx_atE [OF assms(2)]
  have "fdctx_ok (int (nat fd)) c"
    using core_ctx [of m "nat fd" c] assms(1) e by (simp add: iom_inv_def)
  then show thesis using e by (intro that [of "nat fd"]) (simp_all add: events_at_def)
qed

text \<open>Setting and clearing one bit.\<close>

lemma add_bit:
  assumes "fc_events c \<in> {0, 1, 4, 5}" and "ev \<in> {READ_EV, WRITE_EV}" and "fc_events c AND ev = 0"
  shows "nbits (fc_events c OR ev) = Suc (nbits (fc_events c))" and "fc_events c OR ev \<noteq> 0"
    and "interest (fc_events c OR ev) = Some (EPOLLET OR fc_events c OR ev)"
  using ev_cases [OF assms(1,2)] assms(3)
  by (auto simp: nbits_def interest_def ev_defs)

lemma add_ctx_ok:
  assumes "fdctx_ok fd c" and "ev \<in> {READ_EV, WRITE_EV}" and "fc_events c AND ev = 0"
    and "getContext ev (c\<lparr>fc_events := fc_events c OR ev\<rparr>) = Inr x"
  shows "fdctx_ok fd (setContext ev (x\<lparr>ec_scheduler := Some k, ec_fiber := Some f\<rparr>)
    (c\<lparr>fc_events := fc_events c OR ev\<rparr>))"
proof -
  have e: "fc_events c \<in> {0, 1, 4, 5}" using assms(1) by (simp add: fdctx_ok_def)
  show ?thesis
    using ev_cases [OF e assms(2)] assms(1,3,4)
    by (elim conjE disjE)
      (auto simp: fdctx_ok_def slot_ok_def getContext_def setContext_def ev_defs)
qed

lemma setContext_events [simp]: "fc_events (setContext ev x c) = fc_events c"
  by (simp add: setContext_def)

text \<open>The context \<open>addEvent\<close> works on.\<close>

definition add_target :: "int \<Rightarrow> iom \<Rightarrow> iom" where
  "add_target fd m = (if fd < int (length (im_ctxs m)) then m
     else contextResize (nat (fd * 3 div 2)) m)"

lemma add_target_ok:
  assumes "iom_inv m"
  shows "iom_inv (add_target fd m) \<and> im_pending (add_target fd m) = im_pending m \<and>
    length (im_ctxs m) \<le> length (im_ctxs (add_target fd m)) \<and>
    im_scheds (add_target fd m) = im_scheds m \<and>
    (2 \<le> length (im_ctxs m) \<longrightarrow> fd < int (length (im_ctxs (add_target fd m))))"
proof (cases "fd < int (length (im_ctxs m))")
  case True
  then show ?thesis using assms by (simp add: add_target_def)
next
  case False
  then have le: "length (im_ctxs m) \<le> nat (fd * 3 div 2)" by linarith
  then show ?thesis using contextResize_ok [OF assms le] False by (simp add: add_target_def) linarith
qed

lemma addEvent_inv:
  assumes inv: "iom_inv m" and seen: "seen = length (im_ctxs m)"
    and ev: "ev \<in> {READ_EV, WRITE_EV}"
    and r: "addEvent seen rt this mok fd ev cb m s = Inr (v, m', s')"
  shows "iom_inv m'"
proof (cases "im_stopping m")
  case True
  then show ?thesis using r inv by (simp add: addEvent_def)
next
  case False
  let ?m = "add_target fd m"
  have inv1: "iom_inv ?m" using add_target_ok [OF inv, of fd] by simp
  obtain p c where pc: "ctx_at fd ?m = Inr (p, c)" "fc_events c AND ev = 0"
    using r False by (auto simp: addEvent_def add_target_def seen res_simps Let_def)
  show ?thesis
  proof (cases "rt = 0")
    case rt: False
    then have "m' = ?m"
      using r False pc by (auto simp: addEvent_def add_target_def seen Let_def)
    then show ?thesis using inv1 by simp
  next
    case True
    let ?c = "c\<lparr>fc_events := fc_events c OR ev\<rparr>"
    obtain i where i: "fd = int i" "i < length (im_ctxs ?m)" "p = im_ctxs ?m ! i"
      "im_heap ?m p = Some c" "fdctx_ok (int i) c" "events_at p ?m = fc_events c"
      by (rule ctx_at_inv [OF inv1 pc(1)])
    have e: "fc_events c \<in> {0, 1, 4, 5}" using i(5) by (simp add: fdctx_ok_def)
    note ab = add_bit [OF e ev pc(2)]
    obtain op x k f where x: "getContext ev ?c = Inr x" "this = Some k" and
      m': "m' = put_ctx p (setContext ev (x\<lparr>ec_scheduler := Some k, ec_fiber := Some f\<rparr>) ?c)
        ((epoll_ctl 0 op fd (EPOLLET OR fc_events c OR ev) ?m)\<lparr>im_pending := im_pending ?m + 1\<rparr>)"
      and op: "op = (if fc_events c \<noteq> 0 then CTL_MOD else CTL_ADD)"
      using r False pc True
      by (auto simp: addEvent_def add_target_def seen Let_def res_simps)
    let ?c' = "setContext ev (x\<lparr>ec_scheduler := Some k, ec_fiber := Some f\<rparr>) ?c"
    have ok: "fdctx_ok (int i) ?c'" by (rule add_ctx_ok [OF i(5) ev pc(2) x(1)])
    have core: "iom_core m'"
      by (rule core_put [OF _ i(2,3) ok])
        (use inv1 ab(1) in \<open>simp_all add: m' iom_inv_def i(6)\<close>)
    show ?thesis
      by (rule iom_inv_put [OF inv1 i(2,3) core])
        (use ab(3) in \<open>auto simp: m' events_at_def epoll_ctl_epoll op i(1)\<close>)
  qed
qed

lemma clear_bit:
  assumes "fc_events c \<in> {0, 1, 4, 5}" and "ev \<in> {READ_EV, WRITE_EV}" and "fc_events c AND ev \<noteq> 0"
  shows "Suc (nbits (fc_events c AND NOT ev)) = nbits (fc_events c)"
  using ev_cases [OF assms(1,2)] assms(3) by (auto simp: nbits_def ev_defs)

lemma del_ctx_ok:
  assumes "fdctx_ok fd c" and "ev \<in> {READ_EV, WRITE_EV}"
    and "ec_scheduler x = None"
  shows "fdctx_ok fd (setContext ev x (c\<lparr>fc_events := fc_events c AND NOT ev\<rparr>))"
proof -
  have e: "fc_events c \<in> {0, 1, 4, 5}" using assms(1) by (simp add: fdctx_ok_def)
  show ?thesis
    using ev_cases [OF e assms(2)] assms(1,3)
    by (elim conjE disjE)
      (auto simp: fdctx_ok_def slot_ok_def setContext_def ev_defs)
qed

text \<open>The kernel's side of clearing bits.\<close>

definition clear_op :: "evset \<Rightarrow> ctl_op" where
  "clear_op e = (if e \<noteq> 0 then CTL_MOD else CTL_DEL)"

lemma clear_epoll:
  "im_epoll (epoll_ctl 0 (clear_op e) fd (EPOLLET OR e) m) = (im_epoll m)(fd := interest e)"
  by (simp add: epoll_ctl_epoll clear_op_def interest_def)

lemma delEvent_inv:
  assumes inv: "iom_inv m" and ev: "ev \<in> {READ_EV, WRITE_EV}"
    and r: "delEvent rt fd ev m s = Inr (v, m', s')"
  shows "iom_inv m'"
proof (cases "m' = m")
  case False
  then have len: "\<not> int (length (im_ctxs m)) \<le> fd" using r by (auto simp: delEvent_def)
  obtain p c where pc: "ctx_at fd m = Inr (p, c)"
    using r len by (auto simp: delEvent_def res_simps)
  obtain i where i: "fd = int i" "i < length (im_ctxs m)" "p = im_ctxs m ! i"
    "im_heap m p = Some c" "fdctx_ok (int i) c" "events_at p m = fc_events c"
    by (rule ctx_at_inv [OF inv pc])
  let ?e = "fc_events c AND NOT ev"
  let ?c = "c\<lparr>fc_events := ?e\<rparr>"
  have b: "fc_events c AND ev \<noteq> 0" and rt: "rt = 0"
    using r False len pc by (auto simp: delEvent_def Let_def split: if_splits)
  obtain x0 x where "resetContext x0 s = Inr (x, s')" and
    m': "m' = put_ctx p (setContext ev x ?c)
      ((epoll_ctl 0 (clear_op ?e) fd (EPOLLET OR ?e) m)\<lparr>im_pending := im_pending m - 1\<rparr>)"
    using r len pc b rt by (auto simp: delEvent_def Let_def res_simps clear_op_def)
  then have x: "ec_scheduler x = None" by (auto simp: resetContext_def res_simps)
  have e: "fc_events c \<in> {0, 1, 4, 5}" using i(5) by (simp add: fdctx_ok_def)
  have core: "iom_core m'"
    by (rule core_put [OF _ i(2,3) del_ctx_ok [OF i(5) ev x]])
      (use inv clear_bit [OF e ev b] in \<open>simp_all add: m' iom_inv_def i(6) flip: clear_bit [OF e ev b]\<close>)
  show ?thesis
    by (rule iom_inv_put [OF inv i(2,3) core])
      (auto simp: m' events_at_def clear_epoll i(1))
qed (use inv in simp)


lemma cancelEvent_inv:
  assumes inv: "iom_inv m" and ev: "ev \<in> {READ_EV, WRITE_EV}"
    and r: "cancelEvent rt us fd ev m s = Inr (v, m', s')"
  shows "iom_inv m'"
proof (cases "m' = m")
  case False
  then have len: "\<not> int (length (im_ctxs m)) \<le> fd" using r by (auto simp: cancelEvent_def)
  obtain p c where pc: "ctx_at fd m = Inr (p, c)"
    using r len by (auto simp: cancelEvent_def res_simps)
  obtain i where i: "fd = int i" "i < length (im_ctxs m)" "p = im_ctxs m ! i"
    "im_heap m p = Some c" "fdctx_ok (int i) c" "events_at p m = fc_events c"
    by (rule ctx_at_inv [OF inv pc])
  let ?e = "fc_events c AND NOT ev"
  have b: "fc_events c AND ev \<noteq> 0" and rt: "rt = 0"
    using r False len pc by (auto simp: cancelEvent_def Let_def split: if_splits)
  let ?m = "epoll_ctl 0 (clear_op ?e) fd (EPOLLET OR ?e) m"
  obtain c' gs where t: "triggerEvent us ev c (im_scheds m) s = Inr (c', gs, s')" and
    m': "m' = put_ctx p c' (?m\<lparr>im_scheds := gs, im_pending := im_pending m - 1\<rparr>)"
    using r len pc b rt by (auto simp: cancelEvent_def Let_def res_simps clear_op_def)
  note t' = triggerEvent_ctx [OF t ev i(5)]
  have core: "iom_core m'"
    by (rule core_put [OF _ i(2,3), of c']) (use inv t' in \<open>simp_all add: m' iom_inv_def i(6)\<close>)
  show ?thesis
    by (rule iom_inv_put [OF inv i(2,3) core])
      (use t' in \<open>auto simp: m' events_at_def clear_epoll i(1)\<close>)
qed (use inv in simp)

lemma ev_sets [simp]: "READ_EV \<in> {READ_EV, WRITE_EV}" "WRITE_EV \<in> {READ_EV, WRITE_EV}"
  by simp_all

text \<open>Triggering both events of one context, after the kernel has been told.\<close>

lemma trigger_both:
  assumes inv: "iom_inv m" and i: "i < length (im_ctxs m)" and p: "p = im_ctxs m ! i"
    and m1: "iom_core m1" "im_ctxs m1 = im_ctxs m" "\<And>q. events_at q m1 = events_at q m"
      "im_epoll m1 = (im_epoll m)(int i := interest e)"
    and r1: "trigger_if us c1 READ_EV p m1 s1 = Inr (m2, s2)"
    and r2: "trigger_if us c2 WRITE_EV p m2 s2 = Inr (m3, s3)"
    and e: "e = (if c2 then (if c1 then events_at p m AND NOT READ_EV else events_at p m) AND NOT WRITE_EV
      else if c1 then events_at p m AND NOT READ_EV else events_at p m)"
  shows "iom_inv m3" and "events_at p m3 = e"
proof -
  note t1 = trigger_if_ok [OF m1(1) _ _ ev_sets(1) r1, of i]
  have c2: "iom_core m2 \<and> im_ctxs m2 = im_ctxs m1 \<and> im_epoll m2 = im_epoll m1 \<and>
    (\<forall>q. events_at q m2 = (if q = p \<and> c1 then events_at p m1 AND NOT READ_EV else events_at q m1))"
    using t1 i p m1(2) by simp
  note t2 = trigger_if_ok [OF _ _ _ ev_sets(2) r2, of i]
  have c3: "iom_core m3 \<and> im_ctxs m3 = im_ctxs m2 \<and> im_epoll m3 = im_epoll m2 \<and>
    (\<forall>q. events_at q m3 = (if q = p \<and> c2 then events_at p m2 AND NOT WRITE_EV else events_at q m2))"
    using t2 c2 i p m1(2) by simp
  show "events_at p m3 = e" using c2 c3 m1(3) e by simp
  show "iom_inv m3"
    by (rule iom_inv_put [OF inv i p]) (use c2 c3 m1 e in auto)
qed

lemma cancelAll_inv:
  assumes inv: "iom_inv m" and r: "cancelAll rt us fd m s = Inr (v, m', s')"
  shows "iom_inv m'"
proof (cases "m' = m")
  case False
  then have len: "\<not> int (length (im_ctxs m)) \<le> fd" using r by (auto simp: cancelAll_def)
  obtain p c where pc: "ctx_at fd m = Inr (p, c)"
    using r len by (auto simp: cancelAll_def res_simps)
  obtain i where i: "fd = int i" "i < length (im_ctxs m)" "p = im_ctxs m ! i"
    "im_heap m p = Some c" "fdctx_ok (int i) c" "events_at p m = fc_events c"
    by (rule ctx_at_inv [OF inv pc])
  have b: "fc_events c \<noteq> 0" and rt: "rt = 0"
    using r False len pc by (auto simp: cancelAll_def Let_def split: if_splits)
  let ?m = "epoll_ctl 0 CTL_DEL fd 0 m"
  let ?c1 = "events_at p ?m AND READ_EV \<noteq> 0"
  obtain m2 s2 where r1: "trigger_if us ?c1 READ_EV p ?m s = Inr (m2, s2)"
    and r2: "trigger_if us (events_at p m2 AND WRITE_EV \<noteq> 0) WRITE_EV p m2 s2 = Inr (m', s')"
    and z: "events_at p m' = 0"
    using r len pc b rt by (auto simp: cancelAll_def Let_def res_simps)
  let ?c2 = "events_at p m2 AND WRITE_EV \<noteq> 0"
  let ?e = "if ?c2 then (if ?c1 then events_at p m AND NOT READ_EV else events_at p m) AND NOT WRITE_EV
      else if ?c1 then events_at p m AND NOT READ_EV else events_at p m"
  have core: "iom_core ?m" using inv core_cong [of ?m m] by (simp add: iom_inv_def)
  have c1: "iom_core m2 \<and> (\<forall>q. events_at q m2 =
      (if q = p \<and> ?c1 then events_at p ?m AND NOT READ_EV else events_at q ?m))"
    using trigger_if_ok [OF core _ _ ev_sets(1) r1, of i] i(2,3) by simp
  have e0: "fc_events c \<in> {0, 1, 4, 5}" using i(5) by (simp add: fdctx_ok_def)
  then have "?e = 0" using c1 i(6) by (auto simp: ev_defs)
  then have "im_epoll ?m = (im_epoll m)(int i := interest ?e)"
    by (simp add: epoll_ctl_epoll interest_def i(1) del: if_split)
  from trigger_both(1) [OF inv i(2,3) core _ _ this r1 r2 refl] show ?thesis by simp
qed (use inv in simp)

text \<open>The events that \<open>idle\<close> handles of a report, given the registered events \<open>e\<close>.\<close>

definition real_events :: "evset \<Rightarrow> evset \<Rightarrow> evset" where
  "real_events evs e =
     (let evs1 = (if evs AND (EPOLLERR OR EPOLLHUP) \<noteq> 0 then evs OR ((EPOLLIN OR EPOLLOUT) AND e) else evs);
          re1 = (if evs1 AND EPOLLIN \<noteq> 0 then NONE OR READ_EV else NONE)
      in if evs1 AND EPOLLOUT \<noteq> 0 then re1 OR WRITE_EV else re1)"

lemma real_events_cases:
  "real_events evs e = 0 \<or> real_events evs e = 1 \<or> real_events evs e = 4 \<or> real_events evs e = 5"
  by (auto simp: real_events_def Let_def ev_defs)

lemma idle_event_eq:
  assumes "im_heap m p = Some c"
  shows "idle_event rt us p evs m s = (let re = real_events evs (fc_events c) in
      if fc_events c AND re = NONE then Inr (m, s)
      else let e = fc_events c AND NOT re; m1 = epoll_ctl rt (clear_op e) (fc_fd c) (EPOLLET OR e) m in
        if rt \<noteq> 0 then Inr (m1, s)
        else bindR (trigger_if us (re AND READ_EV \<noteq> 0) READ_EV p m1 s) (\<lambda>(m2, s2).
             trigger_if us (re AND WRITE_EV \<noteq> 0) WRITE_EV p m2 s2))"
  unfolding idle_event_def assms real_events_def Let_def option.case clear_op_def by (rule refl)

lemma idle_event_inv:
  assumes inv: "iom_inv m" and p: "p \<in> set (im_ctxs m)"
    and r: "idle_event rt us p evs m s = Inr (m', s')"
  shows "iom_inv m' \<and> im_ctxs m' = im_ctxs m"
proof (cases "m' = m")
  case False
  obtain i where i: "i < length (im_ctxs m)" "p = im_ctxs m ! i" using p by (auto simp: in_set_conv_nth)
  obtain c where c: "im_heap m p = Some c" using r by (auto simp: idle_event_def split: option.splits)
  have ok: "fdctx_ok (int i) c" using core_ctx [of m i c] inv i c by (simp add: iom_inv_def)
  define re where "re = real_events evs (fc_events c)"
  let ?e = "fc_events c AND NOT re"
  let ?m = "epoll_ctl 0 (clear_op ?e) (fc_fd c) (EPOLLET OR ?e) m"
  note eq = idle_event_eq [OF c, of rt us evs s, folded re_def]
  have nz: "fc_events c AND re \<noteq> NONE" and rt: "rt = 0"
    using r False unfolding eq by (auto simp: Let_def split: if_splits)
  obtain m2 s2 where r1: "trigger_if us (re AND READ_EV \<noteq> 0) READ_EV p ?m s = Inr (m2, s2)"
    and r2: "trigger_if us (re AND WRITE_EV \<noteq> 0) WRITE_EV p m2 s2 = Inr (m', s')"
    using r nz rt unfolding eq by (auto simp: res_simps Let_def)
  have core: "iom_core ?m" using inv core_cong [of ?m m] by (simp add: iom_inv_def)
  have ea: "events_at p m = fc_events c" by (simp add: events_at_def c)
  have re: "re = 0 \<or> re = 1 \<or> re = 4 \<or> re = 5"
    unfolding re_def by (rule real_events_cases)
  have e: "?e = (if re AND WRITE_EV \<noteq> 0
      then (if re AND READ_EV \<noteq> 0 then events_at p m AND NOT READ_EV else events_at p m) AND NOT WRITE_EV
      else if re AND READ_EV \<noteq> 0 then events_at p m AND NOT READ_EV else events_at p m)"
    unfolding ea using re ok by (auto simp: ev_defs fdctx_ok_def)
  have ep: "im_epoll ?m = (im_epoll m)(int i := interest ?e)"
    using ok by (simp add: clear_epoll fdctx_ok_def)
  have "iom_inv m'" by (rule trigger_both(1) [OF inv i core _ _ ep r1 r2 e]) simp_all
  moreover have "im_ctxs m2 = im_ctxs m \<and> iom_core m2"
    using trigger_if_ok [OF core _ _ ev_sets(1) r1, of i] i by simp
  then have "im_ctxs m' = im_ctxs m"
    using trigger_if_ok [OF _ _ _ ev_sets(2) r2, of i] i by simp
  ultimately show ?thesis by simp
qed (use inv in simp)

lemma idle_events_inv:
  "iom_inv m \<Longrightarrow> \<forall>e \<in> set es. fst (snd e) \<in> set (im_ctxs m) \<Longrightarrow>
    idle_events us es m s = Inr (m', s') \<Longrightarrow> iom_inv m'"
proof (induction es arbitrary: m s)
  case (Cons e es)
  then obtain m1 s1 where 1: "idle_event (fst e) us (fst (snd e)) (snd (snd e)) m s = Inr (m1, s1)"
    "idle_events us es m1 s1 = Inr (m', s')"
    by (auto simp: res_simps)
  then have "iom_inv m1 \<and> im_ctxs m1 = im_ctxs m" 
    using idle_event_inv [OF Cons.prems(1) _ 1(1)] Cons.prems(2) by simp
  then show ?case using Cons.IH [OF _ _ 1(2)] Cons.prems(2) by simp
qed simp

section \<open>Sequences of operations\<close>

datatype iop =
    IAdd int "nat option" bool int evset "(nat \<Rightarrow> fcall) option"
  | IDel int int evset
  | ICancel int u64 int evset
  | ICancelAll int u64 int
  | IIdle u64 "(int \<times> ptr \<times> evset) list"
  | IStop

fun iom_op :: "iop \<Rightarrow> iom \<Rightarrow> fsys \<Rightarrow> (iom \<times> fsys) res" where
  "iom_op (IAdd rt this mok fd ev cb) m s =
     bindR (addEvent (length (im_ctxs m)) rt this mok fd ev cb m s) (\<lambda>(_, m', s'). Inr (m', s'))"
| "iom_op (IDel rt fd ev) m s = bindR (delEvent rt fd ev m s) (\<lambda>(_, m', s'). Inr (m', s'))"
| "iom_op (ICancel rt us fd ev) m s =
     bindR (cancelEvent rt us fd ev m s) (\<lambda>(_, m', s'). Inr (m', s'))"
| "iom_op (ICancelAll rt us fd) m s =
     bindR (cancelAll rt us fd m s) (\<lambda>(_, m', s'). Inr (m', s'))"
| "iom_op (IIdle us es) m s = idle_events us es m s"
| "iom_op IStop m s = Inr (IOManager_stopping m, s)"

text \<open>Events are \<open>READ\<close> or \<open>WRITE\<close>, and the kernel returns pointers it has been given.\<close>

fun iop_ok :: "iop \<Rightarrow> iom \<Rightarrow> bool" where
  "iop_ok (IAdd rt this mok fd ev cb) m = (ev = READ_EV \<or> ev = WRITE_EV)"
| "iop_ok (IDel rt fd ev) m = (ev = READ_EV \<or> ev = WRITE_EV)"
| "iop_ok (ICancel rt us fd ev) m = (ev = READ_EV \<or> ev = WRITE_EV)"
| "iop_ok (ICancelAll rt us fd) m = True"
| "iop_ok (IIdle us es) m = list_all (\<lambda>e. fst (snd e) \<in> set (im_ctxs m)) es"
| "iop_ok IStop m = True"

lemma iom_op_inv:
  assumes "iom_inv m" and "iop_ok p m" and "iom_op p m s = Inr (m', s')"
  shows "iom_inv m'"
proof (cases p)
  case (IAdd rt this mok fd ev cb)
  then obtain v where "addEvent (length (im_ctxs m)) rt this mok fd ev cb m s = Inr (v, m', s')" using assms(3) by (auto simp: res_simps)
  from addEvent_inv [OF assms(1) refl _ this] show ?thesis using assms(2) IAdd by simp
next
  case (IDel rt fd ev)
  then obtain v where "delEvent rt fd ev m s = Inr (v, m', s')" using assms(3) by (auto simp: res_simps)
  from delEvent_inv [OF assms(1) _ this] show ?thesis using assms(2) IDel by simp
next
  case (ICancel rt us fd ev)
  then obtain v where "cancelEvent rt us fd ev m s = Inr (v, m', s')" using assms(3) by (auto simp: res_simps)
  from cancelEvent_inv [OF assms(1) _ this] show ?thesis using assms(2) ICancel by simp
next
  case (ICancelAll rt us fd)
  then obtain v where "cancelAll rt us fd m s = Inr (v, m', s')"
    using assms(3) by (auto simp: res_simps)
  from cancelAll_inv [OF assms(1) this] show ?thesis .
next
  case (IIdle us es)
  then have "idle_events us es m s = Inr (m', s')" and "\<forall>e \<in> set es. fst (snd e) \<in> set (im_ctxs m)"
    using assms(2,3) by (simp_all add: list_all_iff)
  then show ?thesis using idle_events_inv [OF assms(1)] by blast
next
  case IStop
  then show ?thesis
    using assms(3) by (auto simp: IOManager_stopping_def intro: iom_inv_cong [OF assms(1)])
qed


inductive iom_reachable :: "iom \<Rightarrow> bool" where
  iom_start: "iom_reachable (IOManager_new gs)"
| iom_step: "iom_reachable m \<Longrightarrow> iop_ok p m \<Longrightarrow> iom_op p m s = Inr (m', s') \<Longrightarrow> iom_reachable m'"

lemma iom_reachable_inv: "iom_reachable m \<Longrightarrow> iom_inv m"
proof (induction rule: iom_reachable.induct)
  case (iom_start gs)
  then show ?case using IOManager_new_ok by simp
next
  case (iom_step m p s m' s')
  then show ?case using iom_op_inv by blast
qed

lemma nbits_0: "e \<in> {0, 1, 4, 5} \<Longrightarrow> nbits e = 0 \<longleftrightarrow> e = 0"
  by (auto simp: nbits_def ev_defs)

lemma nbits_le: "nbits e \<le> 2"
  by (simp add: nbits_def)

lemma npend_le: "npend m \<le> 2 * length (im_ctxs m)"
proof -
  have "sum_list (map (\<lambda>p. nbits (events_at p m)) ps) \<le> 2 * length ps" for ps
    by (induction ps) (use nbits_le in \<open>auto intro: order_trans add_mono\<close>)
  then show ?thesis by (simp add: npend_def)
qed

lemma npend_0:
  assumes "iom_core m"
  shows "npend m = 0 \<longleftrightarrow> (\<forall>p \<in> set (im_ctxs m). events_at p m = 0)"
proof -
  have "events_at p m \<in> {0, 1, 4, 5}" if "p \<in> set (im_ctxs m)" for p
  proof -
    obtain i where "i < length (im_ctxs m)" "p = im_ctxs m ! i" using \<open>p \<in> _\<close> by (auto simp: in_set_conv_nth)
    then have "case im_heap m p of None \<Rightarrow> False | Some c \<Rightarrow> fdctx_ok (int i) c"
      using assms by (simp add: iom_core_def)
    then show ?thesis by (auto simp: events_at_def fdctx_ok_def split: option.splits)
  qed
  then show ?thesis by (auto simp: npend_def sum_list_eq_0_iff nbits_0)
qed

lemma registered_none:
  "(\<forall>fd. registered m fd = None) \<longleftrightarrow> (\<forall>p \<in> set (im_ctxs m). events_at p m = 0)"
proof
  assume a: "\<forall>fd. registered m fd = None"
  show "\<forall>p \<in> set (im_ctxs m). events_at p m = 0"
  proof
    fix p assume "p \<in> set (im_ctxs m)"
    then obtain i where "i < length (im_ctxs m)" "p = im_ctxs m ! i" by (auto simp: in_set_conv_nth)
    then show "events_at p m = 0"
      using a [rule_format, of "int i"] by (simp add: registered_def interest_def split: if_splits)
  qed
qed (auto simp: registered_def interest_def)

definition slot :: "evset \<Rightarrow> fdctx \<Rightarrow> evctx" where
  "slot ev c = (if ev = READ_EV then fc_read c else fc_write c)"

lemma getContext_slot:
  "ev \<in> {READ_EV, WRITE_EV} \<Longrightarrow> getContext ev c = Inr (slot ev c)"
  by (auto simp: getContext_def slot_def)

lemma slot_simps [simp]:
  "slot ev (c\<lparr>fc_events := e\<rparr>) = slot ev c" "slot ev (setContext ev x c) = x"
  by (simp_all add: slot_def setContext_def)

text \<open>A second registration of an event whose fiber pointer was left behind.\<close>

lemma stale_fiber_aborts:
  assumes "iom_inv m" and "\<not> im_stopping m" and "ev \<in> {READ_EV, WRITE_EV}"
    and "ctx_at fd m = Inr (p, c)" and "fc_events c AND ev = 0" and "ec_fiber (slot ev c) = Some f"
  shows "addEvent (length (im_ctxs m)) 0 this mok fd ev cb m s =
    Inl (AssertFail ''!event_ctx.scheduler && !event_ctx.fiber'')"
proof -
  have "fd < int (length (im_ctxs m))" using ctx_atE [OF assms(4)] by linarith
  then show ?thesis
    using assms(2,4-6) getContext_slot [OF assms(3)] by (simp add: addEvent_def Let_def)
qed

lemma cancelEvent_True:
  assumes inv: "iom_inv m" and ev: "ev \<in> {READ_EV, WRITE_EV}"
    and r: "cancelEvent rt us fd ev m s = Inr (True, m', s')"
  obtains p c c' k f s1 g where "ctx_at fd m = Inr (p, c)" and "fc_events c AND ev \<noteq> 0"
    and "ec_scheduler (slot ev c) = Some k" and "ec_fiber (slot ev c) = Some f"
    and "Fiber_copy f s = Inr s1"
    and "Scheduler_submit_fiber f (-1) 5 us (im_scheds m k) s1 = Inr (g, s')"
    and "im_scheds m' = (im_scheds m)(k := g)" and "ctx_at fd m' = Inr (p, c')"
    and "fc_events c' = fc_events c AND NOT ev" and "ec_fiber (slot ev c') = Some f"
    and "im_stopping m' = im_stopping m" and "im_ctxs m' = im_ctxs m"
proof -
  have len: "\<not> int (length (im_ctxs m)) \<le> fd" using r by (auto simp: cancelEvent_def)
  obtain p c where pc: "ctx_at fd m = Inr (p, c)"
    using r len by (auto simp: cancelEvent_def res_simps)
  have b: "fc_events c AND ev \<noteq> 0" "rt = 0"
    using r len pc by (auto simp: cancelEvent_def Let_def split: if_splits)
  obtain m1 c' gs where t: "triggerEvent us ev c (im_scheds m) s = Inr (c', gs, s')" and
    m': "m' = put_ctx p c' (m1\<lparr>im_scheds := gs, im_pending := im_pending m - 1\<rparr>)" and
    m1: "im_ctxs m1 = im_ctxs m" "im_stopping m1 = im_stopping m"
    using r len pc b by (auto simp: cancelEvent_def Let_def res_simps)
  obtain k f s1 g where s: "ec_scheduler (slot ev c) = Some k" "ec_fiber (slot ev c) = Some f"
    "Fiber_copy f s = Inr s1"
    "Scheduler_submit_fiber f (-1) 5 us (im_scheds m k) s1 = Inr (g, s')"
    "c' = setContext ev ((slot ev c)\<lparr>ec_scheduler := None\<rparr>) (c\<lparr>fc_events := fc_events c AND NOT ev\<rparr>)"
    "gs = (im_scheds m)(k := g)"
    using t getContext_slot [OF ev]
    by (auto simp: triggerEvent_def res_simps Let_def split: option.splits)
  have "ctx_at fd m' = Inr (p, c')"
    using ctx_atE [OF pc] m1 by (simp add: ctx_at_def m' Let_def)
  then show thesis
    using that pc b s m1 by (simp add: m')
qed

lemma fill_ctxs_frame:
  "length (im_ctxs (fill_ctxs i n m)) = length (im_ctxs m) + n \<and>
    im_epoll (fill_ctxs i n m) = im_epoll m"
  by (induction i n m rule: fill_ctxs.induct) simp_all

lemma contextResize_frame:
  "length (im_ctxs (contextResize sz m)) = sz" "im_epoll (contextResize sz m) = im_epoll m"
  using fill_ctxs_frame by (simp_all add: contextResize_def Let_def)

lemma addEvent_0:
  assumes "addEvent seen 0 this mok fd ev cb m s = Inr (0, m', s')"
  shows "ok (ctx_at fd (if fd < int seen then m else contextResize (nat (fd * 3 div 2)) m))"
    and "length (im_ctxs m') =
      length (im_ctxs (if fd < int seen then m else contextResize (nat (fd * 3 div 2)) m))"
    and "\<exists>e. im_epoll m' = (im_epoll m)(fd \<mapsto> e)"
  using assms contextResize_frame
  by (auto simp: addEvent_def res_simps Let_def ok_iff epoll_ctl_epoll split: if_splits)

section \<open>Properties\<close>

text \<open>
  C6. \<open>m_pendingEventCount\<close> counts the registered events and the kernel is told of exactly
  those: after any sequence of operations, failing calls of \<open>epoll_ctl\<close> included, the
  interest list has for every descriptor the events of its context, and \<open>stop\<close> can proceed
  exactly when the list is empty. (The vector has fewer than \<open>2 ^ 63\<close> elements.)
\<close>

theorem pending_matches_epoll:
  assumes "iom_reachable m" and "length (im_ctxs m) < 2 ^ 63"
  shows "unat (im_pending m) = (\<Sum>p \<leftarrow> im_ctxs m. nbits (events_at p m)) \<and>
    (\<forall>fd. im_epoll m fd = (if 0 \<le> fd \<and> nat fd < length (im_ctxs m)
      then interest (events_at (im_ctxs m ! nat fd) m) else None)) \<and>
    (stop_proceeds m \<longleftrightarrow> (\<forall>fd. im_epoll m fd = None))"
proof -
  have inv: "iom_inv m" by (rule iom_reachable_inv [OF assms(1)])
  then have core: "iom_core m" and ep: "\<And>fd. im_epoll m fd = registered m fd"
    by (simp_all add: iom_inv_def)
  have "npend m < 2 ^ 64" using npend_le [of m] assms(2) by simp
  then have u: "unat (im_pending m) = npend m"
    using core by (simp add: iom_core_def unat_of_nat)
  note registered_none [of m]
  moreover have "stop_proceeds m \<longleftrightarrow> npend m = 0"
    using u by (metis stop_proceeds_def unat_eq_zero)
  ultimately show ?thesis
    using u ep npend_0 [OF core] by (simp add: npend_def registered_def)
qed


text \<open>
  \<open>addEvent\<close> on a descriptor whose event is not registered and whose context is clean:
  when \<open>epoll_ctl\<close> fails it returns -1 and registers nothing; otherwise it returns 0, after
  growing the vector when the descriptor is beyond its end, and the context holds the
  scheduler of the calling thread and a fresh fiber in state \<open>INIT\<close> for the callback.
\<close>

theorem addEvent_outcomes:
  assumes "iom_reachable m" and "\<not> im_stopping m" and "ev = READ_EV \<or> ev = WRITE_EV"
    and "ctx_at fd (add_target fd m) = Inr (p, c)" and "fc_events c AND ev = 0"
    and "ec_fiber (slot ev c) = None"
    and "thread_ok s" and "heap_fresh s" and "fiberIds s < - 1"
  shows "\<exists>m' s'. addEvent (length (im_ctxs m)) rt (Some k) True fd ev cb m s =
      Inr (if rt = 0 then 0 else -1, m', s') \<and>
    (rt \<noteq> 0 \<longrightarrow> im_pending m' = im_pending m \<and> (\<forall>q. events_at q m' = events_at q (add_target fd m))) \<and>
    (rt = 0 \<longrightarrow> im_pending m' = im_pending m + 1 \<and> (\<exists>c' f b. ctx_at fd m' = Inr (p, c') \<and>
      fc_events c' = fc_events c OR ev \<and> ec_scheduler (slot ev c') = Some k \<and>
      ec_fiber (slot ev c') = Some f \<and> fheap s f = None \<and> fheap s' f = Some b \<and>
      fb_state b = INIT \<and> fb_cb b = cb))"
proof -
  have ev: "ev \<in> {READ_EV, WRITE_EV}" using assms(3) by simp
  note inv = iom_reachable_inv [OF assms(1)]
  let ?m = "add_target fd m"
  have m: "iom_inv ?m" "im_pending ?m = im_pending m" using add_target_ok [OF inv, of fd] by simp_all
  obtain i where i: "fd = int i" "i < length (im_ctxs ?m)" "p = im_ctxs ?m ! i"
    "im_heap ?m p = Some c" "fdctx_ok (int i) c" "events_at p ?m = fc_events c"
    by (rule ctx_at_inv [OF m(1) assms(4)])
  have sch: "ec_scheduler (slot ev c) = None"
    using i(5) assms(5) ev by (auto simp: fdctx_ok_def slot_ok_def slot_def)
  show ?thesis
  proof (cases "rt = 0")
    case False
    then show ?thesis
      using assms(2,4,5) m by (simp add: addEvent_def Let_def add_target_def)
  next
    case True
    let ?w = "with_main s"
    note w = with_main_ok [OF assms(7,8)]
    have new: "fheap ?w (fnext ?w) = None" using w(2) by (simp add: heap_fresh_def)
    have old: "fheap s (fnext ?w) = None"
      using assms(8) by (auto simp: with_main_def Fiber_main_def Let_def heap_fresh_def)
    obtain f b s' where f: "CreatFiber cb 4096 True s = Inr (f, s')" "fheap s f = None"
      "fheap s' f = Some b" "fb_state b = INIT" "fb_cb b = cb"
      using old by (simp add: CreatFiber_eq Fiber_ctor_eq)
    define op where "op = (if fc_events c \<noteq> 0 then CTL_MOD else CTL_ADD)"
    let ?c = "c\<lparr>fc_events := fc_events c OR ev\<rparr>"
    let ?x = "(slot ev c)\<lparr>ec_scheduler := Some k, ec_fiber := Some f\<rparr>"
    let ?r = "put_ctx p (setContext ev ?x ?c)
      ((epoll_ctl 0 op fd (EPOLLET OR fc_events c OR ev) ?m)\<lparr>im_pending := im_pending ?m + 1\<rparr>)"
    have "addEvent (length (im_ctxs m)) rt (Some k) True fd ev cb m s = Inr (0, ?r, s')"
      using True assms(2,4-6) sch f getContext_slot [OF ev, of ?c]
      unfolding op_def by (simp add: addEvent_def Let_def add_target_def deref_Some)
    moreover have "ctx_at fd ?r = Inr (p, setContext ev ?x ?c)"
      using i(1-3) by (simp add: ctx_at_def Let_def)
    ultimately show ?thesis
      using True f m(2) by (intro exI [of _ ?r] exI [of _ s']) simp
  qed
qed

text \<open>
  \<open>cancelEvent\<close>, when it returns true, submits the fiber of the event, once, to the
  scheduler of the event, which becomes a second owner of it, and clears the event.
\<close>

theorem cancelEvent_submits:
  assumes "iom_reachable m" and "ev = READ_EV \<or> ev = WRITE_EV"
    and "cancelEvent rt us fd ev m s = Inr (True, m', s')"
  shows "\<exists>p c c' k f s1 g. ctx_at fd m = Inr (p, c) \<and> fc_events c AND ev \<noteq> 0 \<and>
    ec_scheduler (slot ev c) = Some k \<and> ec_fiber (slot ev c) = Some f \<and>
    Fiber_copy f s = Inr s1 \<and>
    Scheduler_submit_fiber f (-1) 5 us (im_scheds m k) s1 = Inr (g, s') \<and>
    im_scheds m' = (im_scheds m)(k := g) \<and>
    ctx_at fd m' = Inr (p, c') \<and> fc_events c' = fc_events c AND NOT ev"
proof -
  have ev: "ev \<in> {READ_EV, WRITE_EV}" using assms(2) by simp
  obtain p c c' k f s1 g where c: "ctx_at fd m = Inr (p, c)" "fc_events c AND ev \<noteq> 0"
    "ec_scheduler (slot ev c) = Some k" "ec_fiber (slot ev c) = Some f" "Fiber_copy f s = Inr s1"
    "Scheduler_submit_fiber f (-1) 5 us (im_scheds m k) s1 = Inr (g, s')"
    "im_scheds m' = (im_scheds m)(k := g)" "ctx_at fd m' = Inr (p, c')"
    "fc_events c' = fc_events c AND NOT ev"
    by (rule cancelEvent_True [OF iom_reachable_inv [OF assms(1)] ev assms(3)])
  then show ?thesis by blast
qed

text \<open>
  \<open>delEvent\<close> cannot remove an event: the context is the only owner of the fiber that waits,
  and letting go of it in state \<open>INIT\<close> fails the assertion of the destructor.
\<close>

lemma delEvent_registered_aborts:
  assumes "ev = READ_EV \<or> ev = WRITE_EV"
    and "ctx_at fd m = Inr (p, c)" and "fc_events c AND ev \<noteq> 0"
    and "ec_fiber (slot ev c) = Some f" and "fheap s f = Some b" and "fb_state b = INIT"
    and "fb_id b \<noteq> 0" and "fb_refs b = 1" and "on_main s"
  shows "delEvent 0 fd ev m s = Inl (AssertFail ''m_state == DESTROY || m_state == EXCEPT'')"
proof -
  have "ev \<in> {READ_EV, WRITE_EV}" using assms(1) by simp
  then show ?thesis
    using ctx_atE [OF assms(2)] assms(2-9)
    by (simp add: delEvent_def Let_def getContext_slot resetContext_def Fiber_ptr_release_def
        Fiber_release_eq)
qed

text \<open>
  An event cannot be registered again after it has been triggered: \<open>triggerEvent\<close> leaves
  the pointer to the fiber in the context, and \<open>addEvent\<close> insists on its being null. (By then
  \<open>epoll_ctl\<close> has succeeded and the pending count has been incremented.)
\<close>

theorem readd_after_cancel_aborts:
  assumes "iom_reachable m" and "\<not> im_stopping m" and "ev = READ_EV \<or> ev = WRITE_EV"
    and "cancelEvent rt us fd ev m s = Inr (True, m', s')"
  shows "addEvent (length (im_ctxs m')) 0 this mok fd ev cb m' s'' =
    Inl (AssertFail ''!event_ctx.scheduler && !event_ctx.fiber'')"
proof -
  have ev: "ev \<in> {READ_EV, WRITE_EV}" using assms(3) by simp
  note inv = iom_reachable_inv [OF assms(1)]
  obtain p c c' f where c: "ctx_at fd m = Inr (p, c)" "ctx_at fd m' = Inr (p, c')"
    "fc_events c' = fc_events c AND NOT ev" "ec_fiber (slot ev c') = Some f"
    "im_stopping m' = im_stopping m"
    by (rule cancelEvent_True [OF inv ev assms(4)])
  have "fc_events c' AND ev = 0" by (simp add: c(3) and.assoc)
  then show ?thesis
    using stale_fiber_aborts [OF cancelEvent_inv [OF inv ev assms(4)] _ ev c(2) _ c(4)] c(5) assms(2)
    by simp
qed

text \<open>
  Handling an event that another thread has removed since \<open>epoll_wait\<close> reported it aborts:
  with only \<open>READ\<close> left in the context, a report of both events fails the assertion of
  \<open>triggerEvent\<close> on \<open>WRITE\<close>, after the \<open>READ\<close> event has been submitted.
\<close>

theorem idle_stale_event_aborts:
  assumes "iom_reachable m" and "p \<in> set (im_ctxs m)" and "im_heap m p = Some c"
    and "fc_events c = READ_EV" and "evs = EPOLLIN OR EPOLLOUT"
    and "ec_scheduler (fc_read c) = Some k" and "\<not> g_stop (im_scheds m k)"
    and "length (g_tasks (im_scheds m k)) < 10000"
    and "ec_fiber (fc_read c) = Some f" and "fheap s f = Some b"
  shows "idle_event 0 us p evs m s = Inl (AssertFail ''events & event'')"
proof -
  let ?m = "epoll_ctl 0 CTL_DEL (fc_fd c) EPOLLET m"
  obtain s1 where s1: "Fiber_copy f s = Inr s1" using assms(10) by (simp add: Fiber_copy_def deref_Some)
  have "\<exists>c' gs. triggerEvent us READ_EV c (im_scheds ?m) s = Inr (c', gs, s1) \<and> fc_events c' = 0"
    using assms(4,6-9) s1
    by (simp add: triggerEvent_def getContext_def Scheduler_submit_fiber_def Scheduler_submit_def
        ev_defs setContext_def)
  then obtain c' gs where t: "triggerEvent us READ_EV c (im_scheds ?m) s = Inr (c', gs, s1)"
    "fc_events c' = 0" by blast
  have "\<exists>m2. trigger_if us True READ_EV p ?m s = Inr (m2, s1) \<and> im_heap m2 p = Some c'"
    using t(1) assms(3) by (simp add: trigger_if_def)
  then obtain m2 where m2: "trigger_if us True READ_EV p ?m s = Inr (m2, s1)" "im_heap m2 p = Some c'"
    by blast
  have "trigger_if us True WRITE_EV p m2 s1 = Inl (AssertFail ''events & event'')"
    using m2(2) t(2) by (simp add: trigger_if_def triggerEvent_def)
  then show ?thesis
    using m2(1) assms(3-5) by (simp add: idle_event_def Let_def ev_defs)
qed


text \<open>
  Two threads that register descriptors beyond the end of the vector at the same time can
  shrink it: both read the size \<open>n\<close> before either grows the vector. When the second one's
  descriptor is the smaller, its \<open>contextResize\<close> cuts off the context of the first: the
  kernel still has the event, but \<open>delEvent\<close>, \<open>cancelEvent\<close> and \<open>cancelAll\<close> no longer find it.
\<close>

theorem concurrent_resize_loses_context:
  assumes "addEvent n 0 this mok fd ev cb m s = Inr (0, m1, s1)"
    and "addEvent n 0 this' mok' fd' ev' cb' m1 s1' = Inr (0, m2, s2)"
    and "int n \<le> fd'" and "fd' * 3 div 2 \<le> fd"
  shows "im_epoll m2 fd \<noteq> None \<and> delEvent rt fd e m2 t = Inr (False, m2, t) \<and>
    cancelEvent rt us fd e m2 t = Inr (False, m2, t) \<and> cancelAll rt us fd m2 t = Inr (False, m2, t)"
proof -
  have "fd' \<noteq> fd"
  proof
    assume "fd' = fd"
    then have "nat (fd * 3 div 2) \<le> nat fd" using assms(4) by simp
    moreover have "ok (ctx_at fd (contextResize (nat (fd * 3 div 2)) m1))"
      using addEvent_0(1) [OF assms(2)] assms(3) \<open>fd' = fd\<close> by simp
    ultimately show False by (simp add: ctx_at_def contextResize_frame ok_def split: if_splits)
  qed
  then have "im_epoll m2 fd = im_epoll m1 fd" using addEvent_0(3) [OF assms(2)] by auto
  moreover have "im_epoll m1 fd \<noteq> None" using addEvent_0(3) [OF assms(1)] by auto
  moreover have "length (im_ctxs m2) = nat (fd' * 3 div 2)"
    using addEvent_0(2) [OF assms(2)] assms(3) by (simp add: contextResize_frame)
  then have "int (length (im_ctxs m2)) \<le> fd" using assms(3,4) by linarith
  ultimately show ?thesis by (simp add: delEvent_def cancelEvent_def cancelAll_def)
qed

section \<open>Witnesses\<close>

definition demo_sched :: sched where
  "demo_sched = \<lparr>g_tasks = [], g_count = 0, g_stop = False, g_workers = [], g_thread_count = 1,
     g_name = ''io'', g_k = 0, g_alloc_exited = False\<rparr>"

definition demo_iom :: iom where
  "demo_iom = IOManager_new (\<lambda>_. demo_sched)"

definition iom_after :: "iop list \<Rightarrow> (iom \<times> fsys) res" where
  "iom_after ps = fold (\<lambda>p r. bindR r (\<lambda>(m, s). iom_op p m s)) ps
     (Inr (demo_iom, demo_thread READY None))"

definition demo_add :: iop where
  "demo_add = IAdd 0 (Some 0) True 7 READ_EV (Some demo_cb)"

definition demo_reg :: iom where
  "demo_reg = (case iom_after [demo_add] of Inl _ \<Rightarrow> demo_iom | Inr (m, s) \<Rightarrow> m)"

definition demo_reg_fs :: fsys where
  "demo_reg_fs = (case iom_after [demo_add] of Inl _ \<Rightarrow> demo_thread READY None | Inr (m, s) \<Rightarrow> s)"

lemma demo_reg_check: "ok (iom_after [demo_add])"
  by code_simp

lemma demo_reg_run: "iom_op demo_add demo_iom (demo_thread READY None) = Inr (demo_reg, demo_reg_fs)"
  using demo_reg_check by (auto simp: iom_after_def demo_reg_def demo_reg_fs_def ok_iff)

lemma demo_iom_reachable: "iom_reachable demo_iom"
  by (simp add: demo_iom_def iom_start)

lemma demo_reg_reachable: "iom_reachable demo_reg"
  by (rule iom_step [OF demo_iom_reachable _ demo_reg_run]) (simp add: demo_add_def)

lemma demo_reg_facts:
  "length (im_ctxs demo_reg) = 32 \<and> \<not> im_stopping demo_reg \<and>
   (case im_heap demo_reg 7 of None \<Rightarrow> False | Some c \<Rightarrow> fc_events c = READ_EV \<and>
      ec_scheduler (fc_read c) = Some 0 \<and> ec_fiber (fc_read c) = Some 2) \<and> im_ctxs demo_reg ! 7 = 7 \<and>
   \<not> g_stop (im_scheds demo_reg 0) \<and> length (g_tasks (im_scheds demo_reg 0)) < 10000 \<and>
   ok (cancelEvent 0 9 7 READ_EV demo_reg demo_reg_fs) \<and>
   (case fheap demo_reg_fs 2 of None \<Rightarrow> False | Some b \<Rightarrow> fb_state b = INIT \<and> fb_id b = 2 \<and> fb_refs b = 1) \<and>
   main_fiber demo_reg_fs = Some 0 \<and> this_fiber demo_reg_fs = Some 0 \<and> running demo_reg_fs = Some 0 \<and>
   (case fheap demo_reg_fs 0 of None \<Rightarrow> False | Some b \<Rightarrow> fb_id b = 0 \<and> fb_ctx b) \<and>
   im_pending demo_reg = 1"
  by code_simp

theorem pending_matches_epoll_witness:
  "unat (im_pending demo_reg) = (\<Sum>p \<leftarrow> im_ctxs demo_reg. nbits (events_at p demo_reg)) \<and>
   \<not> stop_proceeds demo_reg"
  using pending_matches_epoll [OF demo_reg_reachable] demo_reg_facts
  by (simp add: stop_proceeds_def)

lemma demo_iom_facts:
  "length (im_ctxs demo_iom) = 32 \<and> \<not> im_stopping demo_iom \<and>
   (case ctx_at 40 (add_target 40 demo_iom) of Inl _ \<Rightarrow> False
     | Inr (p, c) \<Rightarrow> fc_events c = 0 \<and> ec_fiber (fc_read c) = None)"
  by code_simp

theorem addEvent_outcomes_witness:
  "\<exists>m' s'. addEvent (length (im_ctxs demo_iom)) 0 (Some 0) True 40 READ_EV (Some demo_cb) demo_iom
    (demo_thread READY None) = Inr (0, m', s') \<and> im_pending m' = im_pending demo_iom + 1"
proof -
  obtain p c where pc: "ctx_at 40 (add_target 40 demo_iom) = Inr (p, c)" "fc_events c = 0"
    "ec_fiber (fc_read c) = None"
    using demo_iom_facts by (auto split: sum.splits)
  have t: "thread_ok (demo_thread READY None)" "heap_fresh (demo_thread READY None)"
    "fiberIds (demo_thread READY None) < - 1"
    using demo_inv [of READY None] by (auto simp: thread_ok_def heap_fresh_def demo_thread_def)
  from addEvent_outcomes [OF demo_iom_reachable _ _ pc(1) _ _ t, of READ_EV 0 0 "Some demo_cb"]
  show ?thesis using demo_iom_facts pc(2,3) by (auto simp: slot_def)
qed

lemma demo_cancel:
  obtains m' s' where "cancelEvent 0 9 7 READ_EV demo_reg demo_reg_fs = Inr (True, m', s')"
proof -
  have "case cancelEvent 0 9 7 READ_EV demo_reg demo_reg_fs of Inl _ \<Rightarrow> False | Inr (v, x) \<Rightarrow> v"
    by code_simp
  then show thesis using that by (auto split: sum.splits)
qed

theorem cancelEvent_submits_witness:
  "\<exists>m' s' f s1 g. cancelEvent 0 9 7 READ_EV demo_reg demo_reg_fs = Inr (True, m', s') \<and>
    Fiber_copy f demo_reg_fs = Inr s1 \<and>
    Scheduler_submit_fiber f (-1) 5 9 (im_scheds demo_reg 0) s1 = Inr (g, s')"
proof -
  obtain m' s' where c: "cancelEvent 0 9 7 READ_EV demo_reg demo_reg_fs = Inr (True, m', s')"
    by (rule demo_cancel)
  obtain p x k f s1 g where k: "ctx_at 7 demo_reg = Inr (p, x)" "ec_scheduler (slot READ_EV x) = Some k"
    "Fiber_copy f demo_reg_fs = Inr s1"
    "Scheduler_submit_fiber f (-1) 5 9 (im_scheds demo_reg k) s1 = Inr (g, s')"
    using cancelEvent_submits [OF demo_reg_reachable _ c] by auto
  have "k = 0" using k(1,2) demo_reg_facts by (auto simp: ctx_at_def slot_def split: option.splits)
  then show ?thesis using c k(3,4) by blast
qed

theorem readd_after_cancel_aborts_witness:
  "\<exists>m' s'. cancelEvent 0 9 7 READ_EV demo_reg demo_reg_fs = Inr (True, m', s') \<and>
    \<not> ok (addEvent (length (im_ctxs m')) 0 (Some 0) True 7 READ_EV (Some demo_cb) m' s')"
proof -
  obtain m' s' where c: "cancelEvent 0 9 7 READ_EV demo_reg demo_reg_fs = Inr (True, m', s')"
    by (rule demo_cancel)
  from readd_after_cancel_aborts [OF demo_reg_reachable _ _ c, of "Some 0" True "Some demo_cb" s']
  show ?thesis using c demo_reg_facts by (auto simp: ok_def)
qed

theorem idle_stale_event_aborts_witness:
  "\<not> ok (idle_event 0 9 7 (EPOLLIN OR EPOLLOUT) demo_reg demo_reg_fs)"
proof -
  obtain c where c: "im_heap demo_reg 7 = Some c" "fc_events c = READ_EV"
    "ec_scheduler (fc_read c) = Some 0" "ec_fiber (fc_read c) = Some 2"
    using demo_reg_facts by (auto split: option.splits)
  obtain b where b: "fheap demo_reg_fs 2 = Some b" using demo_reg_facts by (auto split: option.splits)
  have "im_ctxs demo_reg ! 7 \<in> set (im_ctxs demo_reg)" using demo_reg_facts by (intro nth_mem) simp
  then have "7 \<in> set (im_ctxs demo_reg)" using demo_reg_facts by simp
  from idle_stale_event_aborts [OF demo_reg_reachable this c(1,2) refl c(3) _ _ c(4) b]
  show ?thesis using demo_reg_facts by (simp add: ok_def)
qed

theorem concurrent_resize_loses_context_witness:
  "\<exists>m1 s1 m2 s2. addEvent 32 0 (Some 0) True 100 READ_EV (Some demo_cb) demo_iom
      (demo_thread READY None) = Inr (0, m1, s1) \<and>
    addEvent 32 0 (Some 0) True 40 READ_EV (Some demo_cb) m1 s1 = Inr (0, m2, s2) \<and>
    im_epoll m2 100 \<noteq> None \<and> delEvent 0 100 READ_EV m2 s2 = Inr (False, m2, s2)"
proof -
  have "case addEvent 32 0 (Some 0) True 100 READ_EV (Some demo_cb) demo_iom
      (demo_thread READY None) of Inl _ \<Rightarrow> False | Inr (v, m1, s1) \<Rightarrow> v = 0 \<and>
    (case addEvent 32 0 (Some 0) True 40 READ_EV (Some demo_cb) m1 s1 of Inl _ \<Rightarrow> False
      | Inr (v2, x) \<Rightarrow> v2 = 0)"
    by code_simp
  then obtain m1 s1 where r1: "addEvent 32 0 (Some 0) True 100 READ_EV (Some demo_cb) demo_iom
      (demo_thread READY None) = Inr (0, m1, s1)"
    and c: "case addEvent 32 0 (Some 0) True 40 READ_EV (Some demo_cb) m1 s1 of Inl _ \<Rightarrow> False
      | Inr (v2, x) \<Rightarrow> v2 = 0"
    by (cases "addEvent 32 0 (Some 0) True 100 READ_EV (Some demo_cb) demo_iom
      (demo_thread READY None)") auto
  from c obtain m2 s2 where
    "addEvent 32 0 (Some 0) True 40 READ_EV (Some demo_cb) m1 s1 = Inr (0, m2, s2)"
    by (cases "addEvent 32 0 (Some 0) True 40 READ_EV (Some demo_cb) m1 s1") auto
  note r = r1 this
  from concurrent_resize_loses_context [OF r, of 0 READ_EV] show ?thesis using r by auto
qed

end
