(* ===== verification/Shutdowns.thy ===== *)
theory Shutdowns
  imports IOManagers Owners
begin

text \<open>
  The end of an I/O manager: \<open>IOManager::stop\<close>, which waits until no event is registered, and
  the destructor, which then deletes the contexts (\<open>sylar/iomanager.cpp\<close>).
\<close>

section \<open>Stopping\<close>

text \<open>
  \<open>stop\<close> from the point at which the flag \<open>m_stopping\<close> is up: \<open>k\<close> is the scheduler the manager
  is itself. \<open>None\<close> when it has to wait, for the events or in a join.
\<close>

definition IOManager_stop :: "nat \<Rightarrow> iom \<Rightarrow> iom option" where
  "IOManager_stop k m =
     (let m1 = IOManager_stopping m
      in if stop_proceeds m1
         then (let g = stop_flag (im_scheds m1 k)
               in if joins_return g then Some (m1\<lparr>im_scheds := (im_scheds m1)(k := g)\<rparr>) else None)
         else None)"

text \<open>
  Deleting a context lets go of its two fibers, in the reverse order of the members.
\<close>

definition FdContext_dtor :: "fdctx \<Rightarrow> fsys \<Rightarrow> fsys res" where
  "FdContext_dtor c s = bindR (Fiber_ptr_release (ec_fiber (fc_write c)) s)
     (Fiber_ptr_release (ec_fiber (fc_read c)))"

text \<open>The loop of the destructor over the vector; deleting what is not there is a fault.\<close>

primrec delete_ctxs ::
    "ptr list \<Rightarrow> (ptr \<rightharpoonup> fdctx) \<Rightarrow> fsys \<Rightarrow> ((ptr \<rightharpoonup> fdctx) \<times> fsys) res" where
  "delete_ctxs [] h s = Inr (h, s)"
| "delete_ctxs (p # ps) h s = (case h p of None \<Rightarrow> Inl (Dangling p)
     | Some c \<Rightarrow> bindR (FdContext_dtor c s) (delete_ctxs ps (h(p := None))))"

definition IOManager_delete :: "nat \<Rightarrow> iom \<Rightarrow> fsys \<Rightarrow> (iom \<times> fsys) res option" where
  "IOManager_delete k m s = map_option
     (\<lambda>m1. bindR (delete_ctxs (im_ctxs m1) (im_heap m1) s) (\<lambda>(h, s'). Inr (m1\<lparr>im_heap := h\<rparr>, s')))
     (IOManager_stop k m)"

section \<open>The fibers the contexts hold\<close>

definition ctx_fibers :: "fdctx \<Rightarrow> ptr multiset" where
  "ctx_fibers c = opt_mset (ec_fiber (fc_write c)) + opt_mset (ec_fiber (fc_read c))"

definition fibers_at :: "(ptr \<rightharpoonup> fdctx) \<Rightarrow> ptr \<Rightarrow> ptr multiset" where
  "fibers_at h p = (case h p of None \<Rightarrow> {#} | Some c \<Rightarrow> ctx_fibers c)"

definition held :: "iom \<Rightarrow> ptr multiset" where
  "held m = (\<Sum>p \<leftarrow> im_ctxs m. fibers_at (im_heap m) p)"

lemma ptr_release_droppable:
  assumes "on_main s" and "droppable (opt_mset p + M) s"
  shows "\<exists>s'. Fiber_ptr_release p s = Inr s' \<and> on_main s' \<and> droppable M s' \<and>
    refs_of (fheap s') = released (opt_mset p) (refs_of (fheap s))"
proof (cases p)
  case (Some f)
  then show ?thesis
    using release_droppable [OF assms(1), of f M] assms(2) by (auto simp: Fiber_ptr_release_def)
qed (use assms in \<open>simp add: Fiber_ptr_release_def\<close>)

lemma FdContext_dtor_ok:
  assumes "on_main s" and "droppable (ctx_fibers c + M) s"
  shows "\<exists>s'. FdContext_dtor c s = Inr s' \<and> on_main s' \<and> droppable M s' \<and>
    refs_of (fheap s') = released (ctx_fibers c) (refs_of (fheap s))"
proof -
  obtain s1 where 1: "Fiber_ptr_release (ec_fiber (fc_write c)) s = Inr s1" "on_main s1"
    "droppable (opt_mset (ec_fiber (fc_read c)) + M) s1"
    "refs_of (fheap s1) = released (opt_mset (ec_fiber (fc_write c))) (refs_of (fheap s))"
    using ptr_release_droppable [OF assms(1), of "ec_fiber (fc_write c)"
        "opt_mset (ec_fiber (fc_read c)) + M"] assms(2)
    by (auto simp: ctx_fibers_def add.assoc)
  show ?thesis
    using ptr_release_droppable [OF 1(2,3)] 1(1,4)
    by (auto simp: FdContext_dtor_def released_released ctx_fibers_def add.commute)
qed

lemma delete_ctxs_ok:
  "distinct ps \<Longrightarrow> \<forall>p \<in> set ps. h p \<noteq> None \<Longrightarrow> on_main s \<Longrightarrow>
    droppable (\<Sum>p \<leftarrow> ps. fibers_at h p) s \<Longrightarrow>
    \<exists>s'. delete_ctxs ps h s = Inr (h |` (- set ps), s') \<and> on_main s' \<and>
      refs_of (fheap s') = released (\<Sum>p \<leftarrow> ps. fibers_at h p) (refs_of (fheap s))"
proof (induction ps arbitrary: h s)
  case (Cons p ps)
  let ?h = "h(p := None)"
  obtain c where c: "h p = Some c" using Cons.prems(2) by auto
  have rest: "(\<Sum>q \<leftarrow> ps. fibers_at ?h q) = (\<Sum>q \<leftarrow> ps. fibers_at h q)"
    using Cons.prems(1)
    by (intro arg_cong [where f = sum_list] map_cong refl) (auto simp: fibers_at_def)
  have p: "fibers_at h p = ctx_fibers c" using c by (simp add: fibers_at_def)
  obtain s1 where 1: "FdContext_dtor c s = Inr s1" "on_main s1"
    "droppable (\<Sum>q \<leftarrow> ps. fibers_at h q) s1"
    "refs_of (fheap s1) = released (ctx_fibers c) (refs_of (fheap s))"
    using FdContext_dtor_ok [OF Cons.prems(3), of c "\<Sum>q \<leftarrow> ps. fibers_at h q"] Cons.prems(4) p
    by auto
  have "\<forall>q \<in> set ps. ?h q \<noteq> None" using Cons.prems(1,2) by auto
  then obtain s2 where 2: "delete_ctxs ps ?h s1 = Inr (?h |` (- set ps), s2)" "on_main s2"
    "refs_of (fheap s2) = released (\<Sum>q \<leftarrow> ps. fibers_at h q) (refs_of (fheap s1))"
    using Cons.IH [of ?h s1, unfolded rest, OF _ _ 1(2,3)] Cons.prems(1) unfolding distinct.simps
    by blast
  have "?h |` (- set ps) = h |` (- set (p # ps))" by (auto simp: restrict_map_def fun_eq_iff)
  then have "delete_ctxs (p # ps) h s = Inr (h |` (- set (p # ps)), s2)"
    using c 1(1) 2(1) by simp
  then show ?case using 1(4) 2(2,3) p by (simp add: released_released add.commute)
qed (simp add: restrict_map_def fun_eq_iff)

lemma stop_refused:
  assumes "im_stopping m"
  shows "addEvent n rt this mok fd ev cb m s = Inr (- 1, m, s)"
  using assms by (simp add: addEvent_def)

lemma shutdown_core:
  assumes "iom_inv m" and "length (im_ctxs m) < 2 ^ 63" and "on_main s"
    and "\<forall>p \<in> set (im_ctxs m). events_at p m = 0 \<Longrightarrow> droppable (held m) s"
  shows "(case IOManager_delete k m s of
      None \<Rightarrow> \<not> joins_return (im_scheds m k) \<or> (\<exists>fd. im_epoll m fd \<noteq> None)
    | Some r \<Rightarrow> (\<exists>m' s'. r = Inr (m', s') \<and> im_epoll m' = Map.empty \<and> g_stop (im_scheds m' k) \<and>
        (\<forall>p \<in> set (im_ctxs m). events_at p m = 0 \<and> im_heap m' p = None) \<and>
        refs_of (fheap s') = released (held m) (refs_of (fheap s)) \<and>
        (\<forall>n rt this mok fd ev cb t. addEvent n rt this mok fd ev cb m' t = Inr (- 1, m', t))))"
proof -
  have inv: "iom_core m" "\<And>fd. im_epoll m fd = registered m fd"
    using assms(1) by (simp_all add: iom_inv_def)
  have p: "stop_proceeds (IOManager_stopping m) \<longleftrightarrow> (\<forall>q \<in> set (im_ctxs m). events_at q m = 0)"
  proof -
    have "npend m < 2 ^ 64" using npend_le [of m] assms(2) by simp
    then have "unat (im_pending m) = npend m" using inv(1) by (simp add: iom_core_def unat_of_nat)
    then have "stop_proceeds (IOManager_stopping m) \<longleftrightarrow> npend m = 0"
      by (metis stop_proceeds_def IOManager_stopping_def iom.select_convs(4) iom.surjective
          iom.update_convs(5) unat_eq_zero)
    then show ?thesis using npend_0 [OF inv(1)] by simp
  qed
  have reg: "(\<forall>fd. im_epoll m fd = None) \<longleftrightarrow> (\<forall>q \<in> set (im_ctxs m). events_at q m = 0)"
    using registered_none [of m] inv(2) by simp
  have heap: "\<forall>q \<in> set (im_ctxs m). im_heap m q \<noteq> None"
    using inv(1) by (fastforce simp: iom_core_def in_set_conv_nth split: option.splits)
  show ?thesis
  proof (cases "IOManager_stop k m")
    case None
    then show ?thesis using p reg
      by (auto simp: IOManager_delete_def IOManager_stop_def Let_def IOManager_stopping_def
          stop_flag_def joins_return_def split: if_splits)
  next
    case (Some m1)
    then have z: "\<forall>q \<in> set (im_ctxs m). events_at q m = 0"
      and m1: "m1 = (IOManager_stopping m)\<lparr>im_scheds := (im_scheds m)(k := stop_flag (im_scheds m k))\<rparr>"
      using p by (auto simp: IOManager_stop_def Let_def IOManager_stopping_def split: if_splits)
    obtain s' where s': "delete_ctxs (im_ctxs m) (im_heap m) s = Inr (im_heap m |` (- set (im_ctxs m)), s')"
      "refs_of (fheap s') = released (held m) (refs_of (fheap s))"
      using delete_ctxs_ok [OF _ heap assms(3)] assms(4) [OF z] inv(1) by (auto simp: iom_core_def held_def)
    then have "IOManager_delete k m s =
        Some (Inr (m1\<lparr>im_heap := im_heap m |` (- set (im_ctxs m))\<rparr>, s'))"
      using Some by (simp add: IOManager_delete_def m1 IOManager_stopping_def)
    moreover have "im_epoll m = Map.empty" using reg z by (simp add: fun_eq_iff)
    moreover have "im_stopping m1" by (simp add: m1 IOManager_stopping_def)
    ultimately show ?thesis using z stop_refused s'(2)
      by (simp add: m1 IOManager_stopping_def stop_flag_def)
  qed
qed

section \<open>Properties\<close>

text \<open>
  When \<open>stop\<close> returns, no event is registered any more, with the kernel or in a context,
  and none can be added; the destructor then deletes every context exactly once and lets go of
  every fiber a context has kept, whatever events have been added, removed, cancelled and
  reported before, provided that what only contexts own has ended. As long as an event is
  registered \<open>stop\<close> does not return.
\<close>

theorem shutdown_clean:
  assumes "iom_reachable m" and "length (im_ctxs m) < 2 ^ 63" and "on_main s"
    and "droppable (held m) s"
  shows "(case IOManager_delete k m s of
      None \<Rightarrow> \<not> joins_return (im_scheds m k) \<or> (\<exists>fd. im_epoll m fd \<noteq> None)
    | Some r \<Rightarrow> (\<exists>m' s'. r = Inr (m', s') \<and> im_epoll m' = Map.empty \<and> g_stop (im_scheds m' k) \<and>
        (\<forall>p \<in> set (im_ctxs m). events_at p m = 0 \<and> im_heap m' p = None) \<and>
        refs_of (fheap s') = released (held m) (refs_of (fheap s)) \<and>
        (\<forall>n rt this mok fd ev cb t. addEvent n rt this mok fd ev cb m' t = Inr (- 1, m', t))))"
  by (rule shutdown_core [OF iom_reachable_inv [OF assms(1)] assms(2-4)])

section \<open>An instance\<close>

text \<open>A manager whose threads have ended, and one that waits for a descriptor.\<close>

definition ended_iom :: iom where
  "ended_iom = IOManager_new (\<lambda>_. demo_sched\<lparr>g_alloc_exited := True\<rparr>)"

lemma demo_shutdown_check:
  "(case IOManager_delete 0 ended_iom (demo_thread READY None) of Some (Inr m) \<Rightarrow> True | _ \<Rightarrow> False) \<and>
    IOManager_delete 0 demo_reg demo_reg_fs = None \<and> length (im_ctxs ended_iom) = 32 \<and>
    size (held ended_iom) = 0"
  by code_simp

theorem shutdown_clean_witness:
  "\<exists>m s. IOManager_delete 0 ended_iom (demo_thread READY None) = Some (Inr (m, s)) \<and>
    im_epoll m = Map.empty \<and> (\<forall>p \<in> set (im_ctxs ended_iom). im_heap m p = None)"
proof -
  have "iom_reachable ended_iom" unfolding ended_iom_def by (rule iom_start)
  moreover have "droppable (held ended_iom) (demo_thread READY None)"
    using demo_shutdown_check by (simp add: droppable_def)
  ultimately show ?thesis
    using shutdown_clean [of ended_iom "demo_thread READY None" 0] demo_shutdown_check demo_on_main
    by (auto split: option.splits)
qed

end
