(* ===== verification/Handovers.thy ===== *)
theory Handovers
  imports Shutdowns
begin

text \<open>
  Between the contexts of an I/O manager and its scheduler: what it means to hand the fiber of
  an event over to the scheduler, and that \<open>triggerEvent\<close>, the cancelling operations and the
  handling of reported events (\<open>sylar/iomanager.cpp\<close>) do just that, on whatever thread they run.
\<close>

unbundle bit_operations_syntax

section \<open>The specification\<close>

text \<open>
  Handing over a fiber: with room in the queue the scheduler gets a task for it and becomes its
  second owner; with the queue full the fiber is ended.
\<close>

definition handed :: "u64 \<Rightarrow> ptr \<Rightarrow> 'r sys \<Rightarrow> 'r sys" where
  "handed us f y = (case y_heap y f of None \<Rightarrow> y | Some b \<Rightarrow>
     (let g = y_sched y; t = Task_ctor f (-1) 5 us in
      if length (g_tasks g) < 10000
      then y\<lparr>y_sched := g\<lparr>g_tasks := g_tasks g @ [t], g_count := g_count g + 1\<rparr>,
             y_heap := (y_heap y)(f \<mapsto> b\<lparr>fb_refs := Suc (fb_refs b)\<rparr>),
             y_accepted := y_accepted y @ [t]\<rparr>
      else y\<lparr>y_heap := (y_heap y)(f \<mapsto> b\<lparr>fb_state := DESTROY\<rparr>)\<rparr>))"

text \<open>A fiber that waits for its event: it has never run, and its context is its only owner.\<close>

definition waiting :: "'r sys \<Rightarrow> ptr \<Rightarrow> bool" where
  "waiting y f = (case y_heap y f of None \<Rightarrow> False | Some b \<Rightarrow> fiber_in INIT b \<and> fb_refs b = 1)"

text \<open>A fiber that has been handed over: a task of the scheduler, or ended.\<close>

definition settled :: "'r sys \<Rightarrow> ptr \<Rightarrow> bool" where
  "settled y f = (case y_heap y f of None \<Rightarrow> False | Some b \<Rightarrow> fb_id b \<noteq> 0 \<and>
     (f \<in># fibers_of (sys_bag (y_sched y)) \<or> fb_state b = DESTROY))"

lemma waitingE:
  assumes "waiting y f"
  obtains b where "y_heap y f = Some b" and "fiber_in INIT b" and "fb_refs b = 1"
  using assms by (auto simp: waiting_def split: option.splits)

lemma handed_simps [simp]:
  "g_workers (y_sched (handed us f y)) = g_workers (y_sched y)" "y_next (handed us f y) = y_next y"
  "y_caller (handed us f y) = y_caller y" "y_clock (handed us f y) = y_clock y"
  "y_rand (handed us f y) = y_rand y" "g_stop (y_sched (handed us f y)) = g_stop (y_sched y)"
  "g_alloc_exited (y_sched (handed us f y)) = g_alloc_exited (y_sched y)"
  by (simp_all add: handed_def Let_def split: option.split)

lemma handed_other: "g \<noteq> f \<Longrightarrow> y_heap (handed us f y) g = y_heap y g"
  by (simp add: handed_def Let_def split: option.split)

lemma handed_heap: "y_heap y f = Some b \<Longrightarrow> y_heap (handed us f y) = (y_heap y)(f \<mapsto>
    (if length (g_tasks (y_sched y)) < 10000 then b\<lparr>fb_refs := Suc (fb_refs b)\<rparr>
      else b\<lparr>fb_state := DESTROY\<rparr>))"
  by (simp add: handed_def Let_def)

lemma handed_bag: "y_heap y f = Some b \<Longrightarrow> sys_bag (y_sched (handed us f y)) =
    (if length (g_tasks (y_sched y)) < 10000
     then add_mset (INIT, Task_ctor f (-1) 5 us) (sys_bag (y_sched y)) else sys_bag (y_sched y))"
  by (simp add: handed_def Let_def sys_bag_def)

section \<open>Handing over keeps the scheduler right\<close>

text \<open>A waiting fiber is nobody's but its context's.\<close>

lemma waiting_owner:
  assumes "refs_ok M y" and "waiting y f" and "f \<in># M"
  shows "f \<notin># owners y" and "count M f = 1"
proof -
  obtain b where b: "y_heap y f = Some b" "fb_refs b = 1" using assms(2) by (rule waitingE)
  have "refs_of (y_heap y) f = counted (owners y + M) f" using assms(1) by (simp add: refs_ok_def)
  then have "count (owners y) f + count M f = 1"
    using b by (simp add: refs_of_def counted_def split: if_splits)
  moreover have "0 < count M f" using assms(3) by (simp only: count_greater_zero_iff)
  ultimately show "f \<notin># owners y" and "count M f = 1" unfolding not_in_iff by linarith+
qed

lemma caller_on_main: "sys_inv y \<Longrightarrow> this_fiber (y_caller y) \<noteq> None \<Longrightarrow> on_main (view (y_caller y) y)"
  using sys_invD(1) by (auto simp: caller_ok_def)

lemma handed_inv:
  assumes inv: "sys_inv y" and f: "waiting y f" "f \<notin># fibers_of (sys_bag (y_sched y))"
    and caller: "this_fiber (y_caller y) \<noteq> None"
  shows "sys_inv (handed us f y)"
proof -
  let ?y = "handed us f y"
  obtain b where b: "y_heap y f = Some b" "fiber_in INIT b" using f(1) by (rule waitingE)
  note fi = fiber_in_state [OF b(2)]
  let ?s = "view (y_caller y) ?y"
  note on = caller_on_main [OF inv caller]
  have k: "kept y (fheap ?s)"
    using b(1) fi f(2) by (simp add: kept_def fiber_ended_def handed_heap [OF b(1)])
  have o: "on_main ?s"
    by (rule on_main_frame [OF on], rule kept_main [OF k [unfolded view_simps]])
      (use on in \<open>simp_all add: on_main_def\<close>)
  have bag: "bag_ok (sys_bag (y_sched y)) ?s" by (rule kept_bag [OF inv k])
  have "bag_ok (sys_bag (y_sched ?y)) ?s"
  proof (cases "length (g_tasks (y_sched y)) < 10000")
    case True
    have "fiber_in INIT (b\<lparr>fb_refs := Suc (fb_refs b)\<rparr>)"
      using b(2) by (simp add: fiber_in_def fiber_good_def split: option.splits)
    then show ?thesis
      using bag_ok_insert [OF bag, of INIT _ "Task_ctor f (-1) 5 us"] True f(2) b(1)
      by (simp add: handed_bag [OF b(1)] handed_heap [OF b(1)])
  qed (use bag in \<open>simp add: handed_bag [OF b(1)]\<close>)
  moreover have "queue_ok (y_sched ?y)"
    using sys_invD(5) [OF inv] b(1) by (simp add: queue_ok_def handed_def Let_def)
  moreover have "mset (y_accepted ?y) + mset (g_tasks (y_sched y)) =
      mset (y_accepted y) + mset (g_tasks (y_sched ?y))"
    using b(1) by (simp add: handed_def Let_def)
  moreover have "fiberIds ?s \<noteq> 0"
    using sys_invD(1) [OF inv] caller by (simp add: caller_ok_def thread_ok_def)
  moreover have "heap_fresh ?s"
    using sys_invD(2) [OF inv, of "y_caller y"] b(1)
    by (auto simp: heap_fresh_def handed_heap [OF b(1)])
  moreover have "g \<in># fibers_of (sys_bag (y_sched y)) \<or> y_next y \<le> g \<or>
      (\<exists>b. y_heap y g = Some b \<and> fb_state b \<noteq> DESTROY)" if "g \<in># fibers_of (sys_bag (y_sched ?y))" for g
    using that b(1) fi by (auto simp: handed_bag [OF b(1)] split: if_splits)
  ultimately have "sys_inv (client_state (y_sched ?y) ?s (y_accepted ?y) y)"
    by (intro client_state_inv [OF inv o _ _ _ k]) simp_all
  moreover have "client_state (y_sched ?y) ?s (y_accepted ?y) y = ?y"
    using b(1) by (simp add: client_state_def handed_def Let_def)
  ultimately show ?thesis by simp
qed

lemma handed_refs:
  assumes "refs_ok M y" and "waiting y f"
  shows "refs_ok M (handed us f y)"
proof -
  obtain b where b: "y_heap y f = Some b" using assms(2) by (rule waitingE)
  have r: "refs_of (y_heap y) = counted (owners y + M)" using assms(1) by (simp add: refs_ok_def)
  show ?thesis
  proof (cases "length (g_tasks (y_sched y)) < 10000")
    case True
    have "counted (owners y + M) f = Some (fb_refs b)" using r b by (simp add: refs_of_def flip: r)
    then have "counted (add_mset f (owners y + M)) = (refs_of (y_heap y))(f \<mapsto> Suc (fb_refs b))"
      unfolding r by (rule counted_copy)
    then show ?thesis
      using True b by (simp add: refs_ok_def handed_def Let_def owners_def mains_def sys_bag_def)
  next
    case False
    then show ?thesis
      using r b refs_of_keep [of "y_heap y" f b "b\<lparr>fb_state := DESTROY\<rparr>"]
      by (simp add: refs_ok_def handed_def Let_def owners_def mains_def)
  qed
qed

lemma handed_settled: "waiting y f \<Longrightarrow> settled (handed us f y) f"
  by (erule waitingE) (auto simp: settled_def handed_heap handed_bag fiber_in_def)

lemma handed_waiting: "waiting y g \<Longrightarrow> g \<noteq> f \<Longrightarrow> waiting (handed us f y) g"
  by (simp add: waiting_def handed_other)

lemma settled_handed:
  assumes "settled y g" and "g \<noteq> f"
  shows "settled (handed us f y) g"
proof (cases "y_heap y f")
  case (Some b)
  then show ?thesis
    using assms by (auto simp: settled_def handed_other handed_bag split: option.splits)
qed (use assms in \<open>simp add: handed_def\<close>)

lemma on_main_handed:
  assumes "on_main (view t y)" and "waiting y f"
  shows "on_main (view t (handed us f y))"
proof (rule on_main_frame [OF assms(1)])
  fix m assume "main_fiber t = Some m"
  then show "y_heap (handed us f y) m = y_heap y m"
    using assms main_id [of t y m]
    by (intro handed_other) (auto simp: on_main_def fiber_in_def elim!: waitingE)
qed

text \<open>\<open>triggerEvent\<close> hands the fiber over.\<close>

lemma trigger_eq:
  assumes "on_main (view t y)" and "waiting y f" and "\<not> g_stop (y_sched y)" and "gs 0 = y_sched y"
    and "fc_events c AND ev \<noteq> 0" and "ev \<in> {READ_EV, WRITE_EV}"
    and "ec_scheduler (slot ev c) = Some 0" and "ec_fiber (slot ev c) = Some f"
  shows "triggerEvent us ev c gs (view t y) = Inr
    (setContext ev ((slot ev c)\<lparr>ec_scheduler := None\<rparr>) (c\<lparr>fc_events := fc_events c AND NOT ev\<rparr>),
     gs(0 := y_sched (handed us f y)), view t (handed us f y))"
proof -
  obtain b where b: "y_heap y f = Some b" "fiber_in INIT b" "fb_refs b = 1" using assms(2) by (rule waitingE)
  note fi = fiber_in_state [OF b(2)]
  let ?b = "b\<lparr>fb_refs := Suc 1\<rparr>" and ?t = "Task_ctor f (-1) 5 us"
  let ?s = "store f ?b (view t y)"
  have cp: "Fiber_copy f (view t y) = Inr ?s" using b by (simp add: Fiber_copy_def deref_Some)
  have on: "on_main ?s" using on_main_store [OF assms(1), of f b ?b] b fi by simp
  have "Scheduler_submit ?t (y_sched y) ?s = Inr (y_sched (handed us f y), view t (handed us f y))"
  proof (cases "length (g_tasks (y_sched y)) < 10000")
    case True
    then show ?thesis
      using submit_open(1) [OF assms(3) True, of ?t ?s] b
      by (simp add: handed_def Let_def view_def store_def)
  next
    case False
    have e: "(y_heap y)(f \<mapsto> b\<lparr>fb_state := DESTROY, fb_refs := Suc 0\<rparr>) =
        (y_heap y)(f \<mapsto> b\<lparr>fb_state := DESTROY\<rparr>)"
      using b(3) by (cases b) simp
    show ?thesis
      using submit_open(2) [OF assms(3) False on, of ?t ?b] b fi False e
      by (simp add: handed_def Let_def view_def store_def let_go_def)
  qed
  then show ?thesis
    using cp assms(4-8) getContext_slot [OF assms(6)]
    by (simp add: triggerEvent_def Let_def Scheduler_submit_fiber_def)
qed

text \<open>
  Handing over several fibers: the first ones become tasks, in order, as long as there is room;
  the others are ended.
\<close>

lemma fold_handed_other: "g \<notin> set fs \<Longrightarrow> y_heap (fold (handed us) fs y) g = y_heap y g"
  by (induction fs arbitrary: y) (simp_all add: handed_other)

lemma handed_tasks: "y_heap y f \<noteq> None \<Longrightarrow> g_tasks (y_sched (handed us f y)) =
    g_tasks (y_sched y) @ (if length (g_tasks (y_sched y)) < 10000 then [Task_ctor f (-1) 5 us] else [])"
  by (auto simp: handed_def Let_def)

lemma fold_handed_exact:
  assumes "distinct fs" and "\<forall>f \<in> set fs. y_heap y f \<noteq> None"
    and "n = min (length fs) (10000 - length (g_tasks (y_sched y)))"
  shows "g_tasks (y_sched (fold (handed us) fs y)) =
      g_tasks (y_sched y) @ map (\<lambda>f. Task_ctor f (-1) 5 us) (take n fs) \<and>
    (\<forall>f \<in> set (drop n fs). \<exists>b. y_heap (fold (handed us) fs y) f = Some b \<and> fb_state b = DESTROY)"
  using assms
proof (induction fs arbitrary: y n)
  case (Cons f fs)
  let ?y = "handed us f y" and ?r = "length (g_tasks (y_sched y)) < 10000"
  define n' where "n' = min (length fs) (10000 - length (g_tasks (y_sched ?y)))"
  obtain b where b: "y_heap y f = Some b" using Cons.prems(2) by auto
  have t: "g_tasks (y_sched ?y) = g_tasks (y_sched y) @ (if ?r then [Task_ctor f (-1) 5 us] else [])"
    by (rule handed_tasks) (simp add: b)
  have "\<forall>g \<in> set fs. y_heap ?y g \<noteq> None" using Cons.prems(2) b by (simp add: handed_heap)
  note IH = Cons.IH [OF _ this n'_def]
  have n: "n = (if ?r then Suc n' else 0)" "\<not> ?r \<Longrightarrow> n' = 0"
    using Cons.prems(3) by (auto simp: n'_def t)
  have "y_heap (fold (handed us) (f # fs) y) f = y_heap ?y f"
    using Cons.prems(1) by (simp add: fold_handed_other)
  then show ?case using IH Cons.prems(1) n t b by (auto simp: handed_heap)
qed simp

section \<open>The fibers of the contexts\<close>

text \<open>What the contexts of the vector have of \<open>q\<close>, all together.\<close>

definition over :: "(fdctx \<Rightarrow> ptr multiset) \<Rightarrow> iom \<Rightarrow> ptr multiset" where
  "over q m = (\<Sum>p \<leftarrow> im_ctxs m. case im_heap m p of None \<Rightarrow> {#} | Some c \<Rightarrow> q c)"

text \<open>The fibers of the registered events.\<close>

definition slot_wait :: "evset \<Rightarrow> fdctx \<Rightarrow> ptr multiset" where
  "slot_wait ev c = (if fc_events c AND ev \<noteq> 0 then opt_mset (ec_fiber (slot ev c)) else {#})"

definition wait_fibers :: "fdctx \<Rightarrow> ptr multiset" where
  "wait_fibers c = slot_wait WRITE_EV c + slot_wait READ_EV c"

definition waits :: "iom \<Rightarrow> ptr multiset" where
  "waits m = over wait_fibers m"

lemma held_over: "held m = over ctx_fibers m"
  by (simp add: held_def over_def fibers_at_def)

lemma over_cong:
  "im_ctxs m' = im_ctxs m \<Longrightarrow> im_heap m' = im_heap m \<Longrightarrow> over q m' = over q m"
  by (simp add: over_def)

lemma over_mono: "(\<And>c. q c \<subseteq># r c) \<Longrightarrow> over q m \<subseteq># over r m"
proof -
  assume q: "\<And>c. q c \<subseteq># r c"
  have "(\<Sum>p \<leftarrow> ps. case im_heap m p of None \<Rightarrow> {#} | Some c \<Rightarrow> q c) \<subseteq>#
      (\<Sum>p \<leftarrow> ps. case im_heap m p of None \<Rightarrow> {#} | Some c \<Rightarrow> r c)" for ps
    using q by (induction ps) (auto intro: subset_mset.add_mono split: option.split)
  then show ?thesis by (simp add: over_def)
qed

lemma waits_held: "waits m \<subseteq># held m"
  unfolding waits_def held_over wait_fibers_def ctx_fibers_def
  by (intro over_mono subset_mset.add_mono) (simp_all add: slot_wait_def slot_def ev_defs)

lemma over_in: "p \<in> set (im_ctxs m) \<Longrightarrow> im_heap m p = Some c \<Longrightarrow> f \<in># q c \<Longrightarrow> f \<in># over q m"
  by (auto simp: over_def in_sum_mset intro!: bexI [of _ p])

text \<open>Changing one context.\<close>

lemma over_put:
  assumes "distinct (im_ctxs m)" and "p \<in> set (im_ctxs m)" and "im_heap m p = Some c"
    and "im_ctxs m' = im_ctxs m" and "im_heap m' = (im_heap m)(p \<mapsto> c')"
  shows "over q m' + q c = over q m + q c'"
proof -
  define g where "g x = (case im_heap m x of None \<Rightarrow> {#} | Some c \<Rightarrow> q c)" for x
  have "sum_list (map (\<lambda>x. if x = p then a else g x) ps) + g p = sum_list (map g ps) + a"
    if "distinct ps" "p \<in> set ps" for ps a
    using that
  proof (induction ps)
    case (Cons x ps)
    show ?case
    proof (cases "x = p")
      case True
      then have "map (\<lambda>x. if x = p then a else g x) ps = map g ps"
        using Cons.prems(1) by (intro map_cong refl) auto
      then have "sum_list (map (\<lambda>x. if x = p then a else g x) ps) = sum_list (map g ps)"
        by (rule arg_cong)
      then show ?thesis using True by simp
    qed (use Cons in simp)
  qed simp
  moreover have "over q m = sum_list (map g (im_ctxs m))" by (simp add: over_def g_def [abs_def])
  moreover have "over q m' = sum_list (map (\<lambda>x. if x = p then q c' else g x) (im_ctxs m))"
    unfolding over_def assms(4,5)
    by (intro arg_cong [of _ _ sum_list] map_cong refl) (simp add: g_def)
  moreover have "g p = q c" by (simp add: g_def assms(3))
  ultimately show ?thesis using assms(1,2) by metis
qed

section \<open>The invariant of a manager with its scheduler\<close>

text \<open>Every event context that is in use points to the scheduler that the manager is.\<close>

definition own_sched :: "fdctx \<Rightarrow> bool" where
  "own_sched c = (ec_scheduler (fc_read c) \<in> {None, Some 0} \<and> ec_scheduler (fc_write c) \<in> {None, Some 0})"

definition ctxs_own :: "iom \<Rightarrow> bool" where
  "ctxs_own m = (\<forall>p \<in> set (im_ctxs m). \<forall>c. im_heap m p = Some c \<longrightarrow> own_sched c)"

text \<open>
  The invariant that triggers keep; the kernel's list is told of them before, so that it is not
  part of it. Fibers of registered events wait, the fibers that contexts keep after that are
  settled; there are such fibers only after the client's thread has got its main fiber; and a
  scheduler that has been told to stop has no event left to trigger.
\<close>

definition joint :: "iom \<Rightarrow> 'r sys \<Rightarrow> bool" where
  "joint m y = (sys_inv y \<and> iom_core m \<and> ctxs_own m \<and> im_scheds m 0 = y_sched y \<and>
     refs_ok (held m) y \<and> (\<forall>f \<in># waits m. waiting y f) \<and>
     (\<forall>f \<in># held m. f \<in># waits m \<or> settled y f) \<and>
     (held m \<noteq> {#} \<longrightarrow> this_fiber (y_caller y) \<noteq> None) \<and> (g_stop (y_sched y) \<longrightarrow> waits m = {#}))"

lemma jointD:
  assumes "joint m y"
  shows "sys_inv y" "iom_core m" "ctxs_own m" "im_scheds m 0 = y_sched y" "refs_ok (held m) y"
    "f \<in># waits m \<Longrightarrow> waiting y f" "f \<in># held m \<Longrightarrow> f \<in># waits m \<or> settled y f"
    "held m \<noteq> {#} \<Longrightarrow> this_fiber (y_caller y) \<noteq> None" "g_stop (y_sched y) \<Longrightarrow> waits m = {#}"
  using assms by (auto simp: joint_def)

lemma waits_once:
  assumes "joint m y" and "f \<in># waits m"
  shows "f \<notin># owners y" and "count (held m) f = 1"
  using waiting_owner [OF jointD(5) [OF assms(1)] jointD(6) [OF assms] mset_subset_eqD [OF waits_held assms(2)]]
  by simp_all

section \<open>Triggers\<close>

text \<open>A registered event of a context: what \<open>triggerEvent\<close> finds and leaves.\<close>

definition cleared :: "evset \<Rightarrow> fdctx \<Rightarrow> fdctx" where
  "cleared ev c = setContext ev ((slot ev c)\<lparr>ec_scheduler := None\<rparr>)
     (c\<lparr>fc_events := fc_events c AND NOT ev\<rparr>)"

lemma cleared_ctx:
  assumes "ev \<in> {READ_EV, WRITE_EV}" and "fc_events c \<in> {0, 1, 4, 5}" and "fc_events c AND ev \<noteq> 0"
    and "ec_fiber (slot ev c) = Some f"
  shows "ctx_fibers (cleared ev c) = ctx_fibers c" and "wait_fibers c = add_mset f (wait_fibers (cleared ev c))"
    and "own_sched c \<Longrightarrow> own_sched (cleared ev c)"
  using ev_cases [OF assms(2,1)] assms(3,4)
  by (auto simp: cleared_def ctx_fibers_def wait_fibers_def slot_wait_def slot_def setContext_def
      own_sched_def ev_defs)

lemma registered_slot:
  assumes "joint m y" and "p \<in> set (im_ctxs m)" and "im_heap m p = Some c"
    and "ev \<in> {READ_EV, WRITE_EV}" and "fc_events c AND ev \<noteq> 0"
  obtains f i where "ec_fiber (slot ev c) = Some f" and "ec_scheduler (slot ev c) = Some 0"
    and "f \<in># waits m" and "i < length (im_ctxs m)" and "p = im_ctxs m ! i" and "fdctx_ok (int i) c"
proof -
  obtain i where i: "i < length (im_ctxs m)" "p = im_ctxs m ! i" using assms(2) by (auto simp: in_set_conv_nth)
  have ok: "fdctx_ok (int i) c" using core_ctx [OF jointD(2) [OF assms(1)] i(1)] assms(3) i(2) by simp
  then obtain f where f: "ec_fiber (slot ev c) = Some f" "ec_scheduler (slot ev c) \<noteq> None"
    using assms(4,5) by (auto simp: fdctx_ok_def slot_ok_def slot_def ev_defs)
  have "ec_scheduler (slot ev c) = Some 0"
    using f(2) jointD(3) [OF assms(1)] assms(2,3) by (auto simp: ctxs_own_def own_sched_def slot_def)
  moreover have "f \<in># wait_fibers c"
    using f(1) assms(4,5) by (auto simp: wait_fibers_def slot_wait_def)
  then have "f \<in># waits m" unfolding waits_def by (rule over_in [OF assms(2,3)])
  ultimately show thesis using f(1) i ok that by blast
qed

text \<open>
  A trigger in a good state succeeds: it hands the fiber of the event over and keeps the
  invariant.
\<close>

lemma trigger_joint:
  assumes j: "joint m y" and p: "p \<in> set (im_ctxs m)" and c: "im_heap m p = Some c"
    and ev: "ev \<in> {READ_EV, WRITE_EV}" and bit: "fc_events c AND ev \<noteq> 0" and on: "on_main (view t y)"
  obtains f m' where "ec_fiber (slot ev c) = Some f"
    and "trigger_if us True ev p m (view t y) = Inr (m', view t (handed us f y))"
    and "joint m' (handed us f y)" and "on_main (view t (handed us f y))"
    and "im_ctxs m' = im_ctxs m" and "im_heap m' = (im_heap m)(p \<mapsto> cleared ev c)"
    and "im_epoll m' = im_epoll m" and "im_stopping m' = im_stopping m" and "waits m = add_mset f (waits m')"
proof -
  obtain f i where f: "ec_fiber (slot ev c) = Some f" "ec_scheduler (slot ev c) = Some 0" "f \<in># waits m"
    and i: "i < length (im_ctxs m)" "p = im_ctxs m ! i" "fdctx_ok (int i) c"
    by (rule registered_slot [OF j p c ev bit])
  let ?y = "handed us f y"
  define m' where "m' = put_ctx p (cleared ev c)
    (m\<lparr>im_scheds := (im_scheds m)(0 := y_sched ?y), im_pending := im_pending m - 1\<rparr>)"
  note J = jointD [OF j]
  have w: "waiting y f" by (rule J(6) [OF f(3)])
  have held_f: "held m \<noteq> {#}" using waits_held [of m] f(3) by auto
  note once = waits_once [OF j f(3)]
  have run: "\<not> g_stop (y_sched y)" using J(9) f(3) by auto
  have r: "trigger_if us True ev p m (view t y) = Inr (m', view t ?y)"
    using trigger_eq [OF on w run, of "im_scheds m" c ev us] J(4) bit ev f(1,2) c
    by (simp add: trigger_if_def m'_def cleared_def)
  have m': "im_ctxs m' = im_ctxs m" "im_heap m' = (im_heap m)(p \<mapsto> cleared ev c)"
    "im_epoll m' = im_epoll m" "im_stopping m' = im_stopping m" "im_scheds m' 0 = y_sched ?y"
    by (simp_all add: m'_def)
  have e: "fc_events c \<in> {0, 1, 4, 5}" using i(3) by (simp add: fdctx_ok_def)
  note cl = cleared_ctx [OF ev e bit f(1)]
  have d: "distinct (im_ctxs m)" using J(2) by (simp add: iom_core_def)
  note put = over_put [OF d p c m'(1,2)]
  have held: "held m' = held m" using put [of ctx_fibers] cl(1) by (simp add: held_over)
  have waits: "waits m = add_mset f (waits m')" using put [of wait_fibers] cl(2) by (simp add: waits_def)
  have "count (waits m) f \<le> 1" using once(2) waits_held [of m] by (metis mset_subset_eq_count)
  then have nf: "f \<notin># waits m'" by (simp add: waits not_in_iff)
  have "sys_inv ?y"
    by (rule handed_inv [OF J(1) w _ J(8) [OF held_f]]) (use once(1) in \<open>simp add: owners_def\<close>)
  moreover have "iom_core m'" using trigger_if_ok [OF J(2) i(1,2) ev r] by simp
  moreover have "ctxs_own m'"
    using J(3) cl(3) p c by (auto simp: ctxs_own_def m'(1,2))
  moreover have "refs_ok (held m') ?y" unfolding held by (rule handed_refs [OF J(5) w])
  moreover have "waiting ?y g" if "g \<in># waits m'" for g
    by (rule handed_waiting) (use that nf J(6) [of g] in \<open>auto simp: waits\<close>)
  moreover have "g \<in># waits m' \<or> settled ?y g" if "g \<in># held m'" for g
    using handed_settled [OF w, of us] settled_handed [of y g f us] J(7) [of g] that
    by (cases "g = f") (auto simp: waits held)
  ultimately have "joint m' ?y" using J(8) run by (simp add: joint_def m'(5) held)
  then show thesis using that f(1) r on_main_handed [OF on w] m'(1-4) waits by blast
qed

lemma joint_cong:
  assumes "im_ctxs m' = im_ctxs m" and "im_heap m' = im_heap m" and "im_next m' = im_next m"
    and "im_pending m' = im_pending m" and "im_scheds m' = im_scheds m"
  shows "joint m' y = joint m y"
proof -
  have "held m' = held m" "waits m' = waits m"
    by (simp_all add: held_over waits_def over_cong [OF assms(1,2)])
  then show ?thesis by (simp add: joint_def core_cong [OF assms(1-4)] ctxs_own_def assms(1,2,5))
qed

lemma waits_epoll [simp]: "waits (epoll_ctl rt op fd e m) = waits m"
  by (simp add: waits_def over_def)

definition opt_list :: "'a option \<Rightarrow> 'a list" where
  "opt_list p = (case p of None \<Rightarrow> [] | Some a \<Rightarrow> [a])"

lemma opt_list_simps [simp]: "opt_list None = []" "opt_list (Some a) = [a]"
  by (simp_all add: opt_list_def)

text \<open>The same with the guard of the callers.\<close>

lemma trigger_if_joint:
  assumes j: "joint m y" and p: "p \<in> set (im_ctxs m)" and c: "im_heap m p = Some c"
    and ev: "ev \<in> {READ_EV, WRITE_EV}" and bit: "cond \<Longrightarrow> fc_events c AND ev \<noteq> 0" and on: "on_main (view t y)"
    and y': "y' = fold (handed us) (if cond then opt_list (ec_fiber (slot ev c)) else []) y"
  obtains m' where "trigger_if us cond ev p m (view t y) = Inr (m', view t y')"
    and "joint m' y'" and "on_main (view t y')" and "im_ctxs m' = im_ctxs m"
    and "im_heap m' = (im_heap m)(p \<mapsto> (if cond then cleared ev c else c))"
    and "im_epoll m' = im_epoll m" and "im_stopping m' = im_stopping m"
    and "waits m = mset (if cond then opt_list (ec_fiber (slot ev c)) else []) + waits m'"
proof (cases cond)
  case True
  obtain f m' where "ec_fiber (slot ev c) = Some f"
    "trigger_if us True ev p m (view t y) = Inr (m', view t (handed us f y))"
    "joint m' (handed us f y)" "on_main (view t (handed us f y))" "im_ctxs m' = im_ctxs m"
    "im_heap m' = (im_heap m)(p \<mapsto> cleared ev c)" "im_epoll m' = im_epoll m"
    "im_stopping m' = im_stopping m" "waits m = add_mset f (waits m')"
    by (rule trigger_joint [OF j p c ev bit [OF True] on])
  then show thesis using that [of m'] True y' by simp
next
  case False
  then show thesis using that [of m] y' j on c by (simp add: trigger_if_def map_upd_triv)
qed

text \<open>The fibers of the events \<open>re\<close> of a context, \<open>READ\<close> before \<open>WRITE\<close>.\<close>

definition fired :: "evset \<Rightarrow> fdctx \<Rightarrow> ptr list" where
  "fired re c = (if re AND READ_EV \<noteq> 0 then opt_list (ec_fiber (slot READ_EV c)) else []) @
     (if re AND WRITE_EV \<noteq> 0 then opt_list (ec_fiber (slot WRITE_EV c)) else [])"

lemma cleared_read:
  assumes "fc_events c \<in> {0, 1, 4, 5}"
  shows "fc_events (cleared READ_EV c) AND WRITE_EV = fc_events c AND WRITE_EV"
    "slot WRITE_EV (cleared READ_EV c) = slot WRITE_EV c"
  using assms by (auto simp: cleared_def setContext_def slot_def ev_defs)

lemma trigger_both_joint:
  fixes y :: "'r sys"
  assumes j: "joint m y" and p: "p \<in> set (im_ctxs m)" and c: "im_heap m p = Some c"
    and on: "on_main (view t y)"
    and bits: "re AND READ_EV \<noteq> 0 \<Longrightarrow> fc_events c AND READ_EV \<noteq> 0"
      "re AND WRITE_EV \<noteq> 0 \<Longrightarrow> fc_events c AND WRITE_EV \<noteq> 0"
    and y': "y' = fold (handed us) (fired re c) y"
  obtains m2 and y2 :: "'r sys" and m' where "trigger_if us (re AND READ_EV \<noteq> 0) READ_EV p m (view t y) = Inr (m2, view t y2)"
    and "trigger_if us (re AND WRITE_EV \<noteq> 0) WRITE_EV p m2 (view t y2) = Inr (m', view t y')"
    and "joint m' y'" and "on_main (view t y')" and "im_ctxs m' = im_ctxs m"
    and "\<And>q. q \<noteq> p \<Longrightarrow> im_heap m' q = im_heap m q"
    and "im_epoll m' = im_epoll m" and "im_stopping m' = im_stopping m"
    and "waits m = mset (fired re c) + waits m'"
    and "events_at p m2 AND WRITE_EV = fc_events c AND WRITE_EV"
    and "events_at p m' = (if re AND WRITE_EV \<noteq> 0
      then (if re AND READ_EV \<noteq> 0 then fc_events c AND NOT READ_EV else fc_events c) AND NOT WRITE_EV
      else if re AND READ_EV \<noteq> 0 then fc_events c AND NOT READ_EV else fc_events c)"
proof -
  let ?c1 = "re AND READ_EV \<noteq> 0" and ?c2 = "re AND WRITE_EV \<noteq> 0"
  define c' where "c' = (if ?c1 then cleared READ_EV c else c)"
  obtain i where i: "i < length (im_ctxs m)" "p = im_ctxs m ! i" using p by (auto simp: in_set_conv_nth)
  have "fdctx_ok (int i) c" using core_ctx [OF jointD(2) [OF j] i(1)] c i(2) by simp
  then have e: "fc_events c \<in> {0, 1, 4, 5}" by (simp add: fdctx_ok_def)
  obtain m2 y2 where 2: "trigger_if us ?c1 READ_EV p m (view t y) = Inr (m2, view t y2)"
    "joint m2 y2" "on_main (view t y2)" "im_ctxs m2 = im_ctxs m" "im_heap m2 = (im_heap m)(p \<mapsto> c')"
    "im_epoll m2 = im_epoll m" "im_stopping m2 = im_stopping m"
    "waits m = mset (if ?c1 then opt_list (ec_fiber (slot READ_EV c)) else []) + waits m2"
    and y2: "y2 = fold (handed us) (if ?c1 then opt_list (ec_fiber (slot READ_EV c)) else []) y"
    unfolding c'_def by (rule trigger_if_joint [OF j p c ev_sets(1) bits(1) on refl]) auto
  have p2: "p \<in> set (im_ctxs m2)" "im_heap m2 p = Some c'" using p 2(4,5) by simp_all
  have s: "slot WRITE_EV c' = slot WRITE_EV c" "fc_events c' AND WRITE_EV = fc_events c AND WRITE_EV"
    using cleared_read [OF e] by (simp_all add: c'_def)
  have y'': "y' = fold (handed us) (if ?c2 then opt_list (ec_fiber (slot WRITE_EV c')) else []) y2"
    unfolding y' y2 s(1) by (simp add: fired_def)
  have b: "fc_events c' AND WRITE_EV \<noteq> 0" if ?c2 using bits(2) that s(2) by simp
  obtain m' where m': "trigger_if us ?c2 WRITE_EV p m2 (view t y2) = Inr (m', view t y')"
    "joint m' y'" "on_main (view t y')" "im_ctxs m' = im_ctxs m2"
    "im_heap m' = (im_heap m2)(p \<mapsto> (if ?c2 then cleared WRITE_EV c' else c'))"
    "im_epoll m' = im_epoll m2" "im_stopping m' = im_stopping m2"
    "waits m2 = mset (if ?c2 then opt_list (ec_fiber (slot WRITE_EV c')) else []) + waits m'"
    by (rule trigger_if_joint [OF 2(2) p2 ev_sets(2) b 2(3) y''])
  have "waits m = mset (fired re c) + waits m'"
    unfolding 2(8) m'(8) s(1) by (simp add: fired_def)
  then show thesis
    by (intro that [OF 2(1) m'(1-3)])
      (use 2(4-7) m'(4-7) s(2) in \<open>auto simp: events_at_def c'_def cleared_def\<close>)
qed

section \<open>Reported events\<close>

text \<open>
  What the kernel reports of \<open>EPOLLIN\<close> and \<open>EPOLLOUT\<close> is registered.
\<close>

definition report_true :: "evset \<Rightarrow> evset \<Rightarrow> bool" where
  "report_true evs e = (evs AND (EPOLLIN OR EPOLLOUT) AND NOT e = 0)"

lemma report_bits:
  assumes "evs AND 5 AND NOT e = (0 :: u32)"
  shows "evs AND 1 \<noteq> 0 \<Longrightarrow> e AND 1 \<noteq> 0" and "evs AND 4 \<noteq> 0 \<Longrightarrow> e AND 4 \<noteq> 0"
proof -
  have b: "\<not> (bit evs n \<and> bit (5 :: u32) n \<and> \<not> bit e n)" if "n < 32" for n
  proof -
    have "\<not> bit (evs AND 5 AND NOT e) n" by (simp only: assms bit_0_eq) simp
    then show ?thesis using that by (simp add: bit_simps)
  qed
  have p: "x AND 1 \<noteq> 0 \<longleftrightarrow> bit x 0" "x AND 4 \<noteq> 0 \<longleftrightarrow> bit x 2" for x :: u32
    using and_exp_eq_0_iff_not_bit [of x 0] and_exp_eq_0_iff_not_bit [of x 2] by simp_all
  show "e AND 1 \<noteq> 0" if "evs AND 1 \<noteq> 0" using that b [of 0] unfolding p by simp
  show "e AND 4 \<noteq> 0" if "evs AND 4 \<noteq> 0" using that b [of 2] unfolding p by simp
qed

lemma real_events_true:
  assumes "report_true evs e" and "e \<in> {0, 1, 4, 5}"
  shows "real_events evs e AND READ_EV \<noteq> 0 \<Longrightarrow> e AND READ_EV \<noteq> 0"
    and "real_events evs e AND WRITE_EV \<noteq> 0 \<Longrightarrow> e AND WRITE_EV \<noteq> 0"
proof -
  note r = report_bits [of evs e]
  have *: "evs AND 5 AND NOT e = 0" using assms(1) by (simp add: report_true_def ev_defs)
  have d: "(x OR y) AND z \<noteq> 0 \<longleftrightarrow> x AND z \<noteq> 0 \<or> y AND z \<noteq> 0" for x y z :: u32
    by (simp add: bit.conj_disj_distrib2 or_eq_0_iff)
  show "e AND READ_EV \<noteq> 0" if "real_events evs e AND READ_EV \<noteq> 0"
    using that r [OF *] assms(2) by (auto simp: real_events_def Let_def ev_defs d split: if_splits)
  show "e AND WRITE_EV \<noteq> 0" if "real_events evs e AND WRITE_EV \<noteq> 0"
    using that r [OF *] assms(2) by (auto simp: real_events_def Let_def ev_defs d split: if_splits)
qed

text \<open>The fibers that one report hands over; \<open>rt\<close> is the answer of \<open>epoll_ctl\<close>.\<close>

definition reported :: "iom \<Rightarrow> int \<times> ptr \<times> evset \<Rightarrow> ptr list" where
  "reported m r = (case r of (rt, p, evs) \<Rightarrow> if rt \<noteq> 0 then []
     else (case im_heap m p of None \<Rightarrow> [] | Some c \<Rightarrow> fired (real_events evs (fc_events c)) c))"

lemma idle_event_joint:
  fixes y :: "'r sys"
  assumes j: "joint m y" and p: "p \<in> set (im_ctxs m)" and on: "on_main (view t y)"
    and k: "report_true evs (events_at p m)"
    and y': "y' = fold (handed us) (reported m (rt, p, evs)) y"
  obtains m' where "idle_event rt us p evs m (view t y) = Inr (m', view t y')"
    and "joint m' y'" and "on_main (view t y')" and "im_ctxs m' = im_ctxs m"
    and "\<And>q. q \<noteq> p \<Longrightarrow> im_heap m' q = im_heap m q" and "im_stopping m' = im_stopping m"
    and "waits m = mset (reported m (rt, p, evs)) + waits m'"
proof -
  obtain i where i: "i < length (im_ctxs m)" "p = im_ctxs m ! i" using p by (auto simp: in_set_conv_nth)
  obtain c where c: "im_heap m p = Some c" "fdctx_ok (int i) c"
    using jointD(2) [OF j] i by (fastforce simp: iom_core_def split: option.splits)
  have e: "fc_events c \<in> {0, 1, 4, 5}" using c(2) by (simp add: fdctx_ok_def)
  define re where "re = real_events evs (fc_events c)"
  note eq = idle_event_eq [OF c(1), of rt us evs "view t y", folded re_def]
  have "report_true evs (fc_events c)" using k c(1) by (simp add: events_at_def)
  then have b: "re AND READ_EV \<noteq> 0 \<Longrightarrow> fc_events c AND READ_EV \<noteq> 0"
    "re AND WRITE_EV \<noteq> 0 \<Longrightarrow> fc_events c AND WRITE_EV \<noteq> 0"
    using real_events_true [OF _ e, of evs] by (simp_all add: re_def)
  consider "rt \<noteq> 0" | "rt = 0" "fc_events c AND re = NONE" | "rt = 0" "fc_events c AND re \<noteq> NONE"
    by blast
  then show thesis
  proof cases
    case 1
    then show thesis using that [of m] j on y' eq by (simp add: reported_def Let_def)
  next
    case 2
    have "fired re c = []"
      using 2(2) b real_events_cases [of evs "fc_events c"] e
      by (auto simp: fired_def ev_defs re_def [symmetric])
    then show thesis
      using that [of m] j on y' eq 2 c(1) by (simp add: reported_def re_def [symmetric] Let_def)
  next
    case 3
    let ?e = "fc_events c AND NOT re"
    let ?m = "epoll_ctl 0 (clear_op ?e) (fc_fd c) (EPOLLET OR ?e) m"
    have j1: "joint ?m y" using j joint_cong [of ?m m y] by simp
    have y1: "y' = fold (handed us) (fired re c) y" using y' 3(1) c(1) by (simp add: reported_def re_def)
    have p1: "p \<in> set (im_ctxs ?m)" "im_heap ?m p = Some c" using p c(1) by simp_all
    obtain m2 and y2 :: "'r sys" and m' where r: "trigger_if us (re AND READ_EV \<noteq> 0) READ_EV p ?m (view t y) = Inr (m2, view t y2)"
      "trigger_if us (re AND WRITE_EV \<noteq> 0) WRITE_EV p m2 (view t y2) = Inr (m', view t y')"
      and m': "joint m' y'" "on_main (view t y')" "im_ctxs m' = im_ctxs ?m"
      "\<And>q. q \<noteq> p \<Longrightarrow> im_heap m' q = im_heap ?m q" "im_stopping m' = im_stopping ?m"
      "waits ?m = mset (fired re c) + waits m'"
      by (rule trigger_both_joint [OF j1 p1 on b y1]) blast+
    have "idle_event rt us p evs m (view t y) = Inr (m', view t y')"
      unfolding eq using 3 r by (simp add: Let_def)
    then show thesis using that m' 3(1) c(1) by (simp add: reported_def re_def)
  qed
qed

lemma idle_events_joint:
  fixes y :: "'r sys"
  assumes "joint m y" and "on_main (view t y)" and "distinct (map (\<lambda>(rt, p, evs). p) es)"
    and "\<forall>(rt, p, evs) \<in> set es. p \<in> set (im_ctxs m) \<and> report_true evs (events_at p m)"
    and "y' = fold (handed us) (concat (map (reported m) es)) y"
  shows "\<exists>m'. idle_events us es m (view t y) = Inr (m', view t y') \<and> joint m' y' \<and>
    on_main (view t y') \<and> im_ctxs m' = im_ctxs m \<and> im_stopping m' = im_stopping m \<and>
    waits m = mset (concat (map (reported m) es)) + waits m'"
  using assms
proof (induction es arbitrary: m y)
  case (Cons e es)
  obtain rt p evs where e: "e = (rt, p, evs)" by (cases e) auto
  have p: "p \<in> set (im_ctxs m)" "report_true evs (events_at p m)" using Cons.prems(4) e by auto
  let ?y = "fold (handed us) (reported m (rt, p, evs)) y"
  obtain m1 where m1: "idle_event rt us p evs m (view t y) = Inr (m1, view t ?y)" "joint m1 ?y"
    "on_main (view t ?y)" "im_ctxs m1 = im_ctxs m" "\<And>q. q \<noteq> p \<Longrightarrow> im_heap m1 q = im_heap m q"
    "im_stopping m1 = im_stopping m" "waits m = mset (reported m (rt, p, evs)) + waits m1"
    by (rule idle_event_joint [OF Cons.prems(1) p(1) Cons.prems(2) p(2) refl]) blast
  have np: "q \<noteq> p" if "(rt', q, evs') \<in> set es" for rt' q evs'
    using Cons.prems(3) that e by force
  have rep: "map (reported m1) es = map (reported m) es"
    using np m1(5) by (intro map_cong refl) (auto simp: reported_def split: option.splits)
  have "\<forall>(rt, p, evs) \<in> set es. p \<in> set (im_ctxs m1) \<and> report_true evs (events_at p m1)"
    using Cons.prems(4) np m1(4,5) by (fastforce simp: events_at_def)
  moreover have "y' = fold (handed us) (concat (map (reported m1) es)) ?y"
    using Cons.prems(5) e unfolding rep by simp
  ultimately obtain m' where "idle_events us es m1 (view t ?y) = Inr (m', view t y') \<and> joint m' y' \<and>
    on_main (view t y') \<and> im_ctxs m' = im_ctxs m1 \<and> im_stopping m' = im_stopping m1 \<and>
    waits m1 = mset (concat (map (reported m) es)) + waits m'"
    using Cons.IH [OF m1(2,3)] Cons.prems(3) unfolding rep by auto
  then show ?case using m1(1,4,6,7) e by simp
qed simp

section \<open>Cancelling\<close>

lemma core_ctx_at:
  assumes "iom_core m" and "0 \<le> fd" and "fd < int (length (im_ctxs m))"
  obtains c where "ctx_at fd m = Inr (im_ctxs m ! nat fd, c)" and "im_heap m (im_ctxs m ! nat fd) = Some c"
    and "im_ctxs m ! nat fd \<in> set (im_ctxs m)" and "fdctx_ok fd c"
proof -
  have "nat fd < length (im_ctxs m)" using assms(2,3) by linarith
  then show thesis
    using that assms by (fastforce simp: ctx_at_def Let_def iom_core_def split: option.splits)
qed

text \<open>The fibers that \<open>cancelEvent\<close> and \<open>cancelAll\<close> hand over.\<close>

definition cancelled :: "int \<Rightarrow> int \<Rightarrow> evset \<Rightarrow> iom \<Rightarrow> ptr list" where
  "cancelled rt fd ev m = (if rt \<noteq> 0 then [] else (case ctx_at fd m of Inl _ \<Rightarrow> []
     | Inr (p, c) \<Rightarrow> fired (fc_events c AND ev) c))"

lemma cancelEvent_trigger:
  assumes "fd < int (length (im_ctxs m))" and "ctx_at fd m = Inr (p, c)" and "fc_events c AND ev \<noteq> 0"
  shows "cancelEvent 0 us fd ev m s = bindR (trigger_if us True ev p (epoll_ctl 0
      (clear_op (fc_events c AND NOT ev)) fd (EPOLLET OR fc_events c AND NOT ev) m) s)
      (\<lambda>(m', s'). Inr (True, m', s'))"
  using assms ctx_atE(4) [OF assms(2)]
  by (cases "triggerEvent us ev c (im_scheds m) s")
    (auto simp: cancelEvent_def Let_def trigger_if_def clear_op_def)

lemma cancelEvent_joint:
  assumes j: "joint m y" and fd: "0 \<le> fd" and ev: "ev \<in> {READ_EV, WRITE_EV}" and on: "on_main (view t y)"
    and y': "y' = fold (handed us) (cancelled rt fd ev m) y"
  shows "\<exists>v m'. cancelEvent rt us fd ev m (view t y) = Inr (v, m', view t y') \<and> joint m' y' \<and>
    on_main (view t y') \<and> im_ctxs m' = im_ctxs m \<and> im_stopping m' = im_stopping m"
proof (cases "fd < int (length (im_ctxs m))")
  case len: True
  let ?p = "im_ctxs m ! nat fd"
  obtain c where c: "ctx_at fd m = Inr (?p, c)" "im_heap m ?p = Some c" "?p \<in> set (im_ctxs m)"
    "fdctx_ok fd c"
    by (rule core_ctx_at [OF jointD(2) [OF j] fd len])
  have e: "fc_events c \<in> {0, 1, 4, 5}" using c(4) by (simp add: fdctx_ok_def)
  have fr: "fired (fc_events c AND ev) c = (if fc_events c AND ev \<noteq> 0 then opt_list (ec_fiber (slot ev c)) else [])"
    using ev_cases [OF e ev] by (auto simp: fired_def ev_defs)
  show ?thesis
  proof (cases "rt = 0 \<and> fc_events c AND ev \<noteq> 0")
    case True
    let ?m = "epoll_ctl 0 (clear_op (fc_events c AND NOT ev)) fd (EPOLLET OR fc_events c AND NOT ev) m"
    have j1: "joint ?m y" using j joint_cong [of ?m m y] by simp
    have p1: "?p \<in> set (im_ctxs ?m)" "im_heap ?m ?p = Some c" using c by simp_all
    have y1: "y' = fold (handed us) (if True then opt_list (ec_fiber (slot ev c)) else []) y"
      using y' True c(1) fr by (simp add: cancelled_def)
    obtain m' where "trigger_if us True ev ?p ?m (view t y) = Inr (m', view t y')" "joint m' y'"
      "on_main (view t y')" "im_ctxs m' = im_ctxs ?m" "im_stopping m' = im_stopping ?m"
      by (rule trigger_if_joint [OF j1 p1 ev _ on y1]) (use True in auto)
    then show ?thesis using cancelEvent_trigger [OF len c(1), of ev us "view t y"] True by auto
  next
    case False
    then have "y' = y" using y' c(1) fr by (auto simp: cancelled_def)
    moreover have "cancelEvent rt us fd ev m (view t y) = Inr (False, m, view t y)"
      using len c(1) False by (simp add: cancelEvent_def Let_def)
    ultimately show ?thesis using j on by auto
  qed
next
  case False
  then have "y' = y" using y' by (auto simp: cancelled_def ctx_at_def)
  moreover have "cancelEvent rt us fd ev m (view t y) = Inr (False, m, view t y)"
    using False by (simp add: cancelEvent_def)
  ultimately show ?thesis using j on by auto
qed

lemma cancelAll_joint:
  fixes y :: "'r sys"
  assumes j: "joint m y" and fd: "0 \<le> fd" and on: "on_main (view t y)"
    and y': "y' = fold (handed us) (cancelled rt fd (READ_EV OR WRITE_EV) m) y"
  shows "\<exists>v m'. cancelAll rt us fd m (view t y) = Inr (v, m', view t y') \<and> joint m' y' \<and>
    on_main (view t y') \<and> im_ctxs m' = im_ctxs m \<and> im_stopping m' = im_stopping m"
proof (cases "fd < int (length (im_ctxs m))")
  case len: True
  let ?p = "im_ctxs m ! nat fd"
  obtain c where c: "ctx_at fd m = Inr (?p, c)" "im_heap m ?p = Some c" "?p \<in> set (im_ctxs m)"
    "fdctx_ok fd c"
    by (rule core_ctx_at [OF jointD(2) [OF j] fd len])
  have e: "fc_events c \<in> {0, 1, 4, 5}" using c(4) by (simp add: fdctx_ok_def)
  then have ev: "fc_events c AND (READ_EV OR WRITE_EV) = fc_events c" by (auto simp: ev_defs)
  show ?thesis
  proof (cases "rt = 0 \<and> fc_events c \<noteq> 0")
    case True
    let ?m = "epoll_ctl 0 CTL_DEL fd 0 m"
    have j1: "joint ?m y" using j joint_cong [of ?m m y] by simp
    have p1: "?p \<in> set (im_ctxs ?m)" "im_heap ?m ?p = Some c" using c by simp_all
    have y1: "y' = fold (handed us) (fired (fc_events c) c) y"
      using y' True c(1) ev by (simp add: cancelled_def)
    obtain m2 and y2 :: "'r sys" and m' where
      r: "trigger_if us (fc_events c AND READ_EV \<noteq> 0) READ_EV ?p ?m (view t y) = Inr (m2, view t y2)"
      "trigger_if us (fc_events c AND WRITE_EV \<noteq> 0) WRITE_EV ?p m2 (view t y2) = Inr (m', view t y')"
      and m': "joint m' y'" "on_main (view t y')" "im_ctxs m' = im_ctxs ?m"
      "im_stopping m' = im_stopping ?m" "events_at ?p m2 AND WRITE_EV = fc_events c AND WRITE_EV"
      "events_at ?p m' = (if fc_events c AND WRITE_EV \<noteq> 0
        then (if fc_events c AND READ_EV \<noteq> 0 then fc_events c AND NOT READ_EV else fc_events c) AND NOT WRITE_EV
        else if fc_events c AND READ_EV \<noteq> 0 then fc_events c AND NOT READ_EV else fc_events c)"
      by (rule trigger_both_joint [OF j1 p1 on _ _ y1]) blast+
    have "events_at ?p m' = 0" unfolding m'(6) using e by (auto simp: ev_defs)
    moreover have "events_at ?p m = fc_events c" using c(2) by (simp add: events_at_def)
    ultimately have "cancelAll rt us fd m (view t y) = Inr (True, m', view t y')"
      using len c(1) True r m'(5) by (simp add: cancelAll_def Let_def SYLAR_ASSERT_def)
    then show ?thesis using m'(1-4) by (intro exI [of _ True] exI [of _ m']) simp
  next
    case False
    then have "y' = y" using y' c(1) ev by (auto simp: cancelled_def fired_def)
    moreover have "cancelAll rt us fd m (view t y) = Inr (False, m, view t y)"
      using len c(1) False by (simp add: cancelAll_def Let_def)
    ultimately show ?thesis using j on by auto
  qed
next
  case False
  then have "y' = y" using y' by (auto simp: cancelled_def ctx_at_def)
  moreover have "cancelAll rt us fd m (view t y) = Inr (False, m, view t y)"
    using False by (simp add: cancelAll_def)
  ultimately show ?thesis using j on by auto
qed

end
