(* ===== verification/Joints.thy ===== *)
theory Joints
  imports Handovers
begin

text \<open>
  The scheduler and the contexts of an I/O manager together: every step of the scheduler's
  threads and every registration (\<open>IOManager::addEvent\<close>, \<open>sylar/iomanager.cpp\<close>) keeps what the
  two share: the counts of the fibers, the fibers that wait and those that have been handed over.
\<close>

unbundle bit_operations_syntax

section \<open>Steps of the scheduler\<close>

text \<open>The manager after a step of its scheduler.\<close>

definition sched_set :: "sched \<Rightarrow> iom \<Rightarrow> iom" where
  "sched_set g m = m\<lparr>im_scheds := (im_scheds m)(0 := g)\<rparr>"

lemma sched_set_simps [simp]:
  "im_ctxs (sched_set g m) = im_ctxs m" "im_heap (sched_set g m) = im_heap m"
  "im_next (sched_set g m) = im_next m" "im_pending (sched_set g m) = im_pending m"
  "im_stopping (sched_set g m) = im_stopping m" "im_epoll (sched_set g m) = im_epoll m"
  "im_scheds (sched_set g m) 0 = g" "held (sched_set g m) = held m" "waits (sched_set g m) = waits m"
  by (simp_all add: sched_set_def held_over waits_def over_def)

lemma joint_sched:
  assumes j: "joint m y" and inv: "sys_inv y'" and refs: "refs_ok (held m) y'"
    and frame: "\<And>f. f < y_next y \<Longrightarrow> f \<notin># fibers_of (sys_bag (y_sched y)) \<Longrightarrow> y_heap y' f = y_heap y f"
    and acc: "set (y_accepted y) \<subseteq> set (y_accepted y')"
    and caller: "this_fiber (y_caller y) \<noteq> None \<Longrightarrow> this_fiber (y_caller y') \<noteq> None"
    and stop: "g_stop (y_sched y') \<Longrightarrow> g_stop (y_sched y) \<or> waits m = {#}"
  shows "joint (sched_set (y_sched y') m) y'"
proof -
  note J = jointD [OF j]
  have old: "f < y_next y" if "f \<in># held m" for f
    using refs_ok_dom [OF J(5), of f] sys_invD(2) [OF J(1), of "y_caller y"] that
    by (auto simp: heap_fresh_def not_less [symmetric])
  have "waiting y' f" if f: "f \<in># waits m" for f
  proof -
    have "f \<notin># fibers_of (sys_bag (y_sched y))"
      using waits_once(1) [OF j f] by (simp add: owners_def)
    then show ?thesis
      using J(6) [OF f] frame [OF old [OF mset_subset_eqD [OF waits_held f]]] by (simp add: waiting_def)
  qed
  moreover have "settled y' f" if h: "f \<in># held m" and s: "settled y f" for f
  proof (cases "f \<in># fibers_of (sys_bag (y_sched y))")
    case True
    have "y_heap y' f \<noteq> None" using refs_ok_dom [OF refs, of f] h by simp
    then show ?thesis
      using bag_step [OF J(1) inv acc True] bag_id [OF sys_invD(3) [OF inv, of "y_caller y'"], of f]
      by (auto simp: settled_def fiber_ended_def)
  next
    case False
    then show ?thesis using frame [OF old [OF h]] s by (auto simp: settled_def split: option.splits)
  qed
  moreover have "ctxs_own (sched_set (y_sched y') m)" using J(3) by (simp add: ctxs_own_def)
  moreover have "iom_core (sched_set (y_sched y') m)"
    using J(2) core_cong [of "sched_set (y_sched y') m" m] by simp
  ultimately show ?thesis
    using inv refs caller stop J(7-9) by (auto simp: joint_def)
qed

lemma sys_step_joint:
  assumes j: "joint m y" and e: "event_ok e y" "e \<noteq> Stop" and r: "sys_step rnd e y = Inr y'"
  shows "joint (sched_set (y_sched y') m) y'"
proof (rule joint_sched [OF j])
  note J = jointD [OF j] and x = sys_step_extends [OF jointD(1) [OF j] e(1) r]
  show "sys_inv y'" using sys_step_ok [OF J(1) e(1), of rnd] r by auto
  show "refs_ok (held m) y'" by (rule sys_step_refs [OF J(1,5) e(1) r])
  show "y_heap y' f = y_heap y f" if "f < y_next y" "f \<notin># fibers_of (sys_bag (y_sched y))" for f
    by (rule sys_step_frame [OF J(1) e(1) r that])
qed (use sys_step_extends [OF jointD(1) [OF j] e(1) r] e(2) in auto)

section \<open>Registering\<close>

lemma over_fill:
  assumes "\<And>i. q (fdctx_new i) = {#}"
  shows "\<forall>p \<in> set (im_ctxs m). p < im_next m \<Longrightarrow> over q (fill_ctxs i n m) = over q m"
proof (induction i n m rule: fill_ctxs.induct)
  case (2 i n m)
  let ?m = "m\<lparr>im_ctxs := im_ctxs m @ [im_next m], im_heap := (im_heap m)(im_next m \<mapsto> fdctx_new i),
    im_next := Suc (im_next m)\<rparr>"
  have "map (\<lambda>p. case im_heap ?m p of None \<Rightarrow> {#} | Some c \<Rightarrow> q c) (im_ctxs m) =
      map (\<lambda>p. case im_heap m p of None \<Rightarrow> {#} | Some c \<Rightarrow> q c) (im_ctxs m)"
    using "2.prems" by (intro map_cong refl) auto
  then have "over q ?m = over q m" by (simp add: over_def assms del: map_eq_conv)
  moreover have "\<forall>p \<in> set (im_ctxs ?m). p < im_next ?m" using "2.prems" by auto
  ultimately show ?case using "2.IH" by simp
qed simp

lemma fill_own: "ctxs_own m \<Longrightarrow> \<forall>p \<in> set (im_ctxs m). p < im_next m \<Longrightarrow> ctxs_own (fill_ctxs i n m)"
proof (induction i n m rule: fill_ctxs.induct)
  case (2 i n m)
  let ?m = "m\<lparr>im_ctxs := im_ctxs m @ [im_next m], im_heap := (im_heap m)(im_next m \<mapsto> fdctx_new i),
    im_next := Suc (im_next m)\<rparr>"
  have "ctxs_own ?m"
    using "2.prems" by (auto simp: ctxs_own_def own_sched_def fdctx_new_def evctx_new_def)
  moreover have "\<forall>p \<in> set (im_ctxs ?m). p < im_next ?m" using "2.prems" by auto
  ultimately show ?case using "2.IH" by simp
qed simp

lemma new_ctx_empty: "ctx_fibers (fdctx_new i) = {#}" "wait_fibers (fdctx_new i) = {#}"
  by (simp_all add: ctx_fibers_def wait_fibers_def slot_wait_def slot_def fdctx_new_def evctx_new_def)

lemma add_target_joint:
  assumes "joint m y" and "iom_inv m"
  shows "joint (add_target fd m) y" and "held (add_target fd m) = held m"
proof -
  note J = jointD [OF assms(1)]
  have lt: "\<forall>p \<in> set (im_ctxs m). p < im_next m" using J(2) by (simp add: iom_core_def)
  have *: "held (add_target fd m) = held m \<and> waits (add_target fd m) = waits m \<and> ctxs_own (add_target fd m)"
  proof (cases "fd < int (length (im_ctxs m))")
    case False
    then have le: "length (im_ctxs m) \<le> nat (fd * 3 div 2)" by linarith
    then show ?thesis
      using False over_fill [where q = ctx_fibers, OF new_ctx_empty(1) lt]
        over_fill [where q = wait_fibers, OF new_ctx_empty(2) lt] fill_own [OF J(3) lt]
      by (simp add: add_target_def contextResize_def Let_def held_over waits_def)
  qed (use J in \<open>simp add: add_target_def\<close>)
  then show "joint (add_target fd m) y" "held (add_target fd m) = held m"
    using assms(1) add_target_ok [OF assms(2), of fd] by (simp_all add: joint_def iom_inv_def)
qed

text \<open>What \<open>addEvent\<close> leaves in the context: the event, its scheduler and its fiber.\<close>

definition filled :: "evset \<Rightarrow> ptr \<Rightarrow> fdctx \<Rightarrow> fdctx" where
  "filled ev f c = setContext ev ((slot ev c)\<lparr>ec_scheduler := Some 0, ec_fiber := Some f\<rparr>)
     (c\<lparr>fc_events := fc_events c OR ev\<rparr>)"

lemma filled_ctx:
  assumes "ev \<in> {READ_EV, WRITE_EV}" and "fc_events c \<in> {0, 1, 4, 5}" and "fc_events c AND ev = 0"
    and "ec_fiber (slot ev c) = None"
  shows "ctx_fibers (filled ev f c) = add_mset f (ctx_fibers c)"
    and "wait_fibers (filled ev f c) = add_mset f (wait_fibers c)"
    and "own_sched c \<Longrightarrow> own_sched (filled ev f c)"
  using ev_cases [OF assms(2,1)] assms(3,4)
  by (auto simp: filled_def ctx_fibers_def wait_fibers_def slot_wait_def slot_def setContext_def
      own_sched_def ev_defs)

text \<open>The client's thread after the fiber has been made.\<close>

lemma created_joint:
  fixes y :: "'r sys"
  assumes j: "joint m y" and cb: "calls_ok cb" and ids: "fiberIds (y_caller y) < - 1"
    and run: "\<not> g_stop (y_sched y)"
  obtains f s where "CreatFiber (Some cb) 4096 True (view (y_caller y) y) = Inr (f, s)"
    and "\<exists>b. fheap s f = Some b \<and> fb_state b = INIT"
    and "\<And>m' c' c p. im_ctxs m' = im_ctxs m \<Longrightarrow> p \<in> set (im_ctxs m) \<Longrightarrow> im_heap m p = Some c \<Longrightarrow>
      im_heap m' = (im_heap m)(p \<mapsto> c') \<Longrightarrow> im_scheds m' = im_scheds m \<Longrightarrow> iom_core m' \<Longrightarrow>
      ctx_fibers c' = add_mset f (ctx_fibers c) \<Longrightarrow> wait_fibers c' = add_mset f (wait_fibers c) \<Longrightarrow>
      own_sched c' \<Longrightarrow> joint m' (client_state (y_sched y) s (y_accepted y) y)"
proof -
  note J = jointD [OF j]
  obtain f i s where c: "CreatFiber (Some cb) 4096 True (view (y_caller y) y) = Inr (f, s)"
    and s: "on_main s" "fiberIds s \<noteq> 0" "heap_fresh s" "y_next y \<le> fnext s"
    and old: "\<forall>g < y_next y. fheap s g = y_heap y g"
    and f: "y_next y \<le> f" "fheap s f = Some (new_fiber cb i)" "i \<noteq> 0"
    using created_ok [OF J(1) ids, of cb] by blast
  let ?y = "client_state (y_sched y) s (y_accepted y) y"
  have y: "y_heap ?y = fheap s" "y_sched ?y = y_sched y" "y_caller ?y = tls_of s"
    "y_accepted ?y = y_accepted y"
    by (simp_all add: client_state_def)
  have k: "kept y (fheap s)"
    by (rule kept_below [OF sys_invD(2) [OF J(1), of "y_caller y"]]) (use old in simp)
  have inv: "sys_inv ?y"
    by (intro client_state_inv [OF J(1) s k] kept_bag [OF J(1) k])
      (use sys_invD(5) [OF J(1)] in simp_all)
  have refs: "refs_ok (add_mset f (held m)) ?y" by (rule created_refs [OF J(1,5) c])
  have lt: "g < y_next y" if "g \<in># held m" for g
    using refs_ok_dom [OF J(5), of g] sys_invD(2) [OF J(1), of "y_caller y"] that
    by (auto simp: heap_fresh_def not_less [symmetric])
  have wf: "waiting ?y f"
    using f(2,3) cb by (simp add: waiting_def y fiber_in_def fiber_good_def new_fiber_def)
  have main: "this_fiber (tls_of s) \<noteq> None" using on_main_this [OF s(1)] by simp
  show thesis
  proof (rule that [OF c])
    show "\<exists>b. fheap s f = Some b \<and> fb_state b = INIT" using f(2) by (simp add: new_fiber_def)
    fix m' c' p x
    assume m': "im_ctxs m' = im_ctxs m" "p \<in> set (im_ctxs m)" "im_heap m p = Some x"
      "im_heap m' = (im_heap m)(p \<mapsto> c')" "im_scheds m' = im_scheds m" "iom_core m'"
      and c': "ctx_fibers c' = add_mset f (ctx_fibers x)" "wait_fibers c' = add_mset f (wait_fibers x)"
      "own_sched c'"
    have "distinct (im_ctxs m)" using J(2) by (simp add: iom_core_def)
    note put = over_put [OF this m'(2,3,1,4)]
    have held: "held m' = add_mset f (held m)" using put [of ctx_fibers] c'(1) by (simp add: held_over)
    have waits: "waits m' = add_mset f (waits m)" using put [of wait_fibers] c'(2) by (simp add: waits_def)
    have "ctxs_own m'" using J(3) c'(3) m' by (auto simp: ctxs_own_def)
    moreover have "waiting ?y g" if "g \<in># waits m'" for g
    proof (cases "g = f")
      case False
      then have g: "g \<in># waits m" using that by (simp add: waits)
      then show ?thesis
        using J(6) [OF g] old lt [OF mset_subset_eqD [OF waits_held g]] by (simp add: waiting_def y)
    qed (use wf in simp)
    moreover have "g \<in># waits m' \<or> settled ?y g" if "g \<in># held m'" for g
    proof (cases "g = f")
      case False
      then have g: "g \<in># held m" using that by (simp add: held)
      then show ?thesis
        using J(7) [OF g] old lt [OF g] by (simp add: waits settled_def y cong: option.case_cong)
    qed (simp add: waits)
    ultimately show "joint m' ?y"
      using inv refs J(4) m'(5,6) main run by (simp add: joint_def held y)
  qed
qed

text \<open>The event is free: not registered, and its context has no fiber left over.\<close>

definition slot_free :: "int \<Rightarrow> evset \<Rightarrow> iom \<Rightarrow> bool" where
  "slot_free fd ev m = (case ctx_at fd m of Inl _ \<Rightarrow> False
     | Inr (p, c) \<Rightarrow> fc_events c AND ev = 0 \<and> ec_fiber (slot ev c) = None)"

lemma addEvent_joint:
  fixes y :: "'r sys"
  assumes j: "joint m y" and inv: "iom_inv m" and ev: "ev \<in> {READ_EV, WRITE_EV}"
    and cb: "calls_ok cb" and ids: "fiberIds (y_caller y) < - 1"
    and free: "slot_free fd ev (add_target fd m)" and run: "\<not> im_stopping m \<Longrightarrow> \<not> g_stop (y_sched y)"
  shows "\<exists>v m' s. addEvent (length (im_ctxs m)) rt (Some 0) True fd ev (Some cb) m
      (view (y_caller y) y) = Inr (v, m', s) \<and> im_scheds m' 0 = y_sched y \<and>
    joint m' (client_state (y_sched y) s (y_accepted y) y) \<and> im_stopping m' = im_stopping m \<and>
    im_ctxs m' \<in> {im_ctxs m, im_ctxs (add_target fd m)}"
proof -
  let ?v = "view (y_caller y) y"
  have same: "client_state (y_sched y) ?v (y_accepted y) y = y" by (simp add: client_state_def)
  show ?thesis
  proof (cases "im_stopping m")
    case True
    then show ?thesis
      using j same by (simp add: addEvent_def jointD(4) [OF j])
  next
    case stopping: False
    let ?m = "add_target fd m"
    note t = add_target_joint [OF j inv, of fd]
    have inv1: "iom_inv ?m" using add_target_ok [OF inv, of fd] by simp
    have st: "im_stopping ?m = im_stopping m"
    proof (cases "fd < int (length (im_ctxs m))")
      case False
      then show ?thesis
        using contextResize_ok [OF inv, of "nat (fd * 3 div 2)"] by (simp add: add_target_def)
    qed (simp add: add_target_def)
    obtain p c where pc: "ctx_at fd ?m = Inr (p, c)" "fc_events c AND ev = 0" "ec_fiber (slot ev c) = None"
      using free by (auto simp: slot_free_def split: sum.splits)
    obtain i where i: "fd = int i" "i < length (im_ctxs ?m)" "p = im_ctxs ?m ! i" "im_heap ?m p = Some c"
      "fdctx_ok (int i) c" "events_at p ?m = fc_events c"
      by (rule ctx_at_inv [OF inv1 pc(1)])
    have pm: "p \<in> set (im_ctxs ?m)" using i(2,3) by simp
    show ?thesis
    proof (cases "rt = 0")
      case False
      then have "addEvent (length (im_ctxs m)) rt (Some 0) True fd ev (Some cb) m ?v = Inr (- 1, ?m, ?v)"
        using stopping pc by (simp add: addEvent_def add_target_def Let_def)
      then show ?thesis using t(1) same st by (simp add: jointD(4) [OF t(1)])
    next
      case True
      have e: "fc_events c \<in> {0, 1, 4, 5}" using i(5) by (simp add: fdctx_ok_def)
      have sch: "ec_scheduler (slot ev c) = None"
        using i(5) pc(2) ev by (auto simp: fdctx_ok_def slot_ok_def slot_def)
      have own: "own_sched c" using jointD(3) [OF t(1)] pm i(4) by (simp add: ctxs_own_def)
      obtain f s where f: "CreatFiber (Some cb) 4096 True ?v = Inr (f, s)"
        "\<exists>b. fheap s f = Some b \<and> fb_state b = INIT"
        and jt: "\<And>m' c' p c. im_ctxs m' = im_ctxs ?m \<Longrightarrow> p \<in> set (im_ctxs ?m) \<Longrightarrow>
          im_heap ?m p = Some c \<Longrightarrow> im_heap m' = (im_heap ?m)(p \<mapsto> c') \<Longrightarrow>
          im_scheds m' = im_scheds ?m \<Longrightarrow> iom_core m' \<Longrightarrow>
          ctx_fibers c' = add_mset f (ctx_fibers c) \<Longrightarrow> wait_fibers c' = add_mset f (wait_fibers c) \<Longrightarrow>
          own_sched c' \<Longrightarrow> joint m' (client_state (y_sched y) s (y_accepted y) y)"
        by (rule created_joint [OF t(1) cb ids run [OF stopping]]) blast
      define op where "op = (if fc_events c \<noteq> 0 then CTL_MOD else CTL_ADD)"
      let ?c = "c\<lparr>fc_events := fc_events c OR ev\<rparr>"
      define m' where "m' = put_ctx p (filled ev f c)
        ((epoll_ctl 0 op fd (EPOLLET OR fc_events c OR ev) ?m)\<lparr>im_pending := im_pending ?m + 1\<rparr>)"
      have r: "addEvent (length (im_ctxs m)) rt (Some 0) True fd ev (Some cb) m ?v = Inr (0, m', s)"
        using True stopping pc sch f getContext_slot [OF ev, of ?c]
        by (auto simp: addEvent_def Let_def add_target_def deref_Some op_def m'_def filled_def SYLAR_ASSERT_def)
      have "iom_core m'"
        using addEvent_inv [OF inv refl ev r] by (simp add: iom_inv_def)
      then have "joint m' (client_state (y_sched y) s (y_accepted y) y)"
        using filled_ctx [OF ev e pc(2,3), of f] own
        by (intro jt [OF _ pm i(4), of _ "filled ev f c"]) (simp_all add: m'_def)
      then show ?thesis using r st by (simp add: m'_def jointD(4) [OF t(1)])
    qed
  qed
qed

end
