(* ===== verification/Reactors.thy ===== *)
theory Reactors
  imports Joints
begin

text \<open>
  An I/O manager at work: the scheduler with its worker and allocation threads, the contexts of
  the file descriptors, the workers that wait in \<open>IOManager::idle\<close> for the kernel's reports, and
  the client that registers and cancels events and stops the manager, as one system
  (\<open>sylar/iomanager.cpp\<close> together with \<open>sylar/scheduler.cpp\<close>).
\<close>

unbundle bit_operations_syntax

section \<open>State\<close>

text \<open>
  The manager is scheduler number 0 of its contexts: \<open>im_scheds (x_io x) 0\<close> is the scheduler of
  \<open>x_sys\<close>. \<open>x_idle\<close> tells which workers are inside \<open>idle\<close>. The client is the thread that has
  constructed the manager, so that its \<open>t_scheduler\<close> is the manager.
\<close>

record 'r reactor =
  x_sys :: "'r sys"
  x_io :: iom
  x_idle :: "nat \<Rightarrow> bool"

text \<open>The constructor \<open>IOManager(count, name)\<close>: 32 contexts, and \<open>start\<close>.\<close>

definition reactor_new :: "u16 \<Rightarrow> string \<Rightarrow> u64 \<Rightarrow> 'r \<Rightarrow> 'r reactor res" where
  "reactor_new n name now r =
     bindR (Scheduler_start (\<lambda>_. True) (sys_new n name now r)) (\<lambda>y.
     Inr \<lparr>x_sys = y, x_io = IOManager_new (\<lambda>_. y_sched y), x_idle = (\<lambda>_. False)\<rparr>)"

text \<open>The state after a step of the scheduler, and after an operation on the contexts.\<close>

definition with_sys :: "'r sys \<Rightarrow> 'r reactor \<Rightarrow> 'r reactor" where
  "with_sys y x = x\<lparr>x_sys := y, x_io := sched_set (y_sched y) (x_io x)\<rparr>"

definition newly :: "iom \<Rightarrow> 'r sys \<Rightarrow> task list" where
  "newly m y = drop (length (g_tasks (y_sched y))) (g_tasks (im_scheds m 0))"

definition client_io :: "iom \<Rightarrow> fsys \<Rightarrow> 'r reactor \<Rightarrow> 'r reactor" where
  "client_io m s x = (let y = x_sys x in
     x\<lparr>x_io := m, x_sys := client_state (im_scheds m 0) s (y_accepted y @ newly m y) y\<rparr>)"

definition worker_io :: "nat \<Rightarrow> iom \<Rightarrow> fsys \<Rightarrow> 'r reactor \<Rightarrow> 'r reactor" where
  "worker_io i m s x = (let y = x_sys x; g = im_scheds m 0;
       g' = g\<lparr>g_workers := (g_workers g)[i := (g_workers g ! i)\<lparr>wt_tls := tls_of s\<rparr>]\<rparr> in
     x\<lparr>x_io := sched_set g' m,
       x_sys := y\<lparr>y_sched := g', y_heap := fheap s, y_next := fnext s,
         y_accepted := y_accepted y @ newly m y\<rparr>\<rparr>)"

section \<open>Steps\<close>

text \<open>
  A worker in the loop of \<open>run\<close>: without tasks it calls \<open>m_idle\<close>, which here is
  \<open>IOManager::idle\<close>; it comes back to the loop when the loop of \<open>idle\<close> ends.
\<close>

definition x_work :: "'r rand \<Rightarrow> nat \<Rightarrow> bool \<Rightarrow> 'r reactor \<Rightarrow> 'r reactor res" where
  "x_work rnd i locked x = (let g = y_sched (x_sys x) in
     if x_idle x i then Inr x
     else if i < length (g_workers g) \<and> \<not> wt_exited (g_workers g ! i) \<and> \<not> g_stop g \<and>
         w_count (wt_w (g_workers g ! i)) = 0
     then Inr (x\<lparr>x_idle := (x_idle x)(i := True)\<rparr>)
     else bindR (work_step rnd i locked (x_sys x)) (\<lambda>y. Inr (with_sys y x)))"

definition x_wait :: "nat \<Rightarrow> u64 \<Rightarrow> (int \<times> ptr \<times> evset) list \<Rightarrow> 'r reactor \<Rightarrow> 'r reactor res" where
  "x_wait i us es x = (let y = x_sys x; g = y_sched y in
     if \<not> x_idle x i \<or> length (g_workers g) \<le> i then Inr x
     else let wt = g_workers g ! i in
       bindR (idle_iter (wt_w wt) (g_stop g) us es (x_io x) (view (wt_tls wt) y)) (\<lambda>r.
       case r of
         None \<Rightarrow> Inr (x\<lparr>x_idle := (x_idle x)(i := False)\<rparr>)
       | Some (m, s) \<Rightarrow> Inr (worker_io i m s x)))"

datatype xevent =
    XSubmit "nat \<Rightarrow> fcall" int u16 u64
  | XAlloc
  | XWork nat bool
  | XWait nat u64 "(int \<times> ptr \<times> evset) list"
  | XTick u64
  | XAdd int int evset "nat \<Rightarrow> fcall"
  | XDel int int evset
  | XCancel int u64 int evset
  | XCancelAll int u64 int
  | XStopping
  | XStop

text \<open>
  The arguments of the operations are those of the definitions in \<open>IOManagers\<close>; \<open>XStopping\<close> and
  \<open>XStop\<close> are \<open>IOManager::stop\<close> before and after it has waited.
\<close>

fun x_step :: "'r rand \<Rightarrow> xevent \<Rightarrow> 'r reactor \<Rightarrow> 'r reactor res" where
  "x_step rnd (XSubmit cb thr pri us) x =
     bindR (client_submit cb thr pri us (x_sys x)) (\<lambda>y. Inr (with_sys y x))"
| "x_step rnd XAlloc x = Inr (with_sys (alloc_step (x_sys x)) x)"
| "x_step rnd (XWork i locked) x = x_work rnd i locked x"
| "x_step rnd (XWait i us es) x = x_wait i us es x"
| "x_step rnd (XTick t) x = Inr (with_sys ((x_sys x)\<lparr>y_clock := t\<rparr>) x)"
| "x_step rnd (XAdd rt fd ev cb) x =
     bindR (addEvent (length (im_ctxs (x_io x))) rt (Some 0) True fd ev (Some cb) (x_io x)
         (view (y_caller (x_sys x)) (x_sys x))) (\<lambda>(v, m, s). Inr (client_io m s x))"
| "x_step rnd (XDel rt fd ev) x =
     bindR (delEvent rt fd ev (x_io x) (view (y_caller (x_sys x)) (x_sys x)))
       (\<lambda>(v, m, s). Inr (client_io m s x))"
| "x_step rnd (XCancel rt us fd ev) x =
     bindR (cancelEvent rt us fd ev (x_io x) (view (y_caller (x_sys x)) (x_sys x)))
       (\<lambda>(v, m, s). Inr (client_io m s x))"
| "x_step rnd (XCancelAll rt us fd) x =
     bindR (cancelAll rt us fd (x_io x) (view (y_caller (x_sys x)) (x_sys x)))
       (\<lambda>(v, m, s). Inr (client_io m s x))"
| "x_step rnd XStopping x = Inr (x\<lparr>x_io := IOManager_stopping (x_io x)\<rparr>)"
| "x_step rnd XStop x = (if im_stopping (x_io x) \<and> stop_proceeds (x_io x)
     then Inr (with_sys ((x_sys x)\<lparr>y_sched := stop_flag (y_sched (x_sys x))\<rparr>) x) else Inr x)"

text \<open>
  What the steps below are allowed to be. The client registers an event of a descriptor once
  (\<open>slot_free\<close>: nothing has been registered in that slot before), does not call \<open>delEvent\<close> on a
  registered event (\<open>delEvent_registered_aborts\<close>) and uses descriptors that are not negative. A
  wait reports each context of the vector at most once, and of \<open>EPOLLIN\<close> and \<open>EPOLLOUT\<close> only what is
  registered when the report is handled; this last condition is an assumption about the schedule
  and not a promise of \<open>epoll_wait\<close>, whose report can be stale when another thread has cancelled
  the event since (\<open>idle_stale_event_aborts\<close>).
\<close>

definition no_event :: "int \<Rightarrow> evset \<Rightarrow> iom \<Rightarrow> bool" where
  "no_event fd ev m = (case ctx_at fd m of Inl _ \<Rightarrow> True | Inr (p, c) \<Rightarrow> fc_events c AND ev = 0)"

definition report_ok :: "(int \<times> ptr \<times> evset) list \<Rightarrow> iom \<Rightarrow> bool" where
  "report_ok es m = (distinct (map (\<lambda>(rt, p, evs). p) es) \<and>
     (\<forall>(rt, p, evs) \<in> set es. p \<in> set (im_ctxs m) \<and> report_true evs (events_at p m)))"

fun xevent_ok :: "xevent \<Rightarrow> 'r reactor \<Rightarrow> bool" where
  "xevent_ok (XSubmit cb thr pri us) x = event_ok (Submit cb thr pri us) (x_sys x)"
| "xevent_ok (XWait i us es) x = report_ok es (x_io x)"
| "xevent_ok (XAdd rt fd ev cb) x = ((ev = READ_EV \<or> ev = WRITE_EV) \<and> 0 \<le> fd \<and> fd < 2 ^ 31 \<and>
     calls_ok cb \<and> fiberIds (y_caller (x_sys x)) < - 1 \<and> slot_free fd ev (add_target fd (x_io x)))"
| "xevent_ok (XDel rt fd ev) x = ((ev = READ_EV \<or> ev = WRITE_EV) \<and> 0 \<le> fd \<and>
     (rt = 0 \<longrightarrow> no_event fd ev (x_io x)))"
| "xevent_ok (XCancel rt us fd ev) x = ((ev = READ_EV \<or> ev = WRITE_EV) \<and> 0 \<le> fd)"
| "xevent_ok (XCancelAll rt us fd) x = (0 \<le> fd)"
| "xevent_ok e x = True"

inductive x_reachable :: "'r rand \<Rightarrow> 'r reactor \<Rightarrow> bool" for rnd where
  x_start: "reactor_new n name now r = Inr x \<Longrightarrow> x_reachable rnd x"
| x_next: "x_reachable rnd x \<Longrightarrow> xevent_ok e x \<Longrightarrow> x_step rnd e x = Inr x' \<Longrightarrow> x_reachable rnd x'"

section \<open>The invariant\<close>

definition x_inv :: "'r reactor \<Rightarrow> bool" where
  "x_inv x = (joint (x_io x) (x_sys x) \<and> iom_inv (x_io x) \<and>
     length (im_ctxs (x_io x)) \<in> {2..<2 ^ 33} \<and>
     (g_stop (y_sched (x_sys x)) \<longrightarrow> im_stopping (x_io x)))"

text \<open>Handing over only adds to the queue and changes fibers.\<close>

definition extends :: "'r sys \<Rightarrow> 'r sys \<Rightarrow> bool" where
  "extends y y' = (\<exists>ts n h. y' = y\<lparr>y_sched := (y_sched y)\<lparr>g_tasks := g_tasks (y_sched y) @ ts, g_count := n\<rparr>,
     y_heap := h, y_accepted := y_accepted y @ ts\<rparr>)"

lemma handed_extends: "extends y (handed us f y)"
proof (cases "y_heap y f")
  case None
  then show ?thesis
    by (auto simp: extends_def handed_def intro!: exI [of _ "[]"] exI [of _ "g_count (y_sched y)"] exI [of _ "y_heap y"])
next
  case (Some b)
  let ?r = "length (g_tasks (y_sched y)) < 10000"
  show ?thesis
    unfolding extends_def
    by (rule exI [of _ "if ?r then [Task_ctor f (-1) 5 us] else []"],
        rule exI [of _ "if ?r then g_count (y_sched y) + 1 else g_count (y_sched y)"],
        rule exI [of _ "y_heap (handed us f y)"]) (simp add: handed_def Some Let_def)
qed

lemma extends_trans: "extends y y1 \<Longrightarrow> extends y1 y2 \<Longrightarrow> extends y y2"
  unfolding extends_def by (elim exE) (simp, blast)

lemma extends_refl: "extends y y"
  unfolding extends_def
  by (rule exI [of _ "[]"], rule exI [of _ "g_count (y_sched y)"], rule exI [of _ "y_heap y"]) simp

lemma fold_extends: "extends y (fold (handed us) fs y)"
  by (induction fs arbitrary: y) (auto intro: extends_refl extends_trans handed_extends)

text \<open>What the threads make of it: nothing of their own changes.\<close>

lemma client_io_eq:
  assumes "extends (x_sys x) y'" and "im_scheds m 0 = y_sched y'"
  shows "client_io m (view (y_caller (x_sys x)) y') x = x\<lparr>x_sys := y', x_io := m\<rparr>"
  using assms by (auto simp: client_io_def extends_def newly_def client_state_def Let_def)

lemma worker_io_eq:
  assumes "extends (x_sys x) y'" and "im_scheds m 0 = y_sched y'"
    and "i < length (g_workers (y_sched (x_sys x)))" and "wt = g_workers (y_sched (x_sys x)) ! i"
  shows "worker_io i m (view (wt_tls wt) y') x = x\<lparr>x_sys := y', x_io := m\<rparr>"
proof -
  have g: "(im_scheds m 0)\<lparr>g_workers := (g_workers (im_scheds m 0))
      [i := (g_workers (im_scheds m 0) ! i)\<lparr>wt_tls := tls_of (view (wt_tls wt) y')\<rparr>]\<rparr> = im_scheds m 0"
    using assms by (auto simp: extends_def)
  have m: "sched_set (y_sched y') m = m"
    unfolding sched_set_def assms(2) [symmetric] by (simp only: fun_upd_triv) simp
  have sys: "(x_sys x)\<lparr>y_sched := y_sched y', y_heap := y_heap y', y_next := y_next y',
      y_accepted := y_accepted (x_sys x) @ newly m (x_sys x)\<rparr> = y'"
    using assms(1,2) by (auto simp: extends_def newly_def)
  show ?thesis using g sys m by (simp add: worker_io_def Let_def assms(2))
qed

lemma after_io:
  assumes x: "x_inv x" and j: "joint m y'" and e: "extends (x_sys x) y'" and i: "iom_inv m"
    and c: "im_ctxs m = im_ctxs (x_io x)" "im_stopping m = im_stopping (x_io x)"
  shows "x_inv (x\<lparr>x_sys := y', x_io := m\<rparr>)"
  using assms by (auto simp: x_inv_def extends_def)

section \<open>Every step keeps the invariant\<close>

lemma x_invD:
  assumes "x_inv x"
  shows "joint (x_io x) (x_sys x)" "iom_inv (x_io x)" "im_scheds (x_io x) 0 = y_sched (x_sys x)"
    "sys_inv (x_sys x)" "g_stop (y_sched (x_sys x)) \<Longrightarrow> im_stopping (x_io x)"
  using assms jointD(1,4) [of "x_io x" "x_sys x"] by (auto simp: x_inv_def)

lemma with_sys_inv:
  assumes "x_inv x" and "joint (sched_set (y_sched y') (x_io x)) y'"
    and "g_stop (y_sched y') \<Longrightarrow> im_stopping (x_io x)"
  shows "x_inv (with_sys y' x)"
  using assms iom_inv_cong [OF x_invD(2) [OF assms(1)], of "sched_set (y_sched y') (x_io x)"]
  by (simp add: x_inv_def with_sys_def)

lemma sys_step_x:
  assumes x: "x_inv x" and e: "event_ok e (x_sys x)" "e \<noteq> Stop"
  shows "\<exists>y'. sys_step rnd e (x_sys x) = Inr y' \<and> x_inv (with_sys y' x)"
proof -
  note X = x_invD [OF x]
  obtain y' where y': "sys_step rnd e (x_sys x) = Inr y'" using sys_step_ok [OF X(4) e(1), of rnd] by auto
  have "x_inv (with_sys y' x)"
    by (rule with_sys_inv [OF x sys_step_joint [OF X(1) e y']])
      (use sys_step_extends(3) [OF X(4) e(1) y' e(2)] X(5) in simp)
  then show ?thesis using y' by blast
qed

text \<open>A report may only be handled by a worker, and it hands over what is reported.\<close>

lemma x_wait_ok:
  assumes x: "x_inv x" and k: "report_ok es (x_io x)" and i: "x_idle x i"
    "i < length (g_workers (y_sched (x_sys x)))" "\<not> g_stop (y_sched (x_sys x))"
    "w_count (wt_w (g_workers (y_sched (x_sys x)) ! i)) = 0"
    and y': "y' = fold (handed us) (concat (map (reported (x_io x)) es)) (x_sys x)"
  obtains m where "x_wait i us es x = Inr (x\<lparr>x_sys := y', x_io := m\<rparr>)"
    and "x_inv (x\<lparr>x_sys := y', x_io := m\<rparr>)"
    and "waits (x_io x) = mset (concat (map (reported (x_io x)) es)) + waits m"
proof -
  let ?y = "x_sys x" and ?m = "x_io x"
  note X = x_invD [OF x]
  define wt where "wt = g_workers (y_sched ?y) ! i"
  have on: "on_main (view (wt_tls wt) ?y)"
    using sys_invD(4) [OF X(4), of wt] i(2) by (simp add: thread_inv_def wt_def)
  obtain m where m: "idle_events us es ?m (view (wt_tls wt) ?y) = Inr (m, view (wt_tls wt) y')"
    "joint m y'" "im_ctxs m = im_ctxs ?m" "im_stopping m = im_stopping ?m"
    "waits ?m = mset (concat (map (reported ?m) es)) + waits m"
    using idle_events_joint [OF X(1) on _ _ y'] k by (auto simp: report_ok_def)
  have e: "extends ?y y'" unfolding y' by (rule fold_extends)
  have "\<forall>e \<in> set es. fst (snd e) \<in> set (im_ctxs ?m)" using k by (auto simp: report_ok_def)
  then have inv: "iom_inv m" by (rule idle_events_inv [OF X(2) _ m(1)])
  have "x_wait i us es x = Inr (worker_io i m (view (wt_tls wt) y') x)"
    using i m(1) by (simp add: x_wait_def Let_def idle_iter_def isIdle_def wt_def)
  moreover have "worker_io i m (view (wt_tls wt) y') x = x\<lparr>x_sys := y', x_io := m\<rparr>"
    by (rule worker_io_eq [OF e jointD(4) [OF m(2)] i(2) wt_def])
  ultimately show thesis using that after_io [OF x m(2) e inv m(3,4)] m(5) by simp
qed

lemma x_wait_step:
  assumes x: "x_inv x" and k: "report_ok es (x_io x)"
  shows "\<exists>x'. x_wait i us es x = Inr x' \<and> x_inv x'"
proof -
  let ?g = "y_sched (x_sys x)"
  consider "\<not> x_idle x i \<or> length (g_workers ?g) \<le> i"
    | "x_idle x i" "i < length (g_workers ?g)" "g_stop ?g \<or> w_count (wt_w (g_workers ?g ! i)) \<noteq> 0"
    | "x_idle x i" "i < length (g_workers ?g)" "\<not> g_stop ?g" "w_count (wt_w (g_workers ?g ! i)) = 0"
    by linarith
  then show ?thesis
  proof cases
    case 1
    then show ?thesis using x by (simp add: x_wait_def Let_def)
  next
    case 2
    then have "x_wait i us es x = Inr (x\<lparr>x_idle := (x_idle x)(i := False)\<rparr>)"
      by (auto simp: x_wait_def Let_def idle_iter_def isIdle_def)
    then show ?thesis using x by (simp add: x_inv_def)
  next
    case 3
    then show ?thesis using x_wait_ok [OF x k 3 refl, of us] by metis
  qed
qed

text \<open>A call of the client that hands over \<open>fs\<close>.\<close>

lemma client_call:
  assumes x: "x_inv x" and j: "joint m y'" and inv: "iom_inv m"
    and y': "y' = fold (handed us) fs (x_sys x)"
    and c: "im_ctxs m = im_ctxs (x_io x)" "im_stopping m = im_stopping (x_io x)"
  shows "client_io m (view (y_caller (x_sys x)) y') x = x\<lparr>x_sys := y', x_io := m\<rparr>"
    and "x_inv (x\<lparr>x_sys := y', x_io := m\<rparr>)"
proof -
  have e: "extends (x_sys x) y'" unfolding y' by (rule fold_extends)
  show "client_io m (view (y_caller (x_sys x)) y') x = x\<lparr>x_sys := y', x_io := m\<rparr>"
    by (rule client_io_eq [OF e jointD(4) [OF j]])
  show "x_inv (x\<lparr>x_sys := y', x_io := m\<rparr>)" by (rule after_io [OF x j e inv c])
qed

text \<open>
  The client's thread is on its main fiber if a context has a fiber; if none has, no event is
  registered.
\<close>

lemma events_none:
  assumes j: "joint m y" and h: "held m = {#}" and pc: "ctx_at fd m = Inr (p, c)"
  shows "fc_events c = 0"
proof (rule ccontr)
  assume n: "fc_events c \<noteq> 0"
  have p: "p \<in> set (im_ctxs m)" "im_heap m p = Some c" using ctx_atE [OF pc] by simp_all
  obtain i where "i < length (im_ctxs m)" "p = im_ctxs m ! i" using p(1) by (auto simp: in_set_conv_nth)
  then have "fc_events c \<in> {0, 1, 4, 5}"
    using core_ctx [OF jointD(2) [OF j], of i c] p(2) by (simp add: fdctx_ok_def)
  then have "fc_events c AND READ_EV \<noteq> 0 \<or> fc_events c AND WRITE_EV \<noteq> 0"
    using n by (auto simp: ev_defs)
  then obtain ev where "ev \<in> {READ_EV, WRITE_EV}" "fc_events c AND ev \<noteq> 0" by blast
  from registered_slot [OF j p this] obtain f where "f \<in># waits m" by blast
  then show False using mset_subset_eqD [OF waits_held] h by fastforce
qed

lemma caller_main:
  "joint m y \<Longrightarrow> held m \<noteq> {#} \<Longrightarrow> on_main (view (y_caller y) y)"
  by (rule caller_on_main [OF jointD(1)]) (auto dest: jointD(8))

lemma x_cancel_step:
  assumes x: "x_inv x" and fd: "0 \<le> fd" and ev: "ev \<in> {READ_EV, WRITE_EV}"
    and y': "y' = fold (handed us) (cancelled rt fd ev (x_io x)) (x_sys x)"
  shows "\<exists>m. x_step rnd (XCancel rt us fd ev) x = Inr (x\<lparr>x_sys := y', x_io := m\<rparr>) \<and>
    x_inv (x\<lparr>x_sys := y', x_io := m\<rparr>)"
proof -
  let ?v = "view (y_caller (x_sys x))"
  note X = x_invD [OF x]
  have "\<exists>v m. cancelEvent rt us fd ev (x_io x) (?v (x_sys x)) = Inr (v, m, ?v y') \<and> joint m y' \<and>
    im_ctxs m = im_ctxs (x_io x) \<and> im_stopping m = im_stopping (x_io x)"
  proof (cases "held (x_io x) = {#}")
    case True
    have none: "fc_events c = 0" if "ctx_at fd (x_io x) = Inr (p, c)" for p c
      by (rule events_none [OF X(1) True that])
    then have "y' = x_sys x" by (auto simp: y' cancelled_def fired_def split: sum.splits)
    moreover have "cancelEvent rt us fd ev (x_io x) (?v (x_sys x)) = Inr (False, x_io x, ?v (x_sys x))"
    proof (cases "fd < int (length (im_ctxs (x_io x)))")
      case len: True
      obtain c where "ctx_at fd (x_io x) = Inr (im_ctxs (x_io x) ! nat fd, c)"
        by (rule core_ctx_at [OF jointD(2) [OF X(1)] fd len])
      then show ?thesis using none len by (simp add: cancelEvent_def)
    qed (simp add: cancelEvent_def)
    ultimately show ?thesis using X(1) by blast
  next
    case False
    show ?thesis
      using cancelEvent_joint [OF X(1) fd ev caller_main [OF X(1) False] y'] by blast
  qed
  then obtain v m where m: "cancelEvent rt us fd ev (x_io x) (?v (x_sys x)) = Inr (v, m, ?v y')"
    "joint m y'" "im_ctxs m = im_ctxs (x_io x)" "im_stopping m = im_stopping (x_io x)" by blast
  show ?thesis using client_call [OF x m(2) cancelEvent_inv [OF X(2) ev m(1)] y' m(3,4)] m(1) by auto
qed

lemma x_cancelAll_step:
  assumes x: "x_inv x" and fd: "0 \<le> fd"
    and y': "y' = fold (handed us) (cancelled rt fd (READ_EV OR WRITE_EV) (x_io x)) (x_sys x)"
  shows "\<exists>m. x_step rnd (XCancelAll rt us fd) x = Inr (x\<lparr>x_sys := y', x_io := m\<rparr>) \<and>
    x_inv (x\<lparr>x_sys := y', x_io := m\<rparr>)"
proof -
  let ?v = "view (y_caller (x_sys x))"
  note X = x_invD [OF x]
  have "\<exists>v m. cancelAll rt us fd (x_io x) (?v (x_sys x)) = Inr (v, m, ?v y') \<and> joint m y' \<and>
    im_ctxs m = im_ctxs (x_io x) \<and> im_stopping m = im_stopping (x_io x)"
  proof (cases "held (x_io x) = {#}")
    case True
    have none: "fc_events c = 0" if "ctx_at fd (x_io x) = Inr (p, c)" for p c
      by (rule events_none [OF X(1) True that])
    then have "y' = x_sys x" by (auto simp: y' cancelled_def fired_def split: sum.splits)
    moreover have "cancelAll rt us fd (x_io x) (?v (x_sys x)) = Inr (False, x_io x, ?v (x_sys x))"
    proof (cases "fd < int (length (im_ctxs (x_io x)))")
      case len: True
      obtain c where "ctx_at fd (x_io x) = Inr (im_ctxs (x_io x) ! nat fd, c)"
        by (rule core_ctx_at [OF jointD(2) [OF X(1)] fd len])
      then show ?thesis using none len by (simp add: cancelAll_def)
    qed (simp add: cancelAll_def)
    ultimately show ?thesis using X(1) by blast
  next
    case False
    show ?thesis
      using cancelAll_joint [OF X(1) fd caller_main [OF X(1) False] y'] by blast
  qed
  then obtain v m where m: "cancelAll rt us fd (x_io x) (?v (x_sys x)) = Inr (v, m, ?v y')"
    "joint m y'" "im_ctxs m = im_ctxs (x_io x)" "im_stopping m = im_stopping (x_io x)" by blast
  show ?thesis using client_call [OF x m(2) cancelAll_inv [OF X(2) m(1)] y' m(3,4)] m(1) by auto
qed

lemma x_del_step:
  assumes x: "x_inv x" and e: "xevent_ok (XDel rt fd ev) x"
  shows "x_step rnd (XDel rt fd ev) x = Inr x"
proof -
  let ?v = "view (y_caller (x_sys x)) (x_sys x)"
  note X = x_invD [OF x]
  have "delEvent rt fd ev (x_io x) ?v = Inr (False, x_io x, ?v)"
  proof (cases "fd < int (length (im_ctxs (x_io x)))")
    case True
    have fd: "0 \<le> fd" using e by simp
    obtain c where "ctx_at fd (x_io x) = Inr (im_ctxs (x_io x) ! nat fd, c)"
      by (rule core_ctx_at [OF jointD(2) [OF X(1)] fd True])
    then show ?thesis using True e by (auto simp: delEvent_def Let_def no_event_def)
  qed (simp add: delEvent_def)
  then show ?thesis
    using client_io_eq [OF extends_refl X(3)] by simp
qed

lemma x_add_step:
  assumes x: "x_inv x" and e: "xevent_ok (XAdd rt fd ev cb) x"
  shows "\<exists>x'. x_step rnd (XAdd rt fd ev cb) x = Inr x' \<and> x_inv x'"
proof -
  let ?y = "x_sys x" and ?m = "x_io x"
  note X = x_invD [OF x]
  have E: "ev \<in> {READ_EV, WRITE_EV}" "calls_ok cb" "fiberIds (y_caller ?y) < - 1"
    "slot_free fd ev (add_target fd ?m)" "fd < 2 ^ 31"
    using e by auto
  obtain v m' s where r: "addEvent (length (im_ctxs ?m)) rt (Some 0) True fd ev (Some cb) ?m
      (view (y_caller ?y) ?y) = Inr (v, m', s)" "im_scheds m' 0 = y_sched ?y"
    "joint m' (client_state (y_sched ?y) s (y_accepted ?y) ?y)" "im_stopping m' = im_stopping ?m"
    "im_ctxs m' \<in> {im_ctxs ?m, im_ctxs (add_target fd ?m)}"
    using addEvent_joint [OF X(1,2) E(1-4)] X(5) by blast
  have inv: "iom_inv m'" by (rule addEvent_inv [OF X(2) refl E(1) r(1)])
  have "length (im_ctxs (add_target fd ?m)) < 2 ^ 33"
    using x E(5) contextResize_frame(1) [of "nat (fd * 3 div 2)" ?m]
    by (simp add: add_target_def x_inv_def) linarith
  moreover have "length (im_ctxs ?m) \<le> length (im_ctxs (add_target fd ?m))"
    using add_target_ok [OF X(2), of fd] by simp
  ultimately have "length (im_ctxs m') \<in> {2..<2 ^ 33}" using x r(5) by (auto simp: x_inv_def)
  moreover have "client_io m' s x = x\<lparr>x_io := m', x_sys := client_state (y_sched ?y) s (y_accepted ?y) ?y\<rparr>"
    using r(2) by (simp add: client_io_def newly_def Let_def)
  ultimately have "x_inv (client_io m' s x)"
    using r(3,4) inv X(5) by (simp add: x_inv_def client_state_def)
  then show ?thesis using r(1) by simp
qed

lemma x_work_step:
  assumes x: "x_inv x"
  shows "\<exists>x'. x_work rnd i locked x = Inr x' \<and> x_inv x'"
proof -
  obtain y' where "work_step rnd i locked (x_sys x) = Inr y'" "x_inv (with_sys y' x)"
    using sys_step_x [OF x, of "Work i locked"] by auto
  moreover have "x_inv (x\<lparr>x_idle := q\<rparr>)" for q using x by (simp add: x_inv_def)
  ultimately show ?thesis using x by (simp add: x_work_def Let_def)
qed

text \<open>When nothing is pending, no fiber waits, and the scheduler may be stopped.\<close>

lemma nothing_waits:
  assumes j: "joint m y" and z: "\<forall>p \<in> set (im_ctxs m). events_at p m = 0"
  shows "waits m = {#}"
proof -
  have "f \<notin># waits m" for f
    using z by (auto simp: waits_def over_def in_sum_mset wait_fibers_def slot_wait_def events_at_def
        split: option.splits)
  then show ?thesis by (meson multiset_nonemptyE)
qed

lemma proceeds_none:
  assumes x: "x_inv x" and p: "stop_proceeds (x_io x)"
  shows "\<forall>p \<in> set (im_ctxs (x_io x)). events_at p (x_io x) = 0"
proof -
  let ?m = "x_io x"
  have core: "iom_core ?m" using x_invD(2) [OF x] by (simp add: iom_inv_def)
  have "npend ?m < 2 ^ 64" using npend_le [of ?m] x by (simp add: x_inv_def)
  then have "unat (im_pending ?m) = npend ?m" using core by (simp add: iom_core_def unat_of_nat)
  then show ?thesis using p npend_0 [OF core] by (simp add: stop_proceeds_def)
qed

lemma x_stop_step:
  assumes x: "x_inv x" and s: "im_stopping (x_io x)" and p: "stop_proceeds (x_io x)"
  shows "x_inv (with_sys ((x_sys x)\<lparr>y_sched := stop_flag (y_sched (x_sys x))\<rparr>) x)"
proof -
  note X = x_invD [OF x]
  let ?y = "(x_sys x)\<lparr>y_sched := stop_flag (y_sched (x_sys x))\<rparr>"
  have inv: "sys_inv ?y" by (rule sys_inv_sched_cong [OF X(4) refl]) (simp_all add: stop_flag_def)
  have refs: "refs_ok (held (x_io x)) ?y"
    by (rule refs_ok_cong [OF jointD(5) [OF X(1)]])
      (simp_all add: owners_def mains_def stop_flag_def sys_bag_def)
  have "joint (sched_set (y_sched ?y) (x_io x)) ?y"
    by (rule joint_sched [OF X(1) inv refs])
      (use nothing_waits [OF X(1) proceeds_none [OF x p]] in simp_all)
  then show ?thesis using with_sys_inv [OF x] s by simp
qed

lemma x_step_ok:
  assumes x: "x_inv x" and e: "xevent_ok e x"
  shows "\<exists>x'. x_step rnd e x = Inr x' \<and> x_inv x'"
proof (cases e)
  case (XSubmit cb thr pri us)
  then obtain y' where "client_submit cb thr pri us (x_sys x) = Inr y'" "x_inv (with_sys y' x)"
    using sys_step_x [OF x, of "Submit cb thr pri us"] e by auto
  then show ?thesis using XSubmit by simp
next
  case XAlloc
  then show ?thesis using sys_step_x [OF x, of Alloc] by simp
next
  case (XWork i locked)
  then show ?thesis using x_work_step [OF x] by simp
next
  case (XWait i us es)
  then show ?thesis using x_wait_step [OF x, of es i us] e by simp
next
  case (XTick t)
  then show ?thesis using sys_step_x [OF x, of "Tick t"] by simp
next
  case (XAdd rt fd ev cb)
  then show ?thesis using x_add_step [OF x] e by blast
next
  case (XDel rt fd ev)
  then show ?thesis using x_del_step [OF x] e x by blast
next
  case (XCancel rt us fd ev)
  then have "0 \<le> fd" "ev \<in> {READ_EV, WRITE_EV}" using e by auto
  from x_cancel_step [OF x this refl] show ?thesis unfolding XCancel by blast
next
  case (XCancelAll rt us fd)
  then have "0 \<le> fd" using e by simp
  from x_cancelAll_step [OF x this refl] show ?thesis unfolding XCancelAll by blast
next
  case XStopping
  have "x_inv (x\<lparr>x_io := IOManager_stopping (x_io x)\<rparr>)"
    using x joint_cong [of "IOManager_stopping (x_io x)" "x_io x" "x_sys x"]
      iom_inv_cong [OF x_invD(2) [OF x], of "IOManager_stopping (x_io x)"]
    by (simp add: x_inv_def IOManager_stopping_def)
  then show ?thesis using XStopping by simp
next
  case XStop
  then show ?thesis using x_stop_step [OF x] x by auto
qed

lemma reactor_new_inv:
  assumes "reactor_new n name now r = Inr x"
  shows "x_inv x"
proof -
  obtain y where y: "Scheduler_start (\<lambda>_. True) (sys_new n name now r) = Inr y" "sys_inv y"
    "\<not> g_stop (y_sched y)"
    using start_new_ok [of n name now r] by blast
  let ?m = "IOManager_new (\<lambda>_. y_sched y)"
  have x: "x = \<lparr>x_sys = y, x_io = ?m, x_idle = (\<lambda>_. False)\<rparr>" using assms y(1) by (simp add: reactor_new_def)
  let ?e = "\<lparr>im_ctxs = [], im_heap = Map.empty, im_next = 0,
     im_pending = 0, im_stopping = False, im_scheds = (\<lambda>_. y_sched y), im_epoll = Map.empty\<rparr>"
  have m: "?m = fill_ctxs 0 32 ?e" by (simp add: IOManager_new_def contextResize_def)
  have inv: "iom_inv ?m" "length (im_ctxs ?m) = 32" using IOManager_new_ok by auto
  have "held ?m = {#}" "waits ?m = {#}"
    unfolding m held_over waits_def
    using over_fill [where q = ctx_fibers, OF new_ctx_empty(1), of ?e]
      over_fill [where q = wait_fibers, OF new_ctx_empty(2), of ?e]
    by (simp_all add: over_def)
  moreover have "ctxs_own ?m" unfolding m by (rule fill_own) (simp_all add: ctxs_own_def)
  moreover have "im_scheds ?m 0 = y_sched y"
    using contextResize_ok [of ?e 32] by (simp add: IOManager_new_def iom_inv_def iom_core_def registered_def npend_def)
  ultimately have "joint ?m y"
    using y(2,3) start_refs [OF y(1)] inv(1) by (simp add: joint_def iom_inv_def)
  then show ?thesis using inv y(3) by (simp add: x x_inv_def)
qed

lemma x_reachable_inv: "x_reachable rnd x \<Longrightarrow> x_inv x"
proof (induction rule: x_reachable.induct)
  case (x_start n name now r x)
  then show ?case by (rule reactor_new_inv)
next
  case (x_next x e x')
  then show ?case using x_step_ok [of x e rnd] by auto
qed

text \<open>The counter of pending events counts the fibers that wait.\<close>

lemma wait_size:
  assumes "fdctx_ok fd c"
  shows "size (wait_fibers c) = nbits (fc_events c)"
  using assms by (auto simp: fdctx_ok_def slot_ok_def wait_fibers_def slot_wait_def slot_def nbits_def ev_defs)

lemma waits_size:
  assumes core: "iom_core m"
  shows "size (waits m) = npend m"
proof -
  have sum: "size (\<Sum>p \<leftarrow> ps. h p) = (\<Sum>p \<leftarrow> ps. size (h p))" for ps :: "ptr list" and h :: "ptr \<Rightarrow> ptr multiset"
    by (induction ps) simp_all
  have "size (case im_heap m p of None \<Rightarrow> {#} | Some c \<Rightarrow> wait_fibers c) = nbits (events_at p m)"
    if p: "p \<in> set (im_ctxs m)" for p
  proof -
    obtain i where "i < length (im_ctxs m)" "p = im_ctxs m ! i" using p by (auto simp: in_set_conv_nth)
    then obtain c where "im_heap m p = Some c" "fdctx_ok (int i) c"
      using core by (fastforce simp: iom_core_def split: option.splits)
    then show ?thesis by (simp add: events_at_def wait_size)
  qed
  then show ?thesis
    unfolding waits_def over_def npend_def sum by (intro arg_cong [of _ _ sum_list] map_cong refl) simp
qed

lemma x_pending:
  assumes x: "x_inv x"
  shows "unat (im_pending (x_io x)) = size (waits (x_io x))"
proof -
  have core: "iom_core (x_io x)" using x_invD(2) [OF x] by (simp add: iom_inv_def)
  have "npend (x_io x) < 2 ^ 64" using npend_le [of "x_io x"] x by (simp add: x_inv_def)
  then show ?thesis using core waits_size [OF core] by (simp add: iom_core_def unat_of_nat)
qed

text \<open>What the contexts still hold can go when no event is registered any more.\<close>

lemma joint_counts:
  assumes "joint m y"
  shows "y_heap y f = None \<longleftrightarrow> f \<notin># owners y + held m"
    and "y_heap y f = Some b \<Longrightarrow> fb_refs b = count (owners y + held m) f"
proof -
  note r = jointD(5) [OF assms]
  show "y_heap y f = None \<longleftrightarrow> f \<notin># owners y + held m" by (rule refs_ok_dom [OF r])
  have "refs_of (y_heap y) f = counted (owners y + held m) f" using r by (simp add: refs_ok_def)
  then show "fb_refs b = count (owners y + held m) f" if "y_heap y f = Some b"
    using that by (simp add: refs_of_def counted_def split: if_splits)
qed

lemma held_droppable:
  assumes j: "joint m y" and w: "waits m = {#}"
  shows "droppable (held m) (view t y)"
  unfolding droppable_def
proof
  fix f assume f: "f \<in># held m"
  then have s: "settled y f" using jointD(7) [OF j f] w by simp
  then obtain b where b: "y_heap y f = Some b" "fb_id b \<noteq> 0"
    "f \<in># fibers_of (sys_bag (y_sched y)) \<or> fb_state b = DESTROY"
    by (auto simp: settled_def split: option.splits)
  have "fb_refs b = count (owners y) f + count (held m) f" using joint_counts(2) [OF j b(1)] by simp
  moreover have "count (owners y) f \<noteq> 0" if "f \<in># fibers_of (sys_bag (y_sched y))"
    using that by (simp add: owners_def not_in_iff)
  ultimately show "case fheap (view t y) f of None \<Rightarrow> False
     | Some b \<Rightarrow> fb_id b \<noteq> 0 \<and> count (held m) f \<le> fb_refs b \<and>
         (count (held m) f = fb_refs b \<longrightarrow> fb_state b = DESTROY \<or> fb_state b = EXCEPT)"
    using b by (auto simp: count_eq_zero_iff)
qed

section \<open>Properties\<close>

text \<open>
  C2. As long as the client and the kernel keep to what \<open>xevent_ok\<close> says, now and in every step
  before, an I/O manager never fails an assertion or touches a missing fiber: whatever the
  interleaving of the client's calls, of the allocation thread, of the workers that run tasks and
  of those that handle the reports of the kernel, the next step succeeds. The conditions are
  stronger than what a caller would expect of the class. Outside them are: a callback that throws or
  that neither holds nor yields after a \<open>hold\<close>; a submission or a registration in the wrong state (a
  submission after \<open>stop\<close>, an event added where one has ever been registered before, cancelled or
  not, since its fiber lingers in the slot); \<open>delEvent\<close> of a registered event; a negative
  descriptor; and a wait that reports an event that is not registered at the time it is handled,
  which the documentation of \<open>epoll_wait\<close> does not rule out when another thread cancels the event
  in between. Most of these do abort: \<open>reactor_del_aborts\<close>, \<open>readd_after_cancel_aborts\<close>,
  \<open>idle_stale_event_aborts\<close>, \<open>submit_after_stop_aborts\<close>, \<open>throwing_fiber_crashes\<close>.
\<close>

theorem reactor_safe:
  assumes "x_reachable rnd x" and "xevent_ok e x"
  shows "\<exists>x'. x_step rnd e x = Inr x'"
  using x_step_ok [OF x_reachable_inv [OF assms(1)] assms(2), of rnd] by blast

text \<open>
  C10. The fibers of an I/O manager are owned by the threads, by the tasks and by the contexts,
  and by nothing else; the use count of a fiber is the number of its owners. The fiber of a
  registered event has its context as its only owner and has never run, and the contexts and
  the scheduler agree: the events that the counter counts are those the kernel knows.
\<close>

theorem reactor_fibers_owned:
  assumes "x_reachable rnd x"
  shows "(\<forall>f. y_heap (x_sys x) f = None \<longleftrightarrow> f \<notin># owners (x_sys x) + held (x_io x)) \<and>
    (\<forall>f b. y_heap (x_sys x) f = Some b \<longrightarrow> fb_refs b = count (owners (x_sys x) + held (x_io x)) f) \<and>
    (\<forall>f \<in># waits (x_io x). f \<notin># owners (x_sys x) \<and> count (held (x_io x)) f = 1 \<and>
      (\<exists>b. y_heap (x_sys x) f = Some b \<and> fb_state b = INIT)) \<and>
    (\<forall>fd. im_epoll (x_io x) fd = registered (x_io x) fd) \<and>
    unat (im_pending (x_io x)) = size (waits (x_io x))"
proof -
  note x = x_reachable_inv [OF assms]
  note j = x_invD(1) [OF x]
  have "\<exists>b. y_heap (x_sys x) f = Some b \<and> fb_state b = INIT" if "f \<in># waits (x_io x)" for f
    using jointD(6) [OF j that] by (auto simp: fiber_in_def elim!: waitingE)
  moreover have "\<forall>fd. im_epoll (x_io x) fd = registered (x_io x) fd"
    using x_invD(2) [OF x] by (simp add: iom_inv_def)
  ultimately show ?thesis using joint_counts [OF j] waits_once [OF j] x_pending [OF x] by blast
qed

text \<open>No fiber waits for two events.\<close>

lemma waits_distinct:
  assumes j: "joint m y" and sub: "mset fs \<subseteq># waits m"
  shows "distinct fs"
proof -
  have "count (mset fs) f \<le> 1" for f
  proof (cases "f \<in> set fs")
    case True
    then have "f \<in># waits m" using mset_subset_eqD [OF sub] by simp
    then show ?thesis
      using mset_subset_eq_count [OF sub, of f] mset_subset_eq_count [OF waits_held, of m f] waits_once(2) [OF j]
      by simp
  next
    case False
    then have "count (mset fs) f = 0" by (simp add: count_eq_zero_iff)
    then show ?thesis by linarith
  qed
  then show ?thesis by (metis One_nat_def count_mset_0_iff distinct_count_atmost_1 le_Suc_eq le_zero_eq)
qed

text \<open>
  C11. What a worker does with the reports of one \<open>epoll_wait\<close>: the fibers of the reported
  events, in the order of the reports and \<open>READ\<close> before \<open>WRITE\<close>, become tasks at the end of
  the queue, and their events are registered no more. With the queue full the fibers that find
  no room are ended, and their callbacks never run.
\<close>

theorem idle_delivers:
  assumes "x_reachable rnd x" and "y = x_sys x" and "report_ok es (x_io x)" and "x_idle x i"
    and "i < length (g_workers (y_sched y))" and "\<not> g_stop (y_sched y)"
    and "w_count (wt_w (g_workers (y_sched y) ! i)) = 0"
    and "fs = concat (map (reported (x_io x)) es)"
    and "n = min (length fs) (10000 - length (g_tasks (y_sched y)))"
  shows "\<exists>x'. x_step rnd (XWait i us es) x = Inr x' \<and> distinct fs \<and>
    g_tasks (y_sched (x_sys x')) = g_tasks (y_sched y) @ map (\<lambda>f. Task_ctor f (-1) 5 us) (take n fs) \<and>
    waits (x_io x) = mset fs + waits (x_io x') \<and>
    (\<forall>f \<in> set (drop n fs). \<exists>b. y_heap (x_sys x') f = Some b \<and> fb_state b = DESTROY)"
proof -
  note x = x_reachable_inv [OF assms(1)]
  note j = x_invD(1) [OF x]
  let ?y = "fold (handed us) fs y"
  obtain m where m: "x_wait i us es x = Inr (x\<lparr>x_sys := ?y, x_io := m\<rparr>)"
    "waits (x_io x) = mset fs + waits m"
    by (rule x_wait_ok [OF x assms(3,4) _ _ _ refl, of us]) (use assms(2,5-8) in auto)
  have sub: "mset fs \<subseteq># waits (x_io x)" by (simp add: m(2))
  have "distinct fs" by (rule waits_distinct [OF j sub])
  moreover have "y_heap y f \<noteq> None" if "f \<in> set fs" for f
    using jointD(6) [OF j mset_subset_eqD [OF sub]] that by (auto simp: assms(2) elim!: waitingE)
  ultimately show ?thesis
    using fold_handed_exact [of fs y n us] assms(9) m by auto
qed

text \<open>
  C38. \<open>delEvent\<close> of a registered event ends the program, in every state an I/O manager can
  reach: the context is the only owner of the fiber, which has never run, and the destructor of
  a fiber insists on its having ended.
\<close>

theorem reactor_del_aborts:
  assumes "x_reachable rnd x" and "ev = READ_EV \<or> ev = WRITE_EV"
    and "ctx_at fd (x_io x) = Inr (p, c)" and "fc_events c AND ev \<noteq> 0"
  shows "x_step rnd (XDel 0 fd ev) x = Inl (AssertFail ''m_state == DESTROY || m_state == EXCEPT'')"
proof -
  note j = x_invD(1) [OF x_reachable_inv [OF assms(1)]]
  have p: "p \<in> set (im_ctxs (x_io x))" "im_heap (x_io x) p = Some c" using ctx_atE [OF assms(3)] by simp_all
  have ev: "ev \<in> {READ_EV, WRITE_EV}" using assms(2) by simp
  obtain f where f: "ec_fiber (slot ev c) = Some f" "f \<in># waits (x_io x)"
    by (rule registered_slot [OF j p ev assms(4)])
  obtain b where b: "y_heap (x_sys x) f = Some b" "fiber_in INIT b" "fb_refs b = 1"
    using jointD(6) [OF j f(2)] by (rule waitingE)
  have "held (x_io x) \<noteq> {#}" using mset_subset_eqD [OF waits_held f(2)] by auto
  from delEvent_registered_aborts [OF assms(2-4) f(1) _ _ _ b(3) caller_main [OF j this]] show ?thesis
    using b fiber_in_state [OF b(2)] by simp
qed

text \<open>
  C26. The end of an I/O manager is clean: its destructor waits for the threads and for the
  registered events, then deletes every context once and lets go of the fibers the contexts have
  kept, none of which still has to run; the fibers that remain are those of the threads and of
  the tasks that are left, with the right counts.
\<close>

theorem reactor_shutdown:
  assumes "x_reachable rnd x" and "y = x_sys x" and "this_fiber (y_caller y) \<noteq> None"
  shows "case IOManager_delete 0 (x_io x) (view (y_caller y) y) of
      None \<Rightarrow> \<not> joins_return (y_sched y) \<or> (\<exists>fd. im_epoll (x_io x) fd \<noteq> None)
    | Some r \<Rightarrow> (\<exists>m s. r = Inr (m, s) \<and> im_epoll m = Map.empty \<and>
        (\<forall>p \<in> set (im_ctxs (x_io x)). im_heap m p = None) \<and>
        (\<forall>f. fheap s f = None \<longleftrightarrow> f \<notin># owners y) \<and>
        (\<forall>f b. fheap s f = Some b \<longrightarrow> fb_refs b = count (owners y) f))"
proof -
  note x = x_reachable_inv [OF assms(1)]
  note X = x_invD [OF x, folded assms(2)]
  let ?v = "view (y_caller y) y"
  have on: "on_main ?v" by (rule caller_on_main [OF X(4) assms(3)])
  have len: "length (im_ctxs (x_io x)) < 2 ^ 63" using x by (simp add: x_inv_def)
  have drop: "droppable (held (x_io x)) ?v" if "\<forall>p \<in> set (im_ctxs (x_io x)). events_at p (x_io x) = 0"
    by (rule held_droppable [OF X(1) nothing_waits [OF X(1) that]])
  note core = shutdown_core [OF X(2) len on drop, of 0]
  have r: "released (held (x_io x)) (refs_of (y_heap y)) = counted (owners y)"
    using jointD(5) [OF X(1)] released_counted [of "held (x_io x)" "owners y"]
    by (simp add: refs_ok_def add.commute)
  have after: "fheap s f = None \<longleftrightarrow> f \<notin># owners y"
    "fheap s f = Some b \<Longrightarrow> fb_refs b = count (owners y) f"
    if "refs_of (fheap s) = released (held (x_io x)) (refs_of (y_heap y))" for s :: fsys and f b
  proof -
    have "refs_of (fheap s) = counted (owners y)" using that r by simp
    then have "refs_of (fheap s) f = counted (owners y) f" by simp
    then show "fheap s f = None \<longleftrightarrow> f \<notin># owners y"
      "fheap s f = Some b \<Longrightarrow> fb_refs b = count (owners y) f"
      by (auto simp: refs_of_def counted_def split: if_splits)
  qed
  show ?thesis
    using core after X(3) by (fastforce split: option.splits)
qed

section \<open>An instance\<close>

text \<open>
  A manager with one worker. The client registers descriptor 7 for reading, the worker waits in
  \<open>idle\<close>; a report comes, the task is done, and the client ends the manager.
\<close>

primrec x_run :: "'r rand \<Rightarrow> xevent list \<Rightarrow> 'r reactor \<Rightarrow> 'r reactor res" where
  "x_run rnd [] x = Inr x"
| "x_run rnd (e # es) x = bindR (x_step rnd e x) (x_run rnd es)"

text \<open>Events that owe nothing but true reports, and runs of such events.\<close>

fun threads_ok :: "xevent \<Rightarrow> 'r reactor \<Rightarrow> bool" where
  "threads_ok (XWait i us es) x = report_ok es (x_io x)"
| "threads_ok (XWork i locked) x = True"
| "threads_ok XAlloc x = True"
| "threads_ok XStopping x = True"
| "threads_ok XStop x = True"
| "threads_ok e x = False"

lemma threads_ok_ok: "threads_ok e x \<Longrightarrow> xevent_ok e x"
  by (cases e) simp_all

primrec x_run_ok :: "'r rand \<Rightarrow> xevent list \<Rightarrow> 'r reactor \<Rightarrow> bool" where
  "x_run_ok rnd [] x = True"
| "x_run_ok rnd (e # es) x = (threads_ok e x \<and>
     (case x_step rnd e x of Inl _ \<Rightarrow> False | Inr x' \<Rightarrow> x_run_ok rnd es x'))"

lemma x_run_reachable:
  "x_reachable rnd x \<Longrightarrow> x_run_ok rnd es x \<Longrightarrow> x_run rnd es x = Inr x' \<Longrightarrow> x_reachable rnd x'"
proof (induction es arbitrary: x)
  case (Cons e es)
  then obtain z where z: "x_step rnd e x = Inr z" "x_run_ok rnd es z" "threads_ok e x"
    by (auto split: sum.splits)
  have "x_reachable rnd z" by (rule x_next [OF Cons.prems(1) threads_ok_ok [OF z(3)] z(1)])
  then show ?case using Cons.IH [OF _ z(2)] Cons.prems(3) z(1) by simp
qed simp

abbreviation demo_XAdd :: xevent where
  "demo_XAdd \<equiv> XAdd 0 7 READ_EV demo_cb"

definition demo_ended :: "xevent list" where
  "demo_ended = [XWork 0 True, XWait 0 9 [(0, 7, EPOLLIN)], XAlloc, XWait 0 9 [], XWork 0 True,
     XWork 0 True, XStopping, XStop, XWork 0 True, XAlloc]"

definition x_demo :: "xevent list \<Rightarrow> nat reactor res" where
  "x_demo es = bindR (reactor_new 1 ''io'' 0 0) (\<lambda>x.
     bindR (x_step demo_rand demo_XAdd x) (x_run demo_rand es))"

definition x_demo_ok :: "xevent list \<Rightarrow> (nat reactor \<Rightarrow> bool) \<Rightarrow> bool" where
  "x_demo_ok es P = (case reactor_new 1 ''io'' 0 0 of Inl _ \<Rightarrow> False | Inr x \<Rightarrow>
     fiberIds (y_caller (x_sys x)) < - 1 \<and> slot_free 7 READ_EV (add_target 7 (x_io x)) \<and>
     (case x_step demo_rand demo_XAdd x of Inl _ \<Rightarrow> False | Inr x1 \<Rightarrow> x_run_ok demo_rand es x1 \<and>
       (case x_run demo_rand es x1 of Inl _ \<Rightarrow> False | Inr x2 \<Rightarrow> P x2)))"

lemma x_demo_reachable:
  assumes "x_demo_ok es P"
  obtains x where "x_reachable demo_rand x" and "P x"
proof -
  obtain x x1 x2 where n: "reactor_new 1 ''io'' 0 (0 :: nat) = Inr x"
    "fiberIds (y_caller (x_sys x)) < - 1" "slot_free 7 READ_EV (add_target 7 (x_io x))"
    "x_step demo_rand demo_XAdd x = Inr x1" "x_run_ok demo_rand es x1" "x_run demo_rand es x1 = Inr x2" "P x2"
    using assms unfolding x_demo_ok_def by (auto split: sum.splits simp del: x_step.simps)
  have "xevent_ok demo_XAdd x" using n(2,3) demo_calls by simp
  then have "x_reachable demo_rand x1" by (rule x_next [OF x_start [OF n(1)] _ n(4)])
  then show thesis using that x_run_reachable [OF _ n(5,6)] n(7) by blast
qed

text \<open>After the registration; with the worker in \<open>idle\<close>; and at the end.\<close>

lemma demo_added_check: "x_demo_ok [] (\<lambda>x. waits (x_io x) = {#2#} \<and> im_pending (x_io x) = 1 \<and>
    (case ctx_at 7 (x_io x) of Inl _ \<Rightarrow> False | Inr (p, c) \<Rightarrow> fc_events c AND READ_EV \<noteq> 0))"
  by code_simp

lemma demo_idle_check: "x_demo_ok [XWork 0 True] (\<lambda>x. x_idle x 0 \<and> length (g_workers (y_sched (x_sys x))) = 1 \<and>
    \<not> g_stop (y_sched (x_sys x)) \<and> w_count (wt_w (g_workers (y_sched (x_sys x)) ! 0)) = 0 \<and>
    length (g_tasks (y_sched (x_sys x))) = 0 \<and> report_ok [(0, 7, EPOLLIN)] (x_io x) \<and>
    reported (x_io x) (0, 7, EPOLLIN) = [2])"
  by code_simp

lemma demo_ended_check: "x_demo_ok demo_ended (\<lambda>x. this_fiber (y_caller (x_sys x)) \<noteq> None \<and>
    joins_return (y_sched (x_sys x)) \<and> (case ctx_at 7 (x_io x) of Inl _ \<Rightarrow> False | Inr (p, c) \<Rightarrow>
      ec_fiber (fc_read c) = Some 2) \<and> length (all_done (x_sys x)) = 1 \<and>
    (case IOManager_delete 0 (x_io x) (view (y_caller (x_sys x)) (x_sys x)) of None \<Rightarrow> False | Some r \<Rightarrow> True))"
  by code_simp

theorem reactor_safe_witness:
  "\<exists>x x'. x_reachable demo_rand x \<and> waits (x_io x) = {#2#} \<and> x_step demo_rand (XCancel 0 9 7 READ_EV) x = Inr x'"
proof -
  obtain x where x: "x_reachable demo_rand x" "waits (x_io x) = {#2#}"
    using x_demo_reachable [OF demo_added_check] by blast
  from reactor_safe [OF x(1), of "XCancel 0 9 7 READ_EV"] show ?thesis using x by auto
qed

theorem reactor_fibers_owned_witness:
  "\<exists>x b. x_reachable demo_rand x \<and> y_heap (x_sys x) 2 = Some b \<and> fb_refs b = 1 \<and> fb_state b = INIT"
proof -
  obtain x where x: "x_reachable demo_rand x" "waits (x_io x) = {#2#}"
    using x_demo_reachable [OF demo_added_check] by blast
  then show ?thesis using reactor_fibers_owned [OF x(1)] by (fastforce simp: not_in_iff)
qed

theorem idle_delivers_witness:
  "\<exists>x x'. x_reachable demo_rand x \<and> x_step demo_rand (XWait 0 9 [(0, 7, EPOLLIN)]) x = Inr x' \<and>
    g_tasks (y_sched (x_sys x')) = [Task_ctor 2 (-1) 5 9]"
proof -
  obtain x where x: "x_reachable demo_rand x" "x_idle x 0" "length (g_workers (y_sched (x_sys x))) = 1"
    "\<not> g_stop (y_sched (x_sys x))" "w_count (wt_w (g_workers (y_sched (x_sys x)) ! 0)) = 0"
    "length (g_tasks (y_sched (x_sys x))) = 0" "report_ok [(0, 7, EPOLLIN)] (x_io x)"
    "reported (x_io x) (0, 7, EPOLLIN) = [2]"
    using x_demo_reachable [OF demo_idle_check] by blast
  have "[2] = concat (map (reported (x_io x)) [(0, 7, EPOLLIN)])" using x(8) by simp
  from idle_delivers [OF x(1) refl x(7,2) _ x(4,5) this refl, of 9] show ?thesis
    using x(1,3,6) by auto
qed

theorem reactor_del_aborts_witness:
  "\<exists>x. x_reachable demo_rand x \<and> x_step demo_rand (XDel 0 7 READ_EV) x =
    Inl (AssertFail ''m_state == DESTROY || m_state == EXCEPT'')"
proof -
  obtain x where x: "x_reachable demo_rand x"
    "case ctx_at 7 (x_io x) of Inl _ \<Rightarrow> False | Inr (p, c) \<Rightarrow> fc_events c AND READ_EV \<noteq> 0"
    using x_demo_reachable [OF demo_added_check] by blast
  obtain p c where "ctx_at 7 (x_io x) = Inr (p, c)" "fc_events c AND READ_EV \<noteq> 0"
    using x(2) by (auto split: sum.splits)
  from reactor_del_aborts [OF x(1) _ this] show ?thesis using x(1) by blast
qed

theorem reactor_shutdown_witness:
  "\<exists>x m s. x_reachable demo_rand x \<and> length (all_done (x_sys x)) = 1 \<and>
    IOManager_delete 0 (x_io x) (view (y_caller (x_sys x)) (x_sys x)) = Some (Inr (m, s)) \<and>
    (\<forall>f. fheap s f = None \<longleftrightarrow> f \<notin># owners (x_sys x))"
proof -
  obtain x where x: "x_reachable demo_rand x" "this_fiber (y_caller (x_sys x)) \<noteq> None"
    "length (all_done (x_sys x)) = 1" "case IOManager_delete 0 (x_io x) (view (y_caller (x_sys x)) (x_sys x))
      of None \<Rightarrow> False | Some r \<Rightarrow> True"
    using x_demo_reachable [OF demo_ended_check] by blast
  from reactor_shutdown [OF x(1) refl x(2)] show ?thesis
    using x(1,3,4) by (auto split: option.splits)
qed

end
