(* ===== verification/Deliveries.thy ===== *)
theory Deliveries
  imports Reactors Progress
begin

text \<open>
  From the report of an event to the end of its callback: the kernel's report is handled in
  \<open>IOManager::idle\<close> (\<open>sylar/iomanager.cpp\<close>), the fiber becomes a task, the allocation thread gives
  it to a worker, and the worker (\<open>sylar/scheduler.cpp\<close>) runs it until it returns.
\<close>

section \<open>The fibers that are handed over\<close>

definition yields_at :: "(ptr \<Rightarrow> nat) \<Rightarrow> 'r sys \<Rightarrow> ptr \<Rightarrow> bool" where
  "yields_at k y f = (case y_heap y f of None \<Rightarrow> False | Some b \<Rightarrow> yields_for (k f) b)"

lemma handed_calm:
  assumes c: "calm k y" and f: "yields_at k y f" and room: "length (g_tasks (y_sched y)) < 10000"
  shows "calm k (handed us f y) \<and> left k (handed us f y) = left k y + Suc (k f)"
proof -
  let ?y = "handed us f y"
  obtain b where b: "y_heap y f = Some b" "yields_for (k f) b"
    using f by (auto simp: yields_at_def split: option.splits)
  have h: "y_heap ?y = (y_heap y)(f \<mapsto> b\<lparr>fb_refs := Suc (fb_refs b)\<rparr>)"
    using room by (simp add: handed_heap [OF b(1)])
  have yb: "yields_for n (b\<lparr>fb_refs := r\<rparr>) = yields_for n b" for n r
    by (simp add: yields_for_def split: option.split)
  have at: "all_tasks ?y = add_mset (Task_ctor f (-1) 5 us) (all_tasks y)"
    using room b(1) by (simp add: all_tasks_def handed_tasks)
  have "case y_heap ?y (tk_fiber tk) of None \<Rightarrow> False | Some c \<Rightarrow> yields_for (k (tk_fiber tk)) c"
    if "tk \<in># all_tasks y" for tk
    using c that b(1) by (cases "tk_fiber tk = f") (auto simp: calm_def willing_def h yb)
  then have "willing k (y_heap ?y) (all_tasks ?y)"
    using b(2) by (auto simp: willing_def at h yb Task_ctor_def)
  then have "calm k ?y" using c by (simp add: calm_def)
  moreover have "left k ?y = left k y + Suc (k f)" by (simp add: left_def at Task_ctor_def)
  ultimately show ?thesis by blast
qed

lemma fold_handed_calm:
  "calm k y \<Longrightarrow> distinct fs \<Longrightarrow> \<forall>f \<in> set fs. yields_at k y f \<Longrightarrow>
    length (g_tasks (y_sched y)) + length fs \<le> 10000 \<Longrightarrow>
    calm k (fold (handed us) fs y) \<and>
    left k (fold (handed us) fs y) = left k y + (\<Sum>f \<leftarrow> fs. Suc (k f)) \<and>
    y_accepted (fold (handed us) fs y) = y_accepted y @ map (\<lambda>f. Task_ctor f (-1) 5 us) fs"
proof (induction fs arbitrary: y)
  case (Cons f fs)
  have room: "length (g_tasks (y_sched y)) < 10000" and f: "yields_at k y f" using Cons.prems by simp_all
  note h = handed_calm [OF Cons.prems(1) f room, of us]
  have n: "y_heap y f \<noteq> None" using f by (auto simp: yields_at_def split: option.splits)
  have "yields_at k (handed us f y) g" if "g \<in> set fs" for g
  proof -
    have "g \<noteq> f" using Cons.prems(2) that by auto
    then show ?thesis using Cons.prems(3) that by (simp add: yields_at_def handed_other)
  qed
  then have "calm k (fold (handed us) fs (handed us f y)) \<and>
      left k (fold (handed us) fs (handed us f y)) = left k (handed us f y) + (\<Sum>f \<leftarrow> fs. Suc (k f)) \<and>
      y_accepted (fold (handed us) fs (handed us f y)) =
        y_accepted (handed us f y) @ map (\<lambda>f. Task_ctor f (-1) 5 us) fs"
    using Cons.IH [of "handed us f y"] h Cons.prems(2,4) room n by (simp add: handed_tasks)
  moreover have "y_accepted (handed us f y) = y_accepted y @ [Task_ctor f (-1) 5 us]"
    using room n by (auto simp: handed_def Let_def)
  ultimately show ?case using h by simp
qed simp

section \<open>Fair schedules of the manager\<close>

lemma x_run_append: "x_run rnd (es @ fs) x = bindR (x_run rnd es x) (x_run rnd fs)"
proof (induction es arbitrary: x)
  case (Cons e es)
  then show ?case by (cases "x_step rnd e x") simp_all
qed simp

lemma with_sys_sys [simp]: "x_sys (with_sys y x) = y"
  by (simp add: with_sys_def)

text \<open>
  A round of the manager's threads: turns of the allocation thread, of the workers (with any answer
  of \<open>trylock\<close>), returns of \<open>epoll_wait\<close> without reports, and the clock, in any order. It is fair
  when after an iteration of the allocation thread every worker has come back from a wait and has
  then had a turn in which it gets its lock.
\<close>

fun x_turn_event :: "xevent \<Rightarrow> bool" where
  "x_turn_event XAlloc = True"
| "x_turn_event (XWork i locked) = True"
| "x_turn_event (XWait i us es) = (es = [])"
| "x_turn_event (XTick t) = True"
| "x_turn_event e = False"

fun waits_at :: "nat \<Rightarrow> xevent \<Rightarrow> bool" where
  "waits_at i (XWait j us es) = (j = i)"
| "waits_at i e = False"

definition x_fair_round :: "nat \<Rightarrow> xevent list \<Rightarrow> bool" where
  "x_fair_round m es = (list_all x_turn_event es \<and>
     (\<forall>i < m. XWork i True \<in> set (after (waits_at i) (after (\<lambda>e. e = XAlloc) es))))"

text \<open>What a step leaves of a worker with tasks, when it does none of the work that is left.\<close>

definition still_busy :: "xevent \<Rightarrow> 'r reactor \<Rightarrow> 'r reactor \<Rightarrow> nat \<Rightarrow> bool" where
  "still_busy e x x' j = (busy j (x_sys x') \<and> (x_idle x' j \<longrightarrow> x_idle x j) \<and>
     (waits_at j e \<longrightarrow> \<not> x_idle x' j) \<and> (e = XWork j True \<longrightarrow> x_idle x j))"

definition x_onward :: "(ptr \<Rightarrow> nat) \<Rightarrow> 'r reactor \<Rightarrow> (ptr \<Rightarrow> nat) \<Rightarrow> 'r reactor \<Rightarrow> bool" where
  "x_onward k x k' x' = (x_inv x' \<and> onward k (x_sys x) k' (x_sys x'))"

lemma x_onward_refl: "x_inv x \<Longrightarrow> calm k (x_sys x) \<Longrightarrow> x_onward k x k x"
  using onward_refl [OF x_invD(4)] by (simp add: x_onward_def)

lemma x_onward_trans: "x_onward k x k1 x1 \<Longrightarrow> x_onward k1 x1 k2 x2 \<Longrightarrow> x_onward k x k2 x2"
  using onward_trans by (auto simp: x_onward_def)

lemma x_onwardD:
  assumes "x_onward k x k' x'"
  shows "x_inv x'" and "sys_inv (x_sys x')" and "calm k' (x_sys x')"
    and "y_accepted (x_sys x') = y_accepted (x_sys x)"
    and "length (g_workers (y_sched (x_sys x'))) = length (g_workers (y_sched (x_sys x)))"
    and "left k' (x_sys x') \<le> left k (x_sys x)"
  using assms onwardD [of k "x_sys x" k' "x_sys x'"] unfolding x_onward_def by simp_all

lemma x_work_calm:
  assumes x: "x_inv x" and c: "calm k (x_sys x)"
  shows "\<exists>x' k'. x_step rnd (XWork i b) x = Inr x' \<and> x_onward k x k' x' \<and>
    (\<forall>j < length (g_workers (y_sched (x_sys x))). busy j (x_sys x) \<longrightarrow>
      left k' (x_sys x') < left k (x_sys x) \<or> still_busy (XWork i b) x x' j)"
proof -
  let ?y = "x_sys x" and ?g = "y_sched (x_sys x)"
  consider "x_idle x i" | "\<not> x_idle x i" "length (g_workers ?g) \<le> i"
    | "\<not> x_idle x i" "i < length (g_workers ?g)" "w_count (wt_w (g_workers ?g ! i)) = 0"
    | "\<not> x_idle x i" "i < length (g_workers ?g)" "w_count (wt_w (g_workers ?g ! i)) \<noteq> 0" by fastforce
  then show ?thesis
  proof cases
    case 1
    then have "x_step rnd (XWork i b) x = Inr x" by (simp add: x_work_def Let_def)
    then show ?thesis using x_onward_refl [OF x c] 1 by (auto simp: still_busy_def)
  next
    case 2
    then have w: "work_step rnd i b ?y = Inr ?y" by (simp add: work_step_def)
    then have "x_step rnd (XWork i b) x = Inr (with_sys ?y x)" using 2 by (simp add: x_work_def Let_def)
    moreover have "x_inv (with_sys ?y x)" using sys_step_x [OF x, of "Work i b" rnd] w by auto
    ultimately show ?thesis using onward_refl [OF x_invD(4) [OF x] c] 2
      by (auto simp: still_busy_def x_onward_def with_sys_def)
  next
    case 3
    let ?x = "x\<lparr>x_idle := (x_idle x)(i := True)\<rparr>"
    have "\<not> g_stop ?g" "\<not> wt_exited (g_workers ?g ! i)" using c nth_mem [OF 3(2)] by (auto simp: calm_def)
    then have s: "x_step rnd (XWork i b) x = Inr ?x" using 3 by (simp add: x_work_def Let_def)
    have "\<not> busy i ?y"
      using 3 sys_invD(4) [OF x_invD(4) [OF x] nth_mem [OF 3(2)]] by (simp add: busy_def thread_inv_def)
    moreover have "x_onward k x k ?x" using x_onward_refl [OF x c] by (simp add: x_onward_def x_inv_def)
    ultimately show ?thesis using s by (auto simp: still_busy_def)
  next
    case 4
    obtain y' k' where w: "work_step rnd i b ?y = Inr y'" "onward k ?y k' y'"
      "\<forall>j. busy j ?y \<longrightarrow> left k' y' < left k ?y \<or> busy j y' \<and> \<not> (j = i \<and> b)"
      using work_calm [OF x_invD(4) [OF x] c 4(2), of rnd b] by blast
    have "x_inv (with_sys y' x)" using sys_step_x [OF x, of "Work i b" rnd] w(1) by auto
    moreover have "x_step rnd (XWork i b) x = Inr (with_sys y' x)"
      using 4 w(1) by (simp add: x_work_def Let_def)
    ultimately show ?thesis using w(2,3) by (auto simp: x_onward_def still_busy_def with_sys_def)
  qed
qed

lemma x_wait_calm:
  assumes x: "x_inv x" and c: "calm k (x_sys x)"
  shows "\<exists>x'. x_step rnd (XWait i us []) x = Inr x' \<and> x_onward k x k x' \<and>
    (\<forall>j < length (g_workers (y_sched (x_sys x))). busy j (x_sys x) \<longrightarrow> still_busy (XWait i us []) x x' j)"
proof -
  let ?g = "y_sched (x_sys x)"
  consider "\<not> x_idle x i \<or> length (g_workers ?g) \<le> i"
    | "x_idle x i" "i < length (g_workers ?g)" "w_count (wt_w (g_workers ?g ! i)) = 0"
    | "x_idle x i" "i < length (g_workers ?g)" "w_count (wt_w (g_workers ?g ! i)) \<noteq> 0" by fastforce
  then show ?thesis
  proof cases
    case 1
    then have "x_step rnd (XWait i us []) x = Inr x" by (auto simp: x_wait_def Let_def)
    then show ?thesis using x_onward_refl [OF x c] 1 by (auto simp: still_busy_def)
  next
    case 2
    have g: "\<not> g_stop ?g" using c by (simp add: calm_def)
    have "report_ok [] (x_io x)" by (simp add: report_ok_def)
    from x_wait_ok [OF x this 2(1,2) g 2(3) refl, of us]
    obtain m where m: "x_wait i us [] x = Inr (x\<lparr>x_sys := x_sys x, x_io := m\<rparr>)"
      "x_inv (x\<lparr>x_sys := x_sys x, x_io := m\<rparr>)" by auto
    have "\<not> busy i (x_sys x)"
      using 2 sys_invD(4) [OF x_invD(4) [OF x] nth_mem [OF 2(2)]] by (simp add: busy_def thread_inv_def)
    then show ?thesis using m x_onward_refl [OF x c] by (auto simp: still_busy_def x_onward_def)
  next
    case 3
    let ?x = "x\<lparr>x_idle := (x_idle x)(i := False)\<rparr>"
    have "x_wait i us [] x = Inr ?x" using 3 by (simp add: x_wait_def Let_def idle_iter_def isIdle_def)
    moreover have "x_onward k x k ?x" using x_onward_refl [OF x c] by (simp add: x_onward_def x_inv_def)
    ultimately show ?thesis by (auto simp: still_busy_def)
  qed
qed

lemma x_step_calm:
  assumes x: "x_inv x" and c: "calm k (x_sys x)" and e: "x_turn_event e"
  shows "\<exists>x' k'. x_step rnd e x = Inr x' \<and> x_onward k x k' x' \<and>
    (\<forall>j < length (g_workers (y_sched (x_sys x))). busy j (x_sys x) \<longrightarrow>
      left k' (x_sys x') < left k (x_sys x) \<or> still_busy e x x' j)"
proof (cases e)
  case XAlloc
  have "x_inv (with_sys (alloc_step (x_sys x)) x)" using sys_step_x [OF x, of Alloc rnd] by auto
  then show ?thesis using XAlloc alloc_calm [OF x_invD(4) [OF x] c]
    by (auto simp: x_onward_def still_busy_def with_sys_def intro!: exI [of _ k])
next
  case (XWork i b)
  then show ?thesis using x_work_calm [OF x c] by blast
next
  case (XWait i us es)
  then have "es = []" using e by simp
  then show ?thesis using x_wait_calm [OF x c, of rnd i us] XWait by blast
next
  case (XTick t)
  obtain y' k' where t: "sys_step rnd (Tick t) (x_sys x) = Inr y'" "onward k (x_sys x) k' y'"
    "\<forall>j. busy j (x_sys x) \<longrightarrow> left k' y' < left k (x_sys x) \<or> busy j y'"
    using step_calm [OF x_invD(4) [OF x] c, of "Tick t" rnd] by auto
  have "x_inv (with_sys y' x)" using sys_step_x [OF x, of "Tick t" rnd] t(1) by auto
  then show ?thesis using XTick t
    by (intro exI [of _ "with_sys y' x"] exI [of _ k']) (auto simp: x_onward_def still_busy_def with_sys_def)
qed (use e in auto)

text \<open>A worker with tasks that has left \<open>idle\<close> stays outside until it has done a slice.\<close>

lemma x_run_calm:
  "x_inv x \<Longrightarrow> calm k (x_sys x) \<Longrightarrow> list_all x_turn_event es \<Longrightarrow>
    \<exists>x' k'. x_run rnd es x = Inr x' \<and> x_onward k x k' x' \<and>
      (\<forall>j < length (g_workers (y_sched (x_sys x))). busy j (x_sys x) \<longrightarrow>
        left k' (x_sys x') < left k (x_sys x) \<or>
        busy j (x_sys x') \<and> (\<not> x_idle x j \<longrightarrow> \<not> x_idle x' j \<and> XWork j True \<notin> set es))"
proof (induction es arbitrary: x k)
  case Nil
  then show ?case using x_onward_refl by fastforce
next
  case (Cons e es)
  let ?n = "length (g_workers (y_sched (x_sys x)))"
  obtain x1 k1 where 1: "x_step rnd e x = Inr x1" "x_onward k x k1 x1"
    "\<forall>j < ?n. busy j (x_sys x) \<longrightarrow> left k1 (x_sys x1) < left k (x_sys x) \<or> still_busy e x x1 j"
    using x_step_calm [OF Cons.prems(1,2), of e rnd] Cons.prems(3) by auto
  have o: "x_inv x1" "calm k1 (x_sys x1)" "length (g_workers (y_sched (x_sys x1))) = ?n"
    "left k1 (x_sys x1) \<le> left k (x_sys x)"
    using x_onwardD [OF 1(2)] by auto
  obtain x' k' where 2: "x_run rnd es x1 = Inr x'" "x_onward k1 x1 k' x'"
    "\<forall>j < ?n. busy j (x_sys x1) \<longrightarrow> left k' (x_sys x') < left k1 (x_sys x1) \<or>
      busy j (x_sys x') \<and> (\<not> x_idle x1 j \<longrightarrow> \<not> x_idle x' j \<and> XWork j True \<notin> set es)"
    using Cons.IH [OF o(1,2)] Cons.prems(3) unfolding o(3) by auto
  have "left k' (x_sys x') < left k (x_sys x) \<or>
      busy j (x_sys x') \<and> (\<not> x_idle x j \<longrightarrow> \<not> x_idle x' j \<and> XWork j True \<notin> set (e # es))"
    if j: "j < ?n" "busy j (x_sys x)" for j
  proof (cases "left k1 (x_sys x1) < left k (x_sys x)")
    case True
    then show ?thesis using x_onwardD(6) [OF 2(2)] by simp
  next
    case False
    then have "still_busy e x x1 j" using 1(3) j by blast
    then show ?thesis using 2(3) j(1) o(4) by (fastforce simp: still_busy_def)
  qed
  then show ?case using 1(1) 2(1) x_onward_trans [OF 1(2) 2(2)] by auto
qed

lemma x_turn_does:
  assumes x: "x_inv x" and c: "calm k (x_sys x)" and t: "list_all x_turn_event es"
    and j: "j < length (g_workers (y_sched (x_sys x)))" "busy j (x_sys x)"
    and w: "XWork j True \<in> set (after (waits_at j) es)"
  shows "\<exists>x' k'. x_run rnd es x = Inr x' \<and> x_onward k x k' x' \<and> left k' (x_sys x') < left k (x_sys x)"
proof -
  let ?n = "length (g_workers (y_sched (x_sys x)))"
  define cs where "cs = after (waits_at j) es"
  obtain bs e where es: "es = bs @ e # cs" and e: "waits_at j e"
    using after_split [OF w] unfolding cs_def by blast
  have ts: "list_all x_turn_event bs" "x_turn_event e" "list_all x_turn_event cs" using t unfolding es by simp_all
  obtain x1 k1 where 1: "x_run rnd bs x = Inr x1" "x_onward k x k1 x1"
    "left k1 (x_sys x1) < left k (x_sys x) \<or> busy j (x_sys x1)"
    using x_run_calm [OF x c ts(1), of rnd] j by blast
  have o1: "x_inv x1" "calm k1 (x_sys x1)" "length (g_workers (y_sched (x_sys x1))) = ?n"
    "left k1 (x_sys x1) \<le> left k (x_sys x)" using x_onwardD [OF 1(2)] by auto
  obtain x2 k2 where 2: "x_step rnd e x1 = Inr x2" "x_onward k1 x1 k2 x2"
    "busy j (x_sys x1) \<longrightarrow> left k2 (x_sys x2) < left k1 (x_sys x1) \<or> still_busy e x1 x2 j"
    using x_step_calm [OF o1(1,2) ts(2), of rnd] j(1) o1(3) by metis
  have o2: "x_inv x2" "calm k2 (x_sys x2)" "length (g_workers (y_sched (x_sys x2))) = ?n"
    "left k2 (x_sys x2) \<le> left k1 (x_sys x1)" using x_onwardD [OF 2(2)] o1(3) by auto
  obtain x' k' where 3: "x_run rnd cs x2 = Inr x'" "x_onward k2 x2 k' x'"
    "busy j (x_sys x2) \<longrightarrow> left k' (x_sys x') < left k2 (x_sys x2) \<or>
      busy j (x_sys x') \<and> (\<not> x_idle x2 j \<longrightarrow> \<not> x_idle x' j \<and> XWork j True \<notin> set cs)"
    using x_run_calm [OF o2(1,2) ts(3), of rnd] j(1) o2(3) by metis
  have "left k' (x_sys x') \<le> left k2 (x_sys x2)" using x_onwardD [OF 3(2)] by blast
  then have "left k' (x_sys x') < left k (x_sys x)"
    using 1(3) 2(3) 3(3) o1(4) o2(4) e w by (auto simp: still_busy_def cs_def [symmetric])
  moreover have "x_run rnd es x = Inr x'" using 1(1) 2(1) 3(1) es by (simp add: x_run_append)
  ultimately show ?thesis using x_onward_trans [OF x_onward_trans [OF 1(2) 2(2)] 3(2)] by blast
qed

lemma x_fair_round_calm:
  assumes x: "x_inv x" and c: "calm k (x_sys x)" and f: "x_fair_round (length (g_workers (y_sched (x_sys x)))) es"
  shows "\<exists>x' k'. x_run rnd es x = Inr x' \<and> x_onward k x k' x' \<and> left k' (x_sys x') \<le> left k (x_sys x) - 1"
proof -
  let ?m = "length (g_workers (y_sched (x_sys x)))"
  define bs where "bs = after (\<lambda>e. e = XAlloc) es"
  have "0 < ?m" using c by (simp add: calm_def)
  then have "XWork 0 True \<in> set (after (waits_at 0) bs)" using f by (simp add: x_fair_round_def bs_def)
  then have "bs \<noteq> []" by (auto simp: after_def)
  then obtain z where "z \<in> set bs" by (cases bs) auto
  then obtain as where es: "es = as @ XAlloc # bs" unfolding bs_def by (auto elim: after_split)
  have t: "list_all x_turn_event as" "list_all x_turn_event bs"
    using f es unfolding x_fair_round_def by (metis list_all_append list.pred_inject(2))+
  obtain x1 k1 where 1: "x_run rnd as x = Inr x1" "x_onward k x k1 x1"
    using x_run_calm [OF x c t(1), of rnd] by blast
  have o: "x_inv x1" "calm k1 (x_sys x1)" "length (g_workers (y_sched (x_sys x1))) = ?m"
    "left k1 (x_sys x1) \<le> left k (x_sys x)" using x_onwardD [OF 1(2)] by auto
  let ?x = "with_sys (alloc_step (x_sys x1)) x1"
  note a = alloc_calm [OF x_invD(4) [OF o(1)] o(2)]
  have ix: "x_inv ?x" using sys_step_x [OF o(1), of Alloc rnd] by auto
  have xo: "x_onward k1 x1 k1 ?x" using a ix by (simp add: x_onward_def)
  have cx: "calm k1 (x_sys ?x)" "length (g_workers (y_sched (x_sys ?x))) = ?m"
    "left k1 (x_sys ?x) \<le> left k1 (x_sys x1)"
    using x_onwardD [OF xo] o(3) by simp_all
  have "\<exists>x' k'. x_run rnd bs ?x = Inr x' \<and> x_onward k1 ?x k' x' \<and> left k' (x_sys x') \<le> left k (x_sys x) - 1"
  proof (cases "all_tasks (x_sys x1) = {#}")
    case True
    obtain x' k' where "x_run rnd bs ?x = Inr x'" "x_onward k1 ?x k' x'"
      using x_run_calm [OF ix cx(1) t(2), of rnd] by blast
    moreover from this have "left k' (x_sys x') \<le> left k1 (x_sys ?x)" using x_onwardD(6) by blast
    ultimately show ?thesis using cx(3) True left_0 [of k1 "x_sys x1"] by auto
  next
    case False
    then obtain j where j: "j < ?m" "busy j (x_sys ?x)" using a o(3) by auto
    then have "XWork j True \<in> set (after (waits_at j) bs)" using f by (simp add: x_fair_round_def bs_def)
    then obtain x' k' where "x_run rnd bs ?x = Inr x'" "x_onward k1 ?x k' x'" "left k' (x_sys x') < left k1 (x_sys ?x)"
      using x_turn_does [OF ix cx(1) t(2) _ j(2)] j(1) cx(2) by metis
    then show ?thesis using cx(3) o(4) by fastforce
  qed
  then obtain x' k' where 2: "x_run rnd bs ?x = Inr x'" "x_onward k1 ?x k' x'"
    "left k' (x_sys x') \<le> left k (x_sys x) - 1" by blast
  have "x_run rnd es x = Inr x'" using 1(1) 2(1) unfolding es by (simp add: x_run_append)
  then show ?thesis using x_onward_trans [OF x_onward_trans [OF 1(2) xo] 2(2)] 2(3) by blast
qed

lemma x_fair_rounds_calm:
  "x_inv x \<Longrightarrow> calm k (x_sys x) \<Longrightarrow> left k (x_sys x) \<le> length rs \<Longrightarrow>
    list_all (x_fair_round (length (g_workers (y_sched (x_sys x))))) rs \<Longrightarrow>
    \<exists>x' k'. x_run rnd (concat rs) x = Inr x' \<and> x_onward k x k' x' \<and> all_tasks (x_sys x') = {#}"
proof (induction rs arbitrary: x k)
  case Nil
  then show ?case using x_onward_refl [of x k] by (auto simp: left_0 intro!: exI [of _ k])
next
  case (Cons es rs)
  obtain x1 k1 where 1: "x_run rnd es x = Inr x1" "x_onward k x k1 x1" "left k1 (x_sys x1) \<le> left k (x_sys x) - 1"
    using x_fair_round_calm [OF Cons.prems(1,2), of es rnd] Cons.prems(4) by auto
  have o: "x_inv x1" "calm k1 (x_sys x1)" "left k1 (x_sys x1) \<le> length rs"
    "list_all (x_fair_round (length (g_workers (y_sched (x_sys x1))))) rs"
    using 1(3) Cons.prems(3,4) x_onwardD [OF 1(2)] by auto
  from Cons.IH [OF o] obtain x' k' where
    "x_run rnd (concat rs) x1 = Inr x'" "x_onward k1 x1 k' x'" "all_tasks (x_sys x') = {#}" by blast
  then show ?case using 1(1) x_onward_trans [OF 1(2)] by (auto simp: x_run_append)
qed

section \<open>Properties\<close>

text \<open>
  C3. Events are served, under any fair schedule. Let a worker that waits in \<open>idle\<close> be told of ready
  descriptors that are registered (\<open>report_ok\<close>), let there be room in the queue of the scheduler for
  all the fibers that wait for them (\<open>idle_delivers\<close> says what happens otherwise), let the scheduler
  run with no task asleep or held, and let the callbacks of these fibers and of every task already
  queued return after known numbers of yields (\<open>calm\<close>, \<open>yields_at\<close>). Then after as many fair rounds
  of the threads as there are slices left, in which nothing else is reported, submitted or stopped,
  the fiber of every reported event has run to its end, and so have all tasks accepted before.
\<close>

theorem reported_events_served:
  assumes "x_reachable rnd x" and "y = x_sys x" and "report_ok es (x_io x)" and "x_idle x i"
    and "i < length (g_workers (y_sched y))" and "w_count (wt_w (g_workers (y_sched y) ! i)) = 0"
    and "calm k y" and "fs = concat (map (reported (x_io x)) es)" and "\<forall>f \<in> set fs. yields_at k y f"
    and "length (g_tasks (y_sched y)) + length fs \<le> 10000"
    and "left k y + (\<Sum>f \<leftarrow> fs. Suc (k f)) \<le> length rs"
    and "list_all (x_fair_round (length (g_workers (y_sched y)))) rs"
  shows "\<exists>x'. x_run rnd (XWait i us es # concat rs) x = Inr x' \<and>
    mset (all_done (x_sys x')) = mset (y_accepted y @ map (\<lambda>f. Task_ctor f (-1) 5 us) fs) \<and>
    (\<forall>f b. f \<in> set fs \<and> y_heap (x_sys x') f = Some b \<longrightarrow> fiber_ended b)"
proof -
  note x = x_reachable_inv [OF assms(1)]
  note j = x_invD(1) [OF x]
  let ?y = "fold (handed us) fs y"
  have st: "\<not> g_stop (y_sched y)" using assms(7) by (simp add: calm_def)
  obtain io where io: "x_wait i us es x = Inr (x\<lparr>x_sys := ?y, x_io := io\<rparr>)"
    "x_inv (x\<lparr>x_sys := ?y, x_io := io\<rparr>)" "waits (x_io x) = mset fs + waits io"
    by (rule x_wait_ok [OF x assms(3,4) _ _ _ refl, of us]) (use assms(2,5,6,8) st in auto)
  have d: "distinct fs" by (rule waits_distinct [OF j]) (simp add: io(3))
  note h = fold_handed_calm [OF assms(7) d assms(9,10), of us]
  let ?x = "x\<lparr>x_sys := ?y, x_io := io\<rparr>"
  have ws: "list_all (x_fair_round (length (g_workers (y_sched (x_sys ?x))))) rs"
    using fold_extends [of y us fs] assms(12) by (auto simp: extends_def)
  have l: "left k (x_sys ?x) \<le> length rs" using h assms(11) by simp
  obtain x' k' where x': "x_run rnd (concat rs) ?x = Inr x'" "x_onward k ?x k' x'" "all_tasks (x_sys x') = {#}"
    using x_fair_rounds_calm [OF io(2) _ l ws, of rnd] h by auto
  let ?y' = "x_sys x'"
  have y': "sys_inv ?y'" "y_accepted ?y' = y_accepted ?y" using x_onwardD [OF x'(2)] by simp_all
  have "mset (all_done ?y') = mset (y_accepted ?y')"
    using sys_invD(6) [OF y'(1)] x'(3) by (auto simp: conserved_def parts_done all_tasks_def)
  then have a: "mset (all_done ?y') = mset (y_accepted y @ map (\<lambda>f. Task_ctor f (-1) 5 us) fs)"
    using y'(2) h by simp
  have "fiber_ended b" if f: "f \<in> set fs" "y_heap ?y' f = Some b" for f b
  proof -
    have "Task_ctor f (-1) 5 us \<in># mset (all_done ?y')" using f(1) unfolding a by simp
    then obtain wt where "wt \<in> set (g_workers (y_sched ?y'))" "Task_ctor f (-1) 5 us \<in> set (w_done (wt_w wt))"
      by (auto simp: all_done_def)
    then show ?thesis using sys_invD(7) [OF y'(1)] f(2) by (fastforce simp: done_ok_def Task_ctor_def)
  qed
  then show ?thesis using io(1) x'(1) a by auto
qed

section \<open>An instance\<close>

text \<open>The descriptor the client has registered becomes ready, and its callback yields once.\<close>

definition demo_ready :: "nat reactor \<Rightarrow> bool" where
  "demo_ready x = (x_idle x 0 \<and> report_ok [(0, 7, EPOLLIN)] (x_io x) \<and>
    reported (x_io x) (0, 7, EPOLLIN) = [2] \<and> \<not> g_stop (y_sched (x_sys x)) \<and> \<not> g_alloc_exited (y_sched (x_sys x)) \<and>
    g_tasks (y_sched (x_sys x)) = [] \<and> y_accepted (x_sys x) = [] \<and>
    map (\<lambda>wt. (wt_exited wt, w_count (wt_w wt), t_init (wt_w wt), t_ready (wt_w wt), t_sleep (wt_w wt), t_hold (wt_w wt)))
      (g_workers (y_sched (x_sys x))) = [(False, 0, [], [], [], [])] \<and>
    (case y_heap (x_sys x) 2 of None \<Rightarrow> False | Some b \<Rightarrow> case fb_cb b of None \<Rightarrow> False
       | Some cb \<Rightarrow> cb (fb_pc b) = CallYield \<and> cb (Suc (fb_pc b)) = CallReturn))"

lemma demo_ready_check: "x_demo_ok [XWork 0 True] demo_ready"
  by code_simp

text \<open>Two fair rounds that are no round robin.\<close>

definition demo_rounds :: "xevent list list" where
  "demo_rounds = [[XWork 0 True, XAlloc, XTick 3, XWork 0 False, XWait 0 9 [], XWork 0 False, XWork 0 True],
     [XWork 0 False, XAlloc, XAlloc, XWait 0 8 [], XWork 0 True, XWait 0 9 []]]"

lemma demo_rounds_fair: "list_all (x_fair_round 1) demo_rounds"
  by (simp add: demo_rounds_def x_fair_round_def after_def)

theorem reported_events_served_witness:
  "\<exists>x x' tk. x_reachable demo_rand x \<and>
    x_run demo_rand (XWait 0 9 [(0, 7, EPOLLIN)] # concat demo_rounds) x = Inr x' \<and>
    all_done (x_sys x) = [] \<and> all_done (x_sys x') = [tk] \<and> tk_fiber tk = 2"
proof -
  obtain x where r: "x_reachable demo_rand x" and x: "demo_ready x" by (rule x_demo_reachable [OF demo_ready_check])
  have f: "x_idle x 0" "report_ok [(0, 7, EPOLLIN)] (x_io x)"
    "reported (x_io x) (0, 7, EPOLLIN) = [2]" "\<not> g_stop (y_sched (x_sys x))" "\<not> g_alloc_exited (y_sched (x_sys x))"
    "g_tasks (y_sched (x_sys x)) = []" "y_accepted (x_sys x) = []"
    "map (\<lambda>wt. (wt_exited wt, w_count (wt_w wt), t_init (wt_w wt), t_ready (wt_w wt), t_sleep (wt_w wt), t_hold (wt_w wt)))
      (g_workers (y_sched (x_sys x))) = [(False, 0, [], [], [], [])]"
    "case y_heap (x_sys x) 2 of None \<Rightarrow> False | Some b \<Rightarrow> case fb_cb b of None \<Rightarrow> False
       | Some cb \<Rightarrow> cb (fb_pc b) = CallYield \<and> cb (Suc (fb_pc b)) = CallReturn"
    using x unfolding demo_ready_def by blast+
  obtain wt where wt: "g_workers (y_sched (x_sys x)) = [wt]" "\<not> wt_exited wt" "w_count (wt_w wt) = 0"
    "t_init (wt_w wt) = []" "t_ready (wt_w wt) = []" "t_sleep (wt_w wt) = []" "t_hold (wt_w wt) = []"
    using f(8) by auto
  have at: "all_tasks (x_sys x) = {#}" by (simp add: all_tasks_def f(6) wt parts_def tasks_of_def)
  have c: "calm (\<lambda>_. 1) (x_sys x)" using f(4,5) wt at by (simp add: calm_def willing_def)
  have y: "\<forall>g \<in> set [2]. yields_at (\<lambda>_. 1) (x_sys x) g"
    using f(9) by (auto simp: yields_at_def yields_for_def split: option.splits)
  have fs: "[2] = concat (map (reported (x_io x)) [(0, 7, EPOLLIN)])" using f(3) by simp
  have n: "left (\<lambda>_. 1) (x_sys x) + (\<Sum>g \<leftarrow> [2 :: nat]. Suc 1) \<le> length demo_rounds"
    by (simp add: left_def at demo_rounds_def)
  have "mset (all_done (x_sys x)) = {#}"
    using sys_invD(6) [OF x_invD(4) [OF x_reachable_inv [OF r]]] f(7) by (simp add: conserved_def parts_done)
  then have d: "all_done (x_sys x) = []" by simp
  have 1: "list_all (x_fair_round (length (g_workers (y_sched (x_sys x))))) demo_rounds"
    using demo_rounds_fair by (simp add: wt)
  have i: "0 < length (g_workers (y_sched (x_sys x)))" "w_count (wt_w (g_workers (y_sched (x_sys x)) ! 0)) = 0"
    "length (g_tasks (y_sched (x_sys x))) + length [2 :: nat] \<le> 10000" using wt f(6) by simp_all
  note served = reported_events_served [OF r refl f(2,1) i(1,2) c fs y i(3) n 1, of 9]
  then obtain x' where x': "x_run demo_rand (XWait 0 9 [(0, 7, EPOLLIN)] # concat demo_rounds) x = Inr x'"
    "mset (all_done (x_sys x')) = mset (y_accepted (x_sys x) @ map (\<lambda>f. Task_ctor f (-1) 5 9) [2])"
    by blast
  have "all_done (x_sys x') = [Task_ctor 2 (-1) 5 9]" using x'(2) f(7) by simp
  then show ?thesis using r x'(1) d by (intro exI conjI) (assumption | simp add: Task_ctor_def)+
qed

end
