(* ===== verification/OSets.thy ===== *)
theory OSets
  imports Prelude
begin

text \<open>
  \<open>std::set\<close> with a comparison object, as the timers use it: the elements in the order of the
  comparison, iterators as positions in that order. A search takes the first element that is
  not before the one searched for, and the element is present when neither comes before the
  other. The laws hold for a comparison that is a strict linear order on the elements the set
  may hold; they are stated in the locale \<open>strict_order\<close>.
\<close>

section \<open>Operations\<close>

definition oset_lower :: "('a \<Rightarrow> 'a \<Rightarrow> bool) \<Rightarrow> 'a \<Rightarrow> 'a list \<Rightarrow> nat" where
  "oset_lower lt x xs = length (takeWhile (\<lambda>y. lt y x) xs)"

definition oset_find :: "('a \<Rightarrow> 'a \<Rightarrow> bool) \<Rightarrow> 'a \<Rightarrow> 'a list \<Rightarrow> nat option" where
  "oset_find lt x xs = (let i = oset_lower lt x xs in
     if i < length xs \<and> \<not> lt x (xs ! i) then Some i else None)"

definition oset_insert :: "('a \<Rightarrow> 'a \<Rightarrow> bool) \<Rightarrow> 'a \<Rightarrow> 'a list \<Rightarrow> nat \<times> 'a list" where
  "oset_insert lt x xs = (let i = oset_lower lt x xs in
     if i < length xs \<and> \<not> lt x (xs ! i) then (i, xs) else (i, take i xs @ x # drop i xs))"

definition oset_erase :: "nat \<Rightarrow> 'a list \<Rightarrow> 'a list" where
  "oset_erase i xs = take i xs @ drop (Suc i) xs"

section \<open>Laws\<close>

lemma oset_lower_take: "take (oset_lower lt x xs) xs = takeWhile (\<lambda>y. lt y x) xs"
  by (simp add: oset_lower_def takeWhile_eq_take [symmetric])

lemma oset_lower_drop: "drop (oset_lower lt x xs) xs = dropWhile (\<lambda>y. lt y x) xs"
  by (simp add: oset_lower_def dropWhile_eq_drop [symmetric])

lemma oset_lower_le: "oset_lower lt x xs \<le> length xs"
  by (simp add: oset_lower_def length_takeWhile_le)

lemma sorted_wrt_erase:
  assumes "sorted_wrt R xs"
  shows "sorted_wrt R (oset_erase i xs)"
proof -
  have "\<forall>x \<in> set (take i xs). \<forall>y \<in> set (drop i xs). R x y"
    using assms sorted_wrt_append [of R "take i xs" "drop i xs"] by simp
  moreover have "set (drop (Suc i) xs) \<subseteq> set (drop i xs)" by (rule set_drop_subset_set_drop) simp
  ultimately show ?thesis
    using sorted_wrt_drop [OF assms, of "Suc i"] sorted_wrt_take [OF assms, of i]
    by (auto simp: oset_erase_def sorted_wrt_append)
qed

text \<open>What is left of a sorted list after a downward closed prefix.\<close>

lemma drop_closed:
  assumes "sorted_wrt R xs"
    and "\<And>a y. a \<in> set xs \<Longrightarrow> y \<in> set xs \<Longrightarrow> R a y \<Longrightarrow> P y \<Longrightarrow> P a"
  shows "\<forall>y \<in> set (dropWhile P xs). \<not> P y"
  using assms
proof (induction xs)
  case (Cons a xs)
  show ?case
  proof (cases "P a")
    case True
    have "\<forall>y \<in> set (dropWhile P xs). \<not> P y"
      by (rule Cons.IH) (use Cons.prems(1) in simp, rule Cons.prems(2), simp_all)
    then show ?thesis using True by simp
  next
    case False
    then have "\<not> P y" if "y \<in> set xs" for y
      using that Cons.prems(2) [of a y] Cons.prems(1) by auto
    then show ?thesis using False by simp
  qed
qed simp

text \<open>A set ordered by a key of its elements is, key by key, a set of keys.\<close>

lemma oset_insert_key:
  "map key (snd (oset_insert (\<lambda>a b. lt (key a) (key b)) x xs)) =
    snd (oset_insert lt (key x) (map key xs))"
proof -
  have "oset_lower (\<lambda>a b. lt (key a) (key b)) x xs = oset_lower lt (key x) (map key xs)"
    by (simp add: oset_lower_def takeWhile_map comp_def)
  then show ?thesis
    by (cases "oset_lower lt (key x) (map key xs) < length xs")
      (simp_all add: oset_insert_def Let_def take_map drop_map)
qed

lemma oset_insert_set: "set (snd (oset_insert lt x xs)) \<subseteq> insert x (set xs)"
  by (auto simp: oset_insert_def Let_def dest: in_set_takeD in_set_dropD)

locale strict_order =
  fixes lt :: "'a \<Rightarrow> 'a \<Rightarrow> bool" and D :: "'a set"
  assumes irrefl: "x \<in> D \<Longrightarrow> \<not> lt x x"
    and trans: "x \<in> D \<Longrightarrow> y \<in> D \<Longrightarrow> z \<in> D \<Longrightarrow> lt x y \<Longrightarrow> lt y z \<Longrightarrow> lt x z"
    and total: "x \<in> D \<Longrightarrow> y \<in> D \<Longrightarrow> \<not> lt x y \<Longrightarrow> \<not> lt y x \<Longrightarrow> x = y"
begin

lemma asym: "x \<in> D \<Longrightarrow> y \<in> D \<Longrightarrow> lt x y \<Longrightarrow> \<not> lt y x"
  using irrefl trans by blast

lemma lower_split:
  assumes "sorted_wrt lt xs" and "set xs \<subseteq> D" and "x \<in> D"
  shows "\<forall>y \<in> set (takeWhile (\<lambda>y. lt y x) xs). lt y x"
    and "\<forall>y \<in> set (dropWhile (\<lambda>y. lt y x) xs). \<not> lt y x"
proof -
  show "\<forall>y \<in> set (takeWhile (\<lambda>y. lt y x) xs). lt y x" by (auto dest: set_takeWhileD)
  show "\<forall>y \<in> set (dropWhile (\<lambda>y. lt y x) xs). \<not> lt y x"
  proof (rule drop_closed [OF assms(1)])
    fix a y assume m: "a \<in> set xs" "y \<in> set xs" "lt a y" "lt y x"
    then have "a \<in> D" "y \<in> D" using assms(2) by blast+
    then show "lt a x" using trans [of a y x] assms(3) m by blast
  qed
qed

lemma find_Some:
  assumes "sorted_wrt lt xs" and "set xs \<subseteq> D" and "x \<in> D" and "oset_find lt x xs = Some i"
  shows "i < length xs \<and> xs ! i = x"
proof -
  have i: "i = oset_lower lt x xs" "i < length xs" "\<not> lt x (xs ! i)"
    using assms(4) by (auto simp: oset_find_def Let_def split: if_splits)
  have "\<not> lt (xs ! i) x"
    using nth_length_takeWhile [of "\<lambda>y. lt y x" xs] i(1,2) by (simp add: oset_lower_def)
  moreover have "xs ! i \<in> D" using i(2) assms(2) nth_mem by blast
  ultimately show ?thesis using i(2,3) total [OF _ assms(3)] by blast
qed

lemma find_mem:
  assumes "sorted_wrt lt xs" and "set xs \<subseteq> D" and "x \<in> set xs"
  shows "\<exists>i. oset_find lt x xs = Some i"
proof -
  let ?d = "dropWhile (\<lambda>y. lt y x) xs"
  have x: "x \<in> D" using assms(2,3) by auto
  have "x \<notin> set (takeWhile (\<lambda>y. lt y x) xs)"
    using irrefl [OF x] by (auto dest: set_takeWhileD)
  then have xd: "x \<in> set ?d" using assms(3) takeWhile_dropWhile_id [of "\<lambda>y. lt y x" xs]
    by (metis Un_iff set_append)
  let ?i = "oset_lower lt x xs"
  have i: "?i < length xs"
    using xd oset_lower_drop [of lt x xs] by (metis drop_all empty_iff list.set(1) not_le_imp_less)
  have "xs ! ?i = hd ?d" using i oset_lower_drop [of lt x xs] hd_drop_conv_nth by metis
  moreover have "\<not> lt x (hd ?d)"
  proof (cases ?d)
    case (Cons a ys)
    have "sorted_wrt lt ?d" using assms(1) by (metis oset_lower_drop sorted_wrt_drop)
    moreover have "a \<in> D" using Cons assms(2) by (metis list.set_intros(1) set_dropWhileD subsetD)
    ultimately show ?thesis using xd Cons irrefl [OF x] asym [of a x] x by auto
  next
    case Nil
    then show ?thesis using xd by (metis empty_iff list.set(1))
  qed
  ultimately show ?thesis using i by (simp add: oset_find_def)
qed

lemma erase_found:
  assumes "sorted_wrt lt xs" and "set xs \<subseteq> D" and "x \<in> D" and "oset_find lt x xs = Some i"
  shows "set (oset_erase i xs) = set xs - {x}" and "sorted_wrt lt (oset_erase i xs)"
    and "mset xs = add_mset x (mset (oset_erase i xs))"
proof -
  have i: "i < length xs" "xs ! i = x" using find_Some [OF assms] by auto
  have xs: "xs = take i xs @ x # drop (Suc i) xs" using i id_take_nth_drop by metis
  have s: "sorted_wrt lt (take i xs @ x # drop (Suc i) xs)" using xs assms(1) by simp
  then have "x \<notin> set (take i xs)" "x \<notin> set (drop (Suc i) xs)"
    using irrefl [OF assms(3)] by (auto simp: sorted_wrt_append)
  moreover have "set xs = set (take i xs) \<union> {x} \<union> set (drop (Suc i) xs)"
    using arg_cong [OF xs, of set] by simp
  ultimately show "set (oset_erase i xs) = set xs - {x}" by (auto simp: oset_erase_def)
  show "sorted_wrt lt (oset_erase i xs)" by (rule sorted_wrt_erase [OF assms(1)])
  show "mset xs = add_mset x (mset (oset_erase i xs))"
    using arg_cong [OF xs, of mset] by (simp add: oset_erase_def)
qed

lemma insert_ok:
  assumes "sorted_wrt lt xs" and "set xs \<subseteq> D" and "x \<in> D" and "x \<notin> set xs"
    and "oset_insert lt x xs = (i, ys)"
  shows "sorted_wrt lt ys" and "set ys = insert x (set xs)" and "i < length ys" and "ys ! i = x"
    and "mset ys = add_mset x (mset xs)"
proof -
  let ?i = "oset_lower lt x xs"
  have "oset_find lt x xs = None"
    using find_Some [OF assms(1-3)] assms(4) by (cases "oset_find lt x xs") auto
  then have "\<not> (?i < length xs \<and> \<not> lt x (xs ! ?i))" by (simp add: oset_find_def Let_def split: if_splits)
  then have i: "i = ?i" and ys: "ys = take ?i xs @ x # drop ?i xs"
    using assms(5) by (auto simp: oset_insert_def Let_def)
  note sp = lower_split [OF assms(1-3)]
  have ltd: "lt x y" if "y \<in> set (dropWhile (\<lambda>y. lt y x) xs)" for y
    using that sp(2) total [of x y] assms(2,3,4) by (metis set_dropWhileD subsetD)
  let ?t = "takeWhile (\<lambda>y. lt y x) xs" and ?d = "dropWhile (\<lambda>y. lt y x) xs"
  have "sorted_wrt lt ?t \<and> sorted_wrt lt ?d \<and> (\<forall>a \<in> set ?t. \<forall>b \<in> set ?d. lt a b)"
    using assms(1) sorted_wrt_append [of lt ?t ?d] by simp
  then show "sorted_wrt lt ys"
    using sp(1) ltd unfolding ys oset_lower_take oset_lower_drop sorted_wrt_append sorted_wrt.simps
    by (metis set_ConsD)
  have m: "mset xs = mset (take ?i xs) + mset (drop ?i xs)"
    by (metis append_take_drop_id mset_append)
  have "mset ys = mset (take ?i xs) + add_mset x (mset (drop ?i xs))" by (simp add: ys)
  then show m': "mset ys = add_mset x (mset xs)" by (simp only: m union_mset_add_mset_right)
  then show "set ys = insert x (set xs)" by (metis set_mset_add_mset_insert set_mset_mset)
  show "i < length ys" "ys ! i = x"
    using oset_lower_le [of lt x xs] by (simp_all add: i ys nth_append)
qed

text \<open>Inserting what may be there already.\<close>

lemma insert_sorted:
  assumes "sorted_wrt lt xs" and "set xs \<subseteq> D" and "x \<in> D"
  shows "sorted_wrt lt (snd (oset_insert lt x xs))"
proof (cases "x \<in> set xs")
  case True
  then obtain i where "oset_find lt x xs = Some i" using find_mem [OF assms(1,2)] by blast
  then have "snd (oset_insert lt x xs) = xs"
    by (auto simp: oset_find_def oset_insert_def Let_def split: if_splits)
  then show ?thesis using assms(1) by simp
next
  case False
  obtain i ys where "oset_insert lt x xs = (i, ys)" by force
  then show ?thesis using insert_ok(1) [OF assms False] by simp
qed

lemma sorted_distinct: "sorted_wrt lt xs \<Longrightarrow> set xs \<subseteq> D \<Longrightarrow> distinct xs"
  by (induction xs) (auto dest: irrefl)

text \<open>A sorted set is determined by its elements.\<close>

lemma hd_least:
  "sorted_wrt lt xs \<Longrightarrow> xs \<noteq> [] \<Longrightarrow> y \<in> set xs \<Longrightarrow> y = hd xs \<or> lt (hd xs) y"
  by (cases xs) auto

end

end
