(* ===== verification/Timers.thy ===== *)
theory Timers
  imports OSets
begin

text \<open>
  The timers of \<open>sylar/timer.h\<close> and \<open>sylar/timer.cpp\<close>: timer objects in a heap shared by the
  manager and the clients, and the manager with its set of timers ordered by expiry time. All
  times are 64-bit words and wrap around. The clock is read once in each operation and is its
  argument \<open>now\<close>. An operation is one step here; \<open>TimerThreads\<close> shows that it may be one.
  Addresses are numbers, and the address of a new object is an argument: the allocator is
  free to choose it.
\<close>

section \<open>State\<close>

text \<open>
  A callback is what the client passed, or that callback bound to a condition by
  \<open>addConditionTimer\<close>; \<open>OnTimer\<close> calls it only if the condition is still alive.
\<close>

datatype 'cb tcb = Plain 'cb | Bound nat 'cb

definition OnTimer :: "(nat \<Rightarrow> bool) \<Rightarrow> 'cb tcb \<Rightarrow> 'cb option" where
  "OnTimer alive c = (case c of Plain cb \<Rightarrow> Some cb
     | Bound w cb \<Rightarrow> if alive w then Some cb else None)"

record 'cb timer =
  tm_recurring :: bool
  tm_ms :: u64
  tm_next :: u64
  tm_cb :: "'cb tcb option"

record 'cb tmgr =
  tg_timers :: "ptr list"
  tg_tickled :: bool
  tg_previouse :: u64
  tg_heap :: "ptr \<rightharpoonup> 'cb timer"

definition Timer_ctor :: "u64 \<Rightarrow> 'cb tcb option \<Rightarrow> bool \<Rightarrow> u64 \<Rightarrow> 'cb timer" where
  "Timer_ctor ms cb recurring now =
     \<lparr>tm_recurring = recurring, tm_ms = ms, tm_next = now + ms, tm_cb = cb\<rparr>"

text \<open>The constructor of the timer that \<open>listExpiredCb\<close> searches with.\<close>

definition Timer_at :: "u64 \<Rightarrow> 'cb timer" where
  "Timer_at next = \<lparr>tm_recurring = False, tm_ms = 0, tm_next = next, tm_cb = None\<rparr>"

definition TimerManager_new :: "u64 \<Rightarrow> 'cb tmgr" where
  "TimerManager_new now = \<lparr>tg_timers = [], tg_tickled = False, tg_previouse = now,
     tg_heap = Map.empty\<rparr>"

section \<open>Operations\<close>

definition next_of :: "(ptr \<rightharpoonup> 'cb timer) \<Rightarrow> ptr \<Rightarrow> u64" where
  "next_of h p = (case h p of None \<Rightarrow> 0 | Some b \<Rightarrow> tm_next b)"

definition Comparator :: "(ptr \<rightharpoonup> 'cb timer) \<Rightarrow> ptr option \<Rightarrow> ptr option \<Rightarrow> bool" where
  "Comparator h lhs rhs = (case (lhs, rhs) of
       (None, None) \<Rightarrow> False
     | (None, Some _) \<Rightarrow> True
     | (Some _, None) \<Rightarrow> False
     | (Some l, Some r) \<Rightarrow>
         if next_of h l < next_of h r then True
         else if next_of h r < next_of h l then False
         else l < r)"

definition tless :: "(ptr \<rightharpoonup> 'cb timer) \<Rightarrow> ptr \<Rightarrow> ptr \<Rightarrow> bool" where
  "tless h p q = Comparator h (Some p) (Some q)"

definition get_timer :: "ptr \<Rightarrow> 'cb tmgr \<Rightarrow> 'cb timer res" where
  "get_timer t s = (case tg_heap s t of None \<Rightarrow> Inl (Dangling t) | Some b \<Rightarrow> Inr b)"

definition put_timer :: "ptr \<Rightarrow> 'cb timer \<Rightarrow> 'cb tmgr \<Rightarrow> 'cb tmgr" where
  "put_timer t b s = s\<lparr>tg_heap := (tg_heap s)(t \<mapsto> b)\<rparr>"

text \<open>Erasing the end iterator is undefined.\<close>

definition Timer_cancel :: "ptr \<Rightarrow> 'cb tmgr \<Rightarrow> (bool \<times> 'cb tmgr) res" where
  "Timer_cancel t s = bindR (get_timer t s) (\<lambda>b.
     if tm_cb b \<noteq> None
     then (let s1 = put_timer t (b\<lparr>tm_cb := None\<rparr>) s in
           case oset_find (tless (tg_heap s1)) t (tg_timers s1) of
             None \<Rightarrow> Inl (Undefined ''erase(end())'')
           | Some i \<Rightarrow> Inr (True, s1\<lparr>tg_timers := oset_erase i (tg_timers s1)\<rparr>))
     else Inr (False, s))"

definition Timer_refresh :: "u64 \<Rightarrow> ptr \<Rightarrow> 'cb tmgr \<Rightarrow> (bool \<times> 'cb tmgr) res" where
  "Timer_refresh now t s = bindR (get_timer t s) (\<lambda>b.
     if tm_cb b = None then Inr (False, s)
     else (case oset_find (tless (tg_heap s)) t (tg_timers s) of
         None \<Rightarrow> Inr (False, s)
       | Some i \<Rightarrow>
           (let s1 = s\<lparr>tg_timers := oset_erase i (tg_timers s)\<rparr>;
                s2 = put_timer t (b\<lparr>tm_next := now + tm_ms b\<rparr>) s1;
                (_, ts) = oset_insert (tless (tg_heap s2)) t (tg_timers s2)
            in Inr (True, s2\<lparr>tg_timers := ts\<rparr>))))"

text \<open>
  \<open>addTimer(val, lock)\<close>: the first component tells whether \<open>onTimerInsertedAtFront\<close> is
  called, after the lock is released.
\<close>

definition addTimer_locked :: "ptr \<Rightarrow> 'cb tmgr \<Rightarrow> bool \<times> 'cb tmgr" where
  "addTimer_locked t s =
     (let (it, ts) = oset_insert (tless (tg_heap s)) t (tg_timers s);
          s1 = s\<lparr>tg_timers := ts\<rparr>;
          at_front = (it = 0 \<and> \<not> tg_tickled s1)
      in (at_front, if at_front then s1\<lparr>tg_tickled := True\<rparr> else s1))"

text \<open>\<open>reset\<close> returns its result and whether \<open>onTimerInsertedAtFront\<close> is called.\<close>

definition Timer_reset ::
    "u64 \<Rightarrow> u64 \<Rightarrow> bool \<Rightarrow> ptr \<Rightarrow> 'cb tmgr \<Rightarrow> ((bool \<times> bool) \<times> 'cb tmgr) res" where
  "Timer_reset now ms from_now t s = bindR (get_timer t s) (\<lambda>b.
     if ms = tm_ms b \<and> \<not> from_now then Inr ((True, False), s)
     else if tm_cb b = None then Inr ((False, False), s)
     else (case oset_find (tless (tg_heap s)) t (tg_timers s) of
         None \<Rightarrow> Inr ((False, False), s)
       | Some i \<Rightarrow>
           (let s1 = s\<lparr>tg_timers := oset_erase i (tg_timers s)\<rparr>;
                start = (if from_now then now else tm_next b - tm_ms b);
                s2 = put_timer t (b\<lparr>tm_ms := ms, tm_next := start + ms\<rparr>) s1;
                (front, s3) = addTimer_locked t s2
            in Inr ((True, front), s3))))"

text \<open>\<open>a\<close> is the address of the new timer.\<close>

definition addTimer ::
    "u64 \<Rightarrow> ptr \<Rightarrow> u64 \<Rightarrow> 'cb tcb option \<Rightarrow> bool \<Rightarrow> 'cb tmgr \<Rightarrow> bool \<times> 'cb tmgr" where
  "addTimer now a ms cb recurring s =
     addTimer_locked a (put_timer a (Timer_ctor ms cb recurring now) s)"

definition addConditionTimer ::
    "u64 \<Rightarrow> ptr \<Rightarrow> u64 \<Rightarrow> 'cb \<Rightarrow> nat \<Rightarrow> bool \<Rightarrow> 'cb tmgr \<Rightarrow> bool \<times> 'cb tmgr" where
  "addConditionTimer now a ms cb weak_cond recurring s =
     addTimer now a ms (Some (Bound weak_cond cb)) recurring s"

definition getNextTimer :: "u64 \<Rightarrow> 'cb tmgr \<Rightarrow> u64 \<times> 'cb tmgr" where
  "getNextTimer now s =
     (let s1 = s\<lparr>tg_tickled := False\<rparr> in
      case tg_timers s1 of
        [] \<Rightarrow> (- 1, s1)
      | t # _ \<Rightarrow> (if next_of (tg_heap s1) t \<le> now then 0 else next_of (tg_heap s1) t - now, s1))"

definition detectClockRollover :: "u64 \<Rightarrow> 'cb tmgr \<Rightarrow> bool \<times> 'cb tmgr" where
  "detectClockRollover now s =
     (now < tg_previouse s \<and> now < tg_previouse s - 60 * 60 * 1000, s\<lparr>tg_previouse := now\<rparr>)"

text \<open>The loop over the expired timers; \<open>cbs\<close> collects their callbacks.\<close>

primrec expire_loop ::
    "u64 \<Rightarrow> ptr list \<Rightarrow> 'cb tcb option list \<Rightarrow> 'cb tmgr \<Rightarrow> ('cb tcb option list \<times> 'cb tmgr) res" where
  "expire_loop now [] cbs s = Inr (cbs, s)"
| "expire_loop now (t # ts) cbs s = bindR (get_timer t s) (\<lambda>b.
     expire_loop now ts (cbs @ [tm_cb b])
       (if tm_recurring b
        then (let s1 = put_timer t (b\<lparr>tm_next := now + tm_ms b\<rparr>) s;
                  (_, xs) = oset_insert (tless (tg_heap s1)) t (tg_timers s1)
              in s1\<lparr>tg_timers := xs\<rparr>)
        else put_timer t (b\<lparr>tm_cb := None\<rparr>) s))"

text \<open>\<open>a\<close> is the address of the temporary \<open>now_timer\<close>.\<close>

definition listExpiredCb ::
    "u64 \<Rightarrow> ptr \<Rightarrow> 'cb tmgr \<Rightarrow> ('cb tcb option list \<times> 'cb tmgr) res" where
  "listExpiredCb now a s =
     (if tg_timers s = [] then Inr ([], s)
      else (let (rollover, s1) = detectClockRollover now s;
                ts = tg_timers s1; h = tg_heap s1
            in if \<not> rollover \<and> now < next_of h (hd ts) then Inr ([], s1)
               else (let it0 = (if rollover then length ts
                         else oset_lower (tless (h(a \<mapsto> Timer_at now))) a ts);
                         it = it0 + length (takeWhile (\<lambda>t. next_of h t = now) (drop it0 ts))
                     in expire_loop now (take it ts) [] (s1\<lparr>tg_timers := drop it ts\<rparr>))))"

definition hasTimer :: "'cb tmgr \<Rightarrow> bool" where
  "hasTimer s = (tg_timers s \<noteq> [])"

section \<open>The order and the invariant\<close>

lemma tless_iff:
  "tless h p q \<longleftrightarrow> next_of h p < next_of h q \<or> next_of h p = next_of h q \<and> p < q"
  by (auto simp: tless_def Comparator_def)

interpretation tset: strict_order "tless h" UNIV for h :: "ptr \<rightharpoonup> 'cb timer"
  by unfold_locales (auto simp: tless_iff)

text \<open>
  The set is in the order of the comparison, its timers exist, and a timer that still has a
  callback is in it.
\<close>

definition tm_inv :: "'cb tmgr \<Rightarrow> bool" where
  "tm_inv s = (sorted_wrt (tless (tg_heap s)) (tg_timers s) \<and>
     set (tg_timers s) \<subseteq> dom (tg_heap s) \<and>
     (\<forall>t \<in> dom (tg_heap s). (case tg_heap s t of None \<Rightarrow> True
        | Some b \<Rightarrow> tm_cb b \<noteq> None \<longrightarrow> t \<in> set (tg_timers s))))"


lemma tm_invD:
  assumes "tm_inv s"
  shows "sorted_wrt (tless (tg_heap s)) (tg_timers s)" "set (tg_timers s) \<subseteq> dom (tg_heap s)"
    "tg_heap s t = Some b \<Longrightarrow> tm_cb b \<noteq> None \<Longrightarrow> t \<in> set (tg_timers s)"
  using assms by (auto simp: tm_inv_def dest!: bspec [of _ _ t])

lemma tm_invI:
  assumes "sorted_wrt (tless (tg_heap s)) (tg_timers s)" and "set (tg_timers s) \<subseteq> dom (tg_heap s)"
    and "\<And>t b. tg_heap s t = Some b \<Longrightarrow> tm_cb b \<noteq> None \<Longrightarrow> t \<in> set (tg_timers s)"
  shows "tm_inv s"
  using assms by (auto simp: tm_inv_def)

lemma tm_inv_frame [simp]:
  "tm_inv (s\<lparr>tg_previouse := v\<rparr>) = tm_inv s" "tm_inv (s\<lparr>tg_tickled := c\<rparr>) = tm_inv s"
  by (auto simp: tm_inv_def split: option.splits)

lemma sorted_cong:
  assumes "\<And>t. t \<in> set xs \<Longrightarrow> next_of h' t = next_of h t"
  shows "sorted_wrt (tless h') xs = sorted_wrt (tless h) xs"
proof -
  have "tless h' x y = tless h x y" if "x \<in> set xs" "y \<in> set xs" for x y
    using assms that by (simp add: tless_iff)
  then show ?thesis
    using sorted_wrt_mono_rel [of xs "tless h'" "tless h"]
      sorted_wrt_mono_rel [of xs "tless h" "tless h'"] by blast
qed

lemma next_of_upd: "next_of (h(t \<mapsto> b)) x = (if x = t then tm_next b else next_of h x)"
  by (simp add: next_of_def)

lemma sorted_upd:
  "t \<notin> set xs \<Longrightarrow> sorted_wrt (tless (h(t \<mapsto> b))) xs = sorted_wrt (tless h) xs"
  by (rule sorted_cong) (auto simp: next_of_upd)

lemma timers_distinct: "sorted_wrt (tless h) xs \<Longrightarrow> distinct xs"
  by (induction xs) (auto simp: tless_iff)

lemma erase_filter:
  assumes "distinct xs" and "i < length xs"
  shows "oset_erase i xs = filter (\<lambda>x. x \<noteq> xs ! i) xs"
proof -
  have xs: "xs = take i xs @ xs ! i # drop (Suc i) xs" by (rule id_take_nth_drop [OF assms(2)])
  then have d: "distinct (take i xs @ xs ! i # drop (Suc i) xs)" using assms(1) by simp
  have "filter (\<lambda>x. x \<noteq> xs ! i) (take i xs) = take i xs"
    "filter (\<lambda>x. x \<noteq> xs ! i) (drop (Suc i) xs) = drop (Suc i) xs"
    by (rule filter_True; use d in auto)+
  moreover have "filter (\<lambda>x. x \<noteq> xs ! i) xs =
      filter (\<lambda>x. x \<noteq> xs ! i) (take i xs @ xs ! i # drop (Suc i) xs)"
    using xs by (rule arg_cong)
  ultimately show ?thesis by (simp add: oset_erase_def)
qed

text \<open>Finding and erasing a timer of the set.\<close>

lemma find_erase:
  assumes "sorted_wrt (tless h) xs" and "t \<in> set xs"
  shows "\<exists>i. oset_find (tless h) t xs = Some i \<and> oset_erase i xs = filter (\<lambda>x. x \<noteq> t) xs"
proof -
  obtain i where i: "oset_find (tless h) t xs = Some i"
    using tset.find_mem [OF assms(1) _ assms(2)] by auto
  then have "i < length xs" "xs ! i = t" using tset.find_Some [OF assms(1) _ _ i] by auto
  then show ?thesis using i erase_filter [OF timers_distinct [OF assms(1)]] by auto
qed

lemma find_none:
  "sorted_wrt (tless h) xs \<Longrightarrow> t \<notin> set xs \<Longrightarrow> oset_find (tless h) t xs = None"
  using tset.find_Some [of h xs t] by (cases "oset_find (tless h) t xs") (auto dest: nth_mem)

text \<open>Putting a timer with a new expiry time into the set.\<close>

lemma rearm:
  assumes "sorted_wrt (tless h) xs" and "t \<notin> set xs"
    and "oset_insert (tless (h(t \<mapsto> b))) t xs = (i, ys)"
  shows "sorted_wrt (tless (h(t \<mapsto> b))) ys" and "set ys = insert t (set xs)"
    and "i < length ys" and "ys ! i = t"
proof -
  have s: "sorted_wrt (tless (h(t \<mapsto> b))) xs" using assms(1,2) by (simp add: sorted_upd)
  note r = tset.insert_ok [OF s _ _ assms(2,3)]
  show "sorted_wrt (tless (h(t \<mapsto> b))) ys" "set ys = insert t (set xs)" "i < length ys" "ys ! i = t"
    by (rule r; simp)+
qed

lemma insert_front: "distinct ys \<Longrightarrow> i < length ys \<Longrightarrow> ys ! i = t \<Longrightarrow> i = 0 \<longleftrightarrow> hd ys = t"
  by (cases ys) (auto simp: nth_Cons split: nat.splits)

subsection \<open>One operation at a time\<close>

lemma cancel_ok:
  assumes "tm_inv s" and "tg_heap s t = Some b"
  shows "\<exists>s'. Timer_cancel t s = Inr (tm_cb b \<noteq> None, s') \<and> tm_inv s' \<and>
    tg_timers s' = (if tm_cb b = None then tg_timers s else filter (\<lambda>x. x \<noteq> t) (tg_timers s)) \<and>
    tg_heap s' = (tg_heap s)(t \<mapsto> b\<lparr>tm_cb := None\<rparr>)"
proof (cases "tm_cb b")
  case None
  then have "b\<lparr>tm_cb := None\<rparr> = b" by (cases b) simp
  then show ?thesis using None assms by (auto simp: Timer_cancel_def get_timer_def fun_upd_idem)
next
  case (Some c)
  note i = tm_invD [OF assms(1)]
  let ?h = "(tg_heap s)(t \<mapsto> b\<lparr>tm_cb := None\<rparr>)"
  have "next_of ?h x = next_of (tg_heap s) x" for x
    using assms(2) by (simp add: next_of_def)
  then have st: "sorted_wrt (tless ?h) (tg_timers s)"
    using i(1) sorted_cong [of "tg_timers s" ?h "tg_heap s"] by simp
  obtain j where "oset_find (tless ?h) t (tg_timers s) = Some j"
    "oset_erase j (tg_timers s) = filter (\<lambda>x. x \<noteq> t) (tg_timers s)"
    using find_erase [OF st] i(3) [OF assms(2)] Some by auto
  moreover have "tm_inv (s\<lparr>tg_heap := ?h, tg_timers := filter (\<lambda>x. x \<noteq> t) (tg_timers s)\<rparr>)"
    by (rule tm_invI) (use st i in \<open>auto simp: sorted_wrt_filter split: if_splits\<close>)
  ultimately show ?thesis
    using Some assms(2) by (simp add: Timer_cancel_def get_timer_def put_timer_def)
qed

lemma refresh_ok:
  assumes "tm_inv s" and "tg_heap s t = Some b"
  shows "\<exists>s'. Timer_refresh now t s = Inr (tm_cb b \<noteq> None, s') \<and> tm_inv s' \<and>
    set (tg_timers s') = set (tg_timers s) \<and>
    tg_heap s' = (if tm_cb b = None then tg_heap s
      else (tg_heap s)(t \<mapsto> b\<lparr>tm_next := now + tm_ms b\<rparr>))"
proof (cases "tm_cb b")
  case None
  then show ?thesis using assms by (simp add: Timer_refresh_def get_timer_def)
next
  case (Some c)
  note i = tm_invD [OF assms(1)]
  let ?b = "b\<lparr>tm_next := now + tm_ms b\<rparr>"
  let ?xs = "filter (\<lambda>x. x \<noteq> t) (tg_timers s)"
  have t: "t \<in> set (tg_timers s)" using i(3) [OF assms(2)] Some by simp
  obtain j where j: "oset_find (tless (tg_heap s)) t (tg_timers s) = Some j"
    "oset_erase j (tg_timers s) = ?xs"
    using find_erase [OF i(1) t] by auto
  obtain k ys where ys: "oset_insert (tless ((tg_heap s)(t \<mapsto> ?b))) t ?xs = (k, ys)" by fastforce
  have srt: "sorted_wrt (tless (tg_heap s)) ?xs" by (rule sorted_wrt_filter [OF i(1)])
  note r = rearm [OF srt _ ys]
  have st: "set ys = set (tg_timers s)" using r(2) t by auto
  have "tm_inv (s\<lparr>tg_heap := (tg_heap s)(t \<mapsto> ?b), tg_timers := ys\<rparr>)"
    by (rule tm_invI) (use r(1) st i t in \<open>auto split: if_splits\<close>)
  then show ?thesis
    using Some assms(2) j ys st by (simp add: Timer_refresh_def get_timer_def put_timer_def)
qed

lemma addTimer_locked_ok:
  assumes "sorted_wrt (tless h) (tg_timers s)" and "t \<notin> set (tg_timers s)"
    and "tg_heap s = h(t \<mapsto> b)" and "set (tg_timers s) \<subseteq> dom h"
    and "\<And>x c. x \<noteq> t \<Longrightarrow> h x = Some c \<Longrightarrow> tm_cb c \<noteq> None \<Longrightarrow> x \<in> set (tg_timers s)"
    and "addTimer_locked t s = (front, s')"
  shows "tm_inv s'" and "set (tg_timers s') = insert t (set (tg_timers s))"
    and "tg_heap s' = tg_heap s" and "front \<longleftrightarrow> hd (tg_timers s') = t \<and> \<not> tg_tickled s"
    and "tg_tickled s' \<longleftrightarrow> tg_tickled s \<or> front"
proof -
  obtain i ys where ys: "oset_insert (tless (tg_heap s)) t (tg_timers s) = (i, ys)" by fastforce
  note r = rearm [OF assms(1,2) ys [unfolded assms(3)]]
  have f: "i = 0 \<longleftrightarrow> hd ys = t"
    by (rule insert_front [OF timers_distinct [OF r(1)] r(3,4)])
  have s': "s' = s\<lparr>tg_timers := ys, tg_tickled := tg_tickled s \<or> front\<rparr>"
    and fr: "front \<longleftrightarrow> hd ys = t \<and> \<not> tg_tickled s"
    using assms(6) ys f by (auto simp: addTimer_locked_def Let_def)
  show "tm_inv s'" by (rule tm_invI) (use r(1,2) assms(3-5) s' in \<open>auto split: if_splits\<close>)
  show "set (tg_timers s') = insert t (set (tg_timers s))" "tg_heap s' = tg_heap s"
    "front \<longleftrightarrow> hd (tg_timers s') = t \<and> \<not> tg_tickled s" "tg_tickled s' \<longleftrightarrow> tg_tickled s \<or> front"
    using r(2) s' fr by auto
qed


lemma reset_ok:
  assumes "tm_inv s" and "tg_heap s t = Some b"
  shows "\<exists>front s'. Timer_reset now ms from_now t s =
      Inr ((ms = tm_ms b \<and> \<not> from_now \<or> tm_cb b \<noteq> None, front), s') \<and> tm_inv s' \<and>
    set (tg_timers s') = set (tg_timers s) \<and>
    tg_heap s' = (if tm_cb b = None \<or> ms = tm_ms b \<and> \<not> from_now then tg_heap s
      else (tg_heap s)(t \<mapsto> b\<lparr>tm_ms := ms,
        tm_next := (if from_now then now else tm_next b - tm_ms b) + ms\<rparr>))"
proof (cases "tm_cb b = None \<or> ms = tm_ms b \<and> \<not> from_now")
  case True
  then show ?thesis using assms by (auto simp: Timer_reset_def get_timer_def)
next
  case False
  note i = tm_invD [OF assms(1)]
  let ?b = "b\<lparr>tm_ms := ms, tm_next := (if from_now then now else tm_next b - tm_ms b) + ms\<rparr>"
  let ?xs = "filter (\<lambda>x. x \<noteq> t) (tg_timers s)"
  let ?s = "put_timer t ?b (s\<lparr>tg_timers := ?xs\<rparr>)"
  have t: "t \<in> set (tg_timers s)" using i(3) [OF assms(2)] False by simp
  obtain j where j: "oset_find (tless (tg_heap s)) t (tg_timers s) = Some j"
    "oset_erase j (tg_timers s) = ?xs"
    using find_erase [OF i(1) t] by auto
  obtain front s' where f: "addTimer_locked t ?s = (front, s')" by fastforce
  have sel: "tg_heap ?s = (tg_heap s)(t \<mapsto> ?b)" "tg_timers ?s = ?xs"
    by (simp_all add: put_timer_def)
  have srt: "sorted_wrt (tless (tg_heap s)) (tg_timers ?s)"
    using sorted_wrt_filter [OF i(1)] by (simp add: sel)
  note r = addTimer_locked_ok [OF srt _ sel(1) _ _ f]
  have "tm_inv s'" by (rule r) (use i(2,3) in \<open>auto simp: sel\<close>)
  moreover have "set (tg_timers s') = insert t (set (tg_timers ?s))"
    by (rule r) (use i(2,3) in \<open>auto simp: sel\<close>)
  moreover have "tg_heap s' = tg_heap ?s"
    by (rule r) (use i(2,3) in \<open>auto simp: sel\<close>)
  moreover have "Timer_reset now ms from_now t s = Inr ((True, front), s')"
    using False assms(2) j f by (auto simp: Timer_reset_def get_timer_def Let_def)
  ultimately show ?thesis using False t by (auto simp: sel)
qed

lemma addTimer_ok:
  assumes "tm_inv s" and "tg_heap s a = None" and "addTimer now a ms cb rc s = (front, s')"
  shows "tm_inv s'" and "set (tg_timers s') = insert a (set (tg_timers s))"
    and "tg_heap s' = (tg_heap s)(a \<mapsto> Timer_ctor ms cb rc now)"
    and "front \<longleftrightarrow> hd (tg_timers s') = a \<and> \<not> tg_tickled s"
    and "tg_tickled s' \<longleftrightarrow> tg_tickled s \<or> front"
proof -
  note i = tm_invD [OF assms(1)]
  let ?s = "put_timer a (Timer_ctor ms cb rc now) s"
  have sel: "tg_heap ?s = (tg_heap s)(a \<mapsto> Timer_ctor ms cb rc now)"
    "tg_timers ?s = tg_timers s" "tg_tickled ?s = tg_tickled s"
    by (simp_all add: put_timer_def)
  have new: "a \<notin> set (tg_timers ?s)" using i(2) assms(2) by (auto simp: sel)
  note r = addTimer_locked_ok [OF _ new sel(1), where s' = s' and front = front]
  have f: "addTimer_locked a ?s = (front, s')" using assms(3) by (simp add: addTimer_def)
  show "tm_inv s'" "set (tg_timers s') = insert a (set (tg_timers s))"
    "tg_heap s' = (tg_heap s)(a \<mapsto> Timer_ctor ms cb rc now)"
    "front \<longleftrightarrow> hd (tg_timers s') = a \<and> \<not> tg_tickled s"
    "tg_tickled s' \<longleftrightarrow> tg_tickled s \<or> front"
    using r [OF _ _ _ f] i new by (auto simp: sel)
qed

subsection \<open>Expiry\<close>

definition cb_of :: "(ptr \<rightharpoonup> 'cb timer) \<Rightarrow> ptr \<Rightarrow> 'cb tcb option" where
  "cb_of h t = (case h t of None \<Rightarrow> None | Some b \<Rightarrow> tm_cb b)"

definition recurs :: "(ptr \<rightharpoonup> 'cb timer) \<Rightarrow> ptr \<Rightarrow> bool" where
  "recurs h t = (case h t of None \<Rightarrow> False | Some b \<Rightarrow> tm_recurring b)"

definition fired :: "u64 \<Rightarrow> 'cb timer \<Rightarrow> 'cb timer" where
  "fired now b = (if tm_recurring b then b\<lparr>tm_next := now + tm_ms b\<rparr> else b\<lparr>tm_cb := None\<rparr>)"

lemma expire_loop_ok:
  assumes "sorted_wrt (tless (tg_heap s)) (tg_timers s)" and "distinct ts"
    and "set ts \<inter> set (tg_timers s) = {}" and "set ts \<union> set (tg_timers s) \<subseteq> dom (tg_heap s)"
    and "\<And>t b. tg_heap s t = Some b \<Longrightarrow> tm_cb b \<noteq> None \<Longrightarrow> t \<in> set ts \<union> set (tg_timers s)"
  shows "\<exists>s'. expire_loop now ts cbs s = Inr (cbs @ map (cb_of (tg_heap s)) ts, s') \<and> tm_inv s' \<and>
    set (tg_timers s') = set (tg_timers s) \<union> {t \<in> set ts. recurs (tg_heap s) t} \<and>
    tg_heap s' = (\<lambda>t. if t \<in> set ts then map_option (fired now) (tg_heap s t) else tg_heap s t) \<and>
    tg_tickled s' = tg_tickled s \<and> tg_previouse s' = tg_previouse s"
  using assms
proof (induction ts arbitrary: s cbs)
  case Nil
  then show ?case by (auto intro: tm_invI)
next
  case (Cons t ts)
  obtain b where b: "tg_heap s t = Some b" using Cons.prems(4) by auto
  let ?h = "(tg_heap s)(t \<mapsto> fired now b)"
  have step: "\<exists>s1. expire_loop now (t # ts) cbs s = expire_loop now ts (cbs @ [tm_cb b]) s1 \<and>
    tg_heap s1 = ?h \<and> sorted_wrt (tless ?h) (tg_timers s1) \<and>
    set (tg_timers s1) = set (tg_timers s) \<union> (if tm_recurring b then {t} else {}) \<and>
    tg_tickled s1 = tg_tickled s \<and> tg_previouse s1 = tg_previouse s"
  proof (cases "tm_recurring b")
    case True
    obtain i ys where ys: "oset_insert (tless ?h) t (tg_timers s) = (i, ys)" by fastforce
    note r = rearm [OF Cons.prems(1) _ ys]
    have n: "t \<notin> set (tg_timers s)" using Cons.prems(3) by auto
    show ?thesis
      using True b ys r(1,2) [OF n]
      by (intro exI [of _ "(put_timer t (fired now b) s)\<lparr>tg_timers := ys\<rparr>"])
        (simp add: get_timer_def put_timer_def fired_def)
  next
    case False
    have n: "t \<notin> set (tg_timers s)" using Cons.prems(3) by auto
    show ?thesis
      using False b Cons.prems(1) sorted_upd [OF n, of "tg_heap s" "fired now b"]
      by (intro exI [of _ "put_timer t (fired now b) s"])
        (simp add: get_timer_def put_timer_def fired_def)
  qed
  then obtain s1 where s1: "expire_loop now (t # ts) cbs s = expire_loop now ts (cbs @ [tm_cb b]) s1"
    "tg_heap s1 = ?h" "sorted_wrt (tless (tg_heap s1)) (tg_timers s1)"
    "set (tg_timers s1) = set (tg_timers s) \<union> (if tm_recurring b then {t} else {})"
    "tg_tickled s1 = tg_tickled s" "tg_previouse s1 = tg_previouse s" by auto
  have keep: "cb_of (tg_heap s1) x = cb_of (tg_heap s) x" "recurs (tg_heap s1) x = recurs (tg_heap s) x"
    if "x \<in> set ts" for x
    using that Cons.prems(2) by (auto simp: s1(2) cb_of_def recurs_def)
  have "\<exists>s'. expire_loop now ts (cbs @ [tm_cb b]) s1 =
      Inr ((cbs @ [tm_cb b]) @ map (cb_of (tg_heap s1)) ts, s') \<and> tm_inv s' \<and>
    set (tg_timers s') = set (tg_timers s1) \<union> {t \<in> set ts. recurs (tg_heap s1) t} \<and>
    tg_heap s' = (\<lambda>t. if t \<in> set ts then map_option (fired now) (tg_heap s1 t) else tg_heap s1 t) \<and>
    tg_tickled s' = tg_tickled s1 \<and> tg_previouse s' = tg_previouse s1"
  proof (rule Cons.IH [OF s1(3)])
    show "distinct ts" using Cons.prems(2) by simp
    show "set ts \<inter> set (tg_timers s1) = {}"
      using Cons.prems(2,3) by (auto simp: s1(4) split: if_splits)
    show "set ts \<union> set (tg_timers s1) \<subseteq> dom (tg_heap s1)"
      using Cons.prems(4) by (auto simp: s1(2,4) split: if_splits)
    show "x \<in> set ts \<union> set (tg_timers s1)" if "tg_heap s1 x = Some c" "tm_cb c \<noteq> None" for x c
      using that Cons.prems(5) [of x c] by (auto simp: s1(2,4) fired_def split: if_splits)
  qed
  then obtain s' where s': "expire_loop now ts (cbs @ [tm_cb b]) s1 =
      Inr ((cbs @ [tm_cb b]) @ map (cb_of (tg_heap s1)) ts, s')" "tm_inv s'"
    "set (tg_timers s') = set (tg_timers s1) \<union> {t \<in> set ts. recurs (tg_heap s1) t}"
    "tg_heap s' = (\<lambda>t. if t \<in> set ts then map_option (fired now) (tg_heap s1 t) else tg_heap s1 t)"
    "tg_tickled s' = tg_tickled s1" "tg_previouse s' = tg_previouse s1" by blast
  have "map (cb_of (tg_heap s1)) ts = map (cb_of (tg_heap s)) ts" using keep(1) by simp
  moreover have "set (tg_timers s') = set (tg_timers s) \<union> {x \<in> set (t # ts). recurs (tg_heap s) x}"
    using s'(3) s1(4) keep(2) b by (auto simp: recurs_def split: if_splits)
  moreover have "tg_heap s' =
      (\<lambda>x. if x \<in> set (t # ts) then map_option (fired now) (tg_heap s x) else tg_heap s x)"
    using s'(4) s1(2) b Cons.prems(2) by (auto simp: fun_eq_iff)
  ultimately show ?case using s1 s' b by (auto simp: cb_of_def)
qed

text \<open>The expired timers are the prefix of the set whose time has come.\<close>

lemma due_prefix:
  assumes "sorted_wrt (tless h) xs" and "a \<notin> set xs"
    and "it0 = oset_lower (tless (h(a \<mapsto> Timer_at now))) a xs"
    and "it = it0 + length (takeWhile (\<lambda>t. next_of h t = now) (drop it0 xs))"
  shows "take it xs = filter (\<lambda>t. next_of h t \<le> now) xs"
    and "drop it xs = filter (\<lambda>t. \<not> next_of h t \<le> now) xs"
proof -
  let ?h = "h(a \<mapsto> Timer_at now)"
  define A where "A = take it0 xs"
  define R where "R = drop it0 xs"
  define B where "B = takeWhile (\<lambda>t. next_of h t = now) R"
  define C where "C = dropWhile (\<lambda>t. next_of h t = now) R"
  have sa: "sorted_wrt (tless ?h) xs" using assms(1,2) by (simp add: sorted_upd)
  have na: "next_of ?h a = now" by (simp add: next_of_def Timer_at_def)
  have ny: "next_of ?h y = next_of h y" if "y \<in> set xs" for y
    using that assms(2) by (auto simp: next_of_def)
  note sp = tset.lower_split [OF sa subset_UNIV UNIV_I, of a]
  have le: "next_of h y \<le> now" if "y \<in> set A" for y
  proof -
    have "y \<in> set xs" using that by (auto simp: A_def dest: in_set_takeD)
    moreover have "tless ?h y a" using that sp(1) by (simp add: A_def assms(3) oset_lower_take)
    ultimately show ?thesis using na ny by (auto simp: tless_iff)
  qed
  have ge: "now \<le> next_of h y" if "y \<in> set R" for y
  proof -
    have "y \<in> set xs" using that by (auto simp: R_def dest: in_set_dropD)
    moreover have "\<not> tless ?h y a" using sp(2) that unfolding R_def assms(3) oset_lower_drop by (rule bspec)
    ultimately show ?thesis using na ny by (auto simp: tless_iff)
  qed
  have "sorted_wrt (tless h) R" unfolding R_def by (rule sorted_wrt_drop [OF assms(1)])
  then have "\<forall>y \<in> set C. next_of h y \<noteq> now"
    unfolding C_def by (rule drop_closed) (use ge in \<open>fastforce simp: tless_iff\<close>)
  then have gt: "now < next_of h y" if "y \<in> set C" for y
    using that ge [of y] by (metis C_def order_le_imp_less_or_eq set_dropWhileD)
  have eq: "next_of h y = now" if "y \<in> set B" for y
    using that by (auto simp: B_def dest: set_takeWhileD)
  have xs: "xs = A @ B @ C" by (simp add: A_def B_def C_def R_def)
  have "length A = it0"
    unfolding A_def assms(3) using oset_lower_le [of "tless ?h" a xs] by (rule length_take_le)
  then have it: "it = length (A @ B)" unfolding assms(4) B_def R_def length_append by simp
  have "filter (\<lambda>t. next_of h t \<le> now) (A @ B) = A @ B"
    by (rule filter_True) (use le eq in auto)
  moreover have "filter (\<lambda>t. next_of h t \<le> now) C = []"
    by (rule filter_False) (use gt in \<open>auto simp: not_le\<close>)
  ultimately show "take it xs = filter (\<lambda>t. next_of h t \<le> now) xs" by (simp add: xs it)
  have "filter (\<lambda>t. \<not> next_of h t \<le> now) (A @ B) = []"
    by (rule filter_False) (use le eq in auto)
  moreover have "filter (\<lambda>t. \<not> next_of h t \<le> now) C = C"
    by (rule filter_True) (use gt in \<open>auto simp: not_le\<close>)
  ultimately show "drop it xs = filter (\<lambda>t. \<not> next_of h t \<le> now) xs" by (simp add: xs it)
qed

definition due :: "bool \<Rightarrow> u64 \<Rightarrow> (ptr \<rightharpoonup> 'cb timer) \<Rightarrow> ptr \<Rightarrow> bool" where
  "due rollover now h t = (rollover \<or> next_of h t \<le> now)"

lemma listExpired_ok:
  assumes inv: "tm_inv s" and a: "tg_heap s a = None"
    and D: "D = filter (due (fst (detectClockRollover now s)) now (tg_heap s)) (tg_timers s)"
  shows "\<exists>s'. listExpiredCb now a s = Inr (map (cb_of (tg_heap s)) D, s') \<and> tm_inv s' \<and>
    set (tg_timers s') = (set (tg_timers s) - set D) \<union> {t \<in> set D. recurs (tg_heap s) t} \<and>
    tg_heap s' = (\<lambda>t. if t \<in> set D then map_option (fired now) (tg_heap s t) else tg_heap s t)"
proof (cases "tg_timers s = []")
  case True
  then show ?thesis using inv by (simp add: listExpiredCb_def D)
next
  case ne: False
  note i = tm_invD [OF inv]
  let ?ts = "tg_timers s" and ?h = "tg_heap s"
  obtain ro s1 where ro: "detectClockRollover now s = (ro, s1)" by fastforce
  have s1: "s1 = s\<lparr>tg_previouse := now\<rparr>" using ro by (simp add: detectClockRollover_def)
  have D': "D = filter (due ro now ?h) ?ts" using D ro by simp
  show ?thesis
  proof (cases "\<not> ro \<and> now < next_of ?h (hd ?ts)")
    case True
    have "now < next_of ?h t" if "t \<in> set ?ts" for t
      using tset.hd_least [OF i(1) ne that] True by (auto simp: tless_iff)
    then have "D = []" using True by (auto simp: D' due_def filter_empty_conv not_le)
    moreover have "tm_inv s1" using inv by (simp add: s1)
    ultimately show ?thesis
      using True ne ro by (simp add: listExpiredCb_def Let_def s1)
  next
    case False
    define it0 where "it0 = (if ro then length ?ts
      else oset_lower (tless (?h(a \<mapsto> Timer_at now))) a ?ts)"
    define it where "it = it0 + length (takeWhile (\<lambda>t. next_of ?h t = now) (drop it0 ?ts))"
    have na: "a \<notin> set ?ts" using i(2) a by auto
    have tk: "take it ?ts = D \<and> drop it ?ts = filter (\<lambda>t. \<not> due ro now ?h t) ?ts"
    proof (cases ro)
      case True
      then have "it0 = length ?ts" by (simp add: it0_def)
      then show ?thesis using True by (simp add: it_def D' due_def [abs_def])
    next
      case False
      then show ?thesis
        using due_prefix [OF i(1) na _ it_def] by (simp add: it0_def D' due_def [abs_def])
    qed
    have "listExpiredCb now a s =
        expire_loop now (take it ?ts) [] (s1\<lparr>tg_timers := drop it ?ts\<rparr>)"
      using False ne ro by (cases ro) (simp_all add: listExpiredCb_def Let_def s1 it_def it0_def)
    then have run: "listExpiredCb now a s = expire_loop now D [] (s1\<lparr>tg_timers := drop it ?ts\<rparr>)"
      using tk by simp
    let ?s = "s1\<lparr>tg_timers := drop it ?ts\<rparr>"
    have sel: "tg_heap ?s = ?h" "set (tg_timers ?s) = set ?ts - set D"
      using tk by (auto simp: s1 D')
    have "\<exists>s'. expire_loop now D [] ?s = Inr ([] @ map (cb_of (tg_heap ?s)) D, s') \<and> tm_inv s' \<and>
      set (tg_timers s') = set (tg_timers ?s) \<union> {t \<in> set D. recurs (tg_heap ?s) t} \<and>
      tg_heap s' = (\<lambda>t. if t \<in> set D then map_option (fired now) (tg_heap ?s t) else tg_heap ?s t) \<and>
      tg_tickled s' = tg_tickled ?s \<and> tg_previouse s' = tg_previouse ?s"
    proof (rule expire_loop_ok)
      show "sorted_wrt (tless (tg_heap ?s)) (tg_timers ?s)"
        using sorted_wrt_drop [OF i(1)] by (simp add: s1)
      show "distinct D" using timers_distinct [OF i(1)] by (simp add: D')
      show "set D \<inter> set (tg_timers ?s) = {}" unfolding sel(2) by blast
      show "set D \<union> set (tg_timers ?s) \<subseteq> dom (tg_heap ?s)"
        unfolding sel(1) sel(2) using i(2) by (auto simp: D')
      show "t \<in> set D \<union> set (tg_timers ?s)" if "tg_heap ?s t = Some b" "tm_cb b \<noteq> None" for t b
        using that i(3) unfolding sel(1) sel(2) by blast
    qed
    then show ?thesis unfolding run sel by auto
  qed
qed

section \<open>Sequences of operations\<close>

datatype 'cb top =
    Cancel ptr
  | Refresh ptr
  | Reset ptr u64 bool
  | Add ptr u64 "'cb tcb option" bool
  | NextTimer
  | ListExpired ptr

text \<open>The callbacks an operation hands out, and the new state.\<close>

fun timer_op :: "u64 \<Rightarrow> 'cb top \<Rightarrow> 'cb tmgr \<Rightarrow> ('cb tcb option list \<times> 'cb tmgr) res" where
  "timer_op now (Cancel t) s = bindR (Timer_cancel t s) (\<lambda>(_, s'). Inr ([], s'))"
| "timer_op now (Refresh t) s = bindR (Timer_refresh now t s) (\<lambda>(_, s'). Inr ([], s'))"
| "timer_op now (Reset t ms fn) s = bindR (Timer_reset now ms fn t s) (\<lambda>(_, s'). Inr ([], s'))"
| "timer_op now (Add a ms cb rc) s = Inr ([], snd (addTimer now a ms cb rc s))"
| "timer_op now NextTimer s = Inr ([], snd (getNextTimer now s))"
| "timer_op now (ListExpired a) s = listExpiredCb now a s"

text \<open>Clients name existing timers, the allocator unused addresses.\<close>

fun op_ok :: "'cb top \<Rightarrow> 'cb tmgr \<Rightarrow> bool" where
  "op_ok (Cancel t) s = (tg_heap s t \<noteq> None)"
| "op_ok (Refresh t) s = (tg_heap s t \<noteq> None)"
| "op_ok (Reset t ms fn) s = (tg_heap s t \<noteq> None)"
| "op_ok (Add a ms cb rc) s = (tg_heap s a = None)"
| "op_ok NextTimer s = True"
| "op_ok (ListExpired a) s = (tg_heap s a = None)"

lemma getNextTimer_state: "snd (getNextTimer now s) = s\<lparr>tg_tickled := False\<rparr>"
  by (simp add: getNextTimer_def Let_def split: list.split)

text \<open>Timers that nothing can bring back: no callback, and not in the set.\<close>

definition dead :: "ptr \<Rightarrow> 'cb tmgr \<Rightarrow> bool" where
  "dead t s = (t \<notin> set (tg_timers s) \<and>
     (case tg_heap s t of None \<Rightarrow> False | Some b \<Rightarrow> tm_cb b = None))"

lemma timer_op_ok:
  assumes inv: "tm_inv s" and ok: "op_ok p s"
  shows "\<exists>cbs s'. timer_op now p s = Inr (cbs, s') \<and> tm_inv s' \<and>
    (\<forall>t. dead t s \<longrightarrow> dead t s')"
proof (cases p)
  case (Cancel t)
  then obtain b where b: "tg_heap s t = Some b" using ok by auto
  show ?thesis using cancel_ok [OF inv b] Cancel by (auto simp: dead_def split: if_splits)
next
  case (Refresh t)
  then obtain b where b: "tg_heap s t = Some b" using ok by auto
  show ?thesis using refresh_ok [OF inv b, of now] Refresh b
    by (auto simp: dead_def split: if_splits)
next
  case (Reset t ms fn)
  then obtain b where b: "tg_heap s t = Some b" using ok by auto
  show ?thesis using reset_ok [OF inv b, of now ms fn] Reset b
    by (auto simp: dead_def split: if_splits)
next
  case (Add a ms cb rc)
  obtain f s' where f: "addTimer now a ms cb rc s = (f, s')" by fastforce
  have "tg_heap s a = None" using ok Add by simp
  from addTimer_ok [OF inv this f] this show ?thesis
    using Add f by (auto simp: dead_def)
next
  case NextTimer
  show ?thesis using NextTimer inv by (simp add: getNextTimer_state dead_def)
next
  case (ListExpired a)
  then have "tg_heap s a = None" using ok by simp
  from listExpired_ok [OF inv this refl, of now] show ?thesis
    using ListExpired by (auto simp: dead_def)
qed


primrec timer_run :: "(u64 \<times> 'cb top) list \<Rightarrow> 'cb tmgr \<Rightarrow> 'cb tcb option list \<Rightarrow>
    ('cb tcb option list \<times> 'cb tmgr) res" where
  "timer_run [] s out = Inr (out, s)"
| "timer_run (p # ps) s out = bindR (timer_op (fst p) (snd p) s) (\<lambda>(cbs, s').
     timer_run ps s' (out @ cbs))"

inductive tm_reachable :: "'cb tmgr \<Rightarrow> bool" where
  tm_start: "tm_reachable (TimerManager_new now)"
| tm_step: "tm_reachable s \<Longrightarrow> op_ok p s \<Longrightarrow> timer_op now p s = Inr (cbs, s') \<Longrightarrow> tm_reachable s'"

lemma tm_new_inv: "tm_inv (TimerManager_new now)"
  by (simp add: tm_inv_def TimerManager_new_def)

lemma tm_reachable_inv: "tm_reachable s \<Longrightarrow> tm_inv s"
proof (induction rule: tm_reachable.induct)
  case (tm_start now)
  then show ?case by (rule tm_new_inv)
next
  case (tm_step s p now cbs s')
  then show ?case using timer_op_ok [of s p now] by auto
qed

text \<open>Steps that follow a given state.\<close>

inductive tm_steps :: "'cb tmgr \<Rightarrow> 'cb tmgr \<Rightarrow> bool" for s where
  tm_refl: "tm_steps s s"
| tm_next: "tm_steps s s' \<Longrightarrow> op_ok p s' \<Longrightarrow> timer_op now p s' = Inr (cbs, s'') \<Longrightarrow> tm_steps s s''"

lemma tm_steps_dead:
  "tm_steps s s' \<Longrightarrow> tm_inv s \<Longrightarrow> tm_inv s' \<and> (dead t s \<longrightarrow> dead t s')"
proof (induction rule: tm_steps.induct)
  case (tm_next s' p now cbs s'')
  then show ?case using timer_op_ok [of s' p now] by auto
qed simp

section \<open>Properties\<close>

text \<open>
  C14. Whatever the clock, the addresses the allocator chooses and the order of the calls,
  every operation on the timers succeeds (in particular \<open>cancel\<close> never erases the end
  iterator), keeps the set sorted by expiry time, and keeps every timer that has a callback
  in the set.
\<close>

theorem timer_ops_safe:
  assumes "tm_reachable s" and "op_ok p s"
  shows "\<exists>cbs s'. timer_op now p s = Inr (cbs, s') \<and>
    sorted_wrt (tless (tg_heap s')) (tg_timers s') \<and> distinct (tg_timers s') \<and>
    (\<forall>t b. tg_heap s' t = Some b \<and> tm_cb b \<noteq> None \<longrightarrow> t \<in> set (tg_timers s'))"
proof -
  obtain cbs s' where "timer_op now p s = Inr (cbs, s')" "tm_inv s'"
    using timer_op_ok [OF tm_reachable_inv [OF assms(1)] assms(2), of now] by blast
  then show ?thesis
    using tm_invD(1,3) [of s'] timers_distinct [OF tm_invD(1) [of s']] by (intro exI) blast
qed

text \<open>
  C5. \<open>listExpiredCb\<close> hands out the callbacks of exactly the timers that are due (all of them
  when the clock has been set back by more than an hour), in the order of their expiry times;
  the due timers that recur are set again, one period from now, the other due timers lose
  their callback and leave the set, and no other timer changes.
\<close>

theorem listExpiredCb_exact:
  assumes "tm_reachable s" and "tg_heap s a = None"
    and "D = filter (\<lambda>t. fst (detectClockRollover now s) \<or> next_of (tg_heap s) t \<le> now) (tg_timers s)"
  shows "\<exists>s'. listExpiredCb now a s = Inr (map (cb_of (tg_heap s)) D, s') \<and>
    sorted_wrt (\<lambda>t u. next_of (tg_heap s) t \<le> next_of (tg_heap s) u) D \<and>
    set (tg_timers s') = (set (tg_timers s) - set D) \<union> {t \<in> set D. recurs (tg_heap s) t} \<and>
    (\<forall>t. tg_heap s' t = (case tg_heap s t of None \<Rightarrow> None | Some b \<Rightarrow> Some (
      if t \<notin> set D then b
      else if tm_recurring b then b\<lparr>tm_next := now + tm_ms b\<rparr> else b\<lparr>tm_cb := None\<rparr>)))"
proof -
  note i = tm_reachable_inv [OF assms(1)]
  have D: "D = filter (due (fst (detectClockRollover now s)) now (tg_heap s)) (tg_timers s)"
    by (simp add: assms(3) due_def [abs_def])
  have "sorted_wrt (\<lambda>t u. next_of (tg_heap s) t \<le> next_of (tg_heap s) u) (tg_timers s)"
    by (rule sorted_wrt_mono_rel [OF _ tm_invD(1) [OF i]]) (auto simp: tless_iff)
  then have "sorted_wrt (\<lambda>t u. next_of (tg_heap s) t \<le> next_of (tg_heap s) u) D"
    unfolding assms(3) by (rule sorted_wrt_filter)
  then show ?thesis
    using listExpired_ok [OF i assms(2) D] by (fastforce simp: fired_def split: option.splits)
qed

text \<open>
  \<open>getNextTimer\<close> tells how long nothing will be due: all ones when there is no timer;
  otherwise a number \<open>r\<close> of milliseconds, with no wrap-around, such that \<open>listExpiredCb\<close>
  returns nothing at any earlier time from now on, and something at that time.
\<close>

theorem getNextTimer_exact:
  assumes "tm_reachable s" and "getNextTimer now s = (r, s')"
  shows "(tg_timers s = [] \<longrightarrow> r = - 1) \<and>
    (tg_timers s \<noteq> [] \<longrightarrow> unat now + unat r < 2 ^ 64 \<and>
      (\<forall>now'. now \<le> now' \<longrightarrow>
        ((\<exists>t \<in> set (tg_timers s). next_of (tg_heap s) t \<le> now') \<longleftrightarrow> now + r \<le> now')))"
proof (cases "tg_timers s")
  case Nil
  then show ?thesis using assms(2) by (simp add: getNextTimer_def Let_def)
next
  case (Cons t ts)
  note i = tm_reachable_inv [OF assms(1)]
  let ?n = "next_of (tg_heap s) t"
  have min: "?n \<le> next_of (tg_heap s) u" if "u \<in> set (tg_timers s)" for u
    using tset.hd_least [OF tm_invD(1) [OF i] _ that] Cons by (auto simp: tless_iff)
  have r: "r = (if ?n \<le> now then 0 else ?n - now)"
    using assms(2) Cons by (auto simp: getNextTimer_def Let_def)
  then have "now + r = (if ?n \<le> now then now else ?n)" by simp
  moreover have "unat now + unat r < 2 ^ 64"
  proof (cases "?n \<le> now")
    case True
    then show ?thesis using r unat_u64 [of now] by simp
  next
    case False
    then have "unat r = unat ?n - unat now" using r by (simp add: unat_sub)
    moreover have "unat now \<le> unat ?n" using False by (simp add: word_le_nat_alt)
    ultimately show ?thesis using unat_u64 [of ?n] by simp
  qed
  moreover have "(\<exists>u \<in> set (tg_timers s). next_of (tg_heap s) u \<le> now') \<longleftrightarrow> ?n \<le> now'" for now'
    using min Cons by (metis list.set_intros(1) order_trans)
  ultimately show ?thesis using Cons by (auto split: if_splits)
qed


text \<open>
  C27. A cancelled timer never fires again: \<open>cancel\<close> succeeds exactly on a timer that still
  has a callback, and from then on, after any further operations, whatever they are, no
  \<open>listExpiredCb\<close> finds the timer in the set.
\<close>

theorem cancel_is_final:
  assumes "tm_reachable s" and "tg_heap s t = Some b"
  shows "\<exists>s'. Timer_cancel t s = Inr (tm_cb b \<noteq> None, s') \<and>
    (tm_cb b \<noteq> None \<longrightarrow> (\<forall>s''. tm_steps s' s'' \<longrightarrow> t \<notin> set (tg_timers s'') \<and>
      (\<exists>s3. Timer_cancel t s'' = Inr (False, s3)) \<and>
      (\<exists>s3. Timer_refresh now t s'' = Inr (False, s3))))"
proof -
  obtain s' where s': "Timer_cancel t s = Inr (tm_cb b \<noteq> None, s')" "tm_inv s'"
    "tg_timers s' = (if tm_cb b = None then tg_timers s else filter (\<lambda>x. x \<noteq> t) (tg_timers s))"
    "tg_heap s' = (tg_heap s)(t \<mapsto> b\<lparr>tm_cb := None\<rparr>)"
    using cancel_ok [OF tm_reachable_inv [OF assms(1)] assms(2)] by blast
  have "t \<notin> set (tg_timers s'') \<and> (\<exists>s3. Timer_cancel t s'' = Inr (False, s3)) \<and>
      (\<exists>s3. Timer_refresh now t s'' = Inr (False, s3))"
    if "tm_cb b \<noteq> None" "tm_steps s' s''" for s''
  proof -
    have "dead t s'" using that(1) s'(3,4) by (simp add: dead_def del: not_None_eq)
    then have "dead t s''" using tm_steps_dead [OF that(2) s'(2)] by blast
    then show ?thesis
      by (auto simp: dead_def Timer_cancel_def Timer_refresh_def get_timer_def split: option.splits)
  qed
  then show ?thesis using s'(1) by blast
qed

text \<open>
  The clock counts as set back when it is more than an hour behind the last call, and
  also, because the subtraction wraps around, at any step back in the first hour after 1970.
\<close>

theorem detectClockRollover_iff:
  "fst (detectClockRollover now s) \<longleftrightarrow>
    (if 3600000 \<le> unat (tg_previouse s) then unat now + 3600000 < unat (tg_previouse s)
     else now < tg_previouse s)"
proof (cases "3600000 \<le> unat (tg_previouse s)")
  case True
  then have "unat (tg_previouse s - 3600000) = unat (tg_previouse s) - 3600000"
    by (subst unat_sub) (simp_all add: word_le_nat_alt)
  then show ?thesis using True by (auto simp: detectClockRollover_def word_less_nat_alt)
next
  case False
  have "now < tg_previouse s - 3600000" if "now < tg_previouse s"
  proof -
    have n: "unat now < 3600000" using that False by (simp add: word_less_nat_alt)
    have "unat (tg_previouse s - 3600000) = unat (tg_previouse s) + 2 ^ 64 - 3600000"
      using False by (simp add: unat_sub_if_size word_size)
    then show ?thesis using n by (simp add: word_less_nat_alt)
  qed
  then show ?thesis using False by (auto simp: detectClockRollover_def)
qed

text \<open>
  \<open>addTimer\<close> asks for a wake-up (\<open>onTimerInsertedAtFront\<close>) exactly when the new timer is
  the first to expire and none has been asked for since the last \<open>getNextTimer\<close>; when it does
  not ask, the first timer to expire is the one it was, or a wake-up is already under way.
\<close>

theorem addTimer_front:
  assumes "tm_reachable s" and "tg_heap s a = None" and "addTimer now a ms cb rc s = (front, s')"
  shows "(front \<longleftrightarrow> hd (tg_timers s') = a \<and> \<not> tg_tickled s) \<and>
    tg_tickled s' = (tg_tickled s \<or> front) \<and> \<not> tg_tickled (snd (getNextTimer now' s')) \<and>
    (\<not> front \<longrightarrow> tg_tickled s \<or> (tg_timers s \<noteq> [] \<and> hd (tg_timers s') = hd (tg_timers s)))"
proof -
  note i = tm_reachable_inv [OF assms(1)]
  note r = addTimer_ok [OF i assms(2,3)]
  have "hd (tg_timers s') = hd (tg_timers s) \<and> tg_timers s \<noteq> []"
    if "hd (tg_timers s') \<noteq> a"
  proof -
    have ne: "tg_timers s' \<noteq> []" using r(2) by auto
    let ?x = "hd (tg_timers s')"
    have x: "?x \<in> set (tg_timers s)" using r(2) ne that hd_in_set by blast
    then have ne': "tg_timers s \<noteq> []" by auto
    let ?y = "hd (tg_timers s)"
    have y: "?y \<in> set (tg_timers s)" using ne' by simp
    have n: "next_of (tg_heap s') u = next_of (tg_heap s) u" if "u \<in> set (tg_timers s)" for u
      using that tm_invD(2) [OF i] assms(2) by (auto simp: r(3) next_of_def)
    have "?x = ?y \<or> tless (tg_heap s) ?y ?x"
      using tset.hd_least [OF tm_invD(1) [OF i] ne' x] by blast
    moreover have "?x = ?y \<or> tless (tg_heap s') ?x ?y"
      using tset.hd_least [OF tm_invD(1) [OF r(1)] ne, of ?y] y r(2) by auto
    moreover have "\<not> (tless (tg_heap s) ?y ?x \<and> tless (tg_heap s') ?x ?y)"
      unfolding tless_iff n [OF x] n [OF y] by auto
    ultimately show ?thesis using ne' by metis
  qed
  then show ?thesis using r(4,5) by (auto simp: getNextTimer_state)
qed


section \<open>Witnesses\<close>

text \<open>
  Three timers: a recurring one of 10 ms, one of 5 ms that is not due when the others are, and
  one that has been cancelled.
\<close>

definition demo_tm1 :: "nat tmgr" where
  "demo_tm1 = snd (addTimer 100 7 10 (Some (Plain 1)) True (TimerManager_new 100))"

definition demo_tm2 :: "nat tmgr" where
  "demo_tm2 = snd (addTimer 108 3 5 (Some (Plain 2)) False demo_tm1)"

lemma demo_tm1_facts: "tg_heap demo_tm1 3 = None" "tg_timers demo_tm1 = [7]"
  "tg_heap demo_tm1 7 = Some \<lparr>tm_recurring = True, tm_ms = 10, tm_next = 110, tm_cb = Some (Plain 1)\<rparr>"
  by (simp_all add: demo_tm1_def addTimer_def addTimer_locked_def put_timer_def Timer_ctor_def
      TimerManager_new_def oset_insert_def oset_lower_def Let_def)

lemma demo_tm1_reachable: "tm_reachable demo_tm1"
proof -
  have "timer_op 100 (Add 7 10 (Some (Plain 1)) True) (TimerManager_new 100) = Inr ([], demo_tm1)"
    by (simp add: demo_tm1_def)
  then show ?thesis by (rule tm_step [OF tm_start, rotated]) (simp add: TimerManager_new_def)
qed

lemma demo_tm2_facts: "tg_timers demo_tm2 = [7, 3]" "tg_heap demo_tm2 0 = None"
  "tg_heap demo_tm2 3 = Some \<lparr>tm_recurring = False, tm_ms = 5, tm_next = 113, tm_cb = Some (Plain 2)\<rparr>"
  "tg_heap demo_tm2 7 = Some \<lparr>tm_recurring = True, tm_ms = 10, tm_next = 110, tm_cb = Some (Plain 1)\<rparr>"
  "tg_previouse demo_tm2 = 100"
  using demo_tm1_facts
  by (simp_all add: demo_tm2_def demo_tm1_def addTimer_def addTimer_locked_def put_timer_def
      Timer_ctor_def oset_insert_def oset_lower_def Let_def tless_iff next_of_def
      TimerManager_new_def)

lemma demo_tm2_reachable: "tm_reachable demo_tm2"
proof -
  have "timer_op 108 (Add 3 5 (Some (Plain 2)) False) demo_tm1 = Inr ([], demo_tm2)"
    by (simp add: demo_tm2_def)
  then show ?thesis by (rule tm_step [OF demo_tm1_reachable, rotated]) (simp add: demo_tm1_facts)
qed

theorem timer_ops_safe_witness:
  "\<exists>cbs s'. timer_op 50 (Cancel 3) demo_tm2 = Inr (cbs, s') \<and> distinct (tg_timers s')"
  using timer_ops_safe [OF demo_tm2_reachable, of "Cancel 3" 50] demo_tm2_facts by auto

theorem listExpiredCb_exact_witness:
  "\<exists>s'. listExpiredCb 112 0 demo_tm2 = Inr ([Some (Plain 1)], s') \<and> set (tg_timers s') = {3, 7}"
  using listExpiredCb_exact [OF demo_tm2_reachable demo_tm2_facts(2) refl, of 112] demo_tm2_facts
  by (auto simp: detectClockRollover_def next_of_def cb_of_def recurs_def)

theorem getNextTimer_exact_witness:
  "104 + fst (getNextTimer 104 demo_tm2) \<le> 110 \<and> \<not> 104 + fst (getNextTimer 104 demo_tm2) \<le> 109"
proof -
  let ?r = "fst (getNextTimer 104 demo_tm2)"
  have r: "((\<exists>t \<in> set (tg_timers demo_tm2). next_of (tg_heap demo_tm2) t \<le> now') \<longleftrightarrow>
      104 + ?r \<le> now')" if "104 \<le> now'" for now'
    using getNextTimer_exact [OF demo_tm2_reachable prod.collapse [symmetric], of 104] that
      demo_tm2_facts(1) by simp
  show ?thesis using r [of 110] r [of 109] demo_tm2_facts by (simp add: next_of_def)
qed

theorem cancel_is_final_witness:
  "\<exists>s'. Timer_cancel 7 demo_tm2 = Inr (True, s') \<and> 7 \<notin> set (tg_timers s')"
  using cancel_is_final [OF demo_tm2_reachable demo_tm2_facts(4)] tm_refl by fastforce

theorem addTimer_front_witness:
  "\<exists>s'. addTimer 101 3 5 (Some (Plain 2)) False demo_tm1 = (False, s') \<and> tg_tickled s'"
proof -
  obtain front s' where f: "addTimer 101 3 5 (Some (Plain 2)) False demo_tm1 = (front, s')"
    by fastforce
  have "tg_tickled demo_tm1"
    by (simp add: demo_tm1_def addTimer_def addTimer_locked_def put_timer_def Timer_ctor_def
        TimerManager_new_def oset_insert_def oset_lower_def Let_def)
  with addTimer_front [OF demo_tm1_reachable demo_tm1_facts(1) f] f show ?thesis by simp
qed

end
