(* ===== verification/TimerThreads.thy ===== *)
theory TimerThreads
  imports Timers Locks
begin

text \<open>
  Threads that use one timer manager at the same time (\<open>sylar/timer.cpp\<close>), with the lock as the
  code takes it: \<open>reset\<close> looks at the period before it locks, \<open>getNextTimer\<close> works under the read
  lock, and \<open>listExpiredCb\<close> looks at the set under the read lock, lets go, and looks again under the
  write lock.
\<close>

section \<open>The machine\<close>

text \<open>
  Where a thread is in its call: waiting for the lock, in the section the lock protects, or at the
  end of it, with what it has still to do.
\<close>

datatype 'cb timer_pc =
    TIdle
  | TWant mode u64 "'cb top"
  | TIn mode u64 "'cb top"
  | TLeave mode "(u64 \<times> 'cb top) option"

text \<open>\<open>mt_done\<close> is a history: who has done what, at which time by its clock, with which result.\<close>

record 'cb shared_timers =
  mt_mgr :: "'cb tmgr"
  mt_lock :: rwlock
  mt_pc :: "tid \<Rightarrow> 'cb timer_pc"
  mt_done :: "(tid \<times> u64 \<times> 'cb top \<times> 'cb tcb option list) list"
  mt_fault :: "fault option"

definition timers_new :: "u64 \<Rightarrow> 'cb shared_timers" where
  "timers_new now = \<lparr>mt_mgr = TimerManager_new now, mt_lock = RWMutex_new, mt_pc = (\<lambda>t. TIdle),
     mt_done = [], mt_fault = None\<rparr>"

definition at_pc :: "tid \<Rightarrow> 'cb timer_pc \<Rightarrow> 'cb shared_timers \<Rightarrow> 'cb shared_timers" where
  "at_pc t p c = c\<lparr>mt_pc := (mt_pc c)(t := p)\<rparr>"

definition with_fault :: "fault \<Rightarrow> 'cb shared_timers \<Rightarrow> 'cb shared_timers" where
  "with_fault f c = c\<lparr>mt_fault := Some f\<rparr>"

text \<open>
  What a thread has made of the manager, with the callbacks it has been given: the history notes it
  as the operation \<open>p\<close> at the time \<open>now\<close>.
\<close>

definition commit :: "tid \<Rightarrow> u64 \<Rightarrow> 'cb top \<Rightarrow> ('cb tcb option list \<times> 'cb tmgr) res \<Rightarrow> 'cb shared_timers \<Rightarrow>
    'cb shared_timers" where
  "commit t now p r c = (case r of Inl f \<Rightarrow> with_fault f c
     | Inr (cbs, s) \<Rightarrow> c\<lparr>mt_mgr := s, mt_done := mt_done c @ [(t, now, p, cbs)]\<rparr>)"

text \<open>The part of \<open>Timer::reset\<close> under its lock.\<close>

definition reset_rest :: "u64 \<Rightarrow> u64 \<Rightarrow> bool \<Rightarrow> ptr \<Rightarrow> 'cb tmgr \<Rightarrow> ((bool \<times> bool) \<times> 'cb tmgr) res" where
  "reset_rest now ms from_now t s = bindR (get_timer t s) (\<lambda>b.
     if tm_cb b = None then Inr ((False, False), s)
     else (case oset_find (tless (tg_heap s)) t (tg_timers s) of
         None \<Rightarrow> Inr ((False, False), s)
       | Some i \<Rightarrow>
           (let s1 = s\<lparr>tg_timers := oset_erase i (tg_timers s)\<rparr>;
                start = (if from_now then now else tm_next b - tm_ms b);
                s2 = put_timer t (b\<lparr>tm_ms := ms, tm_next := start + ms\<rparr>) s1;
                (front, s3) = addTimer_locked t s2
            in Inr ((True, front), s3))))"

text \<open>
  Whatever another thread has done to the period since the test, the rest is a reset from \<open>now\<close>, or
  from the time at which the running period began.
\<close>

definition reset_start :: "u64 \<Rightarrow> bool \<Rightarrow> ptr \<Rightarrow> 'cb tmgr \<Rightarrow> u64" where
  "reset_start now from_now t s = (if from_now then now
     else case tg_heap s t of None \<Rightarrow> now | Some b \<Rightarrow> tm_next b - tm_ms b)"

lemma reset_rest_eq: "reset_rest now ms fn t s = Timer_reset (reset_start now fn t s) ms True t s"
  by (auto simp: reset_rest_def Timer_reset_def reset_start_def get_timer_def split: option.split)

lemma Timer_reset_eq: "Timer_reset now ms fn t s = bindR (get_timer t s) (\<lambda>b.
    if ms = tm_ms b \<and> \<not> fn then Inr ((True, False), s) else reset_rest now ms fn t s)"
  by (auto simp: reset_rest_def Timer_reset_def get_timer_def split: option.split)

text \<open>What a call does before it locks.\<close>

definition call_begin :: "tid \<Rightarrow> u64 \<Rightarrow> 'cb top \<Rightarrow> 'cb shared_timers \<Rightarrow> 'cb shared_timers" where
  "call_begin t now p c = (case p of
     Reset q ms fn \<Rightarrow> (case tg_heap (mt_mgr c) q of None \<Rightarrow> with_fault (Dangling q) c
       | Some b \<Rightarrow> if ms = tm_ms b \<and> \<not> fn then commit t now p (Inr ([], mt_mgr c)) c else at_pc t (TWant Write now p) c)
   | NextTimer \<Rightarrow> at_pc t (TWant Read now p) c
   | ListExpired a \<Rightarrow> at_pc t (TWant Read now p) c
   | _ \<Rightarrow> at_pc t (TWant Write now p) c)"

text \<open>What it does under the lock.\<close>

definition call_body :: "tid \<Rightarrow> mode \<Rightarrow> u64 \<Rightarrow> 'cb top \<Rightarrow> 'cb shared_timers \<Rightarrow> 'cb shared_timers" where
  "call_body t m now p c = (case p of
     Reset q ms fn \<Rightarrow> at_pc t (TLeave m None) (commit t (reset_start now fn q (mt_mgr c)) (Reset q ms True)
       (bindR (reset_rest now ms fn q (mt_mgr c)) (\<lambda>(_, s). Inr ([], s))) c)
   | ListExpired a \<Rightarrow> (if m = Read
       then (if tg_timers (mt_mgr c) = [] then at_pc t (TLeave m None) (commit t now p (Inr ([], mt_mgr c)) c)
             else at_pc t (TLeave m (Some (now, p))) c)
       else at_pc t (TLeave m None) (commit t now p (listExpiredCb now a (mt_mgr c)) c))
   | _ \<Rightarrow> at_pc t (TLeave m None) (commit t now p (timer_op now p (mt_mgr c)) c))"

text \<open>The addresses a call has from the allocator.\<close>

fun op_new :: "'cb top \<Rightarrow> ptr set" where
  "op_new (Add a ms cb rc) = {a}"
| "op_new (ListExpired a) = {a}"
| "op_new _ = {}"

fun pc_call :: "'cb timer_pc \<Rightarrow> 'cb top option" where
  "pc_call (TWant m now p) = Some p"
| "pc_call (TIn m now p) = Some p"
| "pc_call (TLeave m k) = map_option snd k"
| "pc_call TIdle = None"

definition reserved :: "'cb timer_pc \<Rightarrow> ptr set" where
  "reserved pc = (case pc_call pc of None \<Rightarrow> {} | Some p \<Rightarrow> op_new p)"

inductive timer_step :: "'cb shared_timers \<Rightarrow> 'cb shared_timers \<Rightarrow> bool" where
  ts_begin: "mt_pc c t = TIdle \<Longrightarrow> op_ok p (mt_mgr c) \<Longrightarrow> \<forall>u. op_new p \<inter> reserved (mt_pc c u) = {} \<Longrightarrow>
    timer_step c (call_begin t now p c)"
| ts_lock: "mt_pc c t = TWant m now p \<Longrightarrow> RWMutex_lock m t (mt_lock c) = Some l \<Longrightarrow>
    timer_step c (at_pc t (TIn m now p) (c\<lparr>mt_lock := l\<rparr>))"
| ts_body: "mt_pc c t = TIn m now p \<Longrightarrow> timer_step c (call_body t m now p c)"
| ts_unlock: "mt_pc c t = TLeave m k \<Longrightarrow> RWMutex_unlock t (mt_lock c) = Inr l \<Longrightarrow>
    timer_step c (at_pc t (case k of None \<Rightarrow> TIdle | Some (now, p) \<Rightarrow> TWant Write now p) (c\<lparr>mt_lock := l\<rparr>))"
| ts_unlock_fault: "mt_pc c t = TLeave m k \<Longrightarrow> RWMutex_unlock t (mt_lock c) = Inl f \<Longrightarrow>
    timer_step c (with_fault f c)"

definition timers_reach :: "u64 \<Rightarrow> 'cb shared_timers \<Rightarrow> bool" where
  "timers_reach now c = timer_step\<^sup>*\<^sup>* (timers_new now) c"

section \<open>One call after the other\<close>

text \<open>\<open>h\<close> is a run of whole operations from \<open>s0\<close> to \<open>s\<close>, with their results.\<close>

inductive linear :: "'cb tmgr \<Rightarrow> (tid \<times> u64 \<times> 'cb top \<times> 'cb tcb option list) list \<Rightarrow> 'cb tmgr \<Rightarrow> bool" for s0 where
  lin_nil: "linear s0 [] s0"
| lin_snoc: "linear s0 h s \<Longrightarrow> op_ok p s \<Longrightarrow> timer_op now p s = Inr (cbs, s') \<Longrightarrow>
    linear s0 (h @ [(t, now, p, cbs)]) s'"

lemma linear_reachable: "linear (TimerManager_new now) h s \<Longrightarrow> tm_reachable s"
  by (induction rule: linear.induct) (auto intro: tm_start tm_step)

text \<open>Which timers there are after an operation.\<close>

lemma timer_op_dom:
  assumes inv: "tm_inv s" and ok: "op_ok p s" and r: "timer_op now p s = Inr (cbs, s')"
  shows "dom (tg_heap s) \<subseteq> dom (tg_heap s') \<and> dom (tg_heap s') \<subseteq> dom (tg_heap s) \<union> op_new p"
proof (cases p)
  case (Cancel t)
  then obtain b where b: "tg_heap s t = Some b" using ok by auto
  show ?thesis using cancel_ok [OF inv b] r Cancel b by (auto split: if_splits)
next
  case (Refresh t)
  then obtain b where b: "tg_heap s t = Some b" using ok by auto
  show ?thesis using refresh_ok [OF inv b, of now] r Refresh b by (auto split: if_splits)
next
  case (Reset t ms fn)
  then obtain b where b: "tg_heap s t = Some b" using ok by auto
  show ?thesis using reset_ok [OF inv b, of now ms fn] r Reset b by (auto split: if_splits)
next
  case (Add a ms cb rc)
  obtain f s1 where f: "addTimer now a ms cb rc s = (f, s1)" by fastforce
  have "tg_heap s a = None" using ok Add by simp
  from addTimer_ok(3) [OF inv this f] show ?thesis using r Add f by auto
next
  case NextTimer
  then show ?thesis using r by (auto simp: getNextTimer_state)
next
  case (ListExpired a)
  then have "tg_heap s a = None" using ok by simp
  from listExpired_ok [OF inv this refl, of now] show ?thesis
    using r ListExpired by (auto simp: dom_def)
qed

lemma op_ok_later:
  assumes "op_ok q s" and "dom (tg_heap s) \<subseteq> dom (tg_heap s')" and "dom (tg_heap s') \<subseteq> dom (tg_heap s) \<union> N"
    and "op_new q \<inter> N = {}"
  shows "op_ok q s'"
  using assms by (cases q) auto

section \<open>Invariant\<close>

fun pc_holds :: "'cb timer_pc \<Rightarrow> mode option" where
  "pc_holds (TIn m now p) = Some m"
| "pc_holds (TLeave m k) = Some m"
| "pc_holds pc = None"

definition lock_holds :: "'cb shared_timers \<Rightarrow> (mode \<times> tid) set" where
  "lock_holds c = {(m, t). pc_holds (mt_pc c t) = Some m}"

text \<open>Only two calls use the read lock.\<close>

fun reads :: "'cb top \<Rightarrow> bool" where
  "reads NextTimer = True"
| "reads (ListExpired a) = True"
| "reads _ = False"

fun mode_ok :: "'cb timer_pc \<Rightarrow> bool" where
  "mode_ok (TWant m now p) = (m = Read \<longrightarrow> reads p)"
| "mode_ok (TIn m now p) = (m = Read \<longrightarrow> reads p)"
| "mode_ok pc = True"

definition timers_inv :: "u64 \<Rightarrow> 'cb shared_timers \<Rightarrow> bool" where
  "timers_inv now0 c = (mt_fault c = None \<and> linear (TimerManager_new now0) (mt_done c) (mt_mgr c) \<and>
     RWMutex_repr (mt_lock c) (lock_holds c) \<and>
     (\<forall>t p. pc_call (mt_pc c t) = Some p \<longrightarrow> op_ok p (mt_mgr c)) \<and>
     (\<forall>t. mode_ok (mt_pc c t)) \<and>
     (\<forall>t u. t \<noteq> u \<longrightarrow> reserved (mt_pc c t) \<inter> reserved (mt_pc c u) = {}))"

lemma timers_invD:
  assumes "timers_inv now0 c"
  shows "mt_fault c = None" "linear (TimerManager_new now0) (mt_done c) (mt_mgr c)"
    "RWMutex_repr (mt_lock c) (lock_holds c)" "pc_call (mt_pc c t) = Some p \<Longrightarrow> op_ok p (mt_mgr c)"
    "t \<noteq> u \<Longrightarrow> reserved (mt_pc c t) \<inter> reserved (mt_pc c u) = {}"
    "tm_inv (mt_mgr c)" "mode_ok (mt_pc c t)"
proof -
  have "linear (TimerManager_new now0) (mt_done c) (mt_mgr c)" using assms by (simp add: timers_inv_def)
  then show "tm_inv (mt_mgr c)" by (rule tm_reachable_inv [OF linear_reachable])
qed (use assms in \<open>auto simp: timers_inv_def\<close>)

lemma timers_new_inv: "timers_inv now (timers_new now)"
  using rw.new by (simp add: timers_inv_def timers_new_def lock_holds_def reserved_def lin_nil)

text \<open>Committing what an operation does, for a thread whose own call may go on to another place.\<close>

lemma commit_inv:
  assumes inv: "timers_inv now0 c" and ok: "op_ok p (mt_mgr c)"
    and new: "\<And>u. u \<noteq> t \<Longrightarrow> op_new p \<inter> reserved (mt_pc c u) = {}"
    and pc: "pc_call pc = None" "pc_holds pc = pc_holds (mt_pc c t)" "mode_ok pc"
    and r: "r = timer_op now p (mt_mgr c)"
  shows "timers_inv now0 (at_pc t pc (commit t now p r c))"
proof -
  note i = timers_invD [OF inv]
  obtain cbs s where s: "timer_op now p (mt_mgr c) = Inr (cbs, s)" using timer_op_ok [OF i(6) ok, of now] by blast
  let ?c = "at_pc t pc (commit t now p r c)"
  have c': "mt_mgr ?c = s" "mt_done ?c = mt_done c @ [(t, now, p, cbs)]" "mt_fault ?c = None"
    "mt_lock ?c = mt_lock c" "mt_pc ?c = (mt_pc c)(t := pc)"
    using r s i(1) by (simp_all add: at_pc_def commit_def)
  have "lock_holds ?c = lock_holds c" using pc(2) by (auto simp: lock_holds_def c')
  moreover have "op_ok q s" if q: "pc_call (((mt_pc c)(t := pc)) u) = Some q" for u q
  proof -
    have u: "u \<noteq> t" "pc_call (mt_pc c u) = Some q" using q pc(1) by (auto split: if_splits)
    then have "op_new q \<inter> op_new p = {}" using new [OF u(1)] by (auto simp: reserved_def)
    then show ?thesis using op_ok_later [OF i(4) [OF u(2)]] timer_op_dom [OF i(6) ok s] by blast
  qed
  moreover have "reserved (((mt_pc c)(t := pc)) u) \<inter> reserved (((mt_pc c)(t := pc)) v) = {}" if "u \<noteq> v" for u v
    using i(5) [OF that] pc(1) by (auto simp: reserved_def)
  moreover have "linear (TimerManager_new now0) (mt_done ?c) s"
    using lin_snoc [OF i(2) ok s] c'(2) by simp
  ultimately show ?thesis using i(3,7) pc(3) by (simp add: timers_inv_def c')
qed

text \<open>Going to another place of the same call, with what that holds.\<close>

lemma at_pc_inv:
  assumes inv: "timers_inv now0 c" and pc: "pc_call pc = pc_call (mt_pc c t)" "mode_ok pc"
    and l: "RWMutex_repr l {(m, u). pc_holds (((mt_pc c)(t := pc)) u) = Some m}"
  shows "timers_inv now0 (at_pc t pc (c\<lparr>mt_lock := l\<rparr>))"
proof -
  note i = timers_invD [OF inv]
  have p: "pc_call (((mt_pc c)(t := pc)) u) = pc_call (mt_pc c u)" for u using pc(1) by simp
  then have "reserved (((mt_pc c)(t := pc)) u) = reserved (mt_pc c u)" for u by (simp add: reserved_def)
  then show ?thesis
    using i p l pc(2) by (simp add: timers_inv_def at_pc_def lock_holds_def)
qed

text \<open>The first step of a call.\<close>

lemma begin_inv:
  assumes inv: "timers_inv now0 c" and idle: "mt_pc c t = TIdle" and ok: "op_ok p (mt_mgr c)"
    and new: "\<forall>u. op_new p \<inter> reserved (mt_pc c u) = {}"
  shows "timers_inv now0 (call_begin t now p c)"
proof -
  note i = timers_invD [OF inv]
  have want: "timers_inv now0 (at_pc t (TWant m now p) c)" if "m = Read \<longrightarrow> reads p" for m
  proof -
    have "lock_holds (at_pc t (TWant m now p) c) = lock_holds c"
      using idle by (auto simp: lock_holds_def at_pc_def)
    moreover have "reserved (((mt_pc c)(t := TWant m now p)) u) \<inter> reserved (((mt_pc c)(t := TWant m now p)) v) = {}"
      if "u \<noteq> v" for u v
      using i(5) [OF that] new that by (auto simp: reserved_def)
    ultimately show ?thesis using i(1-4,7) ok that by (auto simp: timers_inv_def at_pc_def)
  qed
  have same: "timers_inv now0 (commit t now p (Inr ([], mt_mgr c)) c)"
    if "timer_op now p (mt_mgr c) = Inr ([], mt_mgr c)"
  proof -
    have "at_pc t TIdle (commit t now p (Inr ([], mt_mgr c)) c) = commit t now p (Inr ([], mt_mgr c)) c"
      using idle by (simp add: at_pc_def commit_def fun_upd_idem)
    then show ?thesis
      using commit_inv [OF inv ok, of t TIdle "Inr ([], mt_mgr c)" now] new idle that by simp
  qed
  show ?thesis
  proof (cases p)
    case (Reset q ms fn)
    then obtain b where b: "tg_heap (mt_mgr c) q = Some b" using ok by auto
    show ?thesis
      using want same Reset b by (auto simp: call_begin_def Timer_reset_def get_timer_def)
  qed (use want in \<open>simp_all add: call_begin_def\<close>)
qed

text \<open>Taking the lock, and letting go of it.\<close>

lemma lock_inv:
  assumes inv: "timers_inv now0 c" and pc: "mt_pc c t = TWant m now p"
    and l: "RWMutex_lock m t (mt_lock c) = Some l"
  shows "timers_inv now0 (at_pc t (TIn m now p) (c\<lparr>mt_lock := l\<rparr>))"
proof (rule at_pc_inv [OF inv])
  have "t \<notin> snd ` lock_holds c" using pc by (auto simp: lock_holds_def)
  then have "RWMutex_repr l (insert (m, t) (lock_holds c))"
    using rw.take_repr [OF timers_invD(3) [OF inv] _ l] by blast
  moreover have "insert (m, t) (lock_holds c) =
      {(k, u). pc_holds (((mt_pc c)(t := TIn m now p)) u) = Some k}"
    using pc by (auto simp: lock_holds_def split: if_splits)
  ultimately show "RWMutex_repr l {(k, u). pc_holds (((mt_pc c)(t := TIn m now p)) u) = Some k}" by simp
qed (use pc timers_invD(7) [OF inv, of t] in simp_all)

lemma unlock_inv:
  assumes inv: "timers_inv now0 c" and pc: "mt_pc c t = TLeave m k"
  shows "\<exists>l. RWMutex_unlock t (mt_lock c) = Inr l \<and>
    timers_inv now0 (at_pc t (case k of None \<Rightarrow> TIdle | Some (now, p) \<Rightarrow> TWant Write now p) (c\<lparr>mt_lock := l\<rparr>))"
proof -
  let ?pc = "case k of None \<Rightarrow> TIdle | Some (now, p) \<Rightarrow> TWant Write now p"
  have "(m, t) \<in> lock_holds c" using pc by (simp add: lock_holds_def)
  from rw.free_repr [OF timers_invD(3) [OF inv] this]
  obtain l where l: "RWMutex_unlock t (mt_lock c) = Inr l" "RWMutex_repr l (lock_holds c - {(m, t)})" by blast
  have "lock_holds c - {(m, t)} = {(k, u). pc_holds (((mt_pc c)(t := ?pc)) u) = Some k}"
    using pc by (auto simp: lock_holds_def split: if_splits option.splits)
  moreover have "pc_call ?pc = pc_call (mt_pc c t)" "mode_ok ?pc" using pc by (simp_all split: option.split)
  ultimately show ?thesis using at_pc_inv [OF inv] l by simp
qed

lemma body_inv:
  assumes inv: "timers_inv now0 c" and pc: "mt_pc c t = TIn m now p"
  shows "timers_inv now0 (call_body t m now p c)"
proof -
  note i = timers_invD [OF inv]
  have ok: "op_ok p (mt_mgr c)" by (rule i(4) [of t]) (simp add: pc)
  have new: "op_new p \<inter> reserved (mt_pc c u) = {}" if "u \<noteq> t" for u
    using i(5) [of t u] that pc by (auto simp: reserved_def)
  have all: "timers_inv now0 (at_pc t (TLeave m None) (commit t n q r c))"
    if "op_ok q (mt_mgr c)" "op_new q \<subseteq> op_new p" "r = timer_op n q (mt_mgr c)" for n q r
    by (rule commit_inv [OF inv that(1)]) (use new that(2,3) pc in auto)
  have same: "timers_inv now0 (at_pc t (TLeave m (Some (now, p))) c)"
  proof -
    have "{(k, u). pc_holds (((mt_pc c)(t := TLeave m (Some (now, p)))) u) = Some k} = lock_holds c"
      using pc by (auto simp: lock_holds_def)
    then show ?thesis
      using at_pc_inv [OF inv, of "TLeave m (Some (now, p))" t "mt_lock c"] pc i(3) by simp
  qed
  show ?thesis
  proof (cases p)
    case (Reset q ms fn)
    then show ?thesis
      using all [of "Reset q ms True"] ok by (simp add: call_body_def reset_rest_eq)
  next
    case (ListExpired a)
    then show ?thesis
      using all [of p _ now] same ok by (auto simp: call_body_def listExpiredCb_def)
  qed (use all [of p _ now] ok in \<open>simp_all add: call_body_def\<close>)
qed

text \<open>Who changes the set of timers is a writer.\<close>

lemma timer_step_writes:
  assumes "timer_step c c'" and inv: "timers_inv now0 c" and ne: "tg_timers (mt_mgr c') \<noteq> tg_timers (mt_mgr c)"
  shows "\<exists>t now p. mt_pc c t = TIn Write now p"
  using assms(1)
proof cases
  case (ts_body t m now p)
  have "m = Write"
  proof (rule ccontr)
    assume "m \<noteq> Write"
    then have "m = Read" by (cases m) simp_all
    moreover then have "reads p" using timers_invD(7) [OF inv, of t] ts_body(2) by simp
    ultimately show False
      using ne ts_body(1) by (cases p) (auto simp: call_body_def at_pc_def commit_def getNextTimer_state split: if_splits)
  qed
  then show ?thesis using ts_body(2) by blast
qed (use ne in \<open>auto simp: call_begin_def at_pc_def commit_def with_fault_def split: top.splits option.splits if_splits\<close>)

lemma timer_step_inv: "timer_step c c' \<Longrightarrow> timers_inv now0 c \<Longrightarrow> timers_inv now0 c'"
proof (induction rule: timer_step.induct)
  case (ts_unlock_fault c t m k f)
  then show ?case using unlock_inv [of now0 c t m k] by auto
next
  case (ts_unlock c t m k l)
  then show ?case using unlock_inv [of now0 c t m k] by auto
qed (use begin_inv lock_inv body_inv in blast)+

lemma timers_reach_inv: "timers_reach now c \<Longrightarrow> timers_inv now c"
  unfolding timers_reach_def
  by (induction rule: rtranclp_induct) (auto intro: timers_new_inv timer_step_inv)

section \<open>Properties\<close>

text \<open>
  C16. Threads may use the timers at the same time: whatever they call and however their steps
  interleave, no operation fails and no lock is misused, a thread that changes the set is alone in
  its section, and what has been done is one operation after the other, each with its own result, as
  if the calls had not overlapped; the two looks of \<open>listExpiredCb\<close> are one such operation, and so
  is a \<open>reset\<close> whose period another thread has changed since its test. So all that holds of sequences
  of operations holds here.
\<close>

theorem timer_calls_linear:
  assumes "timers_reach now0 c"
  shows "mt_fault c = None \<and> linear (TimerManager_new now0) (mt_done c) (mt_mgr c) \<and> tm_reachable (mt_mgr c) \<and>
    (\<forall>c'. timer_step c c' \<and> tg_timers (mt_mgr c') \<noteq> tg_timers (mt_mgr c) \<longrightarrow>
      (\<exists>t now p. mt_pc c t = TIn Write now p \<and> (\<forall>u. u \<noteq> t \<longrightarrow> pc_holds (mt_pc c u) = None)))"
proof -
  note inv = timers_reach_inv [OF assms]
  note i = timers_invD [OF inv]
  have "\<exists>t now p. mt_pc c t = TIn Write now p \<and> (\<forall>u. u \<noteq> t \<longrightarrow> pc_holds (mt_pc c u) = None)"
    if s: "timer_step c c'" "tg_timers (mt_mgr c') \<noteq> tg_timers (mt_mgr c)" for c'
  proof -
    obtain t now p where t: "mt_pc c t = TIn Write now p" using timer_step_writes [OF s(1) inv s(2)] by blast
    have "pc_holds (mt_pc c u) = None" if "u \<noteq> t" for u
    proof (rule ccontr)
      assume "pc_holds (mt_pc c u) \<noteq> None"
      then obtain m where "(Write, t) \<in> lock_holds c" "(m, u) \<in> lock_holds c" using t by (auto simp: lock_holds_def)
      then show False using rw.excl [OF i(3)] that by (metis both_read_def mode.distinct(1))
    qed
    then show ?thesis using t by blast
  qed
  then show ?thesis using i(1,2) linear_reachable [OF i(2)] by blast
qed

section \<open>An instance\<close>

text \<open>A turn of a thread in its call, and the moves of the threads \<open>us\<close>: a new call, or a turn.\<close>

definition thread_turn :: "tid \<Rightarrow> 'cb shared_timers \<Rightarrow> 'cb shared_timers option" where
  "thread_turn t c = (case mt_pc c t of TIdle \<Rightarrow> None
     | TWant m now p \<Rightarrow> map_option (\<lambda>l. at_pc t (TIn m now p) (c\<lparr>mt_lock := l\<rparr>)) (RWMutex_lock m t (mt_lock c))
     | TIn m now p \<Rightarrow> Some (call_body t m now p c)
     | TLeave m k \<Rightarrow> (case RWMutex_unlock t (mt_lock c) of Inl f \<Rightarrow> None
         | Inr l \<Rightarrow> Some (at_pc t (case k of None \<Rightarrow> TIdle | Some (now, p) \<Rightarrow> TWant Write now p) (c\<lparr>mt_lock := l\<rparr>))))"

lemma thread_turn_step: "thread_turn t c = Some c' \<Longrightarrow> timer_step c c'"
  by (auto simp: thread_turn_def split: timer_pc.splits sum.splits
      intro: ts_lock ts_body ts_unlock)

fun timer_move :: "tid list \<Rightarrow> tid \<times> (u64 \<times> 'cb top) option \<Rightarrow> 'cb shared_timers \<Rightarrow> 'cb shared_timers option" where
  "timer_move us (t, None) c = (if t \<in> set us then thread_turn t c else None)"
| "timer_move us (t, Some (now, p)) c =
     (if t \<in> set us \<and> (case mt_pc c t of TIdle \<Rightarrow> True | _ \<Rightarrow> False) \<and> op_ok p (mt_mgr c) \<and>
        list_all (\<lambda>u. op_new p \<inter> reserved (mt_pc c u) = {}) us
      then Some (call_begin t now p c) else None)"

primrec timer_moves :: "tid list \<Rightarrow> (tid \<times> (u64 \<times> 'cb top) option) list \<Rightarrow> 'cb shared_timers \<Rightarrow>
    'cb shared_timers option" where
  "timer_moves us [] c = Some c"
| "timer_moves us (e # es) c = (case timer_move us e c of None \<Rightarrow> None | Some c1 \<Rightarrow> timer_moves us es c1)"

definition others_idle :: "tid list \<Rightarrow> 'cb shared_timers \<Rightarrow> bool" where
  "others_idle us c = (\<forall>u. u \<notin> set us \<longrightarrow> mt_pc c u = TIdle)"

lemma others_idle_begin: "others_idle us c \<Longrightarrow> t \<in> set us \<Longrightarrow> others_idle us (call_begin t now p c)"
  by (auto simp: others_idle_def call_begin_def commit_def with_fault_def at_pc_def
      split: top.split option.split sum.split prod.split)

lemma others_idle_body: "others_idle us c \<Longrightarrow> t \<in> set us \<Longrightarrow> others_idle us (call_body t m now p c)"
  by (auto simp: others_idle_def call_body_def commit_def with_fault_def at_pc_def
      split: top.split option.split sum.split prod.split)

lemma others_idle_at: "others_idle us c \<Longrightarrow> t \<in> set us \<Longrightarrow> others_idle us (at_pc t pc (c\<lparr>mt_lock := l\<rparr>))"
  by (auto simp: others_idle_def at_pc_def)

lemma others_idle_turn:
  assumes "others_idle us c" and "t \<in> set us" and "thread_turn t c = Some c'"
  shows "others_idle us c'"
  using assms(3) others_idle_body [OF assms(1,2)] others_idle_at [OF assms(1,2)]
  by (auto simp: thread_turn_def split: timer_pc.splits sum.splits)

lemma timer_move_step:
  assumes "timer_move us e c = Some c'" and idle: "others_idle us c"
  shows "timer_step c c' \<and> others_idle us c'"
proof (cases "(us, e, c)" rule: timer_move.cases)
  case (1 us t c)
  then have "t \<in> set us" "thread_turn t c = Some c'" using assms(1) by (auto split: if_splits)
  then show ?thesis using idle 1 others_idle_turn thread_turn_step by blast
next
  case (2 us t now p c)
  then have m: "t \<in> set us" "mt_pc c t = TIdle" "op_ok p (mt_mgr c)"
    "\<forall>u \<in> set us. op_new p \<inter> reserved (mt_pc c u) = {}" "c' = call_begin t now p c"
    using assms(1) by (auto simp: list_all_iff split: if_splits timer_pc.splits)
  have "op_new p \<inter> reserved (mt_pc c u) = {}" for u
    using m(4) idle 2 by (cases "u \<in> set us") (auto simp: others_idle_def reserved_def)
  then have "timer_step c c'" using ts_begin m by blast
  then show ?thesis using others_idle_begin m(1,5) idle 2 by blast
qed

lemma timer_moves_reach:
  "timer_moves us es c = Some c' \<Longrightarrow> others_idle us c \<Longrightarrow> timers_reach now c \<Longrightarrow> timers_reach now c'"
proof (induction es arbitrary: c)
  case (Cons e es)
  then obtain c1 where c1: "timer_move us e c = Some c1" "timer_moves us es c1 = Some c'"
    by (auto split: option.splits)
  then show ?case
    using Cons timer_move_step [OF c1(1)] rtranclp.rtrancl_into_rtrancl unfolding timers_reach_def by metis
qed simp

text \<open>
  One thread asks for the expired timers and finds the set not empty; before it has the write lock
  another one cancels the only timer; the first then hands out nothing.
\<close>

definition demo_timer_moves :: "(tid \<times> (u64 \<times> nat top) option) list" where
  "demo_timer_moves = [(0, Some (100, Add 7 10 (Some (Plain 1)) False)), (0, None), (0, None), (0, None),
     (0, Some (120, ListExpired 3)), (0, None), (0, None), (0, None),
     (1, Some (120, Cancel 7)), (1, None), (1, None)]"

lemma demo_timer_check:
  "case timer_moves [0, 1] demo_timer_moves (timers_new 90) of None \<Rightarrow> False
    | Some c \<Rightarrow> (case timer_moves [0, 1] [(1, None), (0, None), (0, None)] c of None \<Rightarrow> False | Some c' \<Rightarrow>
        mt_pc c 1 = TLeave Write None \<and> mt_pc c 0 = TWant Write 120 (ListExpired 3) \<and>
        map (\<lambda>x. snd (snd (snd x))) (mt_done c') = [[], [], []])"
  by code_simp

theorem timer_calls_linear_witness:
  "\<exists>c :: nat shared_timers. timers_reach 90 c \<and> mt_pc c 0 = TWant Write 120 (ListExpired 3) \<and>
    mt_pc c 1 = TLeave Write None \<and> tm_reachable (mt_mgr c)"
proof -
  obtain c where c: "timer_moves [0, 1] demo_timer_moves (timers_new 90) = Some c"
    "mt_pc c 1 = TLeave Write None" "mt_pc c 0 = TWant Write 120 (ListExpired 3)"
    using demo_timer_check by (auto split: option.splits)
  have "others_idle [0, 1] (timers_new 90)" by (simp add: others_idle_def timers_new_def)
  moreover have "timers_reach 90 (timers_new 90)" by (simp add: timers_reach_def)
  ultimately have "timers_reach 90 c" by (rule timer_moves_reach [OF c(1)])
  then show ?thesis using c timer_calls_linear [of 90 c] by blast
qed

end
