(* ===== verification/LogFormats.thy ===== *)
theory LogFormats
  imports Prelude
begin

text \<open>
  Log levels, log events and the formatter of \<open>sylar/log.h\<close> and \<open>sylar/log.cpp\<close>: the parser of
  patterns (\<open>LogFormatter::init\<close>), the items it creates through the \<open>Factory\<close>, and the text
  they write. Strings are lists of characters; \<open>strftime\<close> is a parameter.
\<close>

section \<open>Levels\<close>

datatype level = UNKNOW | DEBUG | INFO | WARN | ERROR | FATAL

fun level_nat :: "level \<Rightarrow> nat" where
  "level_nat UNKNOW = 0" | "level_nat DEBUG = 1" | "level_nat INFO = 2" | "level_nat WARN = 3"
| "level_nat ERROR = 4" | "level_nat FATAL = 5"

instantiation level :: linorder
begin

definition less_eq_level :: "level \<Rightarrow> level \<Rightarrow> bool" where
  "less_eq_level a b = (level_nat a \<le> level_nat b)"

definition less_level :: "level \<Rightarrow> level \<Rightarrow> bool" where
  "less_level a b = (level_nat a < level_nat b)"

lemma level_nat_inj: "level_nat a = level_nat b \<Longrightarrow> a = b"
  by (cases a; cases b) simp_all

instance
  by standard (auto simp: less_eq_level_def less_level_def intro: level_nat_inj)

end

definition ToString :: "level \<Rightarrow> string" where
  "ToString l = (case l of DEBUG \<Rightarrow> ''DEBUG'' | INFO \<Rightarrow> ''INFO'' | WARN \<Rightarrow> ''WARN''
     | ERROR \<Rightarrow> ''ERROR'' | FATAL \<Rightarrow> ''FATAL'' | UNKNOW \<Rightarrow> ''UNKNOW'')"

definition FromString :: "string \<Rightarrow> level" where
  "FromString str =
     (if str = ''debug'' then DEBUG else if str = ''info'' then INFO
      else if str = ''warn'' then WARN else if str = ''error'' then ERROR
      else if str = ''fatal'' then FATAL
      else if str = ''DEBUG'' then DEBUG else if str = ''INFO'' then INFO
      else if str = ''WARN'' then WARN else if str = ''ERROR'' then ERROR
      else if str = ''FATAL'' then FATAL else UNKNOW)"

lemma FromString_ToString: "FromString (ToString l) = l"
  by (cases l) (simp_all add: ToString_def FromString_def)

section \<open>Events\<close>

text \<open>\<open>le_logger\<close> is the name of the logger of the event.\<close>

record log_event =
  le_file :: string
  le_line :: int
  le_elapse :: u32
  le_threadId :: u64
  le_fiberId :: u64
  le_time :: u64
  le_threadName :: string
  le_content :: string
  le_level :: level
  le_logger :: string

section \<open>Format items\<close>

datatype fmt_item =
    Message | Level | Elapse | LoggerName | ThreadId | FiberId | ThreadName | DateTime string
  | Filename | Line | NewLine | Str string | Tab

definition DateTime_ctor :: "string \<Rightarrow> fmt_item" where
  "DateTime_ctor format = DateTime (if format = [] then ''%Y-%m-%d %H:%M:%S'' else format)"

text \<open>The classes registered with the factory, by their names.\<close>

definition format_classes :: "(string \<times> (string \<Rightarrow> fmt_item)) list" where
  "format_classes = [(''m'', \<lambda>_. Message), (''p'', \<lambda>_. Level), (''r'', \<lambda>_. Elapse),
     (''c'', \<lambda>_. LoggerName), (''t'', \<lambda>_. ThreadId), (''F'', \<lambda>_. FiberId),
     (''N'', \<lambda>_. ThreadName), (''d'', DateTime_ctor), (''f'', \<lambda>_. Filename), (''l'', \<lambda>_. Line),
     (''n'', \<lambda>_. NewLine), (''T'', \<lambda>_. Tab)]"

definition CreateObj :: "string \<Rightarrow> string \<Rightarrow> fmt_item option" where
  "CreateObj className arg = map_option (\<lambda>c. c arg) (map_of format_classes className)"

definition int_string :: "int \<Rightarrow> string" where
  "int_string i = (if i < 0 then CHR ''-'' # to_string (nat (- i)) else to_string (nat i))"

text \<open>
  \<open>strf format time\<close> is the local time as \<open>localtime_r\<close> and \<open>strftime\<close> print it into a buffer of 64
  characters; for a longer text, whatever that buffer then holds.
\<close>

primrec format_item :: "(string \<Rightarrow> u64 \<Rightarrow> string) \<Rightarrow> log_event \<Rightarrow> fmt_item \<Rightarrow> string" where
  "format_item strf e Message = le_content e"
| "format_item strf e Level = ToString (le_level e)"
| "format_item strf e Elapse = to_string (unat (le_elapse e))"
| "format_item strf e LoggerName = le_logger e"
| "format_item strf e ThreadId = to_string (unat (le_threadId e))"
| "format_item strf e FiberId = to_string (unat (le_fiberId e))"
| "format_item strf e ThreadName = le_threadName e"
| "format_item strf e (DateTime f) = strf f (le_time e)"
| "format_item strf e Filename = le_file e"
| "format_item strf e Line = int_string (le_line e)"
| "format_item strf e NewLine = [CHR 0x0A]"
| "format_item strf e (Str s) = s"
| "format_item strf e Tab = [CHR 0x09]"

section \<open>The pattern parser\<close>

definition isalpha :: "char \<Rightarrow> bool" where
  "isalpha c = (let n = of_char c :: nat in 65 \<le> n \<and> n \<le> 90 \<or> 97 \<le> n \<and> n \<le> 122)"

definition substr :: "string \<Rightarrow> nat \<Rightarrow> nat \<Rightarrow> string" where
  "substr s pos len = take len (drop pos s)"

text \<open>
  The inner loop, from position \<open>n\<close>, of the directive that begins at \<open>i\<close>; \<open>st\<close> is
  \<open>fmt_status\<close> and \<open>fb\<close> is \<open>fmt_begin\<close>. The result is \<open>n\<close>, \<open>fmt_status\<close>, \<open>str\<close> and \<open>fmt\<close>
  after the loop.
\<close>

function scan :: "string \<Rightarrow> nat \<Rightarrow> nat \<Rightarrow> nat \<Rightarrow> nat \<Rightarrow> string \<Rightarrow> string \<Rightarrow>
    nat \<times> nat \<times> string \<times> string" where
  "scan p i n st fb str fmt =
     (if n < length p
      then (let c = p ! n in
        if st = 0 \<and> \<not> isalpha c \<and> c \<noteq> CHR ''{'' \<and> c \<noteq> CHR ''}''
        then (n, st, substr p (i + 1) (n - i - 1), fmt)
        else if st = 0 \<and> c = CHR ''{''
        then scan p i (n + 1) 1 n (substr p (i + 1) (n - i - 1)) fmt
        else if st = 1 \<and> c = CHR ''}''
        then (n + 1, 0, str, substr p (fb + 1) (n - fb - 1))
        else scan p i (n + 1) st fb
               (if n + 1 = length p \<and> str = [] then drop (i + 1) p else str) fmt)
      else (n, st, str, fmt))"
  by pat_completeness auto
termination
  by (relation "measure (\<lambda>(p, i, n, st, fb, str, fmt). length p - n)") auto

declare scan.simps [simp del]

lemma scan_pos: "n \<le> fst (scan p i n st fb str fmt)"
proof (induction p i n st fb str fmt rule: scan.induct)
  case (1 p i n st fb str fmt)
  show ?case
  proof (cases "n < length p")
    case True
    then show ?thesis using 1 unfolding scan.simps [of p i n st fb str fmt]
      by (auto simp: Let_def split: if_splits)
  next
    case False
    then show ?thesis by (simp add: scan.simps [of p i n st fb str fmt])
  qed
qed

lemma scan_later: "(n, y) = scan p i k st fb str fmt \<Longrightarrow> k \<le> n"
  using scan_pos [of k p i st fb str fmt] by (metis fst_conv)

text \<open>
  The loop over the pattern: \<open>nstr\<close> collects literal text, the entries of \<open>vec\<close> are text,
  format and type (0 for literals, 1 for directives).
\<close>

type_synonym entry = "string \<times> string \<times> nat"

function init_loop :: "string \<Rightarrow> nat \<Rightarrow> string \<Rightarrow> entry list \<Rightarrow> bool \<Rightarrow> entry list \<times> bool" where
  "init_loop p i nstr vec err =
     (if i < length p
      then if p ! i \<noteq> CHR ''%'' then init_loop p (i + 1) (nstr @ [p ! i]) vec err
        else if i + 1 < length p \<and> p ! (i + 1) = CHR ''%''
        then init_loop p (i + 1) (nstr @ ''%'') vec err
        else (case scan p i (i + 1) 0 0 [] [] of (n, st, str, fmt) \<Rightarrow>
          if st = 0
          then init_loop p ((n - 1) + 1) []
                 (vec @ (if nstr \<noteq> [] then [(nstr, [], 0)] else []) @ [(str, fmt, 1)]) err
          else init_loop p (i + 1) nstr (vec @ [(''<<pattern_error>>'', fmt, 0)]) True)
      else (if nstr \<noteq> [] then vec @ [(nstr, [], 0)] else vec, err))"
  by pat_completeness auto
termination
  by (relation "measure (\<lambda>(p, i, nstr, vec, err). length p - i)") (auto dest!: scan_later)

declare init_loop.simps [simp del]

text \<open>The items of the entries, and whether a directive is unknown.\<close>

primrec mk_items :: "entry list \<Rightarrow> fmt_item list \<times> bool" where
  "mk_items [] = ([], False)"
| "mk_items (x # xs) = (case x of (str, fmt, t) \<Rightarrow> case mk_items xs of (is, e) \<Rightarrow>
     if t = 0 then (Str str # is, e)
     else (case CreateObj str fmt of
         Some it \<Rightarrow> (it # is, e)
       | None \<Rightarrow> (Str (''<<error_format %'' @ str @ ''>>'') # is, True)))"

record formatter =
  lf_pattern :: string
  lf_items :: "fmt_item list"
  lf_error :: bool

definition LogFormatter :: "string \<Rightarrow> formatter" where
  "LogFormatter pattern = (case init_loop pattern 0 [] [] False of (vec, err) \<Rightarrow>
     case mk_items vec of (is, e) \<Rightarrow>
       \<lparr>lf_pattern = pattern, lf_items = is, lf_error = (err \<or> e)\<rparr>)"

definition format_event :: "(string \<Rightarrow> u64 \<Rightarrow> string) \<Rightarrow> formatter \<Rightarrow> log_event \<Rightarrow> string" where
  "format_event strf f e = concat (map (format_item strf e) (lf_items f))"


section \<open>Parsing what has been printed\<close>

text \<open>
  A pattern as a list of pieces: literal text, and directives with or without a format in
  braces.
\<close>

datatype piece = Lit string | Dir string "string option"

fun show_piece :: "piece \<Rightarrow> string" where
  "show_piece (Lit s) = s"
| "show_piece (Dir d None) = CHR ''%'' # d"
| "show_piece (Dir d (Some f)) = CHR ''%'' # d @ CHR ''{'' # f @ ''}''"

definition show_pieces :: "piece list \<Rightarrow> string" where
  "show_pieces ps = concat (map show_piece ps)"

definition name_char :: "char \<Rightarrow> bool" where
  "name_char c = (isalpha c \<or> c = CHR ''{'' \<or> c = CHR ''}'')"

text \<open>
  Which lists of pieces are patterns: literals have no \<open>%\<close> and do not touch, names are
  letters, formats have no closing brace, and what follows a name without a format does not
  continue it.
\<close>

fun pieces_ok :: "piece list \<Rightarrow> bool" where
  "pieces_ok [] = True"
| "pieces_ok (Lit s # ps) = (s \<noteq> [] \<and> CHR ''%'' \<notin> set s \<and>
     (case ps of Lit _ # _ \<Rightarrow> False | _ \<Rightarrow> True) \<and> pieces_ok ps)"
| "pieces_ok (Dir d None # ps) = (d \<noteq> [] \<and> list_all isalpha d \<and>
     (case show_pieces ps of [] \<Rightarrow> True | c # _ \<Rightarrow> \<not> name_char c) \<and> pieces_ok ps)"
| "pieces_ok (Dir d (Some f) # ps) = (d \<noteq> [] \<and> list_all isalpha d \<and> CHR ''}'' \<notin> set f \<and>
     pieces_ok ps)"

fun piece_entry :: "piece \<Rightarrow> entry" where
  "piece_entry (Lit s) = (s, [], 0)"
| "piece_entry (Dir d None) = (d, [], 1)"
| "piece_entry (Dir d (Some f)) = (d, f, 1)"

lemma show_pieces_simps [simp]:
  "show_pieces [] = []" "show_pieces (x # ps) = show_piece x @ show_pieces ps"
  by (simp_all add: show_pieces_def)

lemma isalpha_not: "isalpha c \<Longrightarrow> c \<noteq> CHR ''%'' \<and> c \<noteq> CHR ''{'' \<and> c \<noteq> CHR ''}''"
  by (auto simp: isalpha_def)

lemma substr_mid: "substr (pre @ x # d @ r) (Suc (length pre)) (length d) = d"
  by (simp add: substr_def)

lemma drop_mid: "drop (Suc (length pre)) (pre @ x # d) = d"
  by simp

text \<open>The letters of a name, then the three ways it can end.\<close>

lemma scan_letters:
  "list_all isalpha d \<Longrightarrow> r \<noteq> [] \<Longrightarrow> p = q @ d @ r \<Longrightarrow>
    scan p i (length q) 0 fb [] [] = scan p i (length q + length d) 0 fb [] []"
proof (induction d arbitrary: q)
  case (Cons c d)
  have c: "p ! length q = c" "length q < length p" "Suc (length q) < length p"
    using Cons.prems by (auto simp: nth_append)
  have "scan p i (length q) 0 fb [] [] = scan p i (Suc (length q)) 0 fb [] []"
    using c isalpha_not [of c] Cons.prems(1)
    by (subst scan.simps) (simp add: Let_def)
  also have "\<dots> = scan p i (length (q @ [c])) 0 fb [] []" by simp
  also have "\<dots> = scan p i (length (q @ [c]) + length d) 0 fb [] []"
    by (rule Cons.IH) (use Cons.prems in simp_all)
  finally show ?case by simp
qed simp

lemma scan_name_end:
  assumes "p = pre @ CHR ''%'' # d" and "list_all isalpha d" and "d \<noteq> []" and "i = length pre"
  shows "scan p i (i + 1) 0 0 [] [] = (length p, 0, d, [])"
proof -
  obtain e c where d: "d = e @ [c]" using assms(3) by (metis append_butlast_last_id)
  have c: "p ! (i + 1 + length e) = c" "length p = i + 2 + length e"
    using assms(1,4) d by (simp_all add: nth_append)
  have "scan p i (i + 1) 0 0 [] [] = scan p i (i + 1 + length e) 0 0 [] []"
    using scan_letters [of e "[c]" p "pre @ ''%''" i 0] assms d by simp
  also have "\<dots> = scan p i (i + 2 + length e) 0 0 d []"
    using c isalpha_not [of c] assms d drop_mid [of pre "CHR ''%''" d]
    by (subst scan.simps) (simp add: Let_def)
  also have "\<dots> = (length p, 0, d, [])"
    using c by (subst scan.simps) simp
  finally show ?thesis .
qed

lemma scan_name_stop:
  assumes "p = pre @ CHR ''%'' # d @ c # r" and "list_all isalpha d" and "\<not> name_char c"
    and "i = length pre"
  shows "scan p i (i + 1) 0 0 [] [] = (i + 1 + length d, 0, d, [])"
proof -
  have c: "p ! (i + 1 + length d) = c" "i + 1 + length d < length p"
    using assms(1,4) by (simp_all add: nth_append)
  have "scan p i (i + 1) 0 0 [] [] = scan p i (i + 1 + length d) 0 0 [] []"
    using scan_letters [of d "c # r" p "pre @ ''%''" i 0] assms by simp
  also have "\<dots> = (i + 1 + length d, 0, d, [])"
    using c assms(3,4) substr_mid [of pre "CHR ''%''" d "c # r"]
    by (subst scan.simps) (simp add: Let_def name_char_def assms(1))
  finally show ?thesis .
qed

lemma scan_format:
  "CHR ''}'' \<notin> set f \<Longrightarrow> r \<noteq> [] \<Longrightarrow> str \<noteq> [] \<Longrightarrow> p = q @ f @ r \<Longrightarrow>
    scan p i (length q) 1 fb str [] = scan p i (length q + length f) 1 fb str []"
proof (induction f arbitrary: q)
  case (Cons c f)
  have c: "p ! length q = c" "length q < length p"
    using Cons.prems by (auto simp: nth_append)
  have "scan p i (length q) 1 fb str [] = scan p i (Suc (length q)) 1 fb str []"
    using c Cons.prems(1,3) by (subst scan.simps) (auto simp: Let_def)
  also have "\<dots> = scan p i (length (q @ [c])) 1 fb str []" by simp
  also have "\<dots> = scan p i (length (q @ [c]) + length f) 1 fb str []"
    by (rule Cons.IH) (use Cons.prems in simp_all)
  finally show ?case by simp
qed simp

lemma scan_braces:
  assumes "p = pre @ CHR ''%'' # d @ CHR ''{'' # f @ CHR ''}'' # r" and "list_all isalpha d"
    and "d \<noteq> []" and "CHR ''}'' \<notin> set f" and "i = length pre"
  shows "scan p i (i + 1) 0 0 [] [] = (i + length d + length f + 3, 0, d, f)"
proof -
  let ?b = "i + 1 + length d"
  have b: "p ! ?b = CHR ''{''" "?b < length p"
    using assms(1,5) by (simp_all add: nth_append)
  have e: "p ! (?b + 1 + length f) = CHR ''}''" "?b + 1 + length f < length p"
    using assms(1,5) by (simp_all add: nth_append)
  have "scan p i (i + 1) 0 0 [] [] = scan p i ?b 0 0 [] []"
    using scan_letters [of d "CHR ''{'' # f @ CHR ''}'' # r" p "pre @ ''%''" i 0] assms by simp
  also have "\<dots> = scan p i (?b + 1) 1 ?b d []"
    using b assms(5) substr_mid [of pre "CHR ''%''" d "CHR ''{'' # f @ CHR ''}'' # r"]
    by (subst scan.simps) (simp add: Let_def assms(1))
  also have "\<dots> = scan p i (?b + 1 + length f) 1 ?b d []"
    using scan_format [of f "CHR ''}'' # r" d p "pre @ CHR ''%'' # d @ ''{''" i ?b] assms by simp
  also have "\<dots> = (?b + 2 + length f, 0, d, f)"
  proof -
    have "substr p (?b + 1) (length f) = f" by (simp add: substr_def assms(1,5))
    then show ?thesis using e by (subst scan.simps) (simp add: Let_def)
  qed
  finally show ?thesis by simp
qed


lemma init_literal:
  "CHR ''%'' \<notin> set s \<Longrightarrow> p = q @ s @ r \<Longrightarrow>
    init_loop p (length q) nstr vec err = init_loop p (length q + length s) (nstr @ s) vec err"
proof (induction s arbitrary: q nstr)
  case (Cons c s)
  have c: "p ! length q = c" "length q < length p" "c \<noteq> CHR ''%''"
    using Cons.prems by (auto simp: nth_append)
  have "init_loop p (length q) nstr vec err = init_loop p (length (q @ [c])) (nstr @ [c]) vec err"
    using c by (subst init_loop.simps) simp
  also have "\<dots> = init_loop p (length (q @ [c]) + length s) ((nstr @ [c]) @ s) vec err"
    by (rule Cons.IH) (use Cons.prems in simp_all)
  finally show ?case by simp
qed simp

abbreviation flush :: "string \<Rightarrow> entry list" where
  "flush nstr \<equiv> if nstr \<noteq> [] then [(nstr, [], 0)] else []"

lemma init_end: "init_loop p (length p) nstr vec err = (vec @ flush nstr, err)"
  by (subst init_loop.simps) simp

lemma init_directive:
  assumes "p = q @ CHR ''%'' # c # r" and "c \<noteq> CHR ''%''"
    and "scan p (length q) (length q + 1) 0 0 [] [] = (n, 0, str, fmt)"
  shows "init_loop p (length q) nstr vec err =
    init_loop p n [] (vec @ flush nstr @ [(str, fmt, 1)]) err"
proof -
  have c: "p ! length q = CHR ''%''" "p ! Suc (length q) = c" "length q < length p"
    using assms(1) by (simp_all add: nth_append)
  have "length q + 1 \<le> n" by (rule scan_later [OF assms(3) [symmetric]])
  then have "n - 1 + 1 = n" by simp
  then show ?thesis
    using c assms(2,3) by (subst init_loop.simps) simp
qed

lemma init_pieces:
  "pieces_ok ps \<Longrightarrow> p = q @ show_pieces ps \<Longrightarrow>
    nstr = [] \<or> (case ps of Lit _ # _ \<Rightarrow> False | _ \<Rightarrow> True) \<Longrightarrow>
    init_loop p (length q) nstr vec err = (vec @ flush nstr @ map piece_entry ps, err)"
proof (induction ps arbitrary: q nstr vec rule: pieces_ok.induct)
  case 1
  then show ?case using init_end by simp
next
  case (2 s ps)
  have "init_loop p (length q) nstr vec err = init_loop p (length (q @ s)) s vec err"
    using init_literal [of s p q "show_pieces ps" nstr vec err] 2 by simp
  also have "\<dots> = (vec @ flush s @ map piece_entry ps, err)"
    by (rule "2.IH") (use "2.prems" in simp_all)
  finally show ?case using 2 by simp
next
  case (3 d ps)
  obtain c e where d: "d = c # e" using 3 by (cases d) auto
  have c: "c \<noteq> CHR ''%''" using 3 d isalpha_not [of c] by simp
  have "scan p (length q) (length q + 1) 0 0 [] [] = (length (q @ CHR ''%'' # d), 0, d, [])"
  proof (cases "show_pieces ps")
    case Nil
    then show ?thesis using scan_name_end [of p q d "length q"] 3 by simp
  next
    case (Cons x xs)
    then show ?thesis using scan_name_stop [of p q d x xs "length q"] 3 by simp
  qed
  then have "init_loop p (length q) nstr vec err =
      init_loop p (length (q @ CHR ''%'' # d)) [] (vec @ flush nstr @ [(d, [], 1)]) err"
    using init_directive [of p q c "e @ show_pieces ps" _ d "[]" nstr vec err] 3 d c by simp
  also have "\<dots> = ((vec @ flush nstr @ [(d, [], 1)]) @ flush [] @ map piece_entry ps, err)"
    by (rule "3.IH") (use "3.prems" in simp_all)
  finally show ?case by simp
next
  case (4 d f ps)
  obtain c e where d: "d = c # e" using 4 by (cases d) auto
  have c: "c \<noteq> CHR ''%''" using 4 d isalpha_not [of c] by simp
  let ?q = "q @ show_piece (Dir d (Some f))"
  have "scan p (length q) (length q + 1) 0 0 [] [] = (length ?q, 0, d, f)"
    using scan_braces [of p q d f "show_pieces ps" "length q"] 4 by simp
  then have "init_loop p (length q) nstr vec err =
      init_loop p (length ?q) [] (vec @ flush nstr @ [(d, f, 1)]) err"
    using init_directive [of p q c "e @ CHR ''{'' # f @ CHR ''}'' # show_pieces ps" _ d f nstr vec err]
      4 d c by simp
  also have "\<dots> = ((vec @ flush nstr @ [(d, f, 1)]) @ flush [] @ map piece_entry ps, err)"
    by (rule "4.IH") (use "4.prems" in simp_all)
  finally show ?case by simp
qed

text \<open>The item a piece stands for.\<close>

fun piece_item :: "piece \<Rightarrow> fmt_item" where
  "piece_item (Lit s) = Str s"
| "piece_item (Dir d f) = (case CreateObj d (case f of None \<Rightarrow> [] | Some x \<Rightarrow> x) of
     Some it \<Rightarrow> it | None \<Rightarrow> Str (''<<error_format %'' @ d @ ''>>''))"

fun known_piece :: "piece \<Rightarrow> bool" where
  "known_piece (Lit s) = True"
| "known_piece (Dir d f) = (map_of format_classes d \<noteq> None)"

lemma mk_items_pieces:
  "mk_items (map piece_entry ps) = (map piece_item ps, \<not> list_all known_piece ps)"
proof (induction ps)
  case (Cons x ps)
  then show ?case
    by (cases x rule: piece_entry.cases) (auto simp: CreateObj_def split: option.splits)
qed simp

lemma mk_items_append:
  "mk_items (xs @ ys) =
    (fst (mk_items xs) @ fst (mk_items ys), snd (mk_items xs) \<or> snd (mk_items ys))"
  by (induction xs) (auto split: prod.splits option.splits)

text \<open>Entries are only added, and an error stays.\<close>

lemma init_loop_grows:
  "\<exists>xs. fst (init_loop p i nstr vec err) = vec @ xs \<and>
    (err \<longrightarrow> snd (init_loop p i nstr vec err))"
proof (induction p i nstr vec err rule: init_loop.induct)
  case (1 p i nstr vec err)
  show ?case
  proof (cases "i < length p \<and> p ! i = CHR ''%'' \<and> \<not> (i + 1 < length p \<and> p ! (i + 1) = CHR ''%'')")
    case True
    obtain n st str fmt where sc: "scan p i (i + 1) 0 0 [] [] = (n, st, str, fmt)"
      by (metis prod_cases4)
    show ?thesis
      using 1(3) [OF _ _ _ sc [symmetric] refl refl]
        1(4) [OF _ _ _ sc [symmetric] refl refl] True sc
      unfolding init_loop.simps [of p i nstr vec err] by (cases "st = 0") auto
  next
    case False
    then show ?thesis
      using 1(1,2) unfolding init_loop.simps [of p i nstr vec err] by (auto split: if_splits)
  qed
qed

section \<open>Properties\<close>

text \<open>
  C15. The parser inverts the printing of patterns: a well-formed list of literals and
  directives is read back as the items it stands for, in order, and the error flag is set
  exactly when a directive is not one of the registered names.
\<close>

theorem pattern_roundtrip:
  assumes "pieces_ok ps"
  shows "lf_items (LogFormatter (show_pieces ps)) = map piece_item ps \<and>
    (lf_error (LogFormatter (show_pieces ps)) \<longleftrightarrow> \<not> list_all known_piece ps)"
  using init_pieces [OF assms, of "show_pieces ps" "[]" "[]" "[]" False]
  by (simp add: LogFormatter_def mk_items_pieces)

text \<open>
  The escape \<open>%%\<close> does not work: the first \<open>%\<close> is kept as text, but the second one is
  looked at again and begins a directive, so that a pattern with \<open>%%\<close> followed by the end or
  by a character that cannot be part of a name is in error.
\<close>

theorem escaped_percent_is_error:
  assumes "CHR ''%'' \<notin> set s"
    and "case r of [] \<Rightarrow> True | c # _ \<Rightarrow> \<not> name_char c \<and> c \<noteq> CHR ''%''"
  shows "lf_error (LogFormatter (s @ ''%%'' @ r))"
proof -
  let ?p = "s @ ''%%'' @ r"
  let ?i = "Suc (length s)"
  have p: "?p = (s @ ''%'') @ CHR ''%'' # [] @ r" by simp
  have "init_loop ?p 0 [] [] False = init_loop ?p (length s) s [] False"
    using init_literal [of s ?p "[]" "''%%'' @ r" "[]" "[]" False] assms(1) by simp
  also have "\<dots> = init_loop ?p ?i (s @ ''%'') [] False"
    by (subst init_loop.simps) (simp add: nth_append)
  finally have lit: "init_loop ?p 0 [] [] False = init_loop ?p ?i (s @ ''%'') [] False" .
  have "\<exists>n. init_loop ?p ?i (s @ ''%'') [] False = init_loop ?p n [] [(s @ ''%'', [], 0), ([], [], 1)] False"
  proof (cases r)
    case Nil
    have "scan ?p ?i (?i + 1) 0 0 [] [] = (?i + 1, 0, [], [])"
      by (subst scan.simps) (simp add: Nil)
    then show ?thesis
      by (intro exI [of _ "?i + 1"], subst init_loop.simps) (simp add: nth_append Nil)
  next
    case (Cons c t)
    have c: "\<not> name_char c" "c \<noteq> CHR ''%''" using assms(2) Cons by simp_all
    have "scan ?p ?i (?i + 1) 0 0 [] [] = (?i + 1, 0, [], [])"
      using scan_name_stop [of ?p "s @ ''%''" "[]" c t ?i] c(1) Cons by simp
    then show ?thesis
      using init_directive [of ?p "s @ ''%''" c t "?i + 1" "[]" "[]" "s @ ''%''" "[]" False] c(2)
      by (intro exI [of _ "?i + 1"]) (simp add: Cons)
  qed
  then obtain n where
    n: "init_loop ?p 0 [] [] False = init_loop ?p n [] [(s @ ''%'', [], 0), ([], [], 1)] False"
    using lit by auto
  obtain xs where "fst (init_loop ?p 0 [] [] False) = [(s @ ''%'', [], 0), ([], [], 1)] @ xs"
    using init_loop_grows [of ?p n "[]" "[(s @ ''%'', [], 0), ([], [], 1)]" False] n by auto
  then have "snd (mk_items (fst (init_loop ?p 0 [] [] False)))"
    by (simp add: mk_items_append CreateObj_def format_classes_def split: prod.splits)
  moreover obtain vec err xs e where "init_loop ?p 0 [] [] False = (vec, err)"
    "mk_items vec = (xs, e)" by fastforce
  ultimately show ?thesis by (simp add: LogFormatter_def)
qed

text \<open>The pattern every new logger has, and \<open>100%% done\<close>.\<close>

definition default_pieces :: "piece list" where
  "default_pieces = [Dir ''d'' (Some ''%Y-%m-%d %H:%M:%S''), Dir ''T'' None, Dir ''t'' None,
     Dir ''T'' None, Dir ''N'' None, Dir ''T'' None, Dir ''F'' None, Dir ''T'' None, Lit ''['',
     Dir ''p'' None, Lit '']'', Dir ''T'' None, Lit ''['', Dir ''c'' None, Lit '']'',
     Dir ''T'' None, Dir ''f'' None, Lit '':'', Dir ''l'' None, Dir ''T'' None, Dir ''m'' None,
     Dir ''n'' None]"

definition default_pattern :: string where
  "default_pattern = ''%d{%Y-%m-%d %H:%M:%S}%T%t%T%N%T%F%T[%p]%T[%c]%T%f:%l%T%m%n''"

definition default_items :: "fmt_item list" where
  "default_items = [DateTime ''%Y-%m-%d %H:%M:%S'', Tab, ThreadId, Tab, ThreadName, Tab, FiberId,
     Tab, Str ''['', Level, Str '']'', Tab, Str ''['', LoggerName, Str '']'', Tab, Filename,
     Str '':'', Line, Tab, Message, NewLine]"

lemma default_pieces_ok: "pieces_ok default_pieces"
  by code_simp

lemma default_pieces_show: "show_pieces default_pieces = default_pattern"
  by code_simp

lemma default_pieces_items: "map piece_item default_pieces = default_items"
  by code_simp

lemma default_pieces_known: "list_all known_piece default_pieces"
  by code_simp

theorem pattern_roundtrip_witness:
  "lf_items (LogFormatter default_pattern) = default_items \<and>
    \<not> lf_error (LogFormatter default_pattern)"
  using pattern_roundtrip [OF default_pieces_ok]
  by (simp add: default_pieces_show default_pieces_items default_pieces_known)

theorem escaped_percent_is_error_witness: "lf_error (LogFormatter ''100%% done'')"
  using escaped_percent_is_error [of "''100''" "'' done''"]
  by (simp add: name_char_def isalpha_def)

end
