(* ===== verification/Loggers.thy ===== *)
theory Loggers
  imports LogFormats
begin

text \<open>
  Loggers, appenders and the logger manager of \<open>sylar/log.cpp\<close>, and the listener that applies
  a change of the configuration variable \<open>logs\<close>. Loggers are known by their names, as in the
  map of the manager; appenders are objects in a heap, shared by pointer. What appenders write
  is recorded in order. Files are taken to be open; \<open>FileLogs\<close> has their streams.
\<close>

section \<open>State\<close>

datatype sink = Console | LogFile string

record appender =
  ap_sink :: sink
  ap_level :: level
  ap_hasFormatter :: bool
  ap_formatter :: "formatter option"
  ap_lastTime :: u64

text \<open>\<open>lg_root\<close> tells whether \<open>m_root\<close> is set; it is then the logger \<open>root\<close>.\<close>

record logger =
  lg_name :: string
  lg_level :: level
  lg_appenders :: "ptr list"
  lg_formatter :: "formatter option"
  lg_root :: bool

record logsys =
  ls_loggers :: "string \<rightharpoonup> logger"
  ls_appenders :: "ptr \<rightharpoonup> appender"
  ls_next :: ptr
  ls_out :: "(sink \<times> string) list"

definition Appender_new :: "sink \<Rightarrow> appender" where
  "Appender_new k = \<lparr>ap_sink = k, ap_level = DEBUG, ap_hasFormatter = False,
     ap_formatter = None, ap_lastTime = 0\<rparr>"

definition Logger_new :: "string \<Rightarrow> logger" where
  "Logger_new name = \<lparr>lg_name = name, lg_level = DEBUG, lg_appenders = [],
     lg_formatter = Some (LogFormatter default_pattern), lg_root = False\<rparr>"

definition get_logger :: "string \<Rightarrow> logsys \<Rightarrow> logger res" where
  "get_logger n s = (case ls_loggers s n of None \<Rightarrow> Inl (NullDeref n) | Some l \<Rightarrow> Inr l)"

definition put_logger :: "string \<Rightarrow> logger \<Rightarrow> logsys \<Rightarrow> logsys" where
  "put_logger n l s = s\<lparr>ls_loggers := (ls_loggers s)(n \<mapsto> l)\<rparr>"

definition get_appender :: "ptr \<Rightarrow> logsys \<Rightarrow> appender res" where
  "get_appender a s = (case ls_appenders s a of None \<Rightarrow> Inl (Dangling a) | Some x \<Rightarrow> Inr x)"

definition put_appender :: "ptr \<Rightarrow> appender \<Rightarrow> logsys \<Rightarrow> logsys" where
  "put_appender a x s = s\<lparr>ls_appenders := (ls_appenders s)(a \<mapsto> x)\<rparr>"

definition new_appender :: "sink \<Rightarrow> logsys \<Rightarrow> ptr \<times> logsys" where
  "new_appender k s = (ls_next s, (put_appender (ls_next s) (Appender_new k) s)
     \<lparr>ls_next := Suc (ls_next s)\<rparr>)"

section \<open>Appenders\<close>

definition LogAppender_setFormatter :: "formatter option \<Rightarrow> appender \<Rightarrow> appender" where
  "LogAppender_setFormatter val x = x\<lparr>ap_formatter := val, ap_hasFormatter := (val \<noteq> None)\<rparr>"

text \<open>What both kinds do: format the event into their stream.\<close>

definition put_line :: "(string \<Rightarrow> u64 \<Rightarrow> string) \<Rightarrow> log_event \<Rightarrow> ptr \<Rightarrow> appender \<Rightarrow> logsys \<Rightarrow> logsys res" where
  "put_line strf e a x s = (case ap_formatter x of
       None \<Rightarrow> Inl (NullDeref ''m_formatter'')
     | Some f \<Rightarrow> Inr ((put_appender a x s)\<lparr>ls_out := ls_out s @ [(ap_sink x, format_event strf f e)]\<rparr>))"

definition Stdout_log ::
    "(string \<Rightarrow> u64 \<Rightarrow> string) \<Rightarrow> log_event \<Rightarrow> ptr \<Rightarrow> appender \<Rightarrow> logsys \<Rightarrow> logsys res" where
  "Stdout_log strf e a x s = (if ap_level x \<le> le_level e then put_line strf e a x s else Inr s)"

text \<open>A file appender notes the time at which it reopens its file.\<close>

definition File_log ::
    "(string \<Rightarrow> u64 \<Rightarrow> string) \<Rightarrow> log_event \<Rightarrow> ptr \<Rightarrow> appender \<Rightarrow> logsys \<Rightarrow> logsys res" where
  "File_log strf e a x s = (if ap_level x \<le> le_level e
     then put_line strf e a
       (if ap_lastTime x + 3 \<le> le_time e then x\<lparr>ap_lastTime := le_time e\<rparr> else x) s
     else Inr s)"

definition Appender_log ::
    "(string \<Rightarrow> u64 \<Rightarrow> string) \<Rightarrow> log_event \<Rightarrow> ptr \<Rightarrow> logsys \<Rightarrow> logsys res" where
  "Appender_log strf e a s = bindR (get_appender a s) (\<lambda>x. case ap_sink x of
     Console \<Rightarrow> Stdout_log strf e a x s | LogFile f \<Rightarrow> File_log strf e a x s)"

section \<open>Loggers\<close>

primrec appenders_log ::
    "(string \<Rightarrow> u64 \<Rightarrow> string) \<Rightarrow> log_event \<Rightarrow> ptr list \<Rightarrow> logsys \<Rightarrow> logsys res" where
  "appenders_log strf e [] s = Inr s"
| "appenders_log strf e (a # as) s = bindR (Appender_log strf e a s) (appenders_log strf e as)"

text \<open>\<open>d\<close> bounds the chain of \<open>m_root\<close> pointers; the root logger has none.\<close>

fun Logger_log ::
    "nat \<Rightarrow> (string \<Rightarrow> u64 \<Rightarrow> string) \<Rightarrow> log_event \<Rightarrow> string \<Rightarrow> logsys \<Rightarrow> logsys res" where
  "Logger_log d strf e n s = bindR (get_logger n s) (\<lambda>l.
     if lg_level l \<le> le_level e
     then (if lg_appenders l \<noteq> [] then appenders_log strf e (lg_appenders l) s
       else if lg_root l
       then (case d of 0 \<Rightarrow> Inl (Undefined ''m_root'') | Suc d' \<Rightarrow> Logger_log d' strf e ''root'' s)
       else Inr s)
     else Inr s)"

definition addAppender :: "string \<Rightarrow> ptr \<Rightarrow> logsys \<Rightarrow> logsys res" where
  "addAppender n a s = bindR (get_logger n s) (\<lambda>l. bindR (get_appender a s) (\<lambda>x.
     let s1 = (if ap_formatter x = None then put_appender a (x\<lparr>ap_formatter := lg_formatter l\<rparr>) s
               else s)
     in Inr (put_logger n (l\<lparr>lg_appenders := lg_appenders l @ [a]\<rparr>) s1)))"

definition delAppender :: "string \<Rightarrow> ptr \<Rightarrow> logsys \<Rightarrow> logsys res" where
  "delAppender n a s = bindR (get_logger n s) (\<lambda>l.
     Inr (put_logger n (l\<lparr>lg_appenders := remove1 a (lg_appenders l)\<rparr>) s))"

definition clearAppenders :: "string \<Rightarrow> logsys \<Rightarrow> logsys res" where
  "clearAppenders n s = bindR (get_logger n s) (\<lambda>l.
     Inr (put_logger n (l\<lparr>lg_appenders := []\<rparr>) s))"

definition setLevel :: "string \<Rightarrow> level \<Rightarrow> logsys \<Rightarrow> logsys res" where
  "setLevel n v s = bindR (get_logger n s) (\<lambda>l. Inr (put_logger n (l\<lparr>lg_level := v\<rparr>) s))"

primrec inherit_formatter :: "formatter option \<Rightarrow> ptr list \<Rightarrow> logsys \<Rightarrow> logsys res" where
  "inherit_formatter val [] s = Inr s"
| "inherit_formatter val (a # as) s = bindR (get_appender a s) (\<lambda>x.
     inherit_formatter val as
       (if \<not> ap_hasFormatter x then put_appender a (x\<lparr>ap_formatter := val\<rparr>) s else s))"

definition setFormatter :: "string \<Rightarrow> formatter option \<Rightarrow> logsys \<Rightarrow> logsys res" where
  "setFormatter n val s = bindR (get_logger n s) (\<lambda>l.
     inherit_formatter val (lg_appenders l) (put_logger n (l\<lparr>lg_formatter := val\<rparr>) s))"

definition setFormatter_string :: "string \<Rightarrow> string \<Rightarrow> logsys \<Rightarrow> logsys res" where
  "setFormatter_string n val s = (let new_val = LogFormatter val in
     if lf_error new_val then Inr s else setFormatter n (Some new_val) s)"

section \<open>The manager\<close>

definition getLogger :: "string \<Rightarrow> logsys \<Rightarrow> logsys" where
  "getLogger n s = (case ls_loggers s n of Some _ \<Rightarrow> s
     | None \<Rightarrow> put_logger n ((Logger_new n)\<lparr>lg_root := True\<rparr>) s)"

text \<open>The constructor of the manager: the root logger with its two appenders.\<close>

definition LoggerManager_new :: "logsys res" where
  "LoggerManager_new =
     (let s0 = \<lparr>ls_loggers = [''root'' \<mapsto> Logger_new ''root''], ls_appenders = Map.empty,
            ls_next = 0, ls_out = []\<rparr>;
          (a, s1) = new_appender Console s0 in
      bindR (addAppender ''root'' a s1) (\<lambda>s2.
      let (b, s3) = new_appender (LogFile ''./log/root_error.log'') s2 in
      bindR (get_appender b s3) (\<lambda>x.
      addAppender ''root'' b (put_appender b (x\<lparr>ap_level := ERROR\<rparr>) s3))))"

section \<open>Definitions of loggers, and the listener\<close>

record appender_define =
  ad_type :: int
  ad_level :: level
  ad_formatter :: string
  ad_file :: string

record log_define =
  ld_name :: string
  ld_level :: level
  ld_formatter :: string
  ld_appenders :: "appender_define list"

text \<open>\<open>LogDefine::operator==\<close>: the last conjunct compares \<open>appenders\<close> with itself.\<close>

definition LogDefine_eq :: "log_define \<Rightarrow> log_define \<Rightarrow> bool" where
  "LogDefine_eq a b = (ld_name a = ld_name b \<and> ld_level a = ld_level b \<and>
     ld_formatter a = ld_formatter b \<and> ld_appenders a = ld_appenders a)"

definition isValid :: "log_define \<Rightarrow> bool" where
  "isValid a = (ld_name a \<noteq> [])"

text \<open>The elements of a set of definitions are found by name, as \<open>operator<\<close> compares names.\<close>

definition find_define :: "log_define \<Rightarrow> log_define list \<Rightarrow> log_define option" where
  "find_define i ds = List.find (\<lambda>d. ld_name d = ld_name i) ds"

text \<open>One appender of a definition; \<open>has_d\<close> is \<open>EnvMgr::GetInstance()->has("d")\<close>.\<close>

definition apply_appender :: "bool \<Rightarrow> string \<Rightarrow> appender_define \<Rightarrow> logsys \<Rightarrow> logsys res" where
  "apply_appender has_d n a s =
     (if ad_type a = 2 \<and> has_d then Inr s
      else if ad_type a \<noteq> 1 \<and> ad_type a \<noteq> 2 then Inl (NullDeref ''ap'')
      else (let (p, s1) = new_appender (if ad_type a = 1 then LogFile (ad_file a) else Console) s in
        bindR (get_appender p s1) (\<lambda>x.
        let x1 = x\<lparr>ap_level := ad_level a\<rparr>;
            fmt = LogFormatter (ad_formatter a);
            x2 = (if ad_formatter a \<noteq> [] \<and> \<not> lf_error fmt
                  then LogAppender_setFormatter (Some fmt) x1 else x1)
        in addAppender n p (put_appender p x2 s1))))"

primrec apply_appenders :: "bool \<Rightarrow> string \<Rightarrow> appender_define list \<Rightarrow> logsys \<Rightarrow> logsys res" where
  "apply_appenders has_d n [] s = Inr s"
| "apply_appenders has_d n (a # as) s =
     bindR (apply_appender has_d n a s) (apply_appenders has_d n as)"

definition apply_define :: "bool \<Rightarrow> log_define \<Rightarrow> logsys \<Rightarrow> logsys res" where
  "apply_define has_d i s =
     bindR (setLevel (ld_name i) (ld_level i) (getLogger (ld_name i) s)) (\<lambda>s1.
     bindR (if ld_formatter i \<noteq> [] then setFormatter_string (ld_name i) (ld_formatter i) s1
            else Inr s1) (\<lambda>s2.
     bindR (clearAppenders (ld_name i) s2) (apply_appenders has_d (ld_name i) (ld_appenders i))))"

primrec apply_new ::
    "bool \<Rightarrow> log_define list \<Rightarrow> log_define list \<Rightarrow> logsys \<Rightarrow> logsys res" where
  "apply_new has_d old [] s = Inr s"
| "apply_new has_d old (i # is) s =
     bindR (case find_define i old of
         None \<Rightarrow> apply_define has_d i s
       | Some d \<Rightarrow> if \<not> LogDefine_eq i d then apply_define has_d i s else Inr s)
       (apply_new has_d old is)"

primrec remove_old :: "log_define list \<Rightarrow> log_define list \<Rightarrow> logsys \<Rightarrow> logsys res" where
  "remove_old new [] s = Inr s"
| "remove_old new (i # is) s =
     bindR (case find_define i new of
         Some _ \<Rightarrow> Inr s
       | None \<Rightarrow> bindR (setLevel (ld_name i) UNKNOW (getLogger (ld_name i) s))
           (clearAppenders (ld_name i)))
       (remove_old new is)"

text \<open>The listener; \<open>e\<close> is the event it logs first, to the root logger.\<close>

definition on_logs_changed :: "(string \<Rightarrow> u64 \<Rightarrow> string) \<Rightarrow> log_event \<Rightarrow> bool \<Rightarrow>
    log_define list \<Rightarrow> log_define list \<Rightarrow> logsys \<Rightarrow> logsys res" where
  "on_logs_changed strf e has_d old new s =
     bindR (Logger_log 1 strf e ''root'' s) (\<lambda>s1.
     bindR (apply_new has_d old new s1) (remove_old new old))"

section \<open>Well-formed loggers\<close>

text \<open>
  What is configured of an appender: everything but the time of the last reopening, which
  logging changes.
\<close>

definition settings :: "logsys \<Rightarrow> ptr \<Rightarrow> appender option" where
  "settings s a = map_option (\<lambda>x. x\<lparr>ap_lastTime := 0\<rparr>) (ls_appenders s a)"

definition ready :: "logsys \<Rightarrow> ptr \<Rightarrow> bool" where
  "ready s a = (case ls_appenders s a of None \<Rightarrow> False | Some x \<Rightarrow> ap_formatter x \<noteq> None)"

text \<open>
  Every logger has a formatter, its appenders exist and have one too, the root logger exists
  and falls back to no other, and no appender lives at an address not yet given out.
\<close>

definition logger_wf :: "logsys \<Rightarrow> string \<Rightarrow> logger \<Rightarrow> bool" where
  "logger_wf s n l = (lg_name l = n \<and> lg_formatter l \<noteq> None \<and>
     (\<forall>a \<in> set (lg_appenders l). ready s a) \<and> (lg_root l \<longrightarrow> n \<noteq> ''root''))"

definition log_wf :: "logsys \<Rightarrow> bool" where
  "log_wf s = ((\<forall>n l. ls_loggers s n = Some l \<longrightarrow> logger_wf s n l) \<and>
     ls_loggers s ''root'' \<noteq> None \<and> (\<forall>a. ls_next s \<le> a \<longrightarrow> ls_appenders s a = None))"

lemma log_wfD: "log_wf s \<Longrightarrow> ls_loggers s n = Some l \<Longrightarrow> logger_wf s n l"
  by (simp add: log_wf_def)

lemma log_wf_root: "log_wf s \<Longrightarrow> \<exists>l. ls_loggers s ''root'' = Some l"
  by (simp add: log_wf_def)

lemma log_wf_fresh: "log_wf s \<Longrightarrow> ls_next s \<le> a \<Longrightarrow> ls_appenders s a = None"
  by (simp add: log_wf_def)

lemma ready_lt: "log_wf s \<Longrightarrow> ready s a \<Longrightarrow> a < ls_next s"
  using log_wf_fresh [of s a] by (force simp: ready_def not_less [symmetric])

lemma ready_settings:
  "ready s a \<longleftrightarrow> (case settings s a of None \<Rightarrow> False | Some x \<Rightarrow> ap_formatter x \<noteq> None)"
  by (simp add: ready_def settings_def split: option.splits)

lemma logger_wf_cong:
  assumes "\<And>a. a \<in> set (lg_appenders l) \<Longrightarrow> ready s a \<Longrightarrow> ready s' a" and "logger_wf s n l"
  shows "logger_wf s' n l"
  using assms by (simp add: logger_wf_def)

lemma put_logger_simps [simp]:
  "ls_loggers (put_logger n l s) = (ls_loggers s)(n \<mapsto> l)"
  "ls_appenders (put_logger n l s) = ls_appenders s"
  "ls_next (put_logger n l s) = ls_next s"
  "ls_out (put_logger n l s) = ls_out s"
  "settings (put_logger n l s) = settings s"
  "ready (put_logger n l s) = ready s"
  "logger_wf (put_logger n l s) = logger_wf s"
  by (simp_all add: put_logger_def settings_def ready_def logger_wf_def fun_eq_iff)

lemma put_appender_simps [simp]:
  "ls_loggers (put_appender a x s) = ls_loggers s"
  "ls_appenders (put_appender a x s) = (ls_appenders s)(a \<mapsto> x)"
  "ls_next (put_appender a x s) = ls_next s"
  "ls_out (put_appender a x s) = ls_out s"
  by (simp_all add: put_appender_def)

lemma put_logger_wf:
  assumes "log_wf s" and "logger_wf s n l"
  shows "log_wf (put_logger n l s)"
  using assms by (auto simp: log_wf_def)

text \<open>An appender that had a formatter must keep one.\<close>

lemma put_appender_ready:
  assumes "ready s a \<Longrightarrow> ap_formatter x \<noteq> None" and "ready s b"
  shows "ready (put_appender a x s) b"
  using assms by (auto simp: ready_def split: option.splits)

lemma put_appender_wf:
  assumes "log_wf s" and "a < ls_next s" and "ready s a \<Longrightarrow> ap_formatter x \<noteq> None"
  shows "log_wf (put_appender a x s)"
proof -
  have "logger_wf (put_appender a x s) n l" if "ls_loggers s n = Some l" for n l
    by (rule logger_wf_cong [OF put_appender_ready [OF assms(3)] log_wfD [OF assms(1) that]])
  then show ?thesis using assms(1,2) by (auto simp: log_wf_def)
qed

lemma new_appender_simps:
  assumes "new_appender k s = (a, s')"
  shows "a = ls_next s" "ls_next s' = Suc (ls_next s)" "ls_loggers s' = ls_loggers s"
    "ls_appenders s' = (ls_appenders s)(ls_next s \<mapsto> Appender_new k)" "ls_out s' = ls_out s"
  using assms by (auto simp: new_appender_def)

lemma new_appender_wf:
  assumes "log_wf s" and n: "new_appender k s = (a, s')"
  shows "log_wf s'"
proof -
  note ss = new_appender_simps [OF n]
  have "logger_wf s' m l" if "ls_loggers s m = Some l" for m l
  proof (rule logger_wf_cong [OF _ log_wfD [OF assms(1) that]])
    fix b assume "ready s b"
    then show "ready s' b" using ready_lt [OF assms(1), of b] by (simp add: ready_def ss)
  qed
  then show ?thesis using assms(1) by (auto simp: log_wf_def ss)
qed

section \<open>Logging\<close>

text \<open>What an appender writes for an event.\<close>

definition written :: "(string \<Rightarrow> u64 \<Rightarrow> string) \<Rightarrow> log_event \<Rightarrow> logsys \<Rightarrow> ptr \<Rightarrow>
    (sink \<times> string) list" where
  "written strf e s a = (case settings s a of None \<Rightarrow> []
     | Some x \<Rightarrow> if ap_level x \<le> le_level e
         then [(ap_sink x, format_event strf (the (ap_formatter x)) e)] else [])"

lemma Appender_log_exact:
  assumes "ready s a"
  shows "\<exists>s'. Appender_log strf e a s = Inr s' \<and> ls_out s' = ls_out s @ written strf e s a \<and>
    settings s' = settings s \<and> ls_loggers s' = ls_loggers s \<and> ls_next s' = ls_next s"
proof -
  obtain x f where x: "ls_appenders s a = Some x" "ap_formatter x = Some f"
    using assms by (auto simp: ready_def split: option.splits)
  show ?thesis
    using x by (cases "ap_sink x")
      (auto simp: Appender_log_def Stdout_log_def File_log_def put_line_def get_appender_def Let_def written_def settings_def fun_eq_iff)
qed

lemma appenders_log_exact:
  "\<forall>a \<in> set as. ready s a \<Longrightarrow>
    \<exists>s'. appenders_log strf e as s = Inr s' \<and>
      ls_out s' = ls_out s @ concat (map (written strf e s) as) \<and>
      settings s' = settings s \<and> ls_loggers s' = ls_loggers s \<and> ls_next s' = ls_next s"
proof (induction as arbitrary: s)
  case (Cons a as)
  obtain s1 where 1: "Appender_log strf e a s = Inr s1" "ls_out s1 = ls_out s @ written strf e s a"
    "settings s1 = settings s" "ls_loggers s1 = ls_loggers s" "ls_next s1 = ls_next s"
    using Appender_log_exact [of s a strf e] Cons.prems by auto
  have "\<forall>b \<in> set as. ready s1 b" using Cons.prems 1(3) by (simp add: ready_settings)
  moreover have "written strf e s1 = written strf e s"
    by (simp add: written_def fun_eq_iff 1(3))
  ultimately show ?case using Cons.IH [of s1] 1 by auto
qed simp

text \<open>The appenders an event reaches through the logger \<open>n\<close>.\<close>

definition own_targets :: "logsys \<Rightarrow> level \<Rightarrow> string \<Rightarrow> ptr list" where
  "own_targets s v n = (case ls_loggers s n of None \<Rightarrow> []
     | Some l \<Rightarrow> if lg_level l \<le> v then lg_appenders l else [])"

definition log_targets :: "logsys \<Rightarrow> level \<Rightarrow> string \<Rightarrow> ptr list" where
  "log_targets s v n = (case ls_loggers s n of None \<Rightarrow> []
     | Some l \<Rightarrow> if lg_level l \<le> v \<and> lg_appenders l = [] \<and> lg_root l then own_targets s v ''root''
         else own_targets s v n)"

lemma Logger_log_lemma:
  assumes "log_wf s" and "ls_loggers s n = Some l"
  shows "\<exists>s'. Logger_log 1 strf e n s = Inr s' \<and>
    ls_out s' = ls_out s @ concat (map (written strf e s) (log_targets s (le_level e) n)) \<and>
    settings s' = settings s \<and> ls_loggers s' = ls_loggers s \<and> ls_next s' = ls_next s"
proof -
  have rdy: "\<forall>a \<in> set (lg_appenders l'). ready s a" if "ls_loggers s m = Some l'" for m l'
    using log_wfD [OF assms(1) that] by (simp add: logger_wf_def)
  obtain r where r: "ls_loggers s ''root'' = Some r" using log_wf_root [OF assms(1)] by auto
  have nr: "\<not> lg_root r" using log_wfD [OF assms(1) r] by (simp add: logger_wf_def)
  show ?thesis
    using assms(2) r nr
      appenders_log_exact [OF rdy [OF assms(2)], of strf e]
      appenders_log_exact [OF rdy [OF r], of strf e]
    by (auto simp: get_logger_def log_targets_def own_targets_def)
qed

lemma settings_wf:
  assumes "log_wf s" and "settings s' = settings s" and "ls_loggers s' = ls_loggers s"
    and "ls_next s' = ls_next s"
  shows "log_wf s'"
proof -
  have "ready s' = ready s" by (simp add: ready_settings assms(2) fun_eq_iff)
  moreover have "ls_appenders s' a = None \<longleftrightarrow> ls_appenders s a = None" for a
    using fun_cong [OF assms(2), of a] by (auto simp: settings_def)
  ultimately show ?thesis using assms by (simp add: log_wf_def logger_wf_def)
qed

section \<open>Every operation keeps loggers well formed\<close>

lemma get_logger_Some [simp]: "ls_loggers s n = Some l \<Longrightarrow> get_logger n s = Inr l"
  by (simp add: get_logger_def)

lemma get_appender_Some [simp]: "ls_appenders s a = Some x \<Longrightarrow> get_appender a s = Inr x"
  by (simp add: get_appender_def)

text \<open>A step that succeeds, keeps the loggers there are and their well-formedness.\<close>

definition keeps :: "logsys \<Rightarrow> logsys res \<Rightarrow> bool" where
  "keeps s m = (\<exists>s'. m = Inr s' \<and> log_wf s' \<and> dom (ls_loggers s) \<subseteq> dom (ls_loggers s') \<and>
     ls_next s \<le> ls_next s')"

lemma keepsI: "log_wf s' \<Longrightarrow> dom (ls_loggers s) \<subseteq> dom (ls_loggers s') \<Longrightarrow>
    ls_next s \<le> ls_next s' \<Longrightarrow> keeps s (Inr s')"
  by (simp add: keeps_def)

lemma keeps_bind:
  assumes "keeps s m"
    and "\<And>s'. m = Inr s' \<Longrightarrow> log_wf s' \<Longrightarrow> dom (ls_loggers s) \<subseteq> dom (ls_loggers s') \<Longrightarrow>
      ls_next s \<le> ls_next s' \<Longrightarrow> keeps s' (k s')"
  shows "keeps s (bindR m k)"
proof -
  obtain s' where 1: "m = Inr s'" "log_wf s'" "dom (ls_loggers s) \<subseteq> dom (ls_loggers s')"
    "ls_next s \<le> ls_next s'"
    using assms(1) by (auto simp: keeps_def)
  then show ?thesis using assms(2) [OF 1] by (auto simp: keeps_def)
qed

lemma keeps_put_logger:
  assumes "log_wf s" and "logger_wf s n l"
  shows "keeps s (Inr (put_logger n l s))"
  by (rule keepsI) (use put_logger_wf [OF assms] in auto)

lemma getLogger_keeps:
  assumes "log_wf s"
  shows "keeps s (Inr (getLogger n s))"
proof (cases "ls_loggers s n")
  case None
  then have "logger_wf s n ((Logger_new n)\<lparr>lg_root := True\<rparr>)"
    using log_wf_root [OF assms] by (auto simp: logger_wf_def Logger_new_def)
  then show ?thesis using keeps_put_logger [OF assms] None by (simp add: getLogger_def)
qed (simp add: getLogger_def keepsI assms)

lemma getLogger_Some: "\<exists>l. ls_loggers (getLogger n s) n = Some l"
  by (simp add: getLogger_def split: option.split)

lemma update_keeps:
  assumes "log_wf s" and "ls_loggers s n = Some l" and "logger_wf s n (f l)"
  shows "keeps s (bindR (get_logger n s) (\<lambda>l. Inr (put_logger n (f l) s)))"
  using assms keeps_put_logger by simp

lemma setLevel_keeps: "log_wf s \<Longrightarrow> ls_loggers s n = Some l \<Longrightarrow> keeps s (setLevel n v s)"
  unfolding setLevel_def by (rule update_keeps) (auto dest: log_wfD simp: logger_wf_def)

lemma clearAppenders_keeps: "log_wf s \<Longrightarrow> ls_loggers s n = Some l \<Longrightarrow> keeps s (clearAppenders n s)"
  unfolding clearAppenders_def by (rule update_keeps) (auto dest: log_wfD simp: logger_wf_def)

lemma in_remove1: "x \<in> set (remove1 a xs) \<Longrightarrow> x \<in> set xs"
  using set_remove1_subset [of a xs] by blast

lemma delAppender_keeps:
  assumes "log_wf s" and "ls_loggers s n = Some l"
  shows "keeps s (delAppender n a s)"
  unfolding delAppender_def
proof (rule update_keeps [OF assms])
  show "logger_wf s n (l\<lparr>lg_appenders := remove1 a (lg_appenders l)\<rparr>)"
    using log_wfD [OF assms] in_remove1 [of _ a "lg_appenders l"] by (simp add: logger_wf_def)
qed

lemma addAppender_keeps:
  assumes wf: "log_wf s" and l: "ls_loggers s n = Some l" and x: "ls_appenders s a = Some x"
  shows "keeps s (addAppender n a s)"
proof -
  let ?s = "if ap_formatter x = None then put_appender a (x\<lparr>ap_formatter := lg_formatter l\<rparr>) s else s"
  have lw: "logger_wf s n l" using log_wfD [OF wf l] .
  then have f: "lg_formatter l \<noteq> None" by (simp add: logger_wf_def)
  have "a < ls_next s" using log_wf_fresh [OF wf, of a] x by (simp add: not_le [symmetric]) blast
  then have s1: "log_wf ?s" using put_appender_wf [OF wf] f wf by simp
  have "ls_loggers ?s n = Some l" using l by simp
  note lw1 = log_wfD [OF s1 this]
  have ra: "ready ?s a" using x f by (auto simp: ready_def)
  have "logger_wf ?s n (l\<lparr>lg_appenders := lg_appenders l @ [a]\<rparr>)"
    using lw1 ra by (auto simp: logger_wf_def)
  note k = put_logger_wf [OF s1 this]
  have "dom (ls_loggers s) \<subseteq> dom (ls_loggers (put_logger n (l\<lparr>lg_appenders := lg_appenders l @ [a]\<rparr>) ?s))"
    "ls_next s \<le> ls_next (put_logger n (l\<lparr>lg_appenders := lg_appenders l @ [a]\<rparr>) ?s)"
    by auto
  from keepsI [OF k this] show ?thesis
    using l x by (simp add: addAppender_def Let_def)
qed

lemma inherit_keeps:
  "log_wf s \<Longrightarrow> \<forall>a \<in> set as. ready s a \<Longrightarrow> keeps s (inherit_formatter (Some f) as s)"
proof (induction as arbitrary: s)
  case (Cons a as)
  obtain x where x: "ls_appenders s a = Some x"
    using Cons.prems(2) by (auto simp: ready_def split: option.splits)
  let ?x = "x\<lparr>ap_formatter := Some f\<rparr>"
  let ?s = "if \<not> ap_hasFormatter x then put_appender a ?x s else s"
  have wf: "log_wf ?s"
    using put_appender_wf [OF Cons.prems(1), of a ?x] ready_lt [OF Cons.prems(1), of a] Cons.prems
    by simp
  have "\<forall>b \<in> set as. ready ?s b"
    using Cons.prems(2) put_appender_ready [of s a ?x] by simp
  then have "keeps ?s (inherit_formatter (Some f) as ?s)" using Cons.IH [OF wf] by simp
  then show ?case using x by (auto simp: keeps_def)
qed (simp add: keepsI)

lemma setFormatter_keeps:
  assumes wf: "log_wf s" and l: "ls_loggers s n = Some l"
  shows "keeps s (setFormatter n (Some f) s)"
proof -
  let ?s = "put_logger n (l\<lparr>lg_formatter := Some f\<rparr>) s"
  have lw: "logger_wf s n (l\<lparr>lg_formatter := Some f\<rparr>)" "\<forall>a \<in> set (lg_appenders l). ready s a"
    using log_wfD [OF wf l] by (auto simp: logger_wf_def)
  have "keeps ?s (inherit_formatter (Some f) (lg_appenders l) ?s)"
    by (rule inherit_keeps) (use put_logger_wf [OF wf lw(1)] lw(2) in simp_all)
  then show ?thesis using l by (auto simp: setFormatter_def keeps_def)
qed

lemma setFormatter_string_keeps:
  "log_wf s \<Longrightarrow> ls_loggers s n = Some l \<Longrightarrow> keeps s (setFormatter_string n p s)"
  using setFormatter_keeps by (simp add: setFormatter_string_def Let_def keepsI)

lemma Logger_log_keeps:
  assumes "log_wf s" and "ls_loggers s n = Some l"
  shows "keeps s (Logger_log 1 strf e n s)"
  using Logger_log_lemma [OF assms, of strf e] settings_wf [OF assms(1)] by (auto simp: keeps_def)

text \<open>The listener.\<close>

definition define_ok :: "log_define \<Rightarrow> bool" where
  "define_ok i = list_all (\<lambda>a. ad_type a = 1 \<or> ad_type a = 2) (ld_appenders i)"

text \<open>The appender that is created for a part of a definition.\<close>

definition made_appender :: "appender_define \<Rightarrow> appender" where
  "made_appender a = (let x = (Appender_new (if ad_type a = 1 then LogFile (ad_file a) else Console))
       \<lparr>ap_level := ad_level a\<rparr>;
     fmt = LogFormatter (ad_formatter a)
     in if ad_formatter a \<noteq> [] \<and> \<not> lf_error fmt then LogAppender_setFormatter (Some fmt) x else x)"

definition skipped :: "bool \<Rightarrow> appender_define \<Rightarrow> bool" where
  "skipped has_d a = (ad_type a = 2 \<and> has_d)"

lemma apply_appender_made:
  assumes "ad_type a = 1 \<or> ad_type a = 2" and "\<not> skipped has_d a"
  shows "apply_appender has_d n a s = addAppender n (ls_next s)
    (put_appender (ls_next s) (made_appender a) (s\<lparr>ls_next := Suc (ls_next s)\<rparr>))"
  using assms
  by (auto simp: apply_appender_def new_appender_def get_appender_def made_appender_def Let_def
      skipped_def put_appender_def)

lemma apply_appender_keeps:
  assumes wf: "log_wf s" and "ls_loggers s n = Some l" and "ad_type a = 1 \<or> ad_type a = 2"
  shows "keeps s (apply_appender has_d n a s)"
proof (cases "skipped has_d a")
  case True
  then show ?thesis using wf by (simp add: apply_appender_def skipped_def keepsI)
next
  case False
  let ?k = "if ad_type a = 1 then LogFile (ad_file a) else Console"
  let ?t = "(put_appender (ls_next s) (Appender_new ?k) s)\<lparr>ls_next := Suc (ls_next s)\<rparr>"
  let ?s = "put_appender (ls_next s) (made_appender a) (s\<lparr>ls_next := Suc (ls_next s)\<rparr>)"
  have "log_wf ?t" using new_appender_wf [OF wf, of ?k] by (simp add: new_appender_def)
  then have "log_wf (put_appender (ls_next s) (made_appender a) ?t)"
    by (rule put_appender_wf) (simp_all add: ready_def Appender_new_def)
  also have "put_appender (ls_next s) (made_appender a) ?t = ?s"
    by (simp add: put_appender_def)
  finally have "keeps ?s (addAppender n (ls_next s) ?s)"
    by (rule addAppender_keeps) (use assms in simp_all)
  then show ?thesis by (auto simp: keeps_def apply_appender_made [OF assms(3) False])
qed

lemma apply_appenders_keeps:
  "log_wf s \<Longrightarrow> ls_loggers s n \<noteq> None \<Longrightarrow>
    list_all (\<lambda>a. ad_type a = 1 \<or> ad_type a = 2) as \<Longrightarrow> keeps s (apply_appenders has_d n as s)"
proof (induction as arbitrary: s)
  case (Cons a as)
  obtain l where "ls_loggers s n = Some l" using Cons.prems(2) by auto
  then have "keeps s (apply_appender has_d n a s)"
    using apply_appender_keeps Cons.prems by simp
  then show ?case
    by (auto simp del: not_None_eq intro!: keeps_bind Cons.IH) (use Cons.prems in auto)
qed (simp add: keepsI)

lemma keeps_dom: "keeps s m \<Longrightarrow> m = Inr s' \<Longrightarrow> ls_loggers s n \<noteq> None \<Longrightarrow> ls_loggers s' n \<noteq> None"
  by (auto simp: keeps_def)

lemma getLogger_then:
  assumes "log_wf s"
    and "\<And>t. log_wf t \<Longrightarrow> ls_loggers t n \<noteq> None \<Longrightarrow> keeps t (k t)"
  shows "keeps s (k (getLogger n s))"
proof -
  have "keeps s (bindR (Inr (getLogger n s)) k)"
    by (rule keeps_bind [OF getLogger_keeps [OF assms(1)]])
      (use assms(2) getLogger_Some [of n s] in simp)
  then show ?thesis by simp
qed

text \<open>The steps of a listener are run on a logger that stays.\<close>

lemma keeps_seq:
  assumes "keeps s m" and "ls_loggers s n \<noteq> None"
    and "\<And>t. log_wf t \<Longrightarrow> ls_loggers t n \<noteq> None \<Longrightarrow> keeps t (k t)"
  shows "keeps s (bindR m k)"
  by (rule keeps_bind [OF assms(1)]) (use assms(2,3) in blast)

lemma apply_define_keeps:
  assumes "log_wf s" and "define_ok i"
  shows "keeps s (apply_define has_d i s)"
  unfolding apply_define_def
proof (rule getLogger_then [OF assms(1)])
  let ?n = "ld_name i"
  fix t assume t: "log_wf t" "ls_loggers t ?n \<noteq> None"
  have lev: "keeps u (setLevel ?n (ld_level i) u)"
    and fmt: "keeps u (if ld_formatter i \<noteq> [] then setFormatter_string ?n (ld_formatter i) u else Inr u)"
    and clr: "keeps u (clearAppenders ?n u)"
    and app: "keeps u (apply_appenders has_d ?n (ld_appenders i) u)"
    if u: "log_wf u" "ls_loggers u ?n \<noteq> None" for u
    using u setLevel_keeps setFormatter_string_keeps keepsI clearAppenders_keeps
      apply_appenders_keeps assms(2) by (auto simp: define_ok_def)
  show "keeps t (bindR (setLevel ?n (ld_level i) t) (\<lambda>s1.
     bindR (if ld_formatter i \<noteq> [] then setFormatter_string ?n (ld_formatter i) s1 else Inr s1)
       (\<lambda>s2. bindR (clearAppenders ?n s2) (apply_appenders has_d ?n (ld_appenders i)))))"
    by (rule keeps_seq [OF lev [OF t] t(2)], rule keeps_seq [OF fmt, where n = ?n],
        (assumption | rule keeps_seq [OF clr, where n = ?n] app)+)
qed

lemma apply_new_keeps:
  "log_wf s \<Longrightarrow> list_all define_ok is \<Longrightarrow> keeps s (apply_new has_d old is s)"
proof (induction "is" arbitrary: s)
  case (Cons i "is")
  have "keeps s (apply_define has_d i s)" using apply_define_keeps Cons.prems by simp
  then have "keeps s (case find_define i old of None \<Rightarrow> apply_define has_d i s
      | Some d \<Rightarrow> if \<not> LogDefine_eq i d then apply_define has_d i s else Inr s)"
    using keepsI [OF Cons.prems(1)] by (simp split: option.split)
  then show ?case unfolding apply_new.simps by (rule keeps_bind) (use Cons in simp)
qed (simp add: keepsI)

lemma remove_one_keeps:
  assumes "log_wf s"
  shows "keeps s (bindR (setLevel n v (getLogger n s)) (clearAppenders n))"
proof (rule getLogger_then [OF assms])
  fix t assume t: "log_wf t" "ls_loggers t n \<noteq> None"
  show "keeps t (bindR (setLevel n v t) (clearAppenders n))"
    by (rule keeps_seq [OF _ t(2)]) (use t setLevel_keeps clearAppenders_keeps in auto)
qed

lemma remove_old_keeps: "log_wf s \<Longrightarrow> keeps s (remove_old new is s)"
proof (induction "is" arbitrary: s)
  case (Cons i "is")
  have "keeps s (case find_define i new of Some _ \<Rightarrow> Inr s
      | None \<Rightarrow> bindR (setLevel (ld_name i) UNKNOW (getLogger (ld_name i) s))
           (clearAppenders (ld_name i)))"
    using keepsI [OF Cons.prems] remove_one_keeps [OF Cons.prems] by (simp split: option.split)
  then show ?case unfolding remove_old.simps by (rule keeps_bind) (use Cons in simp)
qed (simp add: keepsI)

lemma on_logs_changed_keeps:
  assumes "log_wf s" and "list_all define_ok new"
  shows "keeps s (on_logs_changed strf e has_d old new s)"
  unfolding on_logs_changed_def
proof (intro keeps_bind)
  show "keeps s (Logger_log 1 strf e ''root'' s)"
    using Logger_log_keeps [OF assms(1)] log_wf_root [OF assms(1)] by blast
qed (use apply_new_keeps assms(2) remove_old_keeps in auto)

section \<open>Operations, and what they promise\<close>

datatype log_op =
    OpLog log_event string
  | OpNewAppender sink
  | OpAddAppender string ptr
  | OpDelAppender string ptr
  | OpClearAppenders string
  | OpSetLevel string level
  | OpSetFormatter string "formatter option"
  | OpSetFormatterString string string
  | OpAppenderSetFormatter ptr "formatter option"
  | OpAppenderSetLevel ptr level
  | OpGetLogger string
  | OpLogsChanged log_event bool "log_define list" "log_define list"

fun run_log_op :: "(string \<Rightarrow> u64 \<Rightarrow> string) \<Rightarrow> log_op \<Rightarrow> logsys \<Rightarrow> logsys res" where
  "run_log_op strf (OpLog e n) s = Logger_log 1 strf e n s"
| "run_log_op strf (OpNewAppender k) s = Inr (snd (new_appender k s))"
| "run_log_op strf (OpAddAppender n a) s = addAppender n a s"
| "run_log_op strf (OpDelAppender n a) s = delAppender n a s"
| "run_log_op strf (OpClearAppenders n) s = clearAppenders n s"
| "run_log_op strf (OpSetLevel n v) s = setLevel n v s"
| "run_log_op strf (OpSetFormatter n f) s = setFormatter n f s"
| "run_log_op strf (OpSetFormatterString n p) s = setFormatter_string n p s"
| "run_log_op strf (OpAppenderSetFormatter a f) s =
     bindR (get_appender a s) (\<lambda>x. Inr (put_appender a (LogAppender_setFormatter f x) s))"
| "run_log_op strf (OpAppenderSetLevel a v) s =
     bindR (get_appender a s) (\<lambda>x. Inr (put_appender a (x\<lparr>ap_level := v\<rparr>) s))"
| "run_log_op strf (OpGetLogger n) s = Inr (getLogger n s)"
| "run_log_op strf (OpLogsChanged e d old new) s = on_logs_changed strf e d old new s"

text \<open>
  Loggers and appenders are used only after they have been made, no null pointer is passed to a
  \<open>setFormatter\<close> (which would take it: see \<open>null_formatter_followed\<close>), and the definitions a change
  of the configuration brings have one of the two kinds of appenders.
\<close>

fun log_op_ok :: "log_op \<Rightarrow> logsys \<Rightarrow> bool" where
  "log_op_ok (OpLog e n) s = (ls_loggers s n \<noteq> None)"
| "log_op_ok (OpNewAppender k) s = True"
| "log_op_ok (OpAddAppender n a) s = (ls_loggers s n \<noteq> None \<and> ls_appenders s a \<noteq> None)"
| "log_op_ok (OpDelAppender n a) s = (ls_loggers s n \<noteq> None)"
| "log_op_ok (OpClearAppenders n) s = (ls_loggers s n \<noteq> None)"
| "log_op_ok (OpSetLevel n v) s = (ls_loggers s n \<noteq> None)"
| "log_op_ok (OpSetFormatter n f) s = (ls_loggers s n \<noteq> None \<and> f \<noteq> None)"
| "log_op_ok (OpSetFormatterString n p) s = (ls_loggers s n \<noteq> None)"
| "log_op_ok (OpAppenderSetFormatter a f) s = (ls_appenders s a \<noteq> None \<and> f \<noteq> None)"
| "log_op_ok (OpAppenderSetLevel a v) s = (ls_appenders s a \<noteq> None)"
| "log_op_ok (OpGetLogger n) s = True"
| "log_op_ok (OpLogsChanged e d old new) s = list_all define_ok new"

primrec run_log_ops :: "(string \<Rightarrow> u64 \<Rightarrow> string) \<Rightarrow> log_op list \<Rightarrow> logsys \<Rightarrow> logsys res" where
  "run_log_ops strf [] s = Inr s"
| "run_log_ops strf (x # xs) s = bindR (run_log_op strf x s) (run_log_ops strf xs)"

text \<open>Every operation of a sequence is allowed when its turn comes.\<close>

primrec log_ops_ok :: "(string \<Rightarrow> u64 \<Rightarrow> string) \<Rightarrow> log_op list \<Rightarrow> logsys \<Rightarrow> bool" where
  "log_ops_ok strf [] s = True"
| "log_ops_ok strf (x # xs) s = (log_op_ok x s \<and>
     (case run_log_op strf x s of Inl _ \<Rightarrow> True | Inr s' \<Rightarrow> log_ops_ok strf xs s'))"

lemma change_appender_keeps:
  assumes "log_wf s" and "ls_appenders s a \<noteq> None"
    and "\<And>x. ls_appenders s a = Some x \<Longrightarrow> ap_formatter x \<noteq> None \<Longrightarrow> ap_formatter (f x) \<noteq> None"
  shows "keeps s (bindR (get_appender a s) (\<lambda>x. Inr (put_appender a (f x) s)))"
proof -
  obtain x where x: "ls_appenders s a = Some x" using assms(2) by blast
  have "log_wf (put_appender a (f x) s)"
  proof (rule put_appender_wf [OF assms(1)])
    show "a < ls_next s" using log_wf_fresh [OF assms(1), of a] x by (metis not_less option.distinct(1))
    show "ready s a \<Longrightarrow> ap_formatter (f x) \<noteq> None" using assms(3) [OF x] x by (simp add: ready_def)
  qed
  then show ?thesis using x by (simp add: get_appender_def keeps_def)
qed

lemma run_log_op_keeps:
  assumes "log_wf s" and "log_op_ok x s"
  shows "keeps s (run_log_op strf x s)"
proof (cases x)
  case (OpNewAppender k)
  then show ?thesis
    using new_appender_wf [OF assms(1) surjective_pairing]
      new_appender_simps [OF surjective_pairing, of k s] by (simp add: keepsI)
next
  case (OpAddAppender n a)
  then show ?thesis using assms addAppender_keeps by auto
next
  case (OpAppenderSetFormatter a f)
  then show ?thesis using change_appender_keeps [OF assms(1), of a "LogAppender_setFormatter f"] assms(2)
    by (simp add: LogAppender_setFormatter_def)
next
  case (OpAppenderSetLevel a v)
  then show ?thesis using change_appender_keeps [OF assms(1), of a "\<lambda>x. x\<lparr>ap_level := v\<rparr>"] assms(2) by simp
qed (use assms Logger_log_keeps delAppender_keeps clearAppenders_keeps setLevel_keeps
    setFormatter_keeps setFormatter_string_keeps getLogger_keeps on_logs_changed_keeps in auto)

lemma run_log_ops_wf:
  "log_wf s \<Longrightarrow> log_ops_ok strf xs s \<Longrightarrow> \<exists>s'. run_log_ops strf xs s = Inr s' \<and> log_wf s'"
proof (induction xs arbitrary: s)
  case (Cons x xs)
  obtain s1 where s1: "run_log_op strf x s = Inr s1" "log_wf s1"
    using run_log_op_keeps [of s x strf] Cons.prems by (auto simp: keeps_def)
  then show ?case using Cons.IH [of s1] Cons.prems(2) by simp
qed simp

text \<open>The manager starts well formed.\<close>

lemma LoggerManager_new_wf: "\<exists>s. LoggerManager_new = Inr s \<and> log_wf s"
proof -
  let ?s = "\<lparr>ls_loggers = [''root'' \<mapsto> Logger_new ''root''], ls_appenders = Map.empty,
            ls_next = 0, ls_out = []\<rparr>"
  have "log_wf ?s" by (simp add: log_wf_def logger_wf_def Logger_new_def)
  obtain a s1 where n1: "new_appender Console ?s = (a, s1)" by force
  have w1: "log_wf s1" by (rule new_appender_wf [OF \<open>log_wf ?s\<close> n1])
  have "keeps s1 (addAppender ''root'' a s1)"
    by (rule addAppender_keeps [OF w1]) (simp_all add: new_appender_simps [OF n1])
  then obtain s2 where s2: "addAppender ''root'' a s1 = Inr s2" "log_wf s2" by (auto simp: keeps_def)
  obtain b s3 where n3: "new_appender (LogFile ''./log/root_error.log'') s2 = (b, s3)" by force
  have w3: "log_wf s3" by (rule new_appender_wf [OF s2(2) n3])
  note ss = new_appender_simps [OF n3]
  let ?x = "(Appender_new (LogFile ''./log/root_error.log''))\<lparr>ap_level := ERROR\<rparr>"
  have "log_wf (put_appender b ?x s3)"
    by (rule put_appender_wf [OF w3]) (simp_all add: ss ready_def Appender_new_def)
  moreover obtain r where "ls_loggers s3 ''root'' = Some r" using log_wf_root [OF w3] by auto
  ultimately have "keeps (put_appender b ?x s3) (addAppender ''root'' b (put_appender b ?x s3))"
    by (intro addAppender_keeps [where x = ?x and l = r]) simp_all
  then show ?thesis using n1 s2(1) n3
    by (auto simp: LoggerManager_new_def keeps_def get_appender_def ss)
qed

section \<open>What a change of the configuration does\<close>

definition appenders_of :: "logsys \<Rightarrow> string \<Rightarrow> ptr set" where
  "appenders_of s n = (case ls_loggers s n of None \<Rightarrow> {} | Some l \<Rightarrow> set (lg_appenders l))"

text \<open>An appender without a format of its own takes the one of its logger.\<close>

definition finished :: "formatter \<Rightarrow> appender \<Rightarrow> appender" where
  "finished f x = (if ap_formatter x = None then x\<lparr>ap_formatter := Some f\<rparr> else x)"

definition defined_appenders :: "bool \<Rightarrow> formatter \<Rightarrow> log_define \<Rightarrow> appender list" where
  "defined_appenders has_d f i =
     map (finished f \<circ> made_appender) (filter (Not \<circ> skipped has_d) (ld_appenders i))"

text \<open>The logger of a definition has its level, the formatter \<open>f\<close> and its appenders.\<close>

definition shows_define :: "bool \<Rightarrow> log_define \<Rightarrow> formatter \<Rightarrow> logsys \<Rightarrow> bool" where
  "shows_define has_d i f s = (case ls_loggers s (ld_name i) of None \<Rightarrow> False
     | Some l \<Rightarrow> lg_level l = ld_level i \<and> lg_formatter l = Some f \<and>
         map (ls_appenders s) (lg_appenders l) = map Some (defined_appenders has_d f i))"

definition old_formatter :: "string \<Rightarrow> logsys \<Rightarrow> formatter" where
  "old_formatter n s = (case ls_loggers s n of None \<Rightarrow> LogFormatter default_pattern
     | Some l \<Rightarrow> the (lg_formatter l))"

definition new_formatter :: "log_define \<Rightarrow> logsys \<Rightarrow> formatter" where
  "new_formatter i s = (if ld_formatter i \<noteq> [] \<and> \<not> lf_error (LogFormatter (ld_formatter i))
     then LogFormatter (ld_formatter i) else old_formatter (ld_name i) s)"

lemma appenders_of_lt: "log_wf s \<Longrightarrow> a \<in> appenders_of s n \<Longrightarrow> a < ls_next s"
  using log_wfD [of s n] ready_lt [of s a]
  by (auto simp: appenders_of_def logger_wf_def split: option.splits)

lemma shows_define_cong:
  assumes "ls_loggers s' (ld_name i) = ls_loggers s (ld_name i)"
    and "\<And>a. a \<in> appenders_of s (ld_name i) \<Longrightarrow> ls_appenders s' a = ls_appenders s a"
  shows "shows_define has_d i f s' = shows_define has_d i f s"
  using assms by (auto simp: shows_define_def appenders_of_def split: option.split cong: map_cong)

lemma inherit_frame:
  "inherit_formatter val as s = Inr s' \<Longrightarrow> ls_loggers s' = ls_loggers s \<and> ls_next s' = ls_next s \<and>
    (\<forall>a. a \<notin> set as \<longrightarrow> ls_appenders s' a = ls_appenders s a)"
proof (induction as arbitrary: s)
  case (Cons a as)
  obtain x where "ls_appenders s a = Some x"
    using Cons.prems by (auto simp: get_appender_def split: option.splits)
  then show ?case using Cons.prems Cons.IH by (fastforce split: if_splits)
qed simp

lemma apply_appender_exact:
  assumes "ls_loggers s n = Some l" and "lg_formatter l = Some f"
    and "ad_type a = 1 \<or> ad_type a = 2" and "\<not> skipped has_d a"
  shows "\<exists>s'. apply_appender has_d n a s = Inr s' \<and> ls_next s' = Suc (ls_next s) \<and>
    ls_loggers s' = (ls_loggers s)(n \<mapsto> l\<lparr>lg_appenders := lg_appenders l @ [ls_next s]\<rparr>) \<and>
    ls_appenders s' = (ls_appenders s)(ls_next s \<mapsto> finished f (made_appender a))"
  using assms
  by (auto simp: apply_appender_made addAppender_def Let_def finished_def)

lemma apply_appenders_exact:
  "ls_loggers s n = Some l \<Longrightarrow> lg_formatter l = Some f \<Longrightarrow>
    list_all (\<lambda>a. ad_type a = 1 \<or> ad_type a = 2) as \<Longrightarrow>
    \<exists>s' bs. apply_appenders has_d n as s = Inr s' \<and> ls_next s \<le> ls_next s' \<and>
      (\<forall>a < ls_next s. ls_appenders s' a = ls_appenders s a) \<and>
      ls_loggers s' = (ls_loggers s)(n \<mapsto> l\<lparr>lg_appenders := lg_appenders l @ bs\<rparr>) \<and>
      (\<forall>b \<in> set bs. ls_next s \<le> b) \<and>
      map (ls_appenders s') bs =
        map (Some \<circ> finished f \<circ> made_appender) (filter (Not \<circ> skipped has_d) as)"
proof (induction as arbitrary: s l)
  case Nil
  then show ?case by (intro exI [of _ s] exI [of _ "[]"]) (simp add: fun_upd_idem)
next
  case (Cons a as)
  show ?case
  proof (cases "skipped has_d a")
    case True
    then have "apply_appender has_d n a s = Inr s" by (simp add: apply_appender_def skipped_def)
    then show ?thesis using Cons True by simp
  next
    case False
    let ?p = "ls_next s"
    let ?l = "l\<lparr>lg_appenders := lg_appenders l @ [?p]\<rparr>"
    obtain s1 where 1: "apply_appender has_d n a s = Inr s1" "ls_next s1 = Suc ?p"
      "ls_loggers s1 = (ls_loggers s)(n \<mapsto> ?l)"
      "ls_appenders s1 = (ls_appenders s)(?p \<mapsto> finished f (made_appender a))"
      using apply_appender_exact [of s n l f a has_d] Cons.prems False by auto
    obtain s' bs where 2: "apply_appenders has_d n as s1 = Inr s'" "ls_next s1 \<le> ls_next s'"
      "\<forall>a < ls_next s1. ls_appenders s' a = ls_appenders s1 a"
      "ls_loggers s' = (ls_loggers s1)(n \<mapsto> ?l\<lparr>lg_appenders := lg_appenders ?l @ bs\<rparr>)"
      "\<forall>b \<in> set bs. ls_next s1 \<le> b"
      "map (ls_appenders s') bs =
        map (Some \<circ> finished f \<circ> made_appender) (filter (Not \<circ> skipped has_d) as)"
    proof -
      have "ls_loggers s1 n = Some ?l" "lg_formatter ?l = Some f"
        "list_all (\<lambda>a. ad_type a = 1 \<or> ad_type a = 2) as"
        using Cons.prems 1(3) by simp_all
      from Cons.IH [OF this] show ?thesis using that by blast
    qed
    have "ls_appenders s' ?p = Some (finished f (made_appender a))"
      "\<forall>a < ls_next s. ls_appenders s' a = ls_appenders s a"
      using 2(3) 1(2,4) by simp_all
    then show ?thesis using 1 2 False
      by (intro exI [of _ s'] exI [of _ "?p # bs"]) (auto simp: Suc_le_eq comp_def intro: less_imp_le)
  qed
qed

text \<open>The steps of one definition before its appenders are made.\<close>

lemma define_header_exact:
  fixes i :: log_define
  assumes "log_wf s"
  defines "n \<equiv> ld_name i"
  shows "\<exists>s' l. bindR (setLevel n (ld_level i) (getLogger n s)) (\<lambda>s1.
      bindR (if ld_formatter i \<noteq> [] then setFormatter_string n (ld_formatter i) s1 else Inr s1)
        (clearAppenders n)) = Inr s' \<and> ls_next s' = ls_next s \<and>
    ls_loggers s' = (ls_loggers s)(n \<mapsto> l) \<and> lg_level l = ld_level i \<and> lg_appenders l = [] \<and>
    lg_formatter l = Some (new_formatter i s) \<and>
    (\<forall>a. a \<notin> appenders_of s n \<longrightarrow> ls_appenders s' a = ls_appenders s a)"
proof -
  let ?g = "getLogger n s"
  obtain l where l: "ls_loggers ?g n = Some l" using getLogger_Some [of n s] by blast
  have lf: "lg_formatter l = Some (old_formatter n s)" "set (lg_appenders l) = appenders_of s n"
    using l log_wfD [OF assms(1), of n]
    by (auto simp: getLogger_def old_formatter_def appenders_of_def Logger_new_def logger_wf_def
        split: option.splits)
  have g: "ls_next ?g = ls_next s" "ls_appenders ?g = ls_appenders s"
    "(ls_loggers ?g)(n \<mapsto> x) = (ls_loggers s)(n \<mapsto> x)" for x
    by (simp_all add: getLogger_def split: option.split)
  let ?l = "l\<lparr>lg_level := ld_level i\<rparr>"
  let ?s1 = "put_logger n ?l ?g"
  let ?f = "LogFormatter (ld_formatter i)"
  show ?thesis
  proof (cases "ld_formatter i \<noteq> [] \<and> \<not> lf_error ?f")
    case True
    have wg: "log_wf ?g" using getLogger_keeps [OF assms(1)] by (simp add: keeps_def)
    have "logger_wf ?g n ?l" using log_wfD [OF wg l] by (simp add: logger_wf_def)
    then have "log_wf ?s1" using put_logger_wf [OF wg] by simp
    then obtain s2 where s2: "setFormatter n (Some ?f) ?s1 = Inr s2"
      using setFormatter_keeps [of ?s1 n ?l ?f] by (auto simp: keeps_def)
    then have "inherit_formatter (Some ?f) (lg_appenders l) (put_logger n (?l\<lparr>lg_formatter := Some ?f\<rparr>) ?s1)
        = Inr s2"
      by (simp add: setFormatter_def)
    note fr = inherit_frame [OF this]
    show ?thesis using True l s2 fr lf g
      by (simp add: setLevel_def setFormatter_string_def Let_def clearAppenders_def new_formatter_def
          n_def) (rule exI, rule conjI [OF refl], simp)
  next
    case False
    then have f: "new_formatter i s = old_formatter n s" by (auto simp: new_formatter_def n_def)
    have "(if ld_formatter i \<noteq> [] then setFormatter_string n (ld_formatter i) ?s1 else Inr ?s1) = Inr ?s1"
      using False by (auto simp: setFormatter_string_def)
    then show ?thesis using l lf g f
      by (simp add: setLevel_def clearAppenders_def) (rule exI, rule conjI [OF refl], simp)
  qed
qed

text \<open>
  What a step of the listener leaves alone: the loggers not in \<open>N\<close>, and the appenders that
  existed and do not belong to a logger in \<open>N\<close>.
\<close>

definition leaves :: "string set \<Rightarrow> logsys \<Rightarrow> logsys \<Rightarrow> bool" where
  "leaves N s s' = (ls_next s \<le> ls_next s' \<and>
     (\<forall>m. m \<notin> N \<longrightarrow> ls_loggers s' m = ls_loggers s m) \<and>
     (\<forall>a < ls_next s. (\<forall>n \<in> N. a \<notin> appenders_of s n) \<longrightarrow> ls_appenders s' a = ls_appenders s a))"

lemma leaves_logger: "leaves N s s' \<Longrightarrow> m \<notin> N \<Longrightarrow> ls_loggers s' m = ls_loggers s m"
  by (simp add: leaves_def)

lemma apply_define_exact:
  assumes "log_wf s" and "define_ok i"
  shows "\<exists>s'. apply_define has_d i s = Inr s' \<and> log_wf s' \<and> leaves {ld_name i} s s' \<and>
    shows_define has_d i (new_formatter i s) s' \<and> (\<forall>a \<in> appenders_of s' (ld_name i). ls_next s \<le> a)"
proof -
  let ?n = "ld_name i"
  obtain t l where t: "bindR (setLevel ?n (ld_level i) (getLogger ?n s)) (\<lambda>s1.
      bindR (if ld_formatter i \<noteq> [] then setFormatter_string ?n (ld_formatter i) s1 else Inr s1)
        (clearAppenders ?n)) = Inr t" "ls_next t = ls_next s"
    "ls_loggers t = (ls_loggers s)(?n \<mapsto> l)" "lg_level l = ld_level i" "lg_appenders l = []"
    "lg_formatter l = Some (new_formatter i s)"
    "\<forall>a. a \<notin> appenders_of s ?n \<longrightarrow> ls_appenders t a = ls_appenders s a"
    using define_header_exact [OF assms(1), of i] by blast
  have "ls_loggers t ?n = Some l" by (simp add: t)
  from apply_appenders_exact [OF this t(6) assms(2) [unfolded define_ok_def]]
  obtain s' bs where s': "apply_appenders has_d ?n (ld_appenders i) t = Inr s'"
    "ls_next t \<le> ls_next s'" "\<forall>a < ls_next t. ls_appenders s' a = ls_appenders t a"
    "ls_loggers s' = (ls_loggers t)(?n \<mapsto> l\<lparr>lg_appenders := lg_appenders l @ bs\<rparr>)"
    "\<forall>b \<in> set bs. ls_next t \<le> b"
    "map (ls_appenders s') bs = map (Some \<circ> finished (new_formatter i s) \<circ> made_appender)
      (filter (Not \<circ> skipped has_d) (ld_appenders i))"
    by blast
  have run: "apply_define has_d i s = Inr s'"
  proof -
    have "apply_define has_d i s = bindR (Inr t) (apply_appenders has_d ?n (ld_appenders i))"
      unfolding t(1) [symmetric] by (simp add: apply_define_def bindR_assoc)
    then show ?thesis using s'(1) by simp
  qed
  then have "log_wf s'" using apply_define_keeps [OF assms, of has_d] by (simp add: keeps_def)
  with run show ?thesis using t s'
    by (auto simp: leaves_def shows_define_def defined_appenders_def appenders_of_def comp_def)
qed

text \<open>The definitions that are new or count as changed.\<close>

definition changed :: "log_define list \<Rightarrow> log_define \<Rightarrow> bool" where
  "changed old i = (case find_define i old of None \<Rightarrow> True | Some d \<Rightarrow> \<not> LogDefine_eq i d)"

lemma apply_new_step:
  "(case find_define i old of None \<Rightarrow> apply_define has_d i s
    | Some d \<Rightarrow> if \<not> LogDefine_eq i d then apply_define has_d i s else Inr s) =
    (if changed old i then apply_define has_d i s else Inr s)"
  by (simp add: changed_def split: option.split)

lemma leaves_refl: "leaves {} s s"
  by (simp add: leaves_def)

lemma appenders_of_cong:
  "ls_loggers s' n = ls_loggers s n \<Longrightarrow> appenders_of s' n = appenders_of s n"
  by (simp add: appenders_of_def)

lemma new_formatter_cong:
  "ls_loggers s' (ld_name i) = ls_loggers s (ld_name i) \<Longrightarrow> new_formatter i s' = new_formatter i s"
  by (simp add: new_formatter_def old_formatter_def)

text \<open>Two steps on different loggers.\<close>

lemma leaves_trans:
  assumes "log_wf s" and "leaves M s s1" and "leaves N s1 s2" and "M \<inter> N = {}"
  shows "leaves (M \<union> N) s s2"
proof -
  have "ls_appenders s2 a = ls_appenders s a"
    if a: "a < ls_next s" "\<forall>n \<in> M \<union> N. a \<notin> appenders_of s n" for a
  proof -
    have "\<forall>n \<in> N. ls_loggers s1 n = ls_loggers s n" using assms(2,4) by (auto simp: leaves_def)
    then have "\<forall>n \<in> N. a \<notin> appenders_of s1 n" using a appenders_of_cong [of s1 _ s] by simp
    then show ?thesis using assms(2,3) a by (simp add: leaves_def)
  qed
  then show ?thesis using assms(2,3) by (auto simp: leaves_def)
qed

lemma shows_define_stays:
  assumes "log_wf s" and "log_wf s1" and "shows_define has_d i f s1" and "leaves {ld_name i} s s1"
    and new: "\<forall>a \<in> appenders_of s1 (ld_name i). ls_next s \<le> a"
    and "leaves N s1 s2" and "ld_name i \<notin> N"
  shows "shows_define has_d i f s2"
proof -
  have "ls_appenders s2 a = ls_appenders s1 a" if a: "a \<in> appenders_of s1 (ld_name i)" for a
  proof -
    have "a \<notin> appenders_of s1 n" if "n \<in> N" for n
    proof -
      have "appenders_of s1 n = appenders_of s n"
        by (rule appenders_of_cong, rule leaves_logger [OF assms(4)]) (use assms(7) that in auto)
      then show ?thesis using appenders_of_lt [OF assms(1), of a n] new a by auto
    qed
    then show ?thesis using assms(6) appenders_of_lt [OF assms(2) a] by (simp add: leaves_def)
  qed
  then have "shows_define has_d i f s2 = shows_define has_d i f s1"
    using assms(6,7) by (intro shows_define_cong) (auto simp: leaves_def)
  then show ?thesis using assms(3) by simp
qed

lemma apply_new_exact:
  "log_wf s \<Longrightarrow> list_all define_ok is \<Longrightarrow> distinct (map ld_name is) \<Longrightarrow>
    \<exists>s'. apply_new has_d old is s = Inr s' \<and> log_wf s' \<and>
      leaves (ld_name ` {i \<in> set is. changed old i}) s s' \<and>
      (\<forall>i \<in> set is. changed old i \<longrightarrow> shows_define has_d i (new_formatter i s) s' \<and>
        (\<forall>a \<in> appenders_of s' (ld_name i). ls_next s \<le> a))"
proof (induction "is" arbitrary: s)
  case Nil
  then show ?case by (simp add: leaves_refl)
next
  case (Cons i "is")
  let ?N = "ld_name ` {i \<in> set is. changed old i}"
  have dist: "ld_name i \<notin> ?N" using Cons.prems(3) by auto
  show ?case
  proof (cases "changed old i")
    case False
    then have "{j \<in> set (i # is). changed old j} = {j \<in> set is. changed old j}" by auto
    then show ?thesis using Cons False by (auto simp: apply_new_step)
  next
    case True
    obtain s1 where 1: "apply_define has_d i s = Inr s1" "log_wf s1" "leaves {ld_name i} s s1"
      "shows_define has_d i (new_formatter i s) s1" "\<forall>a \<in> appenders_of s1 (ld_name i). ls_next s \<le> a"
      using apply_define_exact [OF Cons.prems(1), of i has_d] Cons.prems(2) by auto
    obtain s' where 2: "apply_new has_d old is s1 = Inr s'" "log_wf s'" "leaves ?N s1 s'"
      "\<forall>j \<in> set is. changed old j \<longrightarrow> shows_define has_d j (new_formatter j s1) s' \<and>
        (\<forall>a \<in> appenders_of s' (ld_name j). ls_next s1 \<le> a)"
      using Cons.IH [OF 1(2)] Cons.prems(2,3) by auto
    have le: "ls_next s \<le> ls_next s1" using 1(3) by (simp add: leaves_def)
    have "leaves ({ld_name i} \<union> ?N) s s'"
      by (rule leaves_trans [OF Cons.prems(1) 1(3) 2(3)]) (use dist in auto)
    moreover have "{ld_name i} \<union> ?N = ld_name ` {j \<in> set (i # is). changed old j}"
      using True by auto
    moreover have "shows_define has_d i (new_formatter i s) s'"
      by (rule shows_define_stays [OF Cons.prems(1) 1(2,4,3,5) 2(3) dist])
    moreover have "appenders_of s' (ld_name i) = appenders_of s1 (ld_name i)"
      using 2(3) dist by (intro appenders_of_cong) (simp add: leaves_def)
    moreover have "new_formatter j s1 = new_formatter j s" if "j \<in> set is" for j
      by (rule new_formatter_cong, rule leaves_logger [OF 1(3)]) (use that Cons.prems(3) in \<open>auto simp: image_iff\<close>)
    moreover have "ls_next s \<le> a" if "ls_next s1 \<le> a" for a using that le by simp
    ultimately show ?thesis using 1(1,5) 2(1,2,4) True by (auto simp: apply_new_step)
  qed
qed

lemma find_define_None: "find_define i ds = None \<longleftrightarrow> ld_name i \<notin> ld_name ` set ds"
  by (auto simp: find_define_def find_None_iff image_iff)

text \<open>A logger whose definition is gone is silenced.\<close>

definition silent :: "logsys \<Rightarrow> string \<Rightarrow> bool" where
  "silent s n = (case ls_loggers s n of None \<Rightarrow> False
     | Some l \<Rightarrow> lg_level l = UNKNOW \<and> lg_appenders l = [])"

lemma remove_one_exact:
  "\<exists>s'. bindR (setLevel n UNKNOW (getLogger n s)) (clearAppenders n) = Inr s' \<and> silent s' n \<and>
    ls_appenders s' = ls_appenders s \<and> (\<forall>m. m \<noteq> n \<longrightarrow> ls_loggers s' m = ls_loggers s m)"
proof -
  obtain l where "ls_loggers (getLogger n s) n = Some l" using getLogger_Some by blast
  then show ?thesis
    by (simp add: setLevel_def clearAppenders_def silent_def)
      (simp add: getLogger_def split: option.split)
qed

lemma remove_old_exact:
  "\<exists>s'. remove_old new is s = Inr s' \<and> ls_appenders s' = ls_appenders s \<and>
    (\<forall>m. (silent s m \<or> m \<in> ld_name ` set is) \<and> m \<notin> ld_name ` set new \<longrightarrow> silent s' m) \<and>
    (\<forall>m. m \<in> ld_name ` set new \<or> m \<notin> ld_name ` set is \<longrightarrow> ls_loggers s' m = ls_loggers s m)"
proof (induction "is" arbitrary: s)
  case (Cons i "is")
  show ?case
  proof (cases "find_define i new")
    case None
    obtain s1 where 1: "bindR (setLevel (ld_name i) UNKNOW (getLogger (ld_name i) s))
        (clearAppenders (ld_name i)) = Inr s1" "silent s1 (ld_name i)"
      "ls_appenders s1 = ls_appenders s" "\<forall>m. m \<noteq> ld_name i \<longrightarrow> ls_loggers s1 m = ls_loggers s m"
      using remove_one_exact by blast
    have sil: "silent s1 m" if "silent s m \<or> m = ld_name i" for m
      using that 1(2,4) by (cases "m = ld_name i") (simp_all add: silent_def)
    have nm: "ld_name i \<notin> ld_name ` set new" using None by (simp add: find_define_None)
    obtain s' where 2: "remove_old new is s1 = Inr s'" "ls_appenders s' = ls_appenders s1"
      "\<forall>m. (silent s1 m \<or> m \<in> ld_name ` set is) \<and> m \<notin> ld_name ` set new \<longrightarrow> silent s' m"
      "\<forall>m. m \<in> ld_name ` set new \<or> m \<notin> ld_name ` set is \<longrightarrow> ls_loggers s' m = ls_loggers s1 m"
      using Cons.IH by blast
    have "ls_loggers s' m = ls_loggers s m"
      if "m \<in> ld_name ` set new \<or> m \<notin> ld_name ` set (i # is)" for m
    proof -
      have "m \<noteq> ld_name i" using that nm by auto
      moreover have "m \<in> ld_name ` set new \<or> m \<notin> ld_name ` set is" using that by auto
      ultimately show ?thesis using 2(4) 1(4) by metis
    qed
    moreover have "silent s' m"
      if "(silent s m \<or> m \<in> ld_name ` set (i # is)) \<and> m \<notin> ld_name ` set new" for m
      using that sil 2(3) by auto
    ultimately show ?thesis using 1(1,3) 2(1,2) None
      by (intro exI [of _ s'] conjI) simp_all
  next
    case (Some d)
    then have "ld_name i \<in> ld_name ` set new" using find_define_None [of i new] by auto
    then show ?thesis using Cons.IH [of s] Some by auto
  qed
qed simp

lemma conf_change_lemma:
  assumes wf: "log_wf s" and ok: "list_all define_ok new" and dist: "distinct (map ld_name new)"
  shows "\<exists>s'. on_logs_changed strf e has_d old new s = Inr s' \<and> log_wf s' \<and>
    (\<forall>i \<in> set new. changed old i \<longrightarrow> shows_define has_d i (new_formatter i s) s') \<and>
    (\<forall>i \<in> set old. ld_name i \<notin> ld_name ` set new \<longrightarrow> silent s' (ld_name i)) \<and>
    (\<forall>n. n \<notin> ld_name ` {i \<in> set new. changed old i} \<and> n \<notin> ld_name ` set old - ld_name ` set new \<longrightarrow>
      ls_loggers s' n = ls_loggers s n)"
proof -
  obtain l where l: "ls_loggers s ''root'' = Some l" using log_wf_root [OF wf] by auto
  obtain s1 where 1: "Logger_log 1 strf e ''root'' s = Inr s1" "settings s1 = settings s"
    "ls_loggers s1 = ls_loggers s" "ls_next s1 = ls_next s"
    using Logger_log_lemma [OF wf l, of strf e] by auto
  have wf1: "log_wf s1" by (rule settings_wf [OF wf 1(2-4)])
  obtain s2 where 2: "apply_new has_d old new s1 = Inr s2" "log_wf s2"
    "leaves (ld_name ` {i \<in> set new. changed old i}) s1 s2"
    "\<forall>i \<in> set new. changed old i \<longrightarrow> shows_define has_d i (new_formatter i s1) s2"
    using apply_new_exact [OF wf1 ok dist, where old = old and has_d = has_d] by blast
  obtain s3 where 3: "remove_old new old s2 = Inr s3" "ls_appenders s3 = ls_appenders s2"
    "\<forall>m. (silent s2 m \<or> m \<in> ld_name ` set old) \<and> m \<notin> ld_name ` set new \<longrightarrow> silent s3 m"
    "\<forall>m. m \<in> ld_name ` set new \<or> m \<notin> ld_name ` set old \<longrightarrow> ls_loggers s3 m = ls_loggers s2 m"
    using remove_old_exact [of new old s2] by blast
  have run: "on_logs_changed strf e has_d old new s = Inr s3"
    using 1(1) 2(1) 3(1) by (simp add: on_logs_changed_def)
  have "log_wf s3" using on_logs_changed_keeps [OF wf ok, of strf e has_d old] run
    by (simp add: keeps_def)
  moreover have "shows_define has_d i (new_formatter i s) s3" if i: "i \<in> set new" "changed old i" for i
  proof -
    have "shows_define has_d i (new_formatter i s1) s3 = shows_define has_d i (new_formatter i s1) s2"
      by (rule shows_define_cong) (use 3(2,4) i in auto)
    moreover have "new_formatter i s1 = new_formatter i s"
      by (rule new_formatter_cong) (simp add: 1(3))
    ultimately show ?thesis using 2(4) i by metis
  qed
  moreover have "ls_loggers s3 n = ls_loggers s n"
    if "n \<notin> ld_name ` {i \<in> set new. changed old i}" "n \<notin> ld_name ` set old - ld_name ` set new" for n
    using leaves_logger [OF 2(3) that(1)] 3(4) that(2) 1(3) by auto
  ultimately show ?thesis using run 3(3) by blast
qed

section \<open>A null formatter\<close>

text \<open>
  \<open>Logger::setFormatter(nullptr)\<close> takes the formatter from every appender that has none of its own;
  logging to one of these then follows a null pointer.
\<close>

lemma appenders_log_null:
  assumes "\<forall>a \<in> set as. ls_appenders s a \<noteq> None"
    and "\<exists>a \<in> set as. \<exists>x. ls_appenders s a = Some x \<and> ap_formatter x = None \<and> ap_level x \<le> le_level e"
  shows "appenders_log strf e as s = Inl (NullDeref ''m_formatter'')"
  using assms
proof (induction as arbitrary: s)
  case (Cons a as)
  obtain x where x: "ls_appenders s a = Some x" using Cons.prems(1) by auto
  show ?case
  proof (cases "ap_formatter x = None \<and> ap_level x \<le> le_level e")
    case True
    then have "Appender_log strf e a s = Inl (NullDeref ''m_formatter'')" using x
      by (cases "ap_sink x")
        (simp_all add: Appender_log_def get_appender_def Stdout_log_def File_log_def put_line_def)
    then show ?thesis by simp
  next
    case False
    have "\<exists>s'. Appender_log strf e a s = Inr s' \<and> settings s' = settings s"
    proof (cases "ap_level x \<le> le_level e")
      case True
      then have "ready s a" using False x by (simp add: ready_def)
      then show ?thesis using Appender_log_exact [of s a strf e] by blast
    next
      case low: False
      then show ?thesis using x
        by (cases "ap_sink x") (simp_all add: Appender_log_def get_appender_def Stdout_log_def File_log_def)
    qed
    then obtain s' where s': "Appender_log strf e a s = Inr s'" "settings s' = settings s" by blast
    have same: "ls_appenders s' b = None \<longleftrightarrow> ls_appenders s b = None" for b
      using fun_cong [OF s'(2), of b] by (simp add: settings_def map_option_case split: option.splits)
    have kept: "\<exists>x'. ls_appenders s' b = Some x' \<and> ap_formatter x' = ap_formatter z \<and> ap_level x' = ap_level z"
      if z: "ls_appenders s b = Some z" for b z
    proof -
      obtain z' where z': "ls_appenders s' b = Some z'" using same [of b] z by (cases "ls_appenders s' b") simp_all
      then have "z'\<lparr>ap_lastTime := 0\<rparr> = z\<lparr>ap_lastTime := 0\<rparr>"
        using fun_cong [OF s'(2), of b] z by (simp add: settings_def)
      then show ?thesis using z' by (metis appender.select_convs(2,4) appender.surjective appender.update_convs(5))
    qed
    obtain b z where b: "b \<in> set (a # as)" "ls_appenders s b = Some z" "ap_formatter z = None"
      "ap_level z \<le> le_level e" using Cons.prems(2) by blast
    then have "b \<in> set as" using x False by auto
    moreover have "\<forall>a \<in> set as. ls_appenders s' a \<noteq> None" using Cons.prems(1) same by simp
    ultimately have "appenders_log strf e as s' = Inl (NullDeref ''m_formatter'')"
      using kept [OF b(2)] b(3,4) by (intro Cons.IH) (auto intro!: bexI [of _ b])
    then show ?thesis using s'(1) by simp
  qed
qed simp

lemma inherit_formatter_frame:
  "\<forall>a \<in> set as. ls_appenders s a \<noteq> None \<Longrightarrow> \<exists>s'. inherit_formatter val as s = Inr s' \<and>
    ls_loggers s' = ls_loggers s \<and>
    (\<forall>a. ls_appenders s' a = (if a \<in> set as then map_option (\<lambda>x. if ap_hasFormatter x then x
       else x\<lparr>ap_formatter := val\<rparr>) (ls_appenders s a) else ls_appenders s a))"
proof (induction as arbitrary: s)
  case (Cons a as)
  obtain x where x: "ls_appenders s a = Some x" using Cons.prems by auto
  let ?s = "if \<not> ap_hasFormatter x then put_appender a (x\<lparr>ap_formatter := val\<rparr>) s else s"
  have "\<forall>b \<in> set as. ls_appenders ?s b \<noteq> None" using Cons.prems by auto
  from Cons.IH [OF this] obtain s' where s': "inherit_formatter val as ?s = Inr s'" "ls_loggers s' = ls_loggers ?s"
    "\<forall>b. ls_appenders s' b = (if b \<in> set as then map_option (\<lambda>x. if ap_hasFormatter x then x
       else x\<lparr>ap_formatter := val\<rparr>) (ls_appenders ?s b) else ls_appenders ?s b)" by blast
  have "ls_appenders s' b = (if b \<in> set (a # as) then map_option (\<lambda>x. if ap_hasFormatter x then x
       else x\<lparr>ap_formatter := val\<rparr>) (ls_appenders s b) else ls_appenders s b)" for b
    using spec [OF s'(3), of b] x by (cases "b = a") auto
  then show ?case using x s'(1,2) by (intro exI [of _ s']) (simp add: get_appender_def)
qed simp

lemma null_formatter_followed:
  assumes wf: "log_wf s" and l: "ls_loggers s n = Some l" and e: "lg_level l \<le> le_level e"
    and a: "a \<in> set (lg_appenders l)" "ls_appenders s a = Some x" "\<not> ap_hasFormatter x" "ap_level x \<le> le_level e"
  shows "run_log_ops strf [OpSetFormatter n None, OpLog e n] s = Inl (NullDeref ''m_formatter'')"
proof -
  let ?s = "put_logger n (l\<lparr>lg_formatter := None\<rparr>) s"
  have all: "\<forall>b \<in> set (lg_appenders l). ls_appenders ?s b \<noteq> None"
    using log_wfD [OF wf l] by (fastforce simp: logger_wf_def ready_def split: option.splits)
  obtain s' where s': "inherit_formatter None (lg_appenders l) ?s = Inr s'" "ls_loggers s' = ls_loggers ?s"
    "\<forall>b. ls_appenders s' b = (if b \<in> set (lg_appenders l) then map_option (\<lambda>x. if ap_hasFormatter x then x
       else x\<lparr>ap_formatter := None\<rparr>) (ls_appenders ?s b) else ls_appenders ?s b)"
    using inherit_formatter_frame [OF all] by blast
  have "ls_appenders s' a = Some (x\<lparr>ap_formatter := None\<rparr>)" using a s'(3) by simp
  then have "\<exists>a \<in> set (lg_appenders l). \<exists>x. ls_appenders s' a = Some x \<and> ap_formatter x = None \<and>
      ap_level x \<le> le_level e"
    using a(1,4) by (intro bexI [of _ a] exI [of _ "x\<lparr>ap_formatter := None\<rparr>"]) simp_all
  moreover have "\<forall>b \<in> set (lg_appenders l). ls_appenders s' b \<noteq> None" using all s'(3) by auto
  ultimately have "appenders_log strf e (lg_appenders l) s' = Inl (NullDeref ''m_formatter'')"
    by (intro appenders_log_null)
  then show ?thesis using l e s'(1,2) a(1) by (auto simp: setFormatter_def get_logger_def)
qed

section \<open>Properties\<close>

text \<open>
  C20. From the state the manager starts in, no sequence of operations on loggers and appenders ever
  follows a null pointer or a dangling one, as long as each operation names a logger and appenders
  that have been made, and none of them passes a null pointer to \<open>setFormatter\<close> (\<open>log_op_ok\<close>): every
  logger keeps a formatter, every appender in use has one, and the root logger, on which the others
  fall back, is always there and falls back on none. The two \<open>setFormatter\<close> accept a null pointer
  without a test, and the next event logged then follows it (\<open>null_formatter_followed\<close>).
\<close>

theorem logger_ops_safe:
  assumes "LoggerManager_new = Inr s" and "log_ops_ok strf xs s"
  shows "\<exists>s'. run_log_ops strf xs s = Inr s' \<and> log_wf s'"
proof -
  obtain s0 where "LoggerManager_new = Inr s0" "log_wf s0" using LoggerManager_new_wf by blast
  then have "log_wf s" using assms(1) by (metis sum.inject(2))
  then show ?thesis by (rule run_log_ops_wf [OF _ assms(2)])
qed

text \<open>
  C35. Logging an event writes exactly one line to each appender that the event reaches, in the
  order in which they were added: the appenders of the logger when its level lets the event
  pass, those of the root logger (under the level of the root logger) when it has none of its
  own, and of these the ones whose level lets the event pass. It changes nothing else but the
  times at which files were reopened.
\<close>

theorem Logger_log_exact:
  assumes "log_wf s" and "ls_loggers s n \<noteq> None"
  shows "\<exists>s'. Logger_log 1 strf e n s = Inr s' \<and>
    ls_out s' = ls_out s @ concat (map (written strf e s) (log_targets s (le_level e) n)) \<and>
    settings s' = settings s \<and> ls_loggers s' = ls_loggers s"
proof -
  obtain l where "ls_loggers s n = Some l" using assms(2) by blast
  from Logger_log_lemma [OF assms(1) this, of strf e] show ?thesis by blast
qed

text \<open>
  A change of the configuration takes effect: every logger with a new definition, or one
  that counts as changed, gets the level, the formatter (when it is valid, else the one it had)
  and exactly the appenders of its definition, in order; every logger whose definition is gone
  is silenced; no other logger changes.
\<close>

theorem conf_change_exact:
  assumes wf: "log_wf s" and ok: "list_all define_ok new" and dist: "distinct (map ld_name new)"
  shows "\<exists>s'. on_logs_changed strf e has_d old new s = Inr s' \<and> log_wf s' \<and>
    (\<forall>i \<in> set new. changed old i \<longrightarrow> shows_define has_d i (new_formatter i s) s') \<and>
    (\<forall>i \<in> set old. ld_name i \<notin> ld_name ` set new \<longrightarrow> silent s' (ld_name i)) \<and>
    (\<forall>n. n \<notin> ld_name ` {i \<in> set new. changed old i} \<and> n \<notin> ld_name ` set old - ld_name ` set new \<longrightarrow>
      ls_loggers s' n = ls_loggers s n)"
  using conf_change_lemma [OF assms] .

text \<open>
  A change of the appenders alone is not noticed: when every definition keeps its name,
  level and formatter, the listener logs its message and does nothing else, whatever the new
  appenders are (\<open>operator==\<close> compares the appenders of a definition with themselves).
\<close>

theorem appender_change_ignored:
  assumes "distinct (map ld_name old)"
    and "map (\<lambda>i. i\<lparr>ld_appenders := []\<rparr>) new = map (\<lambda>i. i\<lparr>ld_appenders := []\<rparr>) old"
  shows "on_logs_changed strf e has_d old new s = Logger_log 1 strf e ''root'' s"
proof -
  have names: "ld_name ` set new = ld_name ` set old"
  proof -
    have "ld_name ` set (map (\<lambda>i. i\<lparr>ld_appenders := []\<rparr>) new) =
        ld_name ` set (map (\<lambda>i. i\<lparr>ld_appenders := []\<rparr>) old)" using assms(2) by simp
    then show ?thesis by (simp add: image_image)
  qed
  have same: "\<not> changed old i" if i: "i \<in> set new" for i
  proof -
    have "i\<lparr>ld_appenders := []\<rparr> \<in> set (map (\<lambda>i. i\<lparr>ld_appenders := []\<rparr>) old)"
      unfolding assms(2) [symmetric] using i by simp
    then obtain d where d: "d \<in> set old" "i\<lparr>ld_appenders := []\<rparr> = d\<lparr>ld_appenders := []\<rparr>" by auto
    then have eq: "ld_name i = ld_name d" "ld_level i = ld_level d" "ld_formatter i = ld_formatter d"
      by (metis log_define.select_convs(1-3) log_define.surjective log_define.update_convs(4))+
    obtain d' where d': "find_define i old = Some d'"
      using find_define_None [of i old] d(1) eq(1) by auto
    then have "d' \<in> set old" "ld_name d' = ld_name i"
      by (auto simp: find_define_def find_Some_iff)
    then have "d' = d" using assms(1) d(1) eq(1) by (auto simp: distinct_map dest: inj_onD)
    then show ?thesis using d' eq by (simp add: changed_def LogDefine_eq_def)
  qed
  have "apply_new has_d old is t = Inr t" if "set is \<subseteq> set new" for "is" t
    using that same by (induction "is") (auto simp: apply_new_step)
  moreover have "remove_old new is t = Inr t" if "set is \<subseteq> set old" for "is" t
  proof -
    have "\<exists>d. find_define i new = Some d" if "i \<in> set old" for i
      using that names find_define_None [of i new] by auto
    then show ?thesis using that by (induction "is") fastforce+
  qed
  ultimately show ?thesis
    by (cases "Logger_log 1 strf e ''root'' s") (simp_all add: on_logs_changed_def)
qed

section \<open>Instances\<close>

text \<open>
  A root logger with the console as its appender, a logger \<open>system\<close> without appenders, and
  the definition of \<open>system\<close> with a file.
\<close>

definition plain_formatter :: formatter where
  "plain_formatter = \<lparr>lf_pattern = ''%p %m'', lf_items = [Level, Str '' '', Message], lf_error = False\<rparr>"

definition demo_logs :: logsys where
  "demo_logs = \<lparr>ls_loggers = [
       ''root'' \<mapsto> (Logger_new ''root'')\<lparr>lg_appenders := [0]\<rparr>,
       ''system'' \<mapsto> (Logger_new ''system'')\<lparr>lg_root := True\<rparr>],
     ls_appenders = [0 \<mapsto> (Appender_new Console)\<lparr>ap_formatter := Some plain_formatter\<rparr>],
     ls_next = 1, ls_out = []\<rparr>"

definition demo_event :: log_event where
  "demo_event = \<lparr>le_file = ''main.cpp'', le_line = 7, le_elapse = 0, le_threadId = 1, le_fiberId = 0,
     le_time = 0, le_threadName = ''main'', le_content = ''hello'', le_level = INFO,
     le_logger = ''system''\<rparr>"

definition demo_define :: log_define where
  "demo_define = \<lparr>ld_name = ''system'', ld_level = WARN, ld_formatter = [],
     ld_appenders = [\<lparr>ad_type = 1, ad_level = ERROR, ad_formatter = [], ad_file = ''system.log''\<rparr>]\<rparr>"

definition no_strf :: "string \<Rightarrow> u64 \<Rightarrow> string" where
  "no_strf f t = []"

lemma demo_logs_wf: "log_wf demo_logs"
  by (auto simp: log_wf_def logger_wf_def demo_logs_def Logger_new_def ready_def split: if_splits)

lemma demo_define_ok: "define_ok demo_define"
  by (simp add: define_ok_def demo_define_def)

theorem logger_ops_safe_witness:
  "\<exists>s s'. LoggerManager_new = Inr s \<and>
    run_log_ops no_strf [OpGetLogger ''system'', OpClearAppenders ''root'',
      OpLogsChanged demo_event False [] [demo_define]] s = Inr s' \<and> log_wf s'"
proof -
  obtain s where s: "LoggerManager_new = Inr s" "log_wf s" using LoggerManager_new_wf by blast
  obtain r where "ls_loggers s ''root'' = Some r" using log_wf_root [OF s(2)] by blast
  then have "ls_loggers (getLogger ''system'' s) ''root'' = Some r"
    by (simp add: getLogger_def split: option.split)
  then have "log_ops_ok no_strf [OpGetLogger ''system'', OpClearAppenders ''root'',
      OpLogsChanged demo_event False [] [demo_define]] s"
    by (simp add: clearAppenders_def demo_define_ok split: sum.split)
  from logger_ops_safe [OF s(1) this] show ?thesis using s(1) by blast
qed

theorem Logger_log_exact_witness:
  "\<exists>s'. Logger_log 1 no_strf demo_event ''system'' demo_logs = Inr s' \<and>
    ls_out s' = [(Console, ''INFO hello'')]"
proof -
  have "concat (map (written no_strf demo_event demo_logs)
      (log_targets demo_logs (le_level demo_event) ''system'')) = [(Console, ''INFO hello'')]"
    by code_simp
  moreover have "ls_loggers demo_logs ''system'' \<noteq> None" "ls_out demo_logs = []"
    by (simp_all add: demo_logs_def)
  ultimately show ?thesis
    using Logger_log_exact [OF demo_logs_wf, of "''system''" no_strf demo_event] by auto
qed

theorem conf_change_exact_witness:
  "\<exists>s'. on_logs_changed no_strf demo_event False [] [demo_define] demo_logs = Inr s' \<and>
    shows_define False demo_define (LogFormatter default_pattern) s' \<and>
    ls_loggers s' ''root'' = ls_loggers demo_logs ''root''"
proof -
  have "changed [] demo_define" by (simp add: changed_def find_define_def)
  moreover have "new_formatter demo_define demo_logs = LogFormatter default_pattern"
    by (simp add: new_formatter_def demo_define_def old_formatter_def demo_logs_def Logger_new_def)
  moreover have "''root'' \<noteq> ld_name demo_define" by (simp add: demo_define_def)
  ultimately show ?thesis
    using conf_change_exact [OF demo_logs_wf, of "[demo_define]" no_strf demo_event False "[]"]
      demo_define_ok by auto
qed

theorem appender_change_ignored_witness:
  "on_logs_changed no_strf demo_event False [demo_define] [demo_define\<lparr>ld_appenders := []\<rparr>] demo_logs =
    Logger_log 1 no_strf demo_event ''root'' demo_logs"
  by (rule appender_change_ignored) (simp_all add: demo_define_def)

end
