(* ===== verification/Casts.thy ===== *)
theory Casts
  imports OSets
begin

text \<open>
  The conversions between values and YAML text of \<open>sylar/config.h\<close>: the specialisations of
  \<open>LexicalCast\<close> for the containers, over any conversion of the elements. The YAML library is a
  parameter, a record of the operations the code calls; \<open>boost::lexical_cast\<close>, behind the
  conversions of elements, is one too.
\<close>

section \<open>The YAML library\<close>

text \<open>
  \<open>y_load\<close> is \<open>YAML::Load\<close>, \<open>y_emit\<close> the stream output of a node; \<open>y_size\<close> and \<open>y_at\<close> are
  \<open>size()\<close> and \<open>operator[]\<close> with an index, \<open>y_get\<close> \<open>operator[]\<close> with a key (\<open>None\<close> when the
  result is not defined), \<open>y_pairs\<close> the iteration over a map, \<open>y_as\<close> \<open>as<std::string>()\<close>.
  What throws an exception is \<open>Inl\<close>. Nodes are built from strings (\<open>y_word\<close>) and empty nodes
  with \<open>push_back\<close> and by assignment to \<open>operator[]\<close>.
\<close>

record 'n yaml =
  y_load :: "string \<Rightarrow> 'n res"
  y_emit :: "'n \<Rightarrow> string"
  y_size :: "'n \<Rightarrow> nat"
  y_at :: "'n \<Rightarrow> nat \<Rightarrow> 'n res"
  y_get :: "'n \<Rightarrow> string \<Rightarrow> 'n option res"
  y_pairs :: "'n \<Rightarrow> ('n \<times> 'n) list"
  y_isMap :: "'n \<Rightarrow> bool"
  y_isScalar :: "'n \<Rightarrow> bool"
  y_scalar :: "'n \<Rightarrow> string"
  y_as :: "'n \<Rightarrow> string res"
  y_word :: "string \<Rightarrow> 'n"
  y_sequence :: 'n
  y_mapping :: 'n
  y_push :: "'n \<Rightarrow> 'n \<Rightarrow> 'n"
  y_set :: "'n \<Rightarrow> string \<Rightarrow> 'n \<Rightarrow> 'n"

section \<open>From text\<close>

text \<open>The loops over \<open>node[i]\<close> and over the pairs of a map; \<open>ins\<close> adds to the container.\<close>

primrec cast_items :: "'n yaml \<Rightarrow> (string \<Rightarrow> 'a res) \<Rightarrow> ('a \<Rightarrow> 'c \<Rightarrow> 'c) \<Rightarrow> 'n \<Rightarrow> nat list \<Rightarrow> 'c \<Rightarrow> 'c res" where
  "cast_items y from ins node [] vec = Inr vec"
| "cast_items y from ins node (i # is) vec =
     bindR (y_at y node i) (\<lambda>n. bindR (from (y_emit y n)) (\<lambda>x.
       cast_items y from ins node is (ins x vec)))"

definition cast_sequence :: "'n yaml \<Rightarrow> (string \<Rightarrow> 'a res) \<Rightarrow> ('a \<Rightarrow> 'c \<Rightarrow> 'c) \<Rightarrow> 'c \<Rightarrow> string \<Rightarrow> 'c res" where
  "cast_sequence y from ins e v = bindR (y_load y v) (\<lambda>node.
     cast_items y from ins node [0..<y_size y node] e)"

primrec cast_pairs :: "'n yaml \<Rightarrow> (string \<Rightarrow> 'a res) \<Rightarrow> (string \<times> 'a \<Rightarrow> 'c \<Rightarrow> 'c) \<Rightarrow>
    ('n \<times> 'n) list \<Rightarrow> 'c \<Rightarrow> 'c res" where
  "cast_pairs y from ins [] m = Inr m"
| "cast_pairs y from ins (p # ps) m = bindR (from (y_emit y (snd p))) (\<lambda>x.
     cast_pairs y from ins ps (ins (y_scalar y (fst p), x) m))"

definition cast_mapping :: "'n yaml \<Rightarrow> (string \<Rightarrow> 'a res) \<Rightarrow> (string \<times> 'a \<Rightarrow> 'c \<Rightarrow> 'c) \<Rightarrow> 'c \<Rightarrow> string \<Rightarrow> 'c res" where
  "cast_mapping y from ins e v =
     bindR (y_load y v) (\<lambda>node. cast_pairs y from ins (y_pairs y node) e)"

definition vector_from :: "'n yaml \<Rightarrow> (string \<Rightarrow> 'a res) \<Rightarrow> string \<Rightarrow> 'a list res" where
  "vector_from y from v = cast_sequence y from (\<lambda>x vec. vec @ [x]) [] v"

definition list_from :: "'n yaml \<Rightarrow> (string \<Rightarrow> 'a res) \<Rightarrow> string \<Rightarrow> 'a list res" where
  "list_from y from v = cast_sequence y from (\<lambda>x vec. vec @ [x]) [] v"

text \<open>A \<open>std::set\<close> is the list of its elements in the order \<open>lt\<close> of the element type.\<close>

definition set_from ::
    "'n yaml \<Rightarrow> (string \<Rightarrow> 'a res) \<Rightarrow> ('a \<Rightarrow> 'a \<Rightarrow> bool) \<Rightarrow> string \<Rightarrow> 'a list res" where
  "set_from y from lt v = cast_sequence y from (\<lambda>x vec. snd (oset_insert lt x vec)) [] v"

definition unordered_set_from :: "'n yaml \<Rightarrow> (string \<Rightarrow> 'a res) \<Rightarrow> string \<Rightarrow> 'a set res" where
  "unordered_set_from y from v = cast_sequence y from insert {} v"

text \<open>Both maps keep the first of two values for the same key.\<close>

definition key_less :: "(string \<Rightarrow> string \<Rightarrow> bool) \<Rightarrow> string \<times> 'a \<Rightarrow> string \<times> 'a \<Rightarrow> bool" where
  "key_less lt p q = lt (fst p) (fst q)"

definition map_from ::
    "'n yaml \<Rightarrow> (string \<Rightarrow> 'a res) \<Rightarrow> (string \<Rightarrow> string \<Rightarrow> bool) \<Rightarrow> string \<Rightarrow> (string \<times> 'a) list res" where
  "map_from y from lt v = cast_mapping y from (\<lambda>p m. snd (oset_insert (key_less lt) p m)) [] v"

definition unordered_map_from ::
    "'n yaml \<Rightarrow> (string \<Rightarrow> 'a res) \<Rightarrow> string \<Rightarrow> (string \<rightharpoonup> 'a) res" where
  "unordered_map_from y from v = cast_mapping y from
     (\<lambda>p m. if m (fst p) = None then m(fst p \<mapsto> snd p) else m) Map.empty v"

section \<open>To text\<close>

primrec push_items :: "'n yaml \<Rightarrow> ('a \<Rightarrow> string res) \<Rightarrow> 'a list \<Rightarrow> 'n \<Rightarrow> 'n res" where
  "push_items y to [] node = Inr node"
| "push_items y to (x # xs) node = bindR (to x) (\<lambda>t. bindR (y_load y t) (\<lambda>n.
     push_items y to xs (y_push y node n)))"

primrec set_pairs :: "'n yaml \<Rightarrow> ('a \<Rightarrow> string res) \<Rightarrow> (string \<times> 'a) list \<Rightarrow> 'n \<Rightarrow> 'n res" where
  "set_pairs y to [] node = Inr node"
| "set_pairs y to (p # ps) node = bindR (to (snd p)) (\<lambda>t. bindR (y_load y t) (\<lambda>n.
     set_pairs y to ps (y_set y node (fst p) n)))"

definition sequence_to :: "'n yaml \<Rightarrow> ('a \<Rightarrow> string res) \<Rightarrow> 'a list \<Rightarrow> string res" where
  "sequence_to y to v = bindR (push_items y to v (y_sequence y)) (\<lambda>node. Inr (y_emit y node))"

definition mapping_to :: "'n yaml \<Rightarrow> ('a \<Rightarrow> string res) \<Rightarrow> (string \<times> 'a) list \<Rightarrow> string res" where
  "mapping_to y to v = bindR (set_pairs y to v (y_mapping y)) (\<lambda>node. Inr (y_emit y node))"

definition vector_to :: "'n yaml \<Rightarrow> ('a \<Rightarrow> string res) \<Rightarrow> 'a list \<Rightarrow> string res" where
  "vector_to y to v = sequence_to y to v"

definition list_to :: "'n yaml \<Rightarrow> ('a \<Rightarrow> string res) \<Rightarrow> 'a list \<Rightarrow> string res" where
  "list_to y to v = sequence_to y to v"

definition set_to :: "'n yaml \<Rightarrow> ('a \<Rightarrow> string res) \<Rightarrow> 'a list \<Rightarrow> string res" where
  "set_to y to v = sequence_to y to v"

text \<open>The unordered containers are given by the order in which they are traversed.\<close>

definition unordered_set_to :: "'n yaml \<Rightarrow> ('a \<Rightarrow> string res) \<Rightarrow> 'a list \<Rightarrow> string res" where
  "unordered_set_to y to v = sequence_to y to v"

definition map_to :: "'n yaml \<Rightarrow> ('a \<Rightarrow> string res) \<Rightarrow> (string \<times> 'a) list \<Rightarrow> string res" where
  "map_to y to v = mapping_to y to v"

definition unordered_map_to :: "'n yaml \<Rightarrow> ('a \<Rightarrow> string res) \<Rightarrow> (string \<times> 'a) list \<Rightarrow> string res" where
  "unordered_map_to y to v = mapping_to y to v"

section \<open>Round trips\<close>

text \<open>
  What is expected of YAML for the nodes at hand: the text of a sequence is read back as a
  sequence of nodes with the same texts, the text of a mapping as the same keys, in order,
  with nodes of the same texts.
\<close>

definition sequence_read_back :: "'n yaml \<Rightarrow> 'n list \<Rightarrow> bool" where
  "sequence_read_back y ns =
     (case y_load y (y_emit y (foldl (y_push y) (y_sequence y) ns)) of Inl _ \<Rightarrow> False
      | Inr n \<Rightarrow> map (\<lambda>i. bindR (y_at y n i) (Inr \<circ> y_emit y)) [0..<y_size y n] = map (Inr \<circ> y_emit y) ns)"

definition mapping_read_back :: "'n yaml \<Rightarrow> (string \<times> 'n) list \<Rightarrow> bool" where
  "mapping_read_back y ps =
     (case y_load y (y_emit y (foldl (\<lambda>n p. y_set y n (fst p) (snd p)) (y_mapping y) ps)) of
        Inl _ \<Rightarrow> False
      | Inr n \<Rightarrow> map (\<lambda>p. (y_scalar y (fst p), y_emit y (snd p))) (y_pairs y n) =
          map (\<lambda>p. (fst p, y_emit y (snd p))) ps)"

text \<open>The conversions of an element: \<open>n\<close> is the node its text stands for.\<close>

definition element_read_back ::
    "'n yaml \<Rightarrow> ('a \<Rightarrow> string res) \<Rightarrow> (string \<Rightarrow> 'a res) \<Rightarrow> 'a \<Rightarrow> 'n \<Rightarrow> bool" where
  "element_read_back y to from x n = (bindR (to x) (y_load y) = Inr n \<and> from (y_emit y n) = Inr x)"

lemma push_items_nodes:
  "list_all2 (element_read_back y to from) xs ns \<Longrightarrow>
    push_items y to xs node = Inr (foldl (y_push y) node ns)"
  by (induction xs ns arbitrary: node rule: list_all2_induct)
    (auto simp: element_read_back_def res_simps)

lemma set_pairs_nodes:
  "list_all2 (\<lambda>p q. fst p = fst q \<and> element_read_back y to from (snd p) (snd q)) ps qs \<Longrightarrow>
    set_pairs y to ps node = Inr (foldl (\<lambda>n p. y_set y n (fst p) (snd p)) node qs)"
  by (induction ps qs arbitrary: node rule: list_all2_induct)
    (auto simp: element_read_back_def res_simps)

lemma cast_items_fold:
  "map (\<lambda>i. bindR (y_at y n i) (Inr \<circ> y_emit y)) is = map (Inr \<circ> y_emit y) ns \<Longrightarrow>
    list_all2 (\<lambda>x n. from (y_emit y n) = Inr x) xs ns \<Longrightarrow>
    cast_items y from ins n is c = Inr (fold ins xs c)"
proof (induction "is" arbitrary: ns xs c)
  case (Cons i "is")
  then obtain m ms where ns: "ns = m # ms" by (cases ns) auto
  then obtain x zs where xs: "xs = x # zs" using Cons.prems(2) by (cases xs) auto
  obtain k where "y_at y n i = Inr k" "y_emit y k = y_emit y m"
    using Cons.prems(1) ns by (auto simp: res_simps)
  then show ?case using Cons ns xs by simp
qed simp

lemma read_back_from:
  "list_all2 (element_read_back y to from) xs ns \<Longrightarrow> list_all2 (\<lambda>x n. from (y_emit y n) = Inr x) xs ns"
  by (erule list_all2_mono) (simp add: element_read_back_def)

lemma cast_pairs_fold:
  "map (\<lambda>p. (y_scalar y (fst p), y_emit y (snd p))) rs = map (\<lambda>p. (fst p, y_emit y (snd p))) qs \<Longrightarrow>
    list_all2 (\<lambda>p q. fst p = fst q \<and> element_read_back y to from (snd p) (snd q)) ps qs \<Longrightarrow>
    cast_pairs y from ins rs c = Inr (fold ins ps c)"
proof (induction rs arbitrary: qs ps c)
  case (Cons r rs)
  then obtain q qs' where qs: "qs = q # qs'" by (cases qs) auto
  then obtain p ps' where ps: "ps = p # ps'" using Cons.prems(2) by (cases ps) auto
  show ?case using Cons qs ps by (cases p) (simp add: element_read_back_def)
qed simp

lemma sequence_round:
  assumes "list_all2 (element_read_back y to from) xs ns" and "sequence_read_back y ns"
  shows "\<exists>t. sequence_to y to xs = Inr t \<and> cast_sequence y from ins c t = Inr (fold ins xs c)"
  using assms cast_items_fold [OF _ read_back_from [OF assms(1)]] push_items_nodes [OF assms(1)]
  by (auto simp: sequence_to_def cast_sequence_def sequence_read_back_def split: sum.splits)

lemma mapping_round:
  assumes "list_all2 (\<lambda>p q. fst p = fst q \<and> element_read_back y to from (snd p) (snd q)) ps qs"
    and "mapping_read_back y qs"
  shows "\<exists>t. mapping_to y to ps = Inr t \<and> cast_mapping y from ins c t = Inr (fold ins ps c)"
  using assms cast_pairs_fold [OF _ assms(1)] set_pairs_nodes [OF assms(1)]
  by (auto simp: mapping_to_def cast_mapping_def mapping_read_back_def split: sum.splits)

text \<open>Filling the containers.\<close>

lemma fold_append: "fold (\<lambda>x vec. vec @ [x]) xs c = c @ xs"
  by (induction xs arbitrary: c) simp_all

lemma fold_insert: "fold insert xs c = c \<union> set xs"
  by (induction xs arbitrary: c) auto

lemma oset_insert_last:
  assumes "\<forall>y \<in> set xs. lt y x"
  shows "snd (oset_insert lt x xs) = xs @ [x]"
proof -
  have "takeWhile (\<lambda>y. lt y x) xs = xs" using assms by (simp add: takeWhile_eq_all_conv)
  then have "oset_lower lt x xs = length xs" unfolding oset_lower_def by (rule arg_cong)
  then show ?thesis by (simp add: oset_insert_def)
qed

lemma fold_oset_insert:
  "sorted_wrt lt (c @ xs) \<Longrightarrow> fold (\<lambda>x vec. snd (oset_insert lt x vec)) xs c = c @ xs"
proof (induction xs arbitrary: c)
  case (Cons x xs)
  have "snd (oset_insert lt x c) = c @ [x]"
    by (rule oset_insert_last) (use Cons.prems in \<open>auto simp: sorted_wrt_append\<close>)
  then show ?case using Cons.IH [of "c @ [x]"] Cons.prems by simp
qed simp

lemma fold_map_insert:
  "distinct (map fst ps) \<Longrightarrow> dom c \<inter> fst ` set ps = {} \<Longrightarrow>
    fold (\<lambda>p m. if m (fst p) = None then m(fst p \<mapsto> snd p) else m) ps c = c ++ map_of ps"
proof (induction ps arbitrary: c)
  case (Cons p ps)
  obtain k x where p: "p = (k, x)" by force
  have "c k = None" "dom (c(k \<mapsto> x)) \<inter> fst ` set ps = {}" using Cons.prems p by auto
  moreover have "map_of ps k = None" using Cons.prems p by (simp add: map_of_eq_None_iff)
  then have "c(k \<mapsto> x) ++ map_of ps = c ++ map_of (p # ps)"
    by (auto simp: p map_add_def fun_eq_iff split: option.split)
  moreover have "fold (\<lambda>p m. if m (fst p) = None then m(fst p \<mapsto> snd p) else m) ps (c(k \<mapsto> x)) =
      c(k \<mapsto> x) ++ map_of ps"
    by (rule Cons.IH [OF _ calculation(2)]) (use Cons.prems(1) in simp)
  ultimately show ?case using p by (simp del: fun_upd_apply)
qed simp

text \<open>
  C32. A container of the configuration survives the way to YAML text and back provided each of its
  elements survives its own (\<open>element_read_back\<close>: the text of the element is loaded as a node whose
  text converts back to the element) and YAML reads back the nodes it has written: vectors and lists
  in order, sets that are sorted by the order of their elements, unordered sets and maps in whatever
  order they are traversed, and maps sorted by key. The condition on the elements is needed: a vector
  comes back as what its elements come back as (\<open>vector_trip\<close>), and the empty string does not
  survive (\<open>empty_string_lost\<close>).
\<close>

theorem containers_roundtrip:
  assumes xs: "list_all2 (element_read_back y to from) xs ns" "sequence_read_back y ns"
    and ps: "list_all2 (\<lambda>p q. fst p = fst q \<and> element_read_back y to from (snd p) (snd q)) ps qs"
      "mapping_read_back y qs"
    and so: "sorted_wrt lt xs" "sorted_wrt (key_less klt) ps" "distinct (map fst ps)"
  shows "bindR (vector_to y to xs) (vector_from y from) = Inr xs \<and>
    bindR (list_to y to xs) (list_from y from) = Inr xs \<and>
    bindR (set_to y to xs) (set_from y from lt) = Inr xs \<and>
    bindR (unordered_set_to y to xs) (unordered_set_from y from) = Inr (set xs) \<and>
    bindR (map_to y to ps) (map_from y from klt) = Inr ps \<and>
    bindR (unordered_map_to y to ps) (unordered_map_from y from) = Inr (map_of ps)"
proof -
  obtain t where t: "sequence_to y to xs = Inr t"
    using sequence_round [OF xs, where ins = "\<lambda>x (c :: unit). c"] by auto
  have seq: "cast_sequence y from ins c t = Inr (fold ins xs c)"
    for ins :: "_ \<Rightarrow> 'c \<Rightarrow> 'c" and c
    using sequence_round [OF xs, of ins c] t by simp
  obtain u where u: "mapping_to y to ps = Inr u"
    using mapping_round [OF ps, where ins = "\<lambda>x (c :: unit). c"] by auto
  have mp: "cast_mapping y from ins c u = Inr (fold ins ps c)"
    for ins :: "_ \<Rightarrow> 'c \<Rightarrow> 'c" and c
    using mapping_round [OF ps, of ins c] u by simp
  show ?thesis
    using fold_oset_insert [of lt "[]" xs] fold_oset_insert [of "key_less klt" "[]" ps]
      fold_map_insert [of ps Map.empty] so
    by (simp add: vector_to_def vector_from_def list_to_def list_from_def set_to_def set_from_def
        unordered_set_to_def unordered_set_from_def map_to_def map_from_def unordered_map_to_def
        unordered_map_from_def t u seq mp fold_append fold_insert)
qed

section \<open>Elements that do not survive\<close>

lemma vector_trip:
  assumes "list_all2 (\<lambda>x n. bindR (to x) (y_load y) = Inr n) xs ns" and "sequence_read_back y ns"
    and "list_all2 (\<lambda>z n. from (y_emit y n) = Inr z) zs ns"
  shows "bindR (vector_to y to xs) (vector_from y from) = Inr zs"
proof -
  have p: "push_items y to xs node = Inr (foldl (y_push y) node ns)" for node
    using assms(1) by (induction xs ns arbitrary: node rule: list_all2_induct) (auto simp: res_simps)
  show ?thesis
    using assms(2) cast_items_fold [OF _ assms(3), where ins = "\<lambda>x vec. vec @ [x]" and c = "[]"]
    by (auto simp: vector_to_def sequence_to_def vector_from_def cast_sequence_def sequence_read_back_def
        p fold_append split: sum.splits)
qed

text \<open>
  YAML loads the empty text as the null node and writes that node as \<open>~\<close>, so that a vector with one
  empty string comes back with one tilde.
\<close>

lemma empty_string_lost:
  assumes "y_load y [] = Inr null" and "y_emit y null = ''~''" and "sequence_read_back y [null]"
  shows "bindR (vector_to y Inr [[]]) (vector_from y Inr) = Inr [''~'']"
  by (rule vector_trip [where ns = "[null]"]) (simp_all add: assms)

section \<open>An instance\<close>

text \<open>
  A YAML of flow sequences and mappings of plain words: \<open>a,b,\<close> and \<open>k:a,l:b,\<close>.
\<close>

datatype flow = Word string | Seq "string list" | Dict "(string \<times> string) list"

primrec cut :: "char \<Rightarrow> string \<Rightarrow> string \<Rightarrow> string list" where
  "cut c [] w = (if w = [] then [] else [w])"
| "cut c (x # xs) w = (if x = c then w # cut c xs [] else cut c xs (w @ [x]))"

fun flow_emit :: "flow \<Rightarrow> string" where
  "flow_emit (Word w) = w"
| "flow_emit (Seq ws) = concat (map (\<lambda>w. w @ '','') ws)"
| "flow_emit (Dict ps) = concat (map (\<lambda>p. fst p @ '':'' @ snd p @ '','') ps)"

definition flow_load :: "string \<Rightarrow> flow res" where
  "flow_load s = Inr (if CHR '':'' \<in> set s
       then Dict (map (\<lambda>e. case cut (CHR '':'') e [] of [k, v] \<Rightarrow> (k, v) | _ \<Rightarrow> (e, [])) (cut (CHR '','') s []))
     else if CHR '','' \<in> set s then Seq (cut (CHR '','') s []) else Word s)"

definition flow_yaml :: "flow yaml" where
  "flow_yaml = \<lparr>y_load = flow_load, y_emit = flow_emit,
     y_size = (\<lambda>n. case n of Seq ws \<Rightarrow> length ws | _ \<Rightarrow> 0),
     y_at = (\<lambda>n i. case n of Seq ws \<Rightarrow> if i < length ws then Inr (Word (ws ! i)) else Inl (Uncaught ''bad'')
       | _ \<Rightarrow> Inl (Uncaught ''bad'')),
     y_get = (\<lambda>n k. case n of Dict ps \<Rightarrow> Inr (map_option Word (map_of ps k))
       | _ \<Rightarrow> Inl (Uncaught ''bad subscript'')),
     y_pairs = (\<lambda>n. case n of Dict ps \<Rightarrow> map (\<lambda>p. (Word (fst p), Word (snd p))) ps | _ \<Rightarrow> []),
     y_isMap = (\<lambda>n. case n of Dict _ \<Rightarrow> True | _ \<Rightarrow> False),
     y_isScalar = (\<lambda>n. case n of Word _ \<Rightarrow> True | _ \<Rightarrow> False),
     y_scalar = (\<lambda>n. case n of Word w \<Rightarrow> w | _ \<Rightarrow> []),
     y_as = (\<lambda>n. case n of Word w \<Rightarrow> Inr w | _ \<Rightarrow> Inl (Uncaught ''bad conversion'')),
     y_word = Word, y_sequence = Seq [], y_mapping = Dict [],
     y_push = (\<lambda>n m. case n of Seq ws \<Rightarrow> Seq (ws @ [flow_emit m]) | _ \<Rightarrow> Seq [flow_emit m]),
     y_set = (\<lambda>n k m. case n of Dict ps \<Rightarrow> Dict (ps @ [(k, flow_emit m)]) | _ \<Rightarrow> Dict [(k, flow_emit m)])\<rparr>"

definition word_less :: "string \<Rightarrow> string \<Rightarrow> bool" where
  "word_less v w = (length v < length w)"

theorem containers_roundtrip_witness:
  "bindR (vector_to flow_yaml Inr [''a'', ''bc'']) (vector_from flow_yaml Inr) = Inr [''a'', ''bc''] \<and>
    bindR (map_to flow_yaml Inr [(''k'', ''v'')]) (map_from flow_yaml Inr word_less) = Inr [(''k'', ''v'')]"
proof -
  have "list_all2 (element_read_back flow_yaml Inr Inr) [''a'', ''bc''] [Word ''a'', Word ''bc'']"
    "sequence_read_back flow_yaml [Word ''a'', Word ''bc'']"
    "list_all2 (\<lambda>p q. fst p = fst q \<and> element_read_back flow_yaml Inr Inr (snd p) (snd q))
      [(''k'', ''v'')] [(''k'', Word ''v'')]"
    "mapping_read_back flow_yaml [(''k'', Word ''v'')]"
    "sorted_wrt word_less [''a'', ''bc'']" "sorted_wrt (key_less word_less) [(''k'', ''v'')]"
    "distinct (map fst [(''k'', ''v'')])"
    by code_simp+
  from containers_roundtrip [OF this] show ?thesis by blast
qed

end
