(* ===== verification/Configs.thy ===== *)
theory Configs
  imports Casts
begin

text \<open>
  Configuration variables and their registry (\<open>sylar/config.h\<close>, \<open>sylar/config.cpp\<close>): values
  with listeners, lookup by name and type, and the walk over a YAML document that sets the
  variables it names. The types of variables are tags \<open>'t\<close>, their values one type \<open>'v\<close>; the
  conversions and the equality of each type are the parameter \<open>cdc\<close>.
\<close>

section \<open>State\<close>

record 'v codec =
  c_from :: "string \<Rightarrow> 'v res"
  c_to :: "'v \<Rightarrow> string res"
  c_eq :: "'v \<Rightarrow> 'v \<Rightarrow> bool"

text \<open>
  A listener acts on the state \<open>'s\<close> of the rest of the program. It may stop the program
  (\<open>Inl\<close>) or throw an exception (\<open>Some what\<close>).
\<close>

type_synonym ('v, 's) on_change = "'v \<Rightarrow> 'v \<Rightarrow> 's \<Rightarrow> ('s \<times> string option) res"

record ('t, 'v, 's) config_var =
  cv_name :: string
  cv_description :: string
  cv_type :: 't
  cv_val :: 'v
  cv_cbs :: "(u64 \<times> ('v, 's) on_change) list"

text \<open>\<open>cf_fun_id t\<close> is \<open>s_fun_id\<close> of \<open>addListener\<close> in the class of the type \<open>t\<close>.\<close>

record ('t, 'v, 's) config =
  cf_vars :: "string \<Rightarrow> ('t, 'v, 's) config_var option"
  cf_fun_id :: "'t \<Rightarrow> u64"
  cf_world :: 's

definition to_lower :: "char \<Rightarrow> char" where
  "to_lower c = (let n = of_char c :: nat in if 65 \<le> n \<and> n \<le> 90 then char_of (n + 32) else c)"

definition config_chars :: string where
  "config_chars = ''abcdefghikjlmnopqrstuvwxyz._012345678''"

definition valid_name :: "string \<Rightarrow> bool" where
  "valid_name s = list_all (\<lambda>c. c \<in> set config_chars) s"

section \<open>Variables\<close>

definition ConfigVar_new :: "'t \<Rightarrow> string \<Rightarrow> 'v \<Rightarrow> string \<Rightarrow> ('t, 'v, 's) config_var" where
  "ConfigVar_new ty name default_value description = \<lparr>cv_name = map to_lower name,
     cv_description = description, cv_type = ty, cv_val = default_value, cv_cbs = []\<rparr>"

text \<open>A variable that is looked up is there: pointers to variables are their names.\<close>

definition get_var :: "string \<Rightarrow> ('t, 'v, 's) config \<Rightarrow> ('t, 'v, 's) config_var res" where
  "get_var n c = (case cf_vars c n of None \<Rightarrow> Inl (NullDeref n) | Some x \<Rightarrow> Inr x)"

definition put_var ::
    "string \<Rightarrow> ('t, 'v, 's) config_var \<Rightarrow> ('t, 'v, 's) config \<Rightarrow> ('t, 'v, 's) config" where
  "put_var n x c = c\<lparr>cf_vars := (cf_vars c)(n \<mapsto> x)\<rparr>"

definition ConfigVar_toString :: "('t \<Rightarrow> 'v codec) \<Rightarrow> string \<Rightarrow> ('t, 'v, 's) config \<Rightarrow> string res" where
  "ConfigVar_toString cdc n c = bindR (get_var n c) (\<lambda>x.
     case c_to (cdc (cv_type x)) (cv_val x) of Inl _ \<Rightarrow> Inr [] | Inr t \<Rightarrow> Inr t)"

text \<open>The loop over the listeners; an exception leaves it.\<close>

primrec run_cbs :: "('v, 's) on_change list \<Rightarrow> 'v \<Rightarrow> 'v \<Rightarrow> 's \<Rightarrow> ('s \<times> string option) res" where
  "run_cbs [] old v w = Inr (w, None)"
| "run_cbs (f # fs) old v w = bindR (f old v w) (\<lambda>(w1, ex).
     case ex of Some e \<Rightarrow> Inr (w1, Some e) | None \<Rightarrow> run_cbs fs old v w1)"

definition setValue ::
    "('t \<Rightarrow> 'v codec) \<Rightarrow> string \<Rightarrow> 'v \<Rightarrow> ('t, 'v, 's) config \<Rightarrow>
      (('t, 'v, 's) config \<times> string option) res" where
  "setValue cdc n v c = bindR (get_var n c) (\<lambda>x.
     if c_eq (cdc (cv_type x)) v (cv_val x) then Inr (c, None)
     else bindR (run_cbs (map snd (cv_cbs x)) (cv_val x) v (cf_world c)) (\<lambda>(w, ex).
       case ex of Some e \<Rightarrow> Inr (c\<lparr>cf_world := w\<rparr>, Some e)
       | None \<Rightarrow> Inr (put_var n (x\<lparr>cv_val := v\<rparr>) (c\<lparr>cf_world := w\<rparr>), None)))"

text \<open>Exceptions are logged and dropped, and the result is \<open>false\<close> in every case.\<close>

definition fromString ::
    "('t \<Rightarrow> 'v codec) \<Rightarrow> string \<Rightarrow> string \<Rightarrow> ('t, 'v, 's) config \<Rightarrow> (('t, 'v, 's) config \<times> bool) res" where
  "fromString cdc n val c = bindR (get_var n c) (\<lambda>x.
     case c_from (cdc (cv_type x)) val of Inl _ \<Rightarrow> Inr (c, False)
     | Inr v \<Rightarrow> bindR (setValue cdc n v c) (\<lambda>(c1, ex). Inr (c1, False)))"

definition getValue :: "string \<Rightarrow> ('t, 'v, 's) config \<Rightarrow> 'v res" where
  "getValue n c = bindR (get_var n c) (\<lambda>x. Inr (cv_val x))"

text \<open>\<open>m_cbs[k] = cb\<close> on the map of listeners, which is ordered by key.\<close>

primrec cbs_put :: "u64 \<Rightarrow> 'f \<Rightarrow> (u64 \<times> 'f) list \<Rightarrow> (u64 \<times> 'f) list" where
  "cbs_put k f [] = [(k, f)]"
| "cbs_put k f (p # ps) = (if k < fst p then (k, f) # p # ps
     else if k = fst p then (k, f) # ps else p # cbs_put k f ps)"

definition addListener ::
    "string \<Rightarrow> ('v, 's) on_change \<Rightarrow> ('t, 'v, 's) config \<Rightarrow> (u64 \<times> ('t, 'v, 's) config) res" where
  "addListener n cb c = bindR (get_var n c) (\<lambda>x. let k = cf_fun_id c (cv_type x) + 1 in
     Inr (k, put_var n (x\<lparr>cv_cbs := cbs_put k cb (cv_cbs x)\<rparr>)
       (c\<lparr>cf_fun_id := (cf_fun_id c)(cv_type x := k)\<rparr>)))"

definition delListener :: "string \<Rightarrow> u64 \<Rightarrow> ('t, 'v, 's) config \<Rightarrow> ('t, 'v, 's) config res" where
  "delListener n k c = bindR (get_var n c) (\<lambda>x.
     Inr (put_var n (x\<lparr>cv_cbs := filter (\<lambda>p. fst p \<noteq> k) (cv_cbs x)\<rparr>) c))"

definition getListener :: "string \<Rightarrow> u64 \<Rightarrow> ('t, 'v, 's) config \<Rightarrow> ('v, 's) on_change option res" where
  "getListener n k c = bindR (get_var n c) (\<lambda>x. Inr (map_of (cv_cbs x) k))"

definition clearListener :: "string \<Rightarrow> ('t, 'v, 's) config \<Rightarrow> ('t, 'v, 's) config res" where
  "clearListener n c = bindR (get_var n c) (\<lambda>x. Inr (put_var n (x\<lparr>cv_cbs := []\<rparr>) c))"

section \<open>The registry\<close>

text \<open>
  \<open>Lookup\<close> with a default: the pointer, null when the variable has another type, or an
  exception for a name with other characters.
\<close>

definition Lookup_create :: "'t \<Rightarrow> string \<Rightarrow> 'v \<Rightarrow> string \<Rightarrow> ('t, 'v, 's) config \<Rightarrow>
    (string option \<times> ('t, 'v, 's) config) res" where
  "Lookup_create ty name default_value description c =
     (case cf_vars c name of
        Some x \<Rightarrow> if cv_type x = ty then Inr (Some name, c) else Inr (None, c)
      | None \<Rightarrow> if \<not> valid_name name then Inl (Uncaught name)
          else Inr (Some name, put_var name (ConfigVar_new ty name default_value description) c))"

definition Lookup :: "'t \<Rightarrow> string \<Rightarrow> ('t, 'v, 's) config \<Rightarrow> string option" where
  "Lookup ty name c = (case cf_vars c name of None \<Rightarrow> None
     | Some x \<Rightarrow> if cv_type x = ty then Some name else None)"

definition LookupBase :: "string \<Rightarrow> ('t, 'v, 's) config \<Rightarrow> string option" where
  "LookupBase name c = (case cf_vars c name of None \<Rightarrow> None | Some _ \<Rightarrow> Some name)"

section \<open>YAML documents\<close>

definition member_name :: "string \<Rightarrow> string \<Rightarrow> string" where
  "member_name prefix k = (if prefix = [] then k else prefix @ ''.'' @ k)"

text \<open>
  \<open>d\<close> bounds the depth of the recursion. A name with other characters is reported and its
  node skipped, with all that is below it.
\<close>

primrec ListAllMember :: "'n yaml \<Rightarrow> nat \<Rightarrow> string \<Rightarrow> 'n \<Rightarrow> (string \<times> 'n) list option" where
  "ListAllMember y 0 prefix node = None"
| "ListAllMember y (Suc d) prefix node =
     (if \<not> valid_name prefix then Some []
      else if y_isMap y node
      then map_option (\<lambda>xs. (prefix, node) # concat xs)
        (those (map (\<lambda>p. ListAllMember y d (member_name prefix (y_scalar y (fst p))) (snd p))
          (y_pairs y node)))
      else Some [(prefix, node)])"

definition load_member :: "('t \<Rightarrow> 'v codec) \<Rightarrow> 'n yaml \<Rightarrow> string \<times> 'n \<Rightarrow> ('t, 'v, 's) config \<Rightarrow>
    ('t, 'v, 's) config res" where
  "load_member cdc y i c = (if fst i = [] then Inr c
     else case LookupBase (map to_lower (fst i)) c of None \<Rightarrow> Inr c
       | Some var \<Rightarrow> bindR (fromString cdc var
           (if y_isScalar y (snd i) then y_scalar y (snd i) else y_emit y (snd i)) c) (\<lambda>(c1, _). Inr c1))"

primrec load_members :: "('t \<Rightarrow> 'v codec) \<Rightarrow> 'n yaml \<Rightarrow> (string \<times> 'n) list \<Rightarrow> ('t, 'v, 's) config \<Rightarrow>
    ('t, 'v, 's) config res" where
  "load_members cdc y [] c = Inr c"
| "load_members cdc y (i # is) c = bindR (load_member cdc y i c) (load_members cdc y is)"

definition LoadFromYaml :: "('t \<Rightarrow> 'v codec) \<Rightarrow> 'n yaml \<Rightarrow> nat \<Rightarrow> 'n \<Rightarrow> ('t, 'v, 's) config \<Rightarrow>
    ('t, 'v, 's) config res option" where
  "LoadFromYaml cdc y d root c =
     map_option (\<lambda>all_nodes. load_members cdc y all_nodes c) (ListAllMember y d [] root)"

text \<open>
  \<open>Visit\<close>: \<open>order\<close> is the order in which the hash map is iterated over, which lists each name once.
  The callback gets a variable and may use it. It runs under the read lock of the registry, so that a
  callback that makes a variable waits for the write lock for ever.
\<close>

primrec visit_vars :: "(string \<Rightarrow> ('t, 'v, 's) config \<Rightarrow> ('t, 'v, 's) config res) \<Rightarrow> string list \<Rightarrow>
    ('t, 'v, 's) config \<Rightarrow> ('t, 'v, 's) config res" where
  "visit_vars cb [] c = Inr c"
| "visit_vars cb (n # ns) c = bindR (cb n c) (visit_vars cb ns)"

definition iterates :: "string list \<Rightarrow> ('t, 'v, 's) config \<Rightarrow> bool" where
  "iterates order c = (distinct order \<and> set order = dom (cf_vars c))"

definition Visit :: "(string \<Rightarrow> ('t, 'v, 's) config \<Rightarrow> ('t, 'v, 's) config res) \<Rightarrow> string list \<Rightarrow>
    ('t, 'v, 's) config \<Rightarrow> ('t, 'v, 's) config res" where
  "Visit cb order c = visit_vars cb order c"

section \<open>The members of a document\<close>

text \<open>\<open>member_at y node ks m\<close>: following the keys \<open>ks\<close> from \<open>node\<close> leads to \<open>m\<close>.\<close>

inductive member_at :: "'n yaml \<Rightarrow> 'n \<Rightarrow> string list \<Rightarrow> 'n \<Rightarrow> bool" for y where
  here: "member_at y n [] n"
| below: "y_isMap y n \<Longrightarrow> (k, v) \<in> set (y_pairs y n) \<Longrightarrow> member_at y v ks m \<Longrightarrow>
    member_at y n (y_scalar y k # ks) m"

inductive_simps member_at_Nil [simp]: "member_at y n [] m"
inductive_simps member_at_Cons: "member_at y n (k # ks) m"

text \<open>The document is at most \<open>d\<close> levels deep (an alias to an enclosing node has no end).\<close>

primrec depth_le :: "'n yaml \<Rightarrow> nat \<Rightarrow> 'n \<Rightarrow> bool" where
  "depth_le y 0 node = False"
| "depth_le y (Suc d) node = (y_isMap y node \<longrightarrow> list_all (\<lambda>p. depth_le y d (snd p)) (y_pairs y node))"

definition path_name :: "string \<Rightarrow> string list \<Rightarrow> string" where
  "path_name prefix ks = foldl member_name prefix ks"

lemma valid_member_name: "valid_name (member_name p k) \<longleftrightarrow> valid_name p \<and> valid_name k"
  by (auto simp: member_name_def valid_name_def config_chars_def)

lemma valid_path_name: "valid_name (path_name p ks) \<Longrightarrow> valid_name p"
proof (induction ks arbitrary: p)
  case (Cons k ks)
  then have "valid_name (member_name p k)" by (simp add: path_name_def)
  then show ?case by (simp add: valid_member_name)
qed (simp add: path_name_def)

lemma path_name_simps [simp]:
  "path_name p [] = p" "path_name p (k # ks) = path_name (member_name p k) ks"
  by (simp_all add: path_name_def)

lemma those_map_Some:
  "(\<And>x. x \<in> set xs \<Longrightarrow> f x \<noteq> None) \<Longrightarrow> those (map f xs) = Some (map (the \<circ> f) xs)"
  by (induction xs) (auto split: option.split)

lemma ListAllMember_total: "depth_le y d node \<Longrightarrow> ListAllMember y d prefix node \<noteq> None"
proof (induction d arbitrary: prefix node)
  case (Suc d)
  then have "ListAllMember y d (member_name prefix (y_scalar y (fst p))) (snd p) \<noteq> None"
    if "y_isMap y node" "p \<in> set (y_pairs y node)" for p
    using that by (simp add: list_all_iff)
  then show ?case by (auto simp: those_map_Some)
qed simp

lemma those_SomeD:
  "those (map f xs) = Some ys \<Longrightarrow> (\<forall>x \<in> set xs. f x \<noteq> None) \<and> ys = map (the \<circ> f) xs"
  by (induction xs arbitrary: ys) (auto split: option.splits)

lemma ListAllMember_set:
  "ListAllMember y d prefix node = Some xs \<Longrightarrow>
    (k, m) \<in> set xs \<longleftrightarrow> (\<exists>ks. member_at y node ks m \<and> k = path_name prefix ks \<and> valid_name k)"
proof (induction d arbitrary: prefix node xs)
  case (Suc d)
  show ?case
  proof (cases "valid_name prefix \<and> y_isMap y node")
    case False
    have leaf: "member_at y node ks m \<longleftrightarrow> ks = [] \<and> m = node" if "\<not> y_isMap y node" for ks
    proof (cases ks)
      case (Cons k ks')
      then show ?thesis using that by (simp add: member_at_Cons)
    qed auto
    show ?thesis
    proof (cases "valid_name prefix")
      case True
      then have m: "\<not> y_isMap y node" "xs = [(prefix, node)]" using False Suc.prems by auto
      show ?thesis unfolding leaf [OF m(1)] m(2) using True by auto
    next
      case False
      then show ?thesis using Suc.prems valid_path_name by fastforce
    qed
  next
    case True
    let ?f = "\<lambda>p. ListAllMember y d (member_name prefix (y_scalar y (fst p))) (snd p)"
    obtain yss where ys: "those (map ?f (y_pairs y node)) = Some yss"
      "xs = (prefix, node) # concat yss"
      using Suc.prems True by (auto split: if_splits)
    have sub: "\<forall>p \<in> set (y_pairs y node). ?f p \<noteq> None" "yss = map (the \<circ> ?f) (y_pairs y node)"
      using those_SomeD [OF ys(1)] by blast+
    have IH: "(k, m) \<in> set (the (?f p)) \<longleftrightarrow>
        (\<exists>ks. member_at y (snd p) ks m \<and>
          k = path_name (member_name prefix (y_scalar y (fst p))) ks \<and> valid_name k)"
      if p: "p \<in> set (y_pairs y node)" for p
    proof -
      obtain zs where "?f p = Some zs" using sub(1) p by blast
      then show ?thesis using Suc.IH by simp
    qed
    have "(k, m) \<in> set (concat yss) \<longleftrightarrow> (\<exists>p \<in> set (y_pairs y node). (k, m) \<in> set (the (?f p)))"
      by (simp add: sub(2))
    also have "\<dots> \<longleftrightarrow> (\<exists>j ks. member_at y node (j # ks) m \<and> k = path_name prefix (j # ks) \<and> valid_name k)"
    proof -
      have "(\<exists>p \<in> set (y_pairs y node). (k, m) \<in> set (the (?f p))) \<longleftrightarrow>
          (\<exists>p \<in> set (y_pairs y node). \<exists>ks. member_at y (snd p) ks m \<and>
            k = path_name (member_name prefix (y_scalar y (fst p))) ks \<and> valid_name k)"
        by (rule bex_cong [OF refl]) (rule IH)
      also have "\<dots> \<longleftrightarrow> (\<exists>j v ks. (j, v) \<in> set (y_pairs y node) \<and> member_at y v ks m \<and>
            k = path_name (member_name prefix (y_scalar y j)) ks \<and> valid_name k)"
        by (simp add: Bex_def)
      finally show ?thesis using True by (auto simp: member_at_Cons)
    qed
    finally have "(k, m) \<in> set xs \<longleftrightarrow> (k, m) = (prefix, node) \<or>
        (\<exists>j ks. member_at y node (j # ks) m \<and> k = path_name prefix (j # ks) \<and> valid_name k)"
      using ys(2) by simp
    also have "\<dots> \<longleftrightarrow> (\<exists>ks. member_at y node ks m \<and> k = path_name prefix ks \<and> valid_name k)"
      (is "_ \<longleftrightarrow> ?R")
    proof
      assume ?R
      then obtain ks where "member_at y node ks m" "k = path_name prefix ks" "valid_name k" by blast
      then show "(k, m) = (prefix, node) \<or>
          (\<exists>j ks. member_at y node (j # ks) m \<and> k = path_name prefix (j # ks) \<and> valid_name k)"
        by (cases ks) auto
    next
      assume "(k, m) = (prefix, node) \<or>
          (\<exists>j ks. member_at y node (j # ks) m \<and> k = path_name prefix (j # ks) \<and> valid_name k)"
      then show ?R using True by (auto intro: exI [of _ "[]"])
    qed
    finally show ?thesis .
  qed
qed simp

section \<open>Well-formed registries\<close>

text \<open>
  \<open>typed t v\<close>: the value \<open>v\<close> is of the type \<open>t\<close>. Every variable is registered under its own
  name, in lower case, its value is of its type, and its listeners are in the order of their
  numbers, none above the last number given out.
\<close>

definition var_wf :: "('t \<Rightarrow> 'v \<Rightarrow> bool) \<Rightarrow> ('t, 'v, 's) config \<Rightarrow> string \<Rightarrow> ('t, 'v, 's) config_var \<Rightarrow> bool" where
  "var_wf typed c n x = (cv_name x = n \<and> valid_name n \<and> typed (cv_type x) (cv_val x) \<and>
     sorted_wrt (<) (map fst (cv_cbs x)) \<and> (\<forall>k \<in> fst ` set (cv_cbs x). k \<le> cf_fun_id c (cv_type x)))"

definition config_wf :: "('t \<Rightarrow> 'v \<Rightarrow> bool) \<Rightarrow> ('t, 'v, 's) config \<Rightarrow> bool" where
  "config_wf typed c = (\<forall>n x. cf_vars c n = Some x \<longrightarrow> var_wf typed c n x)"

definition codec_typed :: "('t \<Rightarrow> 'v codec) \<Rightarrow> ('t \<Rightarrow> 'v \<Rightarrow> bool) \<Rightarrow> bool" where
  "codec_typed cdc typed = (\<forall>t s v. c_from (cdc t) s = Inr v \<longrightarrow> typed t v)"

lemma config_wfD: "config_wf typed c \<Longrightarrow> cf_vars c n = Some x \<Longrightarrow> var_wf typed c n x"
  by (simp add: config_wf_def)

lemma put_var_simps [simp]:
  "cf_vars (put_var n x c) = (cf_vars c)(n \<mapsto> x)"
  "cf_fun_id (put_var n x c) = cf_fun_id c" "cf_world (put_var n x c) = cf_world c"
  by (simp_all add: put_var_def)

lemma get_var_Some [simp]: "cf_vars c n = Some x \<Longrightarrow> get_var n c = Inr x"
  by (simp add: get_var_def)

lemma get_var_Inr [simp]: "get_var n c = Inr x \<longleftrightarrow> cf_vars c n = Some x"
  by (simp add: get_var_def split: option.split)

lemma to_lower_config: "c \<in> set config_chars \<Longrightarrow> to_lower c = c"
  by (auto simp: config_chars_def to_lower_def)

lemma to_lower_valid: "valid_name s \<Longrightarrow> map to_lower s = s"
  by (induction s) (auto simp: valid_name_def to_lower_config)

text \<open>What a step keeps: the variables there are and their types.\<close>

definition same_types :: "('t, 'v, 's) config \<Rightarrow> ('t, 'v, 's) config \<Rightarrow> bool" where
  "same_types c c' = (\<forall>n x. cf_vars c n = Some x \<longrightarrow> (\<exists>x'. cf_vars c' n = Some x' \<and> cv_type x' = cv_type x))"

lemma same_types_refl [simp]: "same_types c c"
  by (simp add: same_types_def)

lemma same_types_trans: "same_types a b \<Longrightarrow> same_types b c \<Longrightarrow> same_types a c"
  by (fastforce simp: same_types_def)

lemma put_var_keeps:
  assumes "config_wf typed c" and "cf_vars c n = Some x" and "cv_type x' = cv_type x"
    and "cv_name x' = cv_name x" and "typed (cv_type x) (cv_val x')"
    and "sorted_wrt (<) (map fst (cv_cbs x'))"
    and "\<And>k. k \<in> fst ` set (cv_cbs x') \<Longrightarrow> k \<le> f (cv_type x)"
    and "\<And>t. cf_fun_id c t \<le> f t"
  shows "config_wf typed (put_var n x' (c\<lparr>cf_world := w, cf_fun_id := f\<rparr>)) \<and>
    same_types c (put_var n x' (c\<lparr>cf_world := w, cf_fun_id := f\<rparr>))"
proof -
  have "var_wf typed (put_var n x' (c\<lparr>cf_world := w, cf_fun_id := f\<rparr>)) m z"
    if "m \<noteq> n" "cf_vars c m = Some z" for m z
    using config_wfD [OF assms(1) that(2)] assms(8) by (auto simp: var_wf_def intro: order_trans)
  then show ?thesis
    using config_wfD [OF assms(1,2)] assms(2-7)
    by (auto simp: config_wf_def var_wf_def same_types_def)
qed

lemma world_keeps:
  "config_wf typed c \<Longrightarrow> config_wf typed (c\<lparr>cf_world := w\<rparr>) \<and> same_types c (c\<lparr>cf_world := w\<rparr>)"
  by (simp add: config_wf_def var_wf_def same_types_def)

lemma fun_id_idem: "c\<lparr>cf_world := w, cf_fun_id := cf_fun_id c\<rparr> = c\<lparr>cf_world := w\<rparr>"
  by simp

lemma setValue_keeps:
  assumes wf: "config_wf typed c" and x: "cf_vars c n = Some x" and "typed (cv_type x) v"
    and s: "setValue cdc n v c = Inr (c', ex)"
  shows "config_wf typed c' \<and> same_types c c'"
proof -
  have "var_wf typed c n x" by (rule config_wfD [OF wf x])
  then have put: "config_wf typed (put_var n (x\<lparr>cv_val := v\<rparr>) (c\<lparr>cf_world := w\<rparr>)) \<and>
      same_types c (put_var n (x\<lparr>cv_val := v\<rparr>) (c\<lparr>cf_world := w\<rparr>))" for w
    using put_var_keeps [OF wf x, of "x\<lparr>cv_val := v\<rparr>" "cf_fun_id c" w, unfolded fun_id_idem] assms(3)
    by (auto simp: var_wf_def)
  show ?thesis
    using s x wf put world_keeps [OF wf]
    by (auto simp: setValue_def res_simps split: if_splits option.splits prod.splits)
qed

lemma fromString_keeps:
  assumes "config_wf typed c" and "codec_typed cdc typed" and s: "fromString cdc n str c = Inr (c', b)"
  shows "config_wf typed c' \<and> same_types c c' \<and> \<not> b"
proof -
  obtain x where x: "cf_vars c n = Some x" using s by (auto simp: fromString_def res_simps)
  show ?thesis
  proof (cases "c_from (cdc (cv_type x)) str")
    case (Inl e)
    then show ?thesis using s x assms(1) by (simp add: fromString_def)
  next
    case (Inr v)
    then obtain ex where "setValue cdc n v c = Inr (c', ex)" "\<not> b"
      using s x by (auto simp: fromString_def res_simps)
    moreover have "typed (cv_type x) v" using assms(2) Inr by (auto simp: codec_typed_def)
    ultimately show ?thesis using setValue_keeps [OF assms(1) x] by blast
  qed
qed

lemma cbs_put_last:
  "\<forall>j \<in> fst ` set ps. j < k \<Longrightarrow> cbs_put k f ps = ps @ [(k, f)]"
  by (induction ps) auto

text \<open>A listener that is added comes last, under a number not used before.\<close>

lemma addListener_lemma:
  assumes wf: "config_wf typed c" and x: "cf_vars c n = Some x" and "cf_fun_id c (cv_type x) \<noteq> - 1"
  defines "k \<equiv> cf_fun_id c (cv_type x) + 1"
  shows "addListener n cb c = Inr (k, put_var n (x\<lparr>cv_cbs := cv_cbs x @ [(k, cb)]\<rparr>)
      (c\<lparr>cf_fun_id := (cf_fun_id c)(cv_type x := k)\<rparr>)) \<and> (\<forall>j. j \<le> cf_fun_id c (cv_type x) \<longrightarrow> j < k)"
proof -
  have less: "\<forall>j. j \<le> cf_fun_id c (cv_type x) \<longrightarrow> j < k"
    unfolding k_def using u64_less_Suc [OF assms(3)] by blast
  then have "\<forall>j \<in> fst ` set (cv_cbs x). j < k"
    using config_wfD [OF wf x] by (auto simp: var_wf_def)
  then show ?thesis using x less by (simp add: addListener_def Let_def k_def [symmetric] cbs_put_last)
qed

lemma addListener_keeps:
  assumes wf: "config_wf typed c" and x: "cf_vars c n = Some x" and id: "cf_fun_id c (cv_type x) \<noteq> - 1"
    and add: "addListener n cb c = Inr (k, c')"
  shows "config_wf typed c' \<and> same_types c c'"
proof -
  let ?k = "cf_fun_id c (cv_type x) + 1"
  let ?f = "(cf_fun_id c)(cv_type x := ?k)"
  note al = addListener_lemma [OF wf x id]
  have vw: "var_wf typed c n x" by (rule config_wfD [OF wf x])
  have "config_wf typed (put_var n (x\<lparr>cv_cbs := cv_cbs x @ [(?k, cb)]\<rparr>) (c\<lparr>cf_world := cf_world c, cf_fun_id := ?f\<rparr>)) \<and>
      same_types c (put_var n (x\<lparr>cv_cbs := cv_cbs x @ [(?k, cb)]\<rparr>) (c\<lparr>cf_world := cf_world c, cf_fun_id := ?f\<rparr>))"
    by (rule put_var_keeps [OF wf x])
      (use vw al in \<open>auto simp: var_wf_def sorted_wrt_append less_imp_le\<close>)
  moreover have "c' = put_var n (x\<lparr>cv_cbs := cv_cbs x @ [(?k, cb)]\<rparr>) (c\<lparr>cf_world := cf_world c, cf_fun_id := ?f\<rparr>)"
    using add al [of cb] by auto
  ultimately show ?thesis by simp
qed

lemma sub_cbs_keeps:
  assumes wf: "config_wf typed c" and x: "cf_vars c n = Some x"
    and "sorted_wrt (<) (map fst ps)" and "set ps \<subseteq> set (cv_cbs x)"
  shows "config_wf typed (put_var n (x\<lparr>cv_cbs := ps\<rparr>) c) \<and> same_types c (put_var n (x\<lparr>cv_cbs := ps\<rparr>) c)"
proof -
  have "var_wf typed c n x" by (rule config_wfD [OF wf x])
  then have "k \<le> cf_fun_id c (cv_type x)" if "k \<in> fst ` set ps" for k
    using that assms(4) by (auto simp: var_wf_def)
  then show ?thesis
    using put_var_keeps [OF wf x, of "x\<lparr>cv_cbs := ps\<rparr>" "cf_fun_id c" "cf_world c"]
      config_wfD [OF wf x] assms(3) by (simp add: var_wf_def)
qed

lemma sorted_filter_keys:
  "sorted_wrt (<) (map fst ps) \<Longrightarrow> sorted_wrt (<) (map fst (filter P ps))"
  by (induction ps) auto

lemma Lookup_create_keeps:
  assumes wf: "config_wf typed c" and "typed ty v" and "Lookup_create ty n v desc c = Inr (r, c')"
  shows "config_wf typed c' \<and> same_types c c'"
proof (cases "cf_vars c n")
  case None
  then have "valid_name n" and c': "c' = put_var n (ConfigVar_new ty n v desc) c"
    using assms(3) by (auto simp: Lookup_create_def split: if_splits)
  then have "var_wf typed c' n (ConfigVar_new ty n v desc)"
    using assms(2) by (simp add: var_wf_def ConfigVar_new_def to_lower_valid)
  moreover have "var_wf typed c' m z" if "cf_vars c m = Some z" for m z
    using config_wfD [OF wf that] by (simp add: var_wf_def c')
  ultimately show ?thesis using None by (auto simp: config_wf_def same_types_def c')
next
  case (Some x)
  then show ?thesis using assms by (auto simp: Lookup_create_def split: if_splits)
qed

section \<open>Loading a document\<close>

lemma load_member_keeps:
  assumes "config_wf typed c" and "codec_typed cdc typed" and "load_member cdc y i c = Inr c'"
  shows "config_wf typed c' \<and> same_types c c'"
  using assms fromString_keeps [OF assms(1,2)]
  by (auto simp: load_member_def res_simps split: if_splits option.splits)

lemma load_members_keeps:
  "config_wf typed c \<Longrightarrow> codec_typed cdc typed \<Longrightarrow> load_members cdc y is c = Inr c' \<Longrightarrow>
    config_wf typed c' \<and> same_types c c'"
proof (induction "is" arbitrary: c)
  case (Cons i "is")
  obtain c1 where c1: "load_member cdc y i c = Inr c1" "load_members cdc y is c1 = Inr c'"
    using Cons.prems(3) by (auto simp: res_simps)
  note k = load_member_keeps [OF Cons.prems(1,2) c1(1)]
  show ?case using Cons.IH [of c1] k Cons.prems(2) c1(2) same_types_trans by blast
qed simp

text \<open>Listeners that neither stop the program nor throw.\<close>

text \<open>Visiting with a callback that keeps the registry right keeps it right.\<close>

lemma visit_vars_keeps:
  assumes "\<And>n c c'. config_wf typed c \<Longrightarrow> cb n c = Inr c' \<Longrightarrow> config_wf typed c' \<and> same_types c c'"
  shows "config_wf typed c \<Longrightarrow> visit_vars cb ns c = Inr c' \<Longrightarrow> config_wf typed c' \<and> same_types c c'"
proof (induction ns arbitrary: c)
  case (Cons n ns)
  then obtain c1 where "cb n c = Inr c1" "visit_vars cb ns c1 = Inr c'" by (auto simp: res_simps)
  then show ?case using assms [OF Cons.prems(1)] Cons.IH same_types_trans by blast
qed simp

text \<open>Every variable is visited, and none twice: the names a callback notes down are all the names.\<close>

lemma Visit_once:
  assumes "iterates order c"
  shows "\<exists>ns. Visit (\<lambda>n c. Inr (c\<lparr>cf_world := cf_world c @ [n]\<rparr>)) order (c\<lparr>cf_world := []\<rparr>) =
      Inr (c\<lparr>cf_world := ns\<rparr>) \<and> distinct ns \<and> set ns = dom (cf_vars c)"
proof -
  have "visit_vars (\<lambda>n c. Inr (c\<lparr>cf_world := cf_world c @ [n]\<rparr>)) ns (c\<lparr>cf_world := ms\<rparr>) =
      Inr (c\<lparr>cf_world := ms @ ns\<rparr>)" for ns ms
    by (induction ns arbitrary: ms) simp_all
  then show ?thesis using assms by (auto simp: Visit_def iterates_def)
qed


definition quiet :: "('t, 'v, 's) config_var \<Rightarrow> bool" where
  "quiet x = (\<forall>f \<in> snd ` set (cv_cbs x). \<forall>old v w. \<exists>w'. f old v w = Inr (w', None))"

definition text_of :: "'n yaml \<Rightarrow> 'n \<Rightarrow> string" where
  "text_of y node = (if y_isScalar y node then y_scalar y node else y_emit y node)"

text \<open>The value of a variable after its node has been read.\<close>

definition value_after :: "('t \<Rightarrow> 'v codec) \<Rightarrow> 'n yaml \<Rightarrow> ('t, 'v, 's) config_var \<Rightarrow> 'n \<Rightarrow> 'v" where
  "value_after cdc y x node = (case c_from (cdc (cv_type x)) (text_of y node) of
       Inl _ \<Rightarrow> cv_val x
     | Inr v \<Rightarrow> if c_eq (cdc (cv_type x)) v (cv_val x) then cv_val x else v)"

lemma quiet_val [simp]: "quiet (x\<lparr>cv_val := v\<rparr>) = quiet x"
  by (simp add: quiet_def)

lemma run_cbs_quiet:
  "\<forall>f \<in> set fs. \<forall>old v w. \<exists>w'. f old v w = Inr (w', None) \<Longrightarrow> \<exists>w'. run_cbs fs old v w = Inr (w', None)"
proof (induction fs arbitrary: w)
  case (Cons f fs)
  obtain w1 where "f old v w = Inr (w1, None)" using Cons.prems by fastforce
  then show ?case using Cons by simp
qed simp

lemma setValue_quiet:
  assumes "cf_vars c n = Some x" and "quiet x"
  shows "\<exists>c'. setValue cdc n v c = Inr (c', None) \<and> (\<forall>m. m \<noteq> n \<longrightarrow> cf_vars c' m = cf_vars c m) \<and>
    cf_vars c' n = Some (x\<lparr>cv_val := if c_eq (cdc (cv_type x)) v (cv_val x) then cv_val x else v\<rparr>)"
proof -
  have "\<forall>f \<in> set (map snd (cv_cbs x)). \<forall>old v w. \<exists>w'. f old v w = Inr (w', None)"
    using assms(2) by (simp add: quiet_def)
  from run_cbs_quiet [OF this]
  obtain w where "run_cbs (map snd (cv_cbs x)) (cv_val x) v (cf_world c) = Inr (w, None)" by blast
  then show ?thesis using assms(1) by (simp add: setValue_def)
qed

definition all_quiet :: "('t, 'v, 's) config \<Rightarrow> bool" where
  "all_quiet c = (\<forall>n x. cf_vars c n = Some x \<longrightarrow> quiet x)"

definition all_valid :: "('t, 'v, 's) config \<Rightarrow> bool" where
  "all_valid c = (\<forall>n x. cf_vars c n = Some x \<longrightarrow> valid_name n)"

lemma load_member_quiet:
  assumes "all_quiet c" and "valid_name (fst i)"
  shows "\<exists>c'. load_member cdc y i c = Inr c' \<and>
    (\<forall>n. cf_vars c' n = (if n = fst i \<and> n \<noteq> [] then
       map_option (\<lambda>x. x\<lparr>cv_val := value_after cdc y x (snd i)\<rparr>) (cf_vars c n) else cf_vars c n))"
proof (cases "fst i = [] \<or> cf_vars c (fst i) = None")
  case True
  then show ?thesis
    using to_lower_valid [OF assms(2)] by (auto simp: load_member_def LookupBase_def)
next
  case False
  then obtain x where x: "cf_vars c (fst i) = Some x" by auto
  have q: "quiet x" using assms(1) x by (simp add: all_quiet_def)
  have run: "load_member cdc y i c =
      bindR (fromString cdc (fst i) (text_of y (snd i)) c) (\<lambda>(c1, _). Inr c1)"
    using False x to_lower_valid [OF assms(2)] by (simp add: load_member_def LookupBase_def text_of_def)
  show ?thesis
  proof (cases "c_from (cdc (cv_type x)) (text_of y (snd i))")
    case (Inl e)
    then have "value_after cdc y x (snd i) = cv_val x" by (simp add: value_after_def)
    then show ?thesis using run x Inl by (auto simp: fromString_def)
  next
    case (Inr v)
    obtain c' where "setValue cdc (fst i) v c = Inr (c', None)"
      "\<forall>m. m \<noteq> fst i \<longrightarrow> cf_vars c' m = cf_vars c m"
      "cf_vars c' (fst i) = Some (x\<lparr>cv_val := if c_eq (cdc (cv_type x)) v (cv_val x) then cv_val x else v\<rparr>)"
      using setValue_quiet [OF x q, of cdc v] by blast
    then show ?thesis using run x Inr False
      by (intro exI [of _ c']) (simp add: fromString_def value_after_def)
  qed
qed

lemma load_members_quiet:
  "all_quiet c \<Longrightarrow> \<forall>i \<in> set is. valid_name (fst i) \<Longrightarrow> distinct (map fst is) \<Longrightarrow>
    \<exists>c'. load_members cdc y is c = Inr c' \<and>
      (\<forall>n. cf_vars c' n = (case map_of is n of None \<Rightarrow> cf_vars c n
         | Some node \<Rightarrow> if n = [] then cf_vars c n else
             map_option (\<lambda>x. x\<lparr>cv_val := value_after cdc y x node\<rparr>) (cf_vars c n)))"
proof (induction "is" arbitrary: c)
  case (Cons i "is")
  obtain c1 where c1: "load_member cdc y i c = Inr c1"
    "\<forall>n. cf_vars c1 n = (if n = fst i \<and> n \<noteq> [] then
       map_option (\<lambda>x. x\<lparr>cv_val := value_after cdc y x (snd i)\<rparr>) (cf_vars c n) else cf_vars c n)"
    using load_member_quiet [of c i cdc y] Cons.prems by auto
  have "all_quiet c1" using Cons.prems(1) c1(2)
    by (auto simp: all_quiet_def split: if_splits)
  then obtain c' where c': "load_members cdc y is c1 = Inr c'"
    "\<forall>n. cf_vars c' n = (case map_of is n of None \<Rightarrow> cf_vars c1 n
         | Some node \<Rightarrow> if n = [] then cf_vars c1 n else
             map_option (\<lambda>x. x\<lparr>cv_val := value_after cdc y x node\<rparr>) (cf_vars c1 n))"
    using Cons.IH [of c1] Cons.prems by auto
  have "map_of is (fst i) = None" using Cons.prems(3) by (simp add: map_of_eq_None_iff)
  then have "cf_vars c' n = (case map_of (i # is) n of None \<Rightarrow> cf_vars c n
         | Some node \<Rightarrow> if n = [] then cf_vars c n else
             map_option (\<lambda>x. x\<lparr>cv_val := value_after cdc y x node\<rparr>) (cf_vars c n))" for n
    using c'(2) c1(2) by (cases "n = fst i") (simp_all split: option.split)
  then show ?case using c1(1) c'(1) by auto
qed simp

section \<open>Operations\<close>

datatype ('t, 'v, 's) config_op =
    CLookup 't string 'v string
  | CSet string 'v
  | CFrom string string
  | CAdd string "('v, 's) on_change"
  | CDel string u64
  | CClear string

fun run_config_op :: "('t \<Rightarrow> 'v codec) \<Rightarrow> ('t, 'v, 's) config_op \<Rightarrow> ('t, 'v, 's) config \<Rightarrow>
    ('t, 'v, 's) config res" where
  "run_config_op cdc (CLookup ty n v desc) c = bindR (Lookup_create ty n v desc c) (\<lambda>(_, c1). Inr c1)"
| "run_config_op cdc (CSet n v) c = bindR (setValue cdc n v c) (\<lambda>(c1, _). Inr c1)"
| "run_config_op cdc (CFrom n str) c = bindR (fromString cdc n str c) (\<lambda>(c1, _). Inr c1)"
| "run_config_op cdc (CAdd n cb) c = bindR (addListener n cb c) (\<lambda>(_, c1). Inr c1)"
| "run_config_op cdc (CDel n k) c = delListener n k c"
| "run_config_op cdc (CClear n) c = clearListener n c"

text \<open>
  What the types of C++ see to, and that fewer than \<open>2 ^ 64 - 1\<close> listeners are added.
\<close>

fun config_op_ok :: "('t \<Rightarrow> 'v \<Rightarrow> bool) \<Rightarrow> ('t, 'v, 's) config_op \<Rightarrow> ('t, 'v, 's) config \<Rightarrow> bool" where
  "config_op_ok typed (CLookup ty n v desc) c = typed ty v"
| "config_op_ok typed (CSet n v) c = (case cf_vars c n of None \<Rightarrow> False | Some x \<Rightarrow> typed (cv_type x) v)"
| "config_op_ok typed (CFrom n str) c = True"
| "config_op_ok typed (CAdd n cb) c =
     (case cf_vars c n of None \<Rightarrow> False | Some x \<Rightarrow> cf_fun_id c (cv_type x) \<noteq> - 1)"
| "config_op_ok typed (CDel n k) c = True"
| "config_op_ok typed (CClear n) c = True"

section \<open>Properties\<close>

text \<open>
  C34. Operations on the registry keep it well formed and well typed: whatever succeeds leaves
  every variable registered under its own (valid, lower-case) name, with a value of its type and
  its listeners in order, and no variable ever disappears or changes its type, so that a
  pointer obtained from \<open>Lookup\<close> always reads values of the type it was looked up with.
\<close>

theorem config_ops_typed:
  assumes "config_wf typed c" and "codec_typed cdc typed" and "config_op_ok typed op c"
    and "run_config_op cdc op c = Inr c'"
  shows "config_wf typed c' \<and> same_types c c' \<and>
    (Lookup ty n c = Some n \<longrightarrow> (\<exists>v. getValue n c' = Inr v \<and> typed ty v))"
proof -
  have "config_wf typed c' \<and> same_types c c'"
  proof (cases op)
    case (CLookup ty n v desc)
    then show ?thesis
      using assms Lookup_create_keeps [OF assms(1)] by (auto simp: res_simps)
  next
    case (CSet n v)
    then obtain x ex where "cf_vars c n = Some x" "typed (cv_type x) v"
      "setValue cdc n v c = Inr (c', ex)"
      using assms by (auto simp: res_simps split: option.splits)
    then show ?thesis using setValue_keeps [OF assms(1)] by blast
  next
    case (CFrom n str)
    then obtain b where "fromString cdc n str c = Inr (c', b)" using assms by (auto simp: res_simps)
    then show ?thesis using fromString_keeps [OF assms(1,2)] by blast
  next
    case (CAdd n cb)
    then obtain x k where "cf_vars c n = Some x" "cf_fun_id c (cv_type x) \<noteq> - 1"
      "addListener n cb c = Inr (k, c')"
      using assms by (auto simp: res_simps split: option.splits)
    then show ?thesis using addListener_keeps [OF assms(1)] by blast
  next
    case (CDel n k)
    then obtain x where x: "cf_vars c n = Some x"
      "c' = put_var n (x\<lparr>cv_cbs := filter (\<lambda>p. fst p \<noteq> k) (cv_cbs x)\<rparr>) c"
      using assms by (auto simp: delListener_def res_simps)
    moreover have "sorted_wrt (<) (map fst (cv_cbs x))"
      using config_wfD [OF assms(1) x(1)] by (simp add: var_wf_def)
    ultimately show ?thesis
      using sub_cbs_keeps [OF assms(1) x(1) sorted_filter_keys, where P1 = "\<lambda>p. fst p \<noteq> k"] by simp
  next
    case (CClear n)
    then obtain x where x: "cf_vars c n = Some x" "c' = put_var n (x\<lparr>cv_cbs := []\<rparr>) c"
      using assms by (auto simp: clearListener_def res_simps)
    then show ?thesis using sub_cbs_keeps [OF assms(1) x(1), of "[]"] by simp
  qed
  moreover have "\<exists>v. getValue n c' = Inr v \<and> typed ty v"
    if lk: "Lookup ty n c = Some n" and c': "config_wf typed c'" "same_types c c'"
  proof -
    obtain x where "cf_vars c n = Some x" "cv_type x = ty"
      using lk by (auto simp: Lookup_def split: option.splits if_splits)
    then obtain x' where "cf_vars c' n = Some x'" "cv_type x' = ty"
      using c'(2) by (auto simp: same_types_def)
    then show ?thesis using config_wfD [OF c'(1)] by (auto simp: getValue_def var_wf_def)
  qed
  ultimately show ?thesis by blast
qed

text \<open>
  Registering a listener: it gets a number that no listener of a variable of the same type
  has, it runs after all the listeners that were there, and removing it by its number restores
  the variable.
\<close>

theorem addListener_exact:
  assumes "config_wf typed c" and "cf_vars c n = Some x" and "cf_fun_id c (cv_type x) \<noteq> - 1"
  shows "\<exists>k c' x'. addListener n cb c = Inr (k, c') \<and> cf_vars c' n = Some x' \<and>
    (\<forall>m z. cf_vars c m = Some z \<and> cv_type z = cv_type x \<longrightarrow> k \<notin> fst ` set (cv_cbs z)) \<and>
    (\<forall>old v w. run_cbs (map snd (cv_cbs x')) old v w =
      bindR (run_cbs (map snd (cv_cbs x)) old v w) (\<lambda>(w1, ex).
        case ex of Some e \<Rightarrow> Inr (w1, Some e) | None \<Rightarrow> cb old v w1)) \<and>
    (\<exists>c''. delListener n k c' = Inr c'' \<and> cf_vars c'' = cf_vars c)"
proof -
  let ?k = "cf_fun_id c (cv_type x) + 1"
  let ?x = "x\<lparr>cv_cbs := cv_cbs x @ [(?k, cb)]\<rparr>"
  note al = addListener_lemma [OF assms]
  have fresh: "?k \<notin> fst ` set (cv_cbs z)" if "cf_vars c m = Some z" "cv_type z = cv_type x" for m z
    using config_wfD [OF assms(1) that(1)] that(2) al [of cb] by (auto simp: var_wf_def)
  have last: "run_cbs (fs @ [cb]) old v w = bindR (run_cbs fs old v w) (\<lambda>(w1, ex).
      case ex of Some e \<Rightarrow> Inr (w1, Some e) | None \<Rightarrow> cb old v w1)" for fs old v w
  proof (induction fs arbitrary: w)
    case Nil
    have "run_cbs [cb] old v w = cb old v w"
      by (cases "cb old v w") (auto split: option.split prod.split)
    then show ?case by simp
  next
    case (Cons f fs)
    then show ?case
      by (cases "f old v w") (auto split: option.split prod.split)
  qed
  have "filter (\<lambda>p. fst p \<noteq> ?k) (cv_cbs x) = cv_cbs x"
    by (rule filter_True) (use fresh [OF assms(2) refl] in \<open>metis image_eqI\<close>)
  then have "delListener n ?k (put_var n ?x (c\<lparr>cf_fun_id := (cf_fun_id c)(cv_type x := ?k)\<rparr>)) =
      Inr (put_var n x (put_var n ?x (c\<lparr>cf_fun_id := (cf_fun_id c)(cv_type x := ?k)\<rparr>)))"
    by (simp add: delListener_def)
  moreover have "(cf_vars c)(n \<mapsto> x) = cf_vars c" using assms(2) by (rule fun_upd_idem)
  ultimately show ?thesis using al [of cb] fresh last
    by (intro exI [of _ ?k] exI [of _ "put_var n ?x (c\<lparr>cf_fun_id := (cf_fun_id c)(cv_type x := ?k)\<rparr>)"]
        exI [of _ ?x]) auto
qed

text \<open>
  C33. The walk over a document lists exactly the nodes that can be reached through keys whose
  dotted name has only the accepted characters, each under that name; it ends on every
  document of finite depth.
\<close>

theorem ListAllMember_exact:
  assumes "depth_le y d root"
  shows "\<exists>xs. ListAllMember y d [] root = Some xs \<and>
    (\<forall>k m. (k, m) \<in> set xs \<longleftrightarrow> (\<exists>ks. member_at y root ks m \<and> k = path_name [] ks \<and> valid_name k))"
  using ListAllMember_total [OF assms, of "[]"] ListAllMember_set [of y d "[]" root] by auto

text \<open>
  C18. Loading a document gives every variable that it names the value of its node (the value
  it had, when the text cannot be converted or counts as equal), and leaves the others as they
  are, when no name occurs twice and listeners neither throw nor stop the program.
\<close>

theorem LoadFromYaml_exact:
  assumes "depth_le y d root" and "config_wf typed c" and "all_quiet c"
    and "\<forall>xs. ListAllMember y d [] root = Some xs \<longrightarrow> distinct (map fst xs)"
  shows "\<exists>c'. LoadFromYaml cdc y d root c = Some (Inr c') \<and>
    (\<forall>n x ks node. cf_vars c n = Some x \<and> member_at y root ks node \<and> path_name [] ks = n \<and> n \<noteq> [] \<longrightarrow>
      cf_vars c' n = Some (x\<lparr>cv_val := value_after cdc y x node\<rparr>)) \<and>
    (\<forall>n. (\<forall>ks node. member_at y root ks node \<longrightarrow> path_name [] ks \<noteq> n) \<longrightarrow> cf_vars c' n = cf_vars c n)"
proof -
  obtain xs where xs: "ListAllMember y d [] root = Some xs"
    using ListAllMember_total [OF assms(1), of "[]"] by auto
  note mem = ListAllMember_set [OF xs]
  have dist: "distinct (map fst xs)" using assms(4) xs by blast
  have val: "\<forall>i \<in> set xs. valid_name (fst i)" using mem by auto
  obtain c' where c': "load_members cdc y xs c = Inr c'"
    "\<forall>n. cf_vars c' n = (case map_of xs n of None \<Rightarrow> cf_vars c n
       | Some node \<Rightarrow> if n = [] then cf_vars c n else
           map_option (\<lambda>x. x\<lparr>cv_val := value_after cdc y x node\<rparr>) (cf_vars c n))"
    using load_members_quiet [OF assms(3) val dist] by blast
  have "cf_vars c' n = Some (x\<lparr>cv_val := value_after cdc y x node\<rparr>)"
    if x: "cf_vars c n = Some x" and "member_at y root ks node" "path_name [] ks = n" "n \<noteq> []"
    for n x ks node
  proof -
    have "valid_name n" using config_wfD [OF assms(2) x] by (simp add: var_wf_def)
    then have "(n, node) \<in> set xs" using mem [of n node] that by auto
    then have "map_of xs n = Some node" by (rule map_of_is_SomeI [OF dist])
    then show ?thesis using c'(2) x that(4) by simp
  qed
  moreover have "cf_vars c' n = cf_vars c n"
    if "\<forall>ks node. member_at y root ks node \<longrightarrow> path_name [] ks \<noteq> n" for n
  proof -
    have "map_of xs n = None" using mem that by (force simp: map_of_eq_None_iff)
    then show ?thesis using c'(2) by simp
  qed
  ultimately show ?thesis using xs c'(1) by (auto simp: LoadFromYaml_def)
qed

section \<open>Instances\<close>

text \<open>
  Values are strings, those of the type \<open>True\<close> not empty; one variable with one listener,
  which records the change; a document with a value for it and one that names no variable.
\<close>

definition demo_typed :: "bool \<Rightarrow> string \<Rightarrow> bool" where
  "demo_typed t v = (t \<longrightarrow> v \<noteq> [])"

definition demo_codec :: "bool \<Rightarrow> string codec" where
  "demo_codec t = \<lparr>c_from = (\<lambda>s. if t \<and> s = [] then Inl (Uncaught ''bad cast'') else Inr s), c_to = Inr, c_eq = (=)\<rparr>"

definition demo_listener :: "(string, (string \<times> string) list) on_change" where
  "demo_listener old v w = Inr (w @ [(old, v)], None)"

definition demo_config :: "(bool, string, (string \<times> string) list) config" where
  "demo_config = \<lparr>cf_vars = [''server.port'' \<mapsto> \<lparr>cv_name = ''server.port'', cv_description = [], cv_type = True,
       cv_val = ''80'', cv_cbs = [(1, demo_listener)]\<rparr>], cf_fun_id = (\<lambda>t. 1), cf_world = []\<rparr>"

definition demo_doc :: flow where
  "demo_doc = Dict [(''server.port'', ''8080''), (''Server'', ''x'')]"

lemma demo_config_wf: "config_wf demo_typed demo_config"
proof -
  have "valid_name ''server.port''" by code_simp
  then show ?thesis
    by (auto simp: config_wf_def var_wf_def demo_config_def demo_typed_def split: if_splits)
qed

lemma demo_codec_typed: "codec_typed demo_codec demo_typed"
  by (auto simp: codec_typed_def demo_codec_def demo_typed_def split: if_splits)

lemma demo_config_var: "\<exists>x. cf_vars demo_config ''server.port'' = Some x \<and> cv_type x = True \<and> cv_val x = ''80''"
  by (simp add: demo_config_def)

theorem config_ops_typed_witness:
  "\<exists>c' v. run_config_op demo_codec (CFrom ''server.port'' ''8080'') demo_config = Inr c' \<and>
    config_wf demo_typed c' \<and> getValue ''server.port'' c' = Inr v \<and> demo_typed True v"
proof -
  obtain c' where c': "run_config_op demo_codec (CFrom ''server.port'' ''8080'') demo_config = Inr c'"
    by (simp add: fromString_def setValue_def get_var_def demo_config_def demo_codec_def demo_listener_def)
  have "Lookup True ''server.port'' demo_config = Some ''server.port''"
    by (simp add: Lookup_def demo_config_def)
  then show ?thesis
    using config_ops_typed [OF demo_config_wf demo_codec_typed _ c', of True "''server.port''"] c' by auto
qed

theorem addListener_exact_witness:
  "\<exists>k c' c''. addListener ''server.port'' demo_listener demo_config = Inr (k, c') \<and>
    delListener ''server.port'' k c' = Inr c'' \<and> cf_vars c'' = cf_vars demo_config"
proof -
  obtain x where x: "cf_vars demo_config ''server.port'' = Some x" "cv_type x = True"
    using demo_config_var by blast
  have "cf_fun_id demo_config (cv_type x) \<noteq> - 1" by (simp add: demo_config_def)
  from addListener_exact [OF demo_config_wf x(1) this, of demo_listener] show ?thesis by blast
qed

lemma demo_doc_depth: "depth_le flow_yaml 2 demo_doc"
  by code_simp

theorem ListAllMember_exact_witness:
  "\<exists>xs. ListAllMember flow_yaml 2 [] demo_doc = Some xs \<and> (''server.port'', Word ''8080'') \<in> set xs"
proof -
  have "y_isMap flow_yaml demo_doc"
    "(Word ''server.port'', Word ''8080'') \<in> set (y_pairs flow_yaml demo_doc)"
    "y_scalar flow_yaml (Word ''server.port'') = ''server.port''"
    by (simp_all add: flow_yaml_def demo_doc_def)
  then have m: "member_at flow_yaml demo_doc [''server.port''] (Word ''8080'')"
    using member_at.below [OF _ _ member_at.here, of flow_yaml demo_doc] by metis
  have p: "''server.port'' = path_name [] [''server.port'']" "valid_name ''server.port''"
    by (simp add: member_name_def) code_simp
  obtain xs where xs: "ListAllMember flow_yaml 2 [] demo_doc = Some xs"
    "\<forall>k m. (k, m) \<in> set xs \<longleftrightarrow>
      (\<exists>ks. member_at flow_yaml demo_doc ks m \<and> k = path_name [] ks \<and> valid_name k)"
    using ListAllMember_exact [OF demo_doc_depth] by blast
  have "(''server.port'', Word ''8080'') \<in> set xs"
    by (rule xs(2) [THEN spec, THEN spec, THEN iffD2]) (intro exI conjI, rule m, rule p(1), rule p(2))
  then show ?thesis using xs(1) by blast
qed

theorem LoadFromYaml_exact_witness:
  "\<exists>c' x. LoadFromYaml demo_codec flow_yaml 2 demo_doc demo_config = Some (Inr c') \<and>
    cf_vars c' ''server.port'' = Some x \<and> cv_val x = ''8080''"
proof -
  obtain x where x: "cf_vars demo_config ''server.port'' = Some x" "cv_type x = True" "cv_val x = ''80''"
    using demo_config_var by blast
  have q: "all_quiet demo_config"
    by (auto simp: all_quiet_def quiet_def demo_config_def demo_listener_def split: if_splits)
  have "ListAllMember flow_yaml 2 [] demo_doc = Some [([], demo_doc), (''server.port'', Word ''8080'')]"
    by code_simp
  then have d: "\<forall>xs. ListAllMember flow_yaml 2 [] demo_doc = Some xs \<longrightarrow> distinct (map fst xs)"
    by simp
  have "y_isMap flow_yaml demo_doc"
    "(Word ''server.port'', Word ''8080'') \<in> set (y_pairs flow_yaml demo_doc)"
    "y_scalar flow_yaml (Word ''server.port'') = ''server.port''"
    by (simp_all add: flow_yaml_def demo_doc_def)
  then have m: "member_at flow_yaml demo_doc [''server.port''] (Word ''8080'')"
    using member_at.below [OF _ _ member_at.here, of flow_yaml demo_doc] by metis
  have p: "path_name [] [''server.port''] = ''server.port''" by (simp add: member_name_def)
  have v: "value_after demo_codec flow_yaml x (Word ''8080'') = ''8080''"
    using x(2,3) by (simp add: value_after_def text_of_def demo_codec_def flow_yaml_def)
  obtain c' where c': "LoadFromYaml demo_codec flow_yaml 2 demo_doc demo_config = Some (Inr c')"
    "\<forall>n x ks node. cf_vars demo_config n = Some x \<and> member_at flow_yaml demo_doc ks node \<and>
       path_name [] ks = n \<and> n \<noteq> [] \<longrightarrow>
       cf_vars c' n = Some (x\<lparr>cv_val := value_after demo_codec flow_yaml x node\<rparr>)"
    using LoadFromYaml_exact [OF demo_doc_depth demo_config_wf q d, of demo_codec] by blast
  have "cf_vars c' ''server.port'' =
      Some (x\<lparr>cv_val := value_after demo_codec flow_yaml x (Word ''8080'')\<rparr>)"
    using c'(2) x(1) m p by blast
  then show ?thesis using c'(1) v by simp
qed

end
