(* ===== verification/LogConfs.thy ===== *)
theory LogConfs
  imports Loggers Configs
begin

text \<open>
  The configuration variable \<open>logs\<close> of \<open>sylar/log.cpp\<close>: the conversions of definitions of
  loggers from and to YAML, the set they are kept in, and the listener that applies a change.
\<close>

section \<open>The set of definitions\<close>

text \<open>The order of \<open>std::string\<close>.\<close>

fun string_less :: "string \<Rightarrow> string \<Rightarrow> bool" where
  "string_less xs [] = False"
| "string_less [] (y # ys) = True"
| "string_less (x # xs) (y # ys) =
     ((of_char x :: nat) < of_char y \<or> x = y \<and> string_less xs ys)"

definition LogDefine_less :: "log_define \<Rightarrow> log_define \<Rightarrow> bool" where
  "LogDefine_less a b = string_less (ld_name a) (ld_name b)"

text \<open>\<open>operator==\<close> of the set: as many elements, equal one by one.\<close>

definition LogDefines_eq :: "log_define list \<Rightarrow> log_define list \<Rightarrow> bool" where
  "LogDefines_eq as bs = list_all2 LogDefine_eq as bs"

lemma string_less_trans: "string_less xs ys \<Longrightarrow> string_less ys zs \<Longrightarrow> string_less xs zs"
proof (induction xs ys arbitrary: zs rule: string_less.induct)
  case (3 x xs y ys)
  then show ?case by (cases zs) auto
next
  case (2 y ys)
  then show ?case by (cases zs) auto
qed simp

lemma string_less_total: "\<not> string_less xs ys \<Longrightarrow> \<not> string_less ys xs \<Longrightarrow> xs = ys"
proof (induction xs ys rule: string_less.induct)
  case (1 xs)
  then show ?case by (cases xs) auto
next
  case (3 x xs y ys)
  have "of_char x = (of_char y :: nat) \<Longrightarrow> x = y" by (metis char_of_char)
  then show ?case using 3 by (auto simp: not_less)
qed simp

lemma string_less_irrefl: "\<not> string_less xs xs"
  by (induction xs) simp_all

interpretation strings: strict_order string_less UNIV
  by unfold_locales (auto simp: string_less_irrefl intro: string_less_trans string_less_total)

section \<open>From YAML\<close>

text \<open>A field that may be missing, as a string.\<close>

definition opt_string :: "'n yaml \<Rightarrow> 'n \<Rightarrow> string \<Rightarrow> string res" where
  "opt_string y n k = bindR (y_get y n k) (\<lambda>r. case r of None \<Rightarrow> Inr [] | Some m \<Rightarrow> y_as y m)"

text \<open>An appender; the ones that are not complete are reported and left out.\<close>

definition appender_from :: "'n yaml \<Rightarrow> 'n \<Rightarrow> appender_define option res" where
  "appender_from y a = bindR (y_get y a ''type'') (\<lambda>t. case t of None \<Rightarrow> Inr None
     | Some t \<Rightarrow> bindR (y_as y t) (\<lambda>type.
       bindR (if type = ''FileLogAppender''
         then bindR (y_get y a ''file'') (\<lambda>f. case f of None \<Rightarrow> Inr None
           | Some f \<Rightarrow> bindR (y_as y f) (\<lambda>file. bindR (opt_string y a ''formatter'') (\<lambda>fmt.
               Inr (Some \<lparr>ad_type = 1, ad_level = UNKNOW, ad_formatter = fmt, ad_file = file\<rparr>))))
         else if type = ''StdoutLogAppender''
         then bindR (opt_string y a ''formatter'') (\<lambda>fmt.
               Inr (Some \<lparr>ad_type = 2, ad_level = UNKNOW, ad_formatter = fmt, ad_file = []\<rparr>))
         else Inr None) (\<lambda>lad.
       case lad of None \<Rightarrow> Inr None
       | Some lad \<Rightarrow> bindR (y_get y a ''level'') (\<lambda>l. case l of None \<Rightarrow> Inr (Some lad)
           | Some l \<Rightarrow> bindR (y_as y l) (\<lambda>s. Inr (Some (lad\<lparr>ad_level := FromString s\<rparr>)))))))"

primrec appenders_from :: "'n yaml \<Rightarrow> 'n \<Rightarrow> nat list \<Rightarrow> appender_define list \<Rightarrow> appender_define list res" where
  "appenders_from y n [] as = Inr as"
| "appenders_from y n (x # xs) as = bindR (y_at y n x) (\<lambda>a. bindR (appender_from y a) (\<lambda>lad.
     appenders_from y n xs (case lad of None \<Rightarrow> as | Some lad \<Rightarrow> as @ [lad])))"

definition LogDefine_from :: "'n yaml \<Rightarrow> string \<Rightarrow> log_define res" where
  "LogDefine_from y v = bindR (y_load y v) (\<lambda>n. bindR (y_get y n ''name'') (\<lambda>nm.
     case nm of None \<Rightarrow> Inl (Uncaught ''log config name is null'')
     | Some nm \<Rightarrow> bindR (y_as y nm) (\<lambda>name. bindR (opt_string y n ''level'') (\<lambda>lev.
         bindR (opt_string y n ''formatter'') (\<lambda>fmt. bindR (y_get y n ''appenders'') (\<lambda>as.
         bindR (case as of None \<Rightarrow> Inr []
           | Some as \<Rightarrow> appenders_from y as [0..<y_size y as] []) (\<lambda>ads.
         Inr \<lparr>ld_name = name, ld_level = FromString lev, ld_formatter = fmt, ld_appenders = ads\<rparr>)))))))"

section \<open>To YAML\<close>

definition set_word :: "'n yaml \<Rightarrow> string \<Rightarrow> string \<Rightarrow> 'n \<Rightarrow> 'n" where
  "set_word y k w n = y_set y n k (y_word y w)"

definition appender_node :: "'n yaml \<Rightarrow> appender_define \<Rightarrow> 'n" where
  "appender_node y a =
     (let na = y_mapping y;
          na = (if ad_type a = 1
                then set_word y ''file'' (ad_file a) (set_word y ''type'' ''FileLogAppender'' na)
                else if ad_type a = 2 then set_word y ''type'' ''StdoutLogAppender'' na else na);
          na = (if ad_level a \<noteq> UNKNOW then set_word y ''level'' (ToString (ad_level a)) na else na)
      in if ad_formatter a \<noteq> [] then set_word y ''formatter'' (ad_formatter a) na else na)"

definition define_node :: "'n yaml \<Rightarrow> log_define \<Rightarrow> 'n" where
  "define_node y i =
     (let n = set_word y ''name'' (ld_name i) (y_mapping y);
          n = (if ld_level i \<noteq> UNKNOW then set_word y ''level'' (ToString (ld_level i)) n else n);
          n = (if ld_formatter i \<noteq> [] then set_word y ''formatter'' (ld_formatter i) n else n)
      in if ld_appenders i = [] then n
         else y_set y n ''appenders''
           (foldl (y_push y) (y_sequence y) (map (appender_node y) (ld_appenders i))))"

definition LogDefine_to :: "'n yaml \<Rightarrow> log_define \<Rightarrow> string" where
  "LogDefine_to y i = y_emit y (define_node y i)"

section \<open>What is read is well formed\<close>

lemma appender_from_ok:
  "appender_from y a = Inr (Some lad) \<Longrightarrow> ad_type lad = 1 \<or> ad_type lad = 2"
  by (auto simp: appender_from_def res_simps split: option.splits if_splits)

lemma appenders_from_ok:
  "appenders_from y n xs as = Inr bs \<Longrightarrow> list_all (\<lambda>a. ad_type a = 1 \<or> ad_type a = 2) as \<Longrightarrow>
    list_all (\<lambda>a. ad_type a = 1 \<or> ad_type a = 2) bs"
proof (induction xs arbitrary: as)
  case (Cons x xs)
  then obtain a lad where "appender_from y a = Inr lad"
    "appenders_from y n xs (case lad of None \<Rightarrow> as | Some lad \<Rightarrow> as @ [lad]) = Inr bs"
    by (auto simp: res_simps)
  moreover have "list_all (\<lambda>a. ad_type a = 1 \<or> ad_type a = 2)
      (case lad of None \<Rightarrow> as | Some lad \<Rightarrow> as @ [lad])"
    using Cons.prems(2) appender_from_ok [of y a] calculation(1) by (auto split: option.split)
  ultimately show ?case using Cons.IH by blast
qed simp

lemma LogDefine_from_ok: "LogDefine_from y v = Inr i \<Longrightarrow> define_ok i"
  using appenders_from_ok [where as = "[]"]
  by (auto simp: LogDefine_from_def define_ok_def res_simps split: option.splits)

lemma cast_items_inv:
  "cast_items y from ins node is c = Inr c' \<Longrightarrow> P c \<Longrightarrow>
    (\<And>s x c. from s = Inr x \<Longrightarrow> P c \<Longrightarrow> P (ins x c)) \<Longrightarrow> P c'"
  by (induction "is" arbitrary: c) (auto simp: res_simps)

lemma LogDefine_set_from_ok:
  assumes "set_from y (LogDefine_from y) LogDefine_less v = Inr ds"
  shows "list_all define_ok ds \<and> distinct (map ld_name ds)"
proof -
  let ?P = "\<lambda>ds. list_all define_ok ds \<and> sorted_wrt string_less (map ld_name ds)"
  have "?P (snd (oset_insert LogDefine_less i ds))" if "LogDefine_from y s = Inr i" "?P ds" for s i ds
  proof -
    have "list_all define_ok (snd (oset_insert LogDefine_less i ds))"
      using LogDefine_from_ok [OF that(1)] that(2) oset_insert_set [of LogDefine_less i ds]
      unfolding list_all_iff by blast
    moreover have "map ld_name (snd (oset_insert LogDefine_less i ds)) =
        snd (oset_insert string_less (ld_name i) (map ld_name ds))"
      using oset_insert_key [of ld_name string_less i ds] by (simp add: LogDefine_less_def [abs_def])
    ultimately show ?thesis using that(2) strings.insert_sorted by simp
  qed
  moreover obtain n where "cast_items y (LogDefine_from y) (\<lambda>x vec. snd (oset_insert LogDefine_less x vec))
      n [0..<y_size y n] [] = Inr ds"
    using assms by (auto simp: set_from_def cast_sequence_def res_simps)
  ultimately have "?P ds" using cast_items_inv [where P = ?P] by fastforce
  then show ?thesis using strings.sorted_distinct by simp
qed

section \<open>Round trip\<close>

definition build :: "'n yaml \<Rightarrow> (string \<times> 'n) list \<Rightarrow> 'n" where
  "build y ps = foldl (\<lambda>n p. y_set y n (fst p) (snd p)) (y_mapping y) ps"

definition build_seq :: "'n yaml \<Rightarrow> 'n list \<Rightarrow> 'n" where
  "build_seq y ns = foldl (y_push y) (y_sequence y) ns"

text \<open>
  What is expected of nodes that have just been built: a mapping has the last value set for a
  key, a word is read as itself, a sequence has the nodes pushed.
\<close>

definition node_laws :: "'n yaml \<Rightarrow> bool" where
  "node_laws y = ((\<forall>ps k. y_get y (build y ps) k = Inr (map_of (rev ps) k)) \<and>
     (\<forall>w. y_as y (y_word y w) = Inr w) \<and>
     (\<forall>ns. y_size y (build_seq y ns) = length ns \<and>
       (\<forall>i < length ns. y_at y (build_seq y ns) i = Inr (ns ! i))))"

definition word_if :: "'n yaml \<Rightarrow> bool \<Rightarrow> string \<Rightarrow> string \<Rightarrow> (string \<times> 'n) list" where
  "word_if y b k w = (if b then [(k, y_word y w)] else [])"

lemma build_snoc: "set_word y k w (build y ps) = build y (ps @ [(k, y_word y w)])"
  by (simp add: build_def set_word_def)

lemma build_Nil: "y_mapping y = build y []"
  by (simp add: build_def)

lemma appender_node_build:
  assumes "ad_type a = 1 \<or> ad_type a = 2"
  shows "appender_node y a = build y
    ([(''type'', y_word y (if ad_type a = 1 then ''FileLogAppender'' else ''StdoutLogAppender''))] @
     word_if y (ad_type a = 1) ''file'' (ad_file a) @
     word_if y (ad_level a \<noteq> UNKNOW) ''level'' (ToString (ad_level a)) @
     word_if y (ad_formatter a \<noteq> []) ''formatter'' (ad_formatter a))"
  using assms by (auto simp: appender_node_def Let_def build_Nil build_snoc word_if_def)

lemma define_node_build:
  "define_node y i = build y ([(''name'', y_word y (ld_name i))] @
     word_if y (ld_level i \<noteq> UNKNOW) ''level'' (ToString (ld_level i)) @
     word_if y (ld_formatter i \<noteq> []) ''formatter'' (ld_formatter i) @
     (if ld_appenders i = [] then []
      else [(''appenders'', build_seq y (map (appender_node y) (ld_appenders i)))]))"
proof -
  have "y_set y (build y ps) k n = build y (ps @ [(k, n)])" for ps k n by (simp add: build_def)
  then show ?thesis
    by (simp add: define_node_def Let_def build_Nil build_snoc word_if_def build_seq_def)
qed

lemma map_of_rev_append: "map_of (rev (xs @ ys)) k =
    (case map_of (rev ys) k of None \<Rightarrow> map_of (rev xs) k | Some v \<Rightarrow> Some v)"
  by (simp add: map_add_def)

lemma map_of_word_if:
  "map_of (rev (word_if y b k w)) j = (if b \<and> j = k then Some (y_word y w) else None)"
  by (simp add: word_if_def)

lemma FromString_empty: "FromString [] = UNKNOW"
  by (simp add: FromString_def)

text \<open>An appender of a definition: the console has no file.\<close>

definition appender_plain :: "appender_define \<Rightarrow> bool" where
  "appender_plain a = (ad_type a = 1 \<or> ad_type a = 2 \<and> ad_file a = [])"

lemma appender_round:
  assumes laws: "node_laws y" and "appender_plain a"
  shows "appender_from y (appender_node y a) = Inr (Some a)"
proof -
  have t: "ad_type a = 1 \<or> ad_type a = 2" using assms(2) by (auto simp: appender_plain_def)
  let ?ps = "[(''type'', y_word y (if ad_type a = 1 then ''FileLogAppender'' else ''StdoutLogAppender''))] @
     word_if y (ad_type a = 1) ''file'' (ad_file a) @
     word_if y (ad_level a \<noteq> UNKNOW) ''level'' (ToString (ad_level a)) @
     word_if y (ad_formatter a \<noteq> []) ''formatter'' (ad_formatter a)"
  have get: "y_get y (appender_node y a) k = Inr (map_of (rev ?ps) k)" for k
    using laws by (simp only: node_laws_def appender_node_build [OF t])
  have as: "y_as y (y_word y w) = Inr w" for w using laws by (simp add: node_laws_def)
  have "map_of (rev ?ps) ''type'' =
      Some (y_word y (if ad_type a = 1 then ''FileLogAppender'' else ''StdoutLogAppender''))"
    "map_of (rev ?ps) ''file'' = (if ad_type a = 1 then Some (y_word y (ad_file a)) else None)"
    "map_of (rev ?ps) ''level'' =
      (if ad_level a \<noteq> UNKNOW then Some (y_word y (ToString (ad_level a))) else None)"
    "map_of (rev ?ps) ''formatter'' =
      (if ad_formatter a \<noteq> [] then Some (y_word y (ad_formatter a)) else None)"
    by (simp_all only: map_of_rev_append map_of_word_if) simp_all
  note f = this [folded get]
  show ?thesis
    using t assms(2) unfolding appender_from_def opt_string_def get f
    by (cases "ad_level a = UNKNOW"; cases "ad_formatter a = []"; cases a)
      (auto simp: f as FromString_ToString appender_plain_def)
qed

lemma appenders_round:
  assumes "\<forall>i < length ns. y_at y n i = Inr (ns ! i)" and "ns = map (appender_node y) as"
    and "node_laws y" and "list_all appender_plain as"
  shows "j \<le> length ns \<Longrightarrow> appenders_from y n [j..<length ns] bs = Inr (bs @ drop j as)"
proof (induction "length ns - j" arbitrary: j bs)
  case (Suc d)
  then have j: "j < length ns" "j < length as" using assms(2) by auto
  have "appender_plain (as ! j)" using assms(4) j(2) by (simp add: list_all_length)
  then have a: "appender_from y (ns ! j) = Inr (Some (as ! j))"
    using appender_round [OF assms(3)] assms(2) j by simp
  have "appenders_from y n [Suc j..<length ns] (bs @ [as ! j]) = Inr ((bs @ [as ! j]) @ drop (Suc j) as)"
    using Suc(1) [of "Suc j"] Suc(2) j by simp
  then show ?case using assms(1) j a by (simp add: upt_conv_Cons Cons_nth_drop_Suc)
qed (use assms(2) in simp)

section \<open>The variable\<close>

definition logs_codec :: "'n yaml \<Rightarrow> log_define list codec" where
  "logs_codec y = \<lparr>c_from = set_from y (LogDefine_from y) LogDefine_less,
     c_to = set_to y (Inr \<circ> LogDefine_to y), c_eq = LogDefines_eq\<rparr>"

definition logs_listener ::
    "(string \<Rightarrow> u64 \<Rightarrow> string) \<Rightarrow> log_event \<Rightarrow> bool \<Rightarrow> (log_define list, logsys) on_change" where
  "logs_listener strf e has_d old v w =
     bindR (on_logs_changed strf e has_d old v w) (\<lambda>w1. Inr (w1, None))"

lemma LogDefine_round:
  assumes laws: "node_laws y" and "y_load y (y_emit y (define_node y i)) = Inr (define_node y i)"
    and "list_all appender_plain (ld_appenders i)"
  shows "LogDefine_from y (LogDefine_to y i) = Inr i"
proof -
  let ?as = "build_seq y (map (appender_node y) (ld_appenders i))"
  let ?ps = "[(''name'', y_word y (ld_name i))] @
     word_if y (ld_level i \<noteq> UNKNOW) ''level'' (ToString (ld_level i)) @
     word_if y (ld_formatter i \<noteq> []) ''formatter'' (ld_formatter i) @
     (if ld_appenders i = [] then [] else [(''appenders'', ?as)])"
  have get: "y_get y (define_node y i) k = Inr (map_of (rev ?ps) k)" for k
    using laws by (simp only: node_laws_def define_node_build)
  have as: "y_as y (y_word y w) = Inr w" for w using laws by (simp add: node_laws_def)
  have "map_of (rev ?ps) ''name'' = Some (y_word y (ld_name i))"
    "map_of (rev ?ps) ''level'' =
      (if ld_level i \<noteq> UNKNOW then Some (y_word y (ToString (ld_level i))) else None)"
    "map_of (rev ?ps) ''formatter'' =
      (if ld_formatter i \<noteq> [] then Some (y_word y (ld_formatter i)) else None)"
    "map_of (rev ?ps) ''appenders'' = (if ld_appenders i = [] then None else Some ?as)"
    by (simp_all only: map_of_rev_append map_of_word_if) simp_all
  note f = this [folded get]
  let ?ns = "map (appender_node y) (ld_appenders i)"
  have at: "y_size y ?as = length ?ns" "\<forall>j < length ?ns. y_at y ?as j = Inr (?ns ! j)"
    using laws unfolding node_laws_def by blast+
  have ads: "appenders_from y ?as [0..<y_size y ?as] [] = Inr (ld_appenders i)"
    unfolding at(1) using appenders_round [OF at(2) refl laws assms(3), of 0 "[]"] by simp
  show ?thesis
    unfolding LogDefine_from_def LogDefine_to_def assms(2) bindR_Inr opt_string_def get f
    by (cases "ld_level i = UNKNOW"; cases "ld_formatter i = []"; cases "ld_appenders i = []")
      (simp_all add: as ads FromString_ToString FromString_empty)
qed

text \<open>
  What a definition says apart from the appenders. A definition redefines a logger when the old set
  has none of that name, or one with another level or formatter.
\<close>

definition gist :: "log_define \<Rightarrow> string \<times> level \<times> string" where
  "gist d = (ld_name d, ld_level d, ld_formatter d)"

definition redefined :: "log_define list \<Rightarrow> log_define \<Rightarrow> bool" where
  "redefined old i = (map_of (map gist old) (ld_name i) \<noteq> Some (ld_level i, ld_formatter i))"

lemma LogDefine_eq_gist: "LogDefine_eq a b \<longleftrightarrow> gist a = gist b"
  by (simp add: LogDefine_eq_def gist_def)

lemma LogDefines_eq_gist: "LogDefines_eq as bs \<longleftrightarrow> map gist as = map gist bs"
  unfolding LogDefines_eq_def by (induction as bs rule: list_induct2') (auto simp: LogDefine_eq_gist)

lemma changed_redefined: "changed old i \<longleftrightarrow> redefined old i"
  by (induction old) (auto simp: changed_def redefined_def find_define_def LogDefine_eq_gist gist_def)

lemma logs_text_lemma:
  assumes x: "cf_vars c n = Some x" and cb: "map snd (cv_cbs x) = [logs_listener strf e has_d]"
    and cdc: "cdc (cv_type x) = logs_codec y" and wf: "log_wf (cf_world c)"
  shows "\<exists>c'. fromString cdc n str c = Inr (c', False) \<and> log_wf (cf_world c') \<and>
    (case set_from y (LogDefine_from y) LogDefine_less str of Inl _ \<Rightarrow> c' = c
     | Inr ds \<Rightarrow> if map gist ds = map gist (cv_val x) then c' = c
        else cf_vars c' n = Some (x\<lparr>cv_val := ds\<rparr>) \<and>
          (\<forall>i \<in> set ds. if redefined (cv_val x) i
            then shows_define has_d i (new_formatter i (cf_world c)) (cf_world c')
            else ls_loggers (cf_world c') (ld_name i) = ls_loggers (cf_world c) (ld_name i)) \<and>
          (\<forall>i \<in> set (cv_val x). ld_name i \<notin> ld_name ` set ds \<longrightarrow> silent (cf_world c') (ld_name i)))"
proof (cases "set_from y (LogDefine_from y) LogDefine_less str")
  case (Inl e)
  then show ?thesis using x cdc wf by (simp add: fromString_def logs_codec_def)
next
  case (Inr ds)
  note ok = LogDefine_set_from_ok [OF Inr]
  show ?thesis
  proof (cases "LogDefines_eq ds (cv_val x)")
    case True
    then show ?thesis using x cdc wf Inr LogDefines_eq_gist [of ds "cv_val x"]
      by (simp add: fromString_def setValue_def logs_codec_def)
  next
    case False
    obtain w where w: "on_logs_changed strf e has_d (cv_val x) ds (cf_world c) = Inr w" "log_wf w"
      "\<forall>i \<in> set ds. changed (cv_val x) i \<longrightarrow> shows_define has_d i (new_formatter i (cf_world c)) w"
      "\<forall>i \<in> set (cv_val x). ld_name i \<notin> ld_name ` set ds \<longrightarrow> silent w (ld_name i)"
      "\<forall>n. n \<notin> ld_name ` {i \<in> set ds. changed (cv_val x) i} \<and> n \<notin> ld_name ` set (cv_val x) - ld_name ` set ds \<longrightarrow>
        ls_loggers w n = ls_loggers (cf_world c) n"
      using conf_change_lemma [OF wf, of ds strf e has_d "cv_val x"] ok by blast
    have "ls_loggers w (ld_name i) = ls_loggers (cf_world c) (ld_name i)"
      if "i \<in> set ds" "\<not> changed (cv_val x) i" for i
    proof -
      have "ld_name i \<notin> ld_name ` {j \<in> set ds. changed (cv_val x) j}"
        using ok that by (auto simp: distinct_map inj_on_def)
      then show ?thesis using w(5) that(1) by blast
    qed
    then have all: "\<forall>i \<in> set ds. if redefined (cv_val x) i
        then shows_define has_d i (new_formatter i (cf_world c)) w
        else ls_loggers w (ld_name i) = ls_loggers (cf_world c) (ld_name i)"
      using w(3) by (simp add: changed_redefined)
    have "run_cbs (map snd (cv_cbs x)) (cv_val x) ds (cf_world c) = Inr (w, None)"
      using w(1) by (simp add: cb logs_listener_def)
    then have "fromString cdc n str c =
        Inr (put_var n (x\<lparr>cv_val := ds\<rparr>) (c\<lparr>cf_world := w\<rparr>), False)"
      using x cdc Inr False by (simp add: fromString_def setValue_def logs_codec_def)
    then show ?thesis using w(2,4) all Inr False [unfolded LogDefines_eq_gist] by simp
  qed
qed

section \<open>Properties\<close>

text \<open>
  The YAML of a definition of a logger is read back as the same definition: its name,
  level, pattern and appenders, each with its kind, file, level and pattern.
\<close>

theorem LogDefine_roundtrip:
  assumes laws: "node_laws y" and "y_load y (y_emit y (define_node y i)) = Inr (define_node y i)"
    and "list_all appender_plain (ld_appenders i)"
  shows "LogDefine_from y (LogDefine_to y i) = Inr i"
  by (rule LogDefine_round [OF assms])


section \<open>Instances\<close>

text \<open>A YAML with two texts: the definition of \<open>system\<close>, and the sequence of just that.\<close>

datatype doc = DWord string | DSeq "doc list" | DMap "(string \<times> doc) list"

definition demo_node :: doc where
  "demo_node = DMap [(''name'', DWord ''system''), (''level'', DWord ''WARN''), (''appenders'', DSeq [
     DMap [(''type'', DWord ''FileLogAppender''), (''file'', DWord ''system.log''), (''level'', DWord ''ERROR'')]])]"

definition doc_yaml :: "doc yaml" where
  "doc_yaml = \<lparr>y_load = (\<lambda>s. if s = ''list'' then Inr (DSeq [demo_node]) else if s = ''system'' then Inr demo_node
       else Inl (Uncaught ''parse error'')),
     y_emit = (\<lambda>n. case n of DSeq _ \<Rightarrow> ''list'' | DMap _ \<Rightarrow> ''system'' | DWord w \<Rightarrow> w),
     y_size = (\<lambda>n. case n of DSeq ns \<Rightarrow> length ns | _ \<Rightarrow> 0),
     y_at = (\<lambda>n i. case n of DSeq ns \<Rightarrow> if i < length ns then Inr (ns ! i) else Inl (Uncaught ''bad'')
       | _ \<Rightarrow> Inl (Uncaught ''bad'')),
     y_get = (\<lambda>n k. case n of DMap ps \<Rightarrow> Inr (map_of (rev ps) k) | _ \<Rightarrow> Inl (Uncaught ''bad subscript'')),
     y_pairs = (\<lambda>n. case n of DMap ps \<Rightarrow> map (\<lambda>p. (DWord (fst p), snd p)) ps | _ \<Rightarrow> []),
     y_isMap = (\<lambda>n. case n of DMap _ \<Rightarrow> True | _ \<Rightarrow> False),
     y_isScalar = (\<lambda>n. case n of DWord _ \<Rightarrow> True | _ \<Rightarrow> False),
     y_scalar = (\<lambda>n. case n of DWord w \<Rightarrow> w | _ \<Rightarrow> []),
     y_as = (\<lambda>n. case n of DWord w \<Rightarrow> Inr w | _ \<Rightarrow> Inl (Uncaught ''bad conversion'')),
     y_word = DWord, y_sequence = DSeq [], y_mapping = DMap [],
     y_push = (\<lambda>n m. case n of DSeq ns \<Rightarrow> DSeq (ns @ [m]) | _ \<Rightarrow> DSeq [m]),
     y_set = (\<lambda>n k m. case n of DMap ps \<Rightarrow> DMap (ps @ [(k, m)]) | _ \<Rightarrow> DMap [(k, m)])\<rparr>"

lemma doc_laws: "node_laws doc_yaml"
proof -
  have "foldl (\<lambda>n p. y_set doc_yaml n (fst p) (snd p)) (DMap qs) ps = DMap (qs @ ps)" for qs ps
    by (induction ps arbitrary: qs) (simp_all add: doc_yaml_def)
  then have "build doc_yaml ps = DMap ps" for ps by (simp add: build_def doc_yaml_def)
  moreover have "foldl (y_push doc_yaml) (DSeq ms) ns = DSeq (ms @ ns)" for ms ns
    by (induction ns arbitrary: ms) (simp_all add: doc_yaml_def)
  then have "build_seq doc_yaml ns = DSeq ns" for ns by (simp add: build_seq_def doc_yaml_def)
  ultimately show ?thesis unfolding node_laws_def by (simp add: doc_yaml_def)
qed

lemma demo_define_node: "define_node doc_yaml demo_define = demo_node"
  by code_simp

theorem LogDefine_roundtrip_witness: "LogDefine_from doc_yaml (LogDefine_to doc_yaml demo_define) = Inr demo_define"
proof (rule LogDefine_roundtrip [OF doc_laws])
  show "y_load doc_yaml (y_emit doc_yaml (define_node doc_yaml demo_define)) =
      Inr (define_node doc_yaml demo_define)"
    unfolding demo_define_node by (simp add: doc_yaml_def demo_node_def)
  show "list_all appender_plain (ld_appenders demo_define)"
    by (simp add: demo_define_def appender_plain_def)
qed

definition demo_logs_config :: "(unit, log_define list, logsys) config" where
  "demo_logs_config = \<lparr>cf_vars = [''logs'' \<mapsto> \<lparr>cv_name = ''logs'', cv_description = ''logs config'', cv_type = (),
       cv_val = [], cv_cbs = [(1, logs_listener no_strf demo_event False)]\<rparr>],
     cf_fun_id = (\<lambda>t. 1), cf_world = demo_logs\<rparr>"


end
