(* ===== verification/LogDumps.thy ===== *)
theory LogDumps
  imports LogConfs
begin

text \<open>
  The dump of the loggers to YAML (\<open>toYamlString\<close> of appenders, loggers and the manager in
  \<open>sylar/log.cpp\<close>), and what becomes of it when it is read back as the variable \<open>logs\<close>.
\<close>

section \<open>The dumps\<close>

definition dump_rest :: "'n yaml \<Rightarrow> appender \<Rightarrow> 'n \<Rightarrow> string" where
  "dump_rest y x node =
     (let node = (if ap_level x \<noteq> UNKNOW then set_word y ''level'' (ToString (ap_level x)) node
            else node)
      in y_emit y (case ap_formatter x of None \<Rightarrow> node
         | Some f \<Rightarrow> if ap_hasFormatter x then set_word y ''formatter'' (lf_pattern f) node else node))"

definition Stdout_toYamlString :: "'n yaml \<Rightarrow> appender \<Rightarrow> string" where
  "Stdout_toYamlString y x = dump_rest y x (set_word y ''type'' ''StdoutLogAppender'' (y_mapping y))"

definition File_toYamlString :: "'n yaml \<Rightarrow> string \<Rightarrow> appender \<Rightarrow> string" where
  "File_toYamlString y filename x = dump_rest y x
     (set_word y ''file'' filename (set_word y ''type'' ''FileLogAppender'' (y_mapping y)))"

definition appender_dump :: "'n yaml \<Rightarrow> appender \<Rightarrow> string" where
  "appender_dump y x = (case ap_sink x of Console \<Rightarrow> Stdout_toYamlString y x
     | LogFile f \<Rightarrow> File_toYamlString y f x)"

text \<open>The loop over the appenders: each dump is loaded and pushed.\<close>

primrec push_dumps :: "'n yaml \<Rightarrow> logsys \<Rightarrow> ptr list \<Rightarrow> 'n \<Rightarrow> 'n res" where
  "push_dumps y s [] node = Inr node"
| "push_dumps y s (a # as) node = bindR (get_appender a s) (\<lambda>x.
     bindR (y_load y (appender_dump y x)) (\<lambda>n. push_dumps y s as (y_push y node n)))"

definition logger_dump :: "'n yaml \<Rightarrow> logsys \<Rightarrow> logger \<Rightarrow> string res" where
  "logger_dump y s l =
     (let node = set_word y ''name'' (lg_name l) (y_mapping y);
          node = (if lg_level l \<noteq> UNKNOW then set_word y ''level'' (ToString (lg_level l)) node
            else node);
          node = (case lg_formatter l of None \<Rightarrow> node
            | Some f \<Rightarrow> set_word y ''formatter'' (lf_pattern f) node)
      in if lg_appenders l = [] then Inr (y_emit y node)
         else bindR (push_dumps y s (lg_appenders l) (y_sequence y)) (\<lambda>as.
           Inr (y_emit y (y_set y node ''appenders'' as))))"

text \<open>The loggers of the manager, \<open>ns\<close> the keys of its map in order.\<close>

primrec push_loggers :: "'n yaml \<Rightarrow> logsys \<Rightarrow> string list \<Rightarrow> 'n \<Rightarrow> 'n res" where
  "push_loggers y s [] node = Inr node"
| "push_loggers y s (n # ns) node = bindR (get_logger n s) (\<lambda>l. bindR (logger_dump y s l) (\<lambda>t.
     bindR (y_load y t) (\<lambda>m. push_loggers y s ns (y_push y node m))))"

definition manager_dump :: "'n yaml \<Rightarrow> string list \<Rightarrow> logsys \<Rightarrow> string res" where
  "manager_dump y ns s = bindR (push_loggers y s ns (y_sequence y)) (\<lambda>node. Inr (y_emit y node))"

section \<open>The definitions that the dumps stand for\<close>

definition describe_appender :: "appender \<Rightarrow> appender_define" where
  "describe_appender x = \<lparr>ad_type = (case ap_sink x of Console \<Rightarrow> 2 | LogFile f \<Rightarrow> 1),
     ad_level = ap_level x,
     ad_formatter = (case ap_formatter x of None \<Rightarrow> []
       | Some f \<Rightarrow> if ap_hasFormatter x then lf_pattern f else []),
     ad_file = (case ap_sink x of Console \<Rightarrow> [] | LogFile f \<Rightarrow> f)\<rparr>"

definition describe_logger :: "logsys \<Rightarrow> logger \<Rightarrow> log_define" where
  "describe_logger s l = \<lparr>ld_name = lg_name l, ld_level = lg_level l,
     ld_formatter = (case lg_formatter l of None \<Rightarrow> [] | Some f \<Rightarrow> lf_pattern f),
     ld_appenders = map (describe_appender \<circ> the \<circ> ls_appenders s) (lg_appenders l)\<rparr>"

definition describe :: "logsys \<Rightarrow> string \<Rightarrow> log_define" where
  "describe s n = describe_logger s (the (ls_loggers s n))"

text \<open>
  The loggers a configuration can express: every format comes from a pattern that is not empty
  and has no error, and an appender without a format of its own has the one of its logger.
\<close>

definition from_pattern :: "formatter \<Rightarrow> bool" where
  "from_pattern f = (lf_pattern f \<noteq> [] \<and> \<not> lf_error f \<and> f = LogFormatter (lf_pattern f))"

definition expressible :: "logsys \<Rightarrow> logger \<Rightarrow> bool" where
  "expressible s l = (case lg_formatter l of None \<Rightarrow> False
     | Some f \<Rightarrow> from_pattern f \<and> (\<forall>a \<in> set (lg_appenders l). case ls_appenders s a of None \<Rightarrow> False
        | Some x \<Rightarrow> if ap_hasFormatter x then \<exists>g. ap_formatter x = Some g \<and> from_pattern g
            else ap_formatter x = Some f))"

lemma expressible_formatter: "expressible s l \<Longrightarrow> \<exists>f. lg_formatter l = Some f \<and> from_pattern f"
  by (auto simp: expressible_def split: option.splits)

lemma expressible_appender:
  assumes "expressible s l" and "lg_formatter l = Some f" and "a \<in> set (lg_appenders l)"
  shows "\<exists>x. ls_appenders s a = Some x \<and>
    (ap_hasFormatter x \<longrightarrow> (\<exists>g. ap_formatter x = Some g \<and> from_pattern g)) \<and>
    (\<not> ap_hasFormatter x \<longrightarrow> ap_formatter x = Some f)"
proof -
  have "case ls_appenders s a of None \<Rightarrow> False
      | Some x \<Rightarrow> if ap_hasFormatter x then \<exists>g. ap_formatter x = Some g \<and> from_pattern g
          else ap_formatter x = Some f"
    using assms by (simp add: expressible_def)
  then show ?thesis by (cases "ls_appenders s a") (auto split: if_splits)
qed

section \<open>A dump is the YAML of the definition\<close>

lemma appender_dump_node:
  assumes "ap_hasFormatter x \<Longrightarrow> \<exists>g. ap_formatter x = Some g \<and> lf_pattern g \<noteq> []"
  shows "appender_dump y x = y_emit y (appender_node y (describe_appender x))"
  using assms
  by (cases "ap_sink x"; cases "ap_formatter x"; cases "ap_hasFormatter x")
    (auto simp: appender_dump_def Stdout_toYamlString_def File_toYamlString_def dump_rest_def appender_node_def describe_appender_def Let_def)

text \<open>The nodes whose text is read during the dump, and what is expected of YAML for them.\<close>

definition texts_load :: "'n yaml \<Rightarrow> log_define list \<Rightarrow> bool" where
  "texts_load y ds = (sequence_read_back y (map (define_node y) ds) \<and>
     (\<forall>i \<in> set ds. y_load y (y_emit y (define_node y i)) = Inr (define_node y i) \<and>
       (\<forall>a \<in> set (ld_appenders i). y_load y (y_emit y (appender_node y a)) = Inr (appender_node y a))))"

lemma push_dumps_nodes:
  assumes "\<forall>a \<in> set as. \<exists>x. ls_appenders s a = Some x \<and>
      (ap_hasFormatter x \<longrightarrow> (\<exists>g. ap_formatter x = Some g \<and> lf_pattern g \<noteq> [])) \<and>
      y_load y (y_emit y (appender_node y (describe_appender x))) =
        Inr (appender_node y (describe_appender x))"
  shows "push_dumps y s as node = Inr (foldl (y_push y) node
    (map (appender_node y \<circ> describe_appender \<circ> the \<circ> ls_appenders s) as))"
  using assms
proof (induction as arbitrary: node)
  case (Cons a as)
  then obtain x where x: "ls_appenders s a = Some x"
    "ap_hasFormatter x \<longrightarrow> (\<exists>g. ap_formatter x = Some g \<and> lf_pattern g \<noteq> [])"
    "y_load y (y_emit y (appender_node y (describe_appender x))) =
      Inr (appender_node y (describe_appender x))" by auto
  have "appender_dump y x = y_emit y (appender_node y (describe_appender x))"
    using x(2) by (intro appender_dump_node) blast
  then show ?case using Cons x by (simp add: get_appender_def)
qed simp

lemma logger_dump_define:
  assumes "expressible s l"
    and ld: "\<forall>a \<in> set (ld_appenders (describe_logger s l)).
      y_load y (y_emit y (appender_node y a)) = Inr (appender_node y a)"
  shows "logger_dump y s l = Inr (LogDefine_to y (describe_logger s l))"
proof -
  obtain f where f: "lg_formatter l = Some f" "lf_pattern f \<noteq> []"
    using expressible_formatter [OF assms(1)] by (auto simp: from_pattern_def)
  have "\<exists>x. ls_appenders s a = Some x \<and>
      (ap_hasFormatter x \<longrightarrow> (\<exists>g. ap_formatter x = Some g \<and> lf_pattern g \<noteq> [])) \<and>
      y_load y (y_emit y (appender_node y (describe_appender x))) =
        Inr (appender_node y (describe_appender x))" if a: "a \<in> set (lg_appenders l)" for a
  proof -
    obtain x where x: "ls_appenders s a = Some x"
      "ap_hasFormatter x \<longrightarrow> (\<exists>g. ap_formatter x = Some g \<and> lf_pattern g \<noteq> [])"
      using expressible_appender [OF assms(1) f(1) a] unfolding from_pattern_def by blast
    have "describe_appender x \<in> set (ld_appenders (describe_logger s l))"
      using a x by (auto simp: describe_logger_def image_iff intro!: bexI [of _ a])
    then show ?thesis using x ld by blast
  qed
  then have "push_dumps y s (lg_appenders l) (y_sequence y) = Inr (foldl (y_push y) (y_sequence y)
      (map (appender_node y \<circ> describe_appender \<circ> the \<circ> ls_appenders s) (lg_appenders l)))"
    by (intro push_dumps_nodes) blast
  then show ?thesis
    using f by (simp add: logger_dump_def LogDefine_to_def define_node_def describe_logger_def
        Let_def comp_assoc)
qed

lemma describe_plain: "list_all appender_plain (ld_appenders (describe_logger s l))"
  by (auto simp: describe_logger_def describe_appender_def appender_plain_def list_all_iff
      split: sink.split)

lemma push_loggers_items:
  assumes "\<forall>n \<in> set ns. \<exists>l. ls_loggers s n = Some l \<and>
    logger_dump y s l = Inr (LogDefine_to y (describe s n))"
  shows "push_loggers y s ns node = push_items y (Inr \<circ> LogDefine_to y) (map (describe s) ns) node"
  using assms by (induction ns arbitrary: node) (auto simp: get_logger_def)

section \<open>Reading a dump back\<close>

lemma dump_read:
  assumes ns: "sorted_wrt string_less ns"
    and l: "\<forall>n \<in> set ns. \<exists>l. ls_loggers s n = Some l \<and> lg_name l = n \<and> expressible s l"
    and laws: "node_laws y" and tx: "texts_load y (map (describe s) ns)"
  shows "\<exists>str. manager_dump y ns s = Inr str \<and>
    set_from y (LogDefine_from y) LogDefine_less str = Inr (map (describe s) ns)"
proof -
  let ?ds = "map (describe s) ns"
  have nm: "ld_name (describe s n) = n" if "n \<in> set ns" for n
    using l that by (auto simp: describe_def describe_logger_def)
  have el: "element_read_back y (Inr \<circ> LogDefine_to y) (LogDefine_from y) i (define_node y i)"
    if "i \<in> set ?ds" for i
  proof -
    have i: "y_load y (y_emit y (define_node y i)) = Inr (define_node y i)"
      using tx that unfolding texts_load_def by blast
    have "list_all appender_plain (ld_appenders i)"
      using that describe_plain by (auto simp: describe_def)
    from LogDefine_round [OF laws i this] i show ?thesis
      by (simp add: element_read_back_def LogDefine_to_def)
  qed
  have els: "list_all2 (element_read_back y (Inr \<circ> LogDefine_to y) (LogDefine_from y)) ?ds
      (map (define_node y) ?ds)"
    using el by (simp add: list_all2_conv_all_nth)
  obtain t where t: "sequence_to y (Inr \<circ> LogDefine_to y) ?ds = Inr t"
    "cast_sequence y (LogDefine_from y) (\<lambda>x vec. snd (oset_insert LogDefine_less x vec)) [] t =
      Inr (fold (\<lambda>x vec. snd (oset_insert LogDefine_less x vec)) ?ds [])"
    using sequence_round [OF els tx [unfolded texts_load_def, THEN conjunct1],
        where ins = "\<lambda>x vec. snd (oset_insert LogDefine_less x vec)" and c = "[]"]
    by (elim exE conjE) (rule that)
  have "\<exists>l. ls_loggers s n = Some l \<and> logger_dump y s l = Inr (LogDefine_to y (describe s n))"
    if n: "n \<in> set ns" for n
  proof -
    obtain l where 1: "ls_loggers s n = Some l" "expressible s l" using l n by blast
    have "describe_logger s l = describe s n" using 1(1) by (simp add: describe_def)
    then have "describe_logger s l \<in> set ?ds" using n by simp
    then have "\<forall>a \<in> set (ld_appenders (describe_logger s l)).
        y_load y (y_emit y (appender_node y a)) = Inr (appender_node y a)"
      using tx unfolding texts_load_def by blast
    from logger_dump_define [OF 1(2) this] show ?thesis using 1(1) by (simp add: describe_def)
  qed
  then have "push_loggers y s ns (y_sequence y) =
      push_items y (Inr \<circ> LogDefine_to y) ?ds (y_sequence y)"
    by (intro push_loggers_items) blast
  then have d: "manager_dump y ns s = Inr t"
    using t(1) by (simp add: manager_dump_def sequence_to_def)
  have "sorted_wrt LogDefine_less ?ds"
    unfolding sorted_wrt_map
    by (rule sorted_wrt_mono_rel [OF _ ns]) (simp add: LogDefine_less_def nm)
  then have "fold (\<lambda>x vec. snd (oset_insert LogDefine_less x vec)) ?ds [] = ?ds"
    using fold_oset_insert [of LogDefine_less "[]" ?ds] by simp
  then show ?thesis using d t(2) by (simp add: set_from_def)
qed

lemma made_describe:
  assumes "expressible s l" and "lg_formatter l = Some f" and "a \<in> set (lg_appenders l)"
    and "ls_appenders s a = Some x"
  shows "finished f (made_appender (describe_appender x)) = x\<lparr>ap_lastTime := 0\<rparr>"
proof (cases "ap_hasFormatter x")
  case True
  then obtain g where g: "ap_formatter x = Some g" "lf_pattern g \<noteq> []" "\<not> lf_error g"
    "LogFormatter (lf_pattern g) = g"
    using expressible_appender [OF assms(1-3)] assms(4) by (auto simp: from_pattern_def)
  then show ?thesis using True
    by (cases x; cases "ap_sink x")
      (simp_all add: made_appender_def describe_appender_def Appender_new_def finished_def
        LogAppender_setFormatter_def Let_def)
next
  case False
  then have "ap_formatter x = Some f" using expressible_appender [OF assms(1-3)] assms(4) by auto
  then show ?thesis using False
    by (cases x; cases "ap_sink x")
      (simp_all add: made_appender_def describe_appender_def Appender_new_def finished_def Let_def)
qed

text \<open>A logger that shows the definition of another is configured as that one.\<close>

definition same_logger :: "logsys \<Rightarrow> logsys \<Rightarrow> string \<Rightarrow> bool" where
  "same_logger s s' n = (case (ls_loggers s n, ls_loggers s' n) of
     (Some l, Some l') \<Rightarrow> lg_level l' = lg_level l \<and> lg_formatter l' = lg_formatter l \<and>
       map (settings s') (lg_appenders l') = map (settings s) (lg_appenders l)
   | _ \<Rightarrow> False)"

lemma shows_describe:
  assumes l: "ls_loggers s n = Some l" "lg_name l = n" "expressible s l"
    and sh: "shows_define False (describe s n) (new_formatter (describe s n) w) s'"
  shows "same_logger s s' n"
proof -
  obtain f where f: "lg_formatter l = Some f" "from_pattern f"
    using expressible_formatter [OF l(3)] by blast
  have i: "ld_name (describe s n) = n" "ld_level (describe s n) = lg_level l"
    "ld_formatter (describe s n) = lf_pattern f"
    "ld_appenders (describe s n) = map (describe_appender \<circ> the \<circ> ls_appenders s) (lg_appenders l)"
    using l f by (simp_all add: describe_def describe_logger_def)
  have nf: "new_formatter (describe s n) w = f"
    using f(2) by (simp add: new_formatter_def i from_pattern_def)
  obtain l' where l': "ls_loggers s' n = Some l'" "lg_level l' = lg_level l" "lg_formatter l' = Some f"
    "map (ls_appenders s') (lg_appenders l') = map Some (defined_appenders False f (describe s n))"
    using sh by (auto simp: shows_define_def i nf split: option.splits)
  have ap: "\<exists>x. ls_appenders s a = Some x" if "a \<in> set (lg_appenders l)" for a
    using expressible_appender [OF l(3) f(1) that] by blast
  have "Not \<circ> skipped False = (\<lambda>_. True)" by (simp add: skipped_def fun_eq_iff)
  then have "defined_appenders False f (describe s n) =
      map (\<lambda>a. finished f (made_appender (describe_appender (the (ls_appenders s a))))) (lg_appenders l)"
    by (simp add: defined_appenders_def i)
  also have "\<dots> = map (\<lambda>a. (the (ls_appenders s a))\<lparr>ap_lastTime := 0\<rparr>) (lg_appenders l)"
    using made_describe [OF l(3) f(1)] ap by fastforce
  finally have "map (settings s') (lg_appenders l') =
      map (map_option (\<lambda>x. x\<lparr>ap_lastTime := 0\<rparr>) \<circ> Some)
        (map (\<lambda>a. (the (ls_appenders s a))\<lparr>ap_lastTime := 0\<rparr>) (lg_appenders l))"
    using l'(4) by (metis (no_types, lifting) map_map settings_def comp_def map_eq_conv)
  also have "\<dots> = map (settings s) (lg_appenders l)"
    using ap by (fastforce simp: settings_def)
  finally show ?thesis using l(1) l' f by (simp add: same_logger_def)
qed

section \<open>Properties\<close>

text \<open>
  C13. A dump of the loggers restores them: the text that the manager writes, set as the value of
  the variable \<open>logs\<close> in a program that has no definitions yet, brings about every logger with
  the level, the format and the appenders it had, in order, each with its kind, file, level and
  format.
\<close>

theorem dump_restores:
  assumes ns: "sorted_wrt string_less ns" "ns \<noteq> []"
    and s: "\<forall>n \<in> set ns. \<exists>l. ls_loggers s n = Some l \<and> lg_name l = n \<and> expressible s l"
    and y: "node_laws y" "texts_load y (map (describe s) ns)"
    and c: "cf_vars c v = Some x" "cv_val x = []" "map snd (cv_cbs x) = [logs_listener strf e False]"
      "cdc (cv_type x) = logs_codec y" "log_wf (cf_world c)"
  shows "\<exists>str c'. manager_dump y ns s = Inr str \<and> fromString cdc v str c = Inr (c', False) \<and>
    log_wf (cf_world c') \<and> (\<forall>n \<in> set ns. same_logger s (cf_world c') n)"
proof -
  let ?ds = "map (describe s) ns"
  obtain str where str: "manager_dump y ns s = Inr str"
    "set_from y (LogDefine_from y) LogDefine_less str = Inr ?ds"
    using dump_read [OF ns(1) s y] by blast
  have ne: "map gist ?ds \<noteq> map gist (cv_val x)" using ns(2) by (simp add: c(2))
  have ch: "redefined (cv_val x) i" for i by (simp add: c(2) redefined_def)
  obtain c' where c': "fromString cdc v str c = Inr (c', False)" "log_wf (cf_world c')"
    "\<forall>i \<in> set ?ds. shows_define False i (new_formatter i (cf_world c)) (cf_world c')"
    using logs_text_lemma [where cdc = cdc and y = y and str = str, OF c(1,3,4,5)] str(2) ne ch by auto
  have "same_logger s (cf_world c') n" if n: "n \<in> set ns" for n
  proof -
    obtain l where "ls_loggers s n = Some l" "lg_name l = n" "expressible s l" using s n by blast
    from shows_describe [OF this] show ?thesis using c'(3) n by auto
  qed
  then show ?thesis using str(1) c'(1,2) by blast
qed

section \<open>An instance\<close>

text \<open>
  The root logger writing to the console, and a logger \<open>system\<close> with a file whose lines have a
  format of their own; a YAML that knows the texts of these.
\<close>

definition dump_logs :: logsys where
  "dump_logs = \<lparr>ls_loggers = [
       ''root'' \<mapsto> (Logger_new ''root'')\<lparr>lg_appenders := [0], lg_formatter := Some (LogFormatter ''%m'')\<rparr>,
       ''system'' \<mapsto> (Logger_new ''system'')\<lparr>lg_level := WARN, lg_appenders := [1],
          lg_formatter := Some (LogFormatter ''%m''), lg_root := True\<rparr>],
     ls_appenders = [0 \<mapsto> (Appender_new Console)\<lparr>ap_formatter := Some (LogFormatter ''%m'')\<rparr>,
       1 \<mapsto> (Appender_new (LogFile ''system.log''))\<lparr>ap_level := ERROR, ap_hasFormatter := True,
          ap_formatter := Some (LogFormatter ''%p''), ap_lastTime := 5\<rparr>],
     ls_next = 2, ls_out = []\<rparr>"

definition dump_table :: "(string \<times> doc) list" where
  "dump_table = (let a = DMap [(''type'', DWord ''StdoutLogAppender''), (''level'', DWord ''DEBUG'')];
       b = DMap [(''type'', DWord ''FileLogAppender''), (''file'', DWord ''system.log''),
             (''level'', DWord ''ERROR''), (''formatter'', DWord ''%p'')];
       r = DMap [(''name'', DWord ''root''), (''level'', DWord ''DEBUG''), (''formatter'', DWord ''%m''),
             (''appenders'', DSeq [a])];
       s = DMap [(''name'', DWord ''system''), (''level'', DWord ''WARN''), (''formatter'', DWord ''%m''),
             (''appenders'', DSeq [b])]
     in [(''a'', a), (''b'', b), (''r'', r), (''s'', s), (''all'', DSeq [r, s])])"

definition dump_load :: "string \<Rightarrow> doc res" where
  "dump_load t = (case map_of dump_table t of Some n \<Rightarrow> Inr n | None \<Rightarrow> Inl (Uncaught ''parse error''))"

definition dump_emit :: "doc \<Rightarrow> string" where
  "dump_emit n = (case map_of (map (\<lambda>p. (snd p, fst p)) dump_table) n of Some t \<Rightarrow> t | None \<Rightarrow> ''?'')"

definition dump_yaml :: "doc yaml" where
  "dump_yaml = doc_yaml\<lparr>y_load := dump_load, y_emit := dump_emit\<rparr>"

lemma dump_laws: "node_laws dump_yaml"
  using doc_laws by (simp add: node_laws_def build_def build_seq_def dump_yaml_def)

lemma dump_expressible:
  "\<forall>n \<in> set [''root'', ''system'']. \<exists>l. ls_loggers dump_logs n = Some l \<and> lg_name l = n \<and>
    expressible dump_logs l"
proof -
  have "from_pattern (LogFormatter ''%m'')" by code_simp
  moreover have "from_pattern (LogFormatter ''%p'')" by code_simp
  ultimately show ?thesis by (simp add: dump_logs_def Logger_new_def Appender_new_def expressible_def)
qed

lemma dump_texts: "texts_load dump_yaml (map (describe dump_logs) [''root'', ''system''])"
proof -
  let ?ds = "map (describe dump_logs) [''root'', ''system'']"
  have "sequence_read_back dump_yaml (map (define_node dump_yaml) ?ds)" by code_simp
  moreover have "list_all (\<lambda>i. dump_load (dump_emit (define_node dump_yaml i)) = Inr (define_node dump_yaml i) \<and>
      list_all (\<lambda>a. dump_load (dump_emit (appender_node dump_yaml a)) = Inr (appender_node dump_yaml a))
        (ld_appenders i)) ?ds" by code_simp
  moreover have "y_load dump_yaml = dump_load" "y_emit dump_yaml = dump_emit"
    by (simp_all add: dump_yaml_def)
  ultimately show ?thesis by (simp only: texts_load_def list_all_iff)
qed

theorem dump_restores_witness:
  "\<exists>str c'. manager_dump dump_yaml [''root'', ''system''] dump_logs = Inr str \<and>
    fromString (\<lambda>t. logs_codec dump_yaml) ''logs'' str demo_logs_config = Inr (c', False) \<and>
    same_logger dump_logs (cf_world c') ''root'' \<and> same_logger dump_logs (cf_world c') ''system''"
proof -
  obtain x where x: "cf_vars demo_logs_config ''logs'' = Some x" "cv_val x = []"
    "map snd (cv_cbs x) = [logs_listener no_strf demo_event False]"
    by (simp add: demo_logs_config_def)
  have w: "log_wf (cf_world demo_logs_config)" using demo_logs_wf by (simp add: demo_logs_config_def)
  have "sorted_wrt string_less [''root'', ''system'']" by code_simp
  from dump_restores [where cdc = "\<lambda>t. logs_codec dump_yaml" and y = dump_yaml,
      OF this _ dump_expressible dump_laws dump_texts x refl w]
  show ?thesis by simp blast
qed

end
