(* ===== verification/LogLines.thy ===== *)
theory LogLines
  imports Loggers
begin

text \<open>
  Log statements: the macros of \<open>sylar/log.h\<close>, which make an event, collect its text and log
  it when the statement ends, down to the line that comes out.
\<close>

section \<open>Statements\<close>

definition LogEvent_new :: "string \<Rightarrow> level \<Rightarrow> string \<Rightarrow> int \<Rightarrow> u32 \<Rightarrow> u64 \<Rightarrow> u64 \<Rightarrow> u64 \<Rightarrow> string \<Rightarrow> log_event" where
  "LogEvent_new lg lev file line elapse thread_id fiber_id time thread_name =
     \<lparr>le_file = file, le_line = line, le_elapse = elapse, le_threadId = thread_id,
      le_fiberId = fiber_id, le_time = time, le_threadName = thread_name, le_content = [],
      le_level = lev, le_logger = lg\<rparr>"

text \<open>\<open>getSS() << msg\<close>, and the destructor of the wrapper, which logs the event.\<close>

definition getSS_put :: "string \<Rightarrow> log_event \<Rightarrow> log_event" where
  "getSS_put msg e = e\<lparr>le_content := le_content e @ msg\<rparr>"

text \<open>\<open>format(fmt, al)\<close>: \<open>printed\<close> is the text \<open>vasprintf\<close> makes, if it makes one.\<close>

definition LogEvent_format :: "string option \<Rightarrow> log_event \<Rightarrow> log_event" where
  "LogEvent_format printed e = (case printed of None \<Rightarrow> e | Some buf \<Rightarrow> getSS_put buf e)"

definition LogEventWrap_delete :: "(string \<Rightarrow> u64 \<Rightarrow> string) \<Rightarrow> log_event \<Rightarrow> logsys \<Rightarrow> logsys res" where
  "LogEventWrap_delete strf e s = Logger_log 1 strf e (le_logger e) s"

text \<open>What a statement reads of the thread it is in: the clock and who is running.\<close>

record context_info =
  ci_thread :: u64
  ci_fiber :: u64
  ci_time :: u64
  ci_name :: string

definition SYLAR_LOG_LEVEL :: "(string \<Rightarrow> u64 \<Rightarrow> string) \<Rightarrow> string \<Rightarrow> level \<Rightarrow> string \<Rightarrow> int \<Rightarrow> context_info \<Rightarrow>
    string \<Rightarrow> logsys \<Rightarrow> logsys res" where
  "SYLAR_LOG_LEVEL strf lg lev file line i msg s = LogEventWrap_delete strf
     (getSS_put msg (LogEvent_new lg lev file line 0 (ci_thread i) (ci_fiber i) (ci_time i) (ci_name i))) s"

definition SYLAR_LOG_NAME :: "string \<Rightarrow> logsys \<Rightarrow> string \<times> logsys" where
  "SYLAR_LOG_NAME name s = (name, getLogger name s)"

text \<open>\<open>SYLAR_LOG_LEVEL(SYLAR_LOG_NAME(name), level) << msg\<close>.\<close>

definition log_statement :: "(string \<Rightarrow> u64 \<Rightarrow> string) \<Rightarrow> string \<Rightarrow> level \<Rightarrow> string \<Rightarrow> int \<Rightarrow> context_info \<Rightarrow>
    string \<Rightarrow> logsys \<Rightarrow> logsys res" where
  "log_statement strf name lev file line i msg s =
     (case SYLAR_LOG_NAME name s of (lg, s1) \<Rightarrow> SYLAR_LOG_LEVEL strf lg lev file line i msg s1)"

text \<open>The text of an event is what has been put into it, in order, by either way.\<close>

lemma event_text:
  "le_content (fold (\<lambda>m e. case m of Inl t \<Rightarrow> getSS_put t e | Inr p \<Rightarrow> LogEvent_format p e) ms e) =
    le_content e @ concat (map (\<lambda>m. case m of Inl t \<Rightarrow> t | Inr p \<Rightarrow> (case p of None \<Rightarrow> [] | Some t \<Rightarrow> t)) ms)"
proof (induction ms arbitrary: e)
  case (Cons m ms)
  then show ?case by (auto simp: LogEvent_format_def getSS_put_def split: sum.split option.split)
qed simp

section \<open>The line of a new logger\<close>

lemma default_format_items: "lf_items (LogFormatter default_pattern) = default_items"
  by code_simp

abbreviation tab :: string where
  "tab \<equiv> [CHR 0x09]"

definition default_line :: "(string \<Rightarrow> u64 \<Rightarrow> string) \<Rightarrow> string \<Rightarrow> level \<Rightarrow> string \<Rightarrow> int \<Rightarrow> context_info \<Rightarrow>
    string \<Rightarrow> string" where
  "default_line strf name lev file line i msg =
     strf ''%Y-%m-%d %H:%M:%S'' (ci_time i) @ tab @ to_string (unat (ci_thread i)) @ tab @ ci_name i @ tab @
     to_string (unat (ci_fiber i)) @ tab @ ''['' @ ToString lev @ '']'' @ tab @ ''['' @ name @ '']'' @ tab @
     file @ '':'' @ int_string line @ tab @ msg @ [CHR 0x0A]"

lemma default_format:
  "format_event strf (LogFormatter default_pattern)
     (getSS_put msg (LogEvent_new name lev file line 0 (ci_thread i) (ci_fiber i) (ci_time i) (ci_name i))) =
   default_line strf name lev file line i msg"
  by (simp add: format_event_def default_format_items default_items_def default_line_def getSS_put_def
      LogEvent_new_def)

text \<open>The manager as it is made: the root logger with the console and the file of errors.\<close>

lemma LoggerManager_new_eq:
  "LoggerManager_new = Inr \<lparr>ls_loggers = [''root'' \<mapsto> (Logger_new ''root'')\<lparr>lg_appenders := [0, 1]\<rparr>],
     ls_appenders = [0 \<mapsto> (Appender_new Console)\<lparr>ap_formatter := Some (LogFormatter default_pattern)\<rparr>,
       1 \<mapsto> (Appender_new (LogFile ''./log/root_error.log''))
         \<lparr>ap_level := ERROR, ap_formatter := Some (LogFormatter default_pattern)\<rparr>],
     ls_next = 2, ls_out = []\<rparr>"
  by (simp add: LoggerManager_new_def new_appender_def addAppender_def get_logger_def get_appender_def
      put_appender_def put_logger_def Appender_new_def Logger_new_def)

section \<open>Properties\<close>

text \<open>
  Out of the box a log statement through any name writes one line to the console, with the
  time, the thread, its name, the fiber, the level, the name of the logger, the place and the
  text, and the same line to the file of errors when its level is at least \<open>ERROR\<close>.
\<close>

theorem default_log_line:
  assumes "LoggerManager_new = Inr s" and "lev \<noteq> UNKNOW"
  shows "\<exists>s'. log_statement strf name lev file line i msg s = Inr s' \<and>
    ls_loggers s' = ls_loggers (getLogger name s) \<and>
    ls_out s' = (Console, default_line strf name lev file line i msg) #
      (if ERROR \<le> lev then [(LogFile ''./log/root_error.log'', default_line strf name lev file line i msg)]
       else [])"
proof -
  let ?e = "getSS_put msg (LogEvent_new name lev file line 0 (ci_thread i) (ci_fiber i) (ci_time i) (ci_name i))"
  let ?s = "getLogger name s"
  have e: "le_logger ?e = name" "le_level ?e = lev" by (simp_all add: getSS_put_def LogEvent_new_def)
  have s: "log_wf s" using LoggerManager_new_wf assms(1) by (metis sum.inject(2))
  then have wf: "log_wf ?s" using getLogger_keeps [of s name] by (simp add: keeps_def)
  obtain l where l: "ls_loggers ?s name = Some l" using getLogger_Some by blast
  have d: "DEBUG \<le> lev" using assms(2) by (cases lev) (simp_all add: less_eq_level_def)
  have seq: "s = \<lparr>ls_loggers = [''root'' \<mapsto> (Logger_new ''root'')\<lparr>lg_appenders := [0, 1]\<rparr>],
     ls_appenders = [0 \<mapsto> (Appender_new Console)\<lparr>ap_formatter := Some (LogFormatter default_pattern)\<rparr>,
       1 \<mapsto> (Appender_new (LogFile ''./log/root_error.log''))
         \<lparr>ap_level := ERROR, ap_formatter := Some (LogFormatter default_pattern)\<rparr>],
     ls_next = 2, ls_out = []\<rparr>"
    by (rule Inr_inject [OF trans [OF sym [OF assms(1)] LoggerManager_new_eq]])
  have t: "log_targets ?s lev name = [0, 1]" using d
    by (cases "name = ''root''") (simp_all add: seq getLogger_def log_targets_def own_targets_def put_logger_def Logger_new_def)
  have o: "ls_out ?s = []" "ls_appenders ?s = ls_appenders s"
    by (simp_all add: seq getLogger_def put_logger_def)
  have x0: "ls_appenders ?s 0 = Some ((Appender_new Console)\<lparr>ap_formatter := Some (LogFormatter default_pattern)\<rparr>)"
    and x1: "ls_appenders ?s 1 = Some ((Appender_new (LogFile ''./log/root_error.log''))
         \<lparr>ap_level := ERROR, ap_formatter := Some (LogFormatter default_pattern)\<rparr>)"
    unfolding o(2) by (simp_all add: seq)
  have "written strf ?e ?s 0 = [(Console, default_line strf name lev file line i msg)]"
    using d unfolding written_def settings_def x0 by (simp add: e(2) Appender_new_def default_format)
  moreover have "written strf ?e ?s 1 = (if ERROR \<le> lev
      then [(LogFile ''./log/root_error.log'', default_line strf name lev file line i msg)] else [])"
    unfolding written_def settings_def x1 by (simp add: e(2) Appender_new_def default_format)
  ultimately show ?thesis
    using Logger_log_lemma [OF wf l, of strf ?e] e t o(1)
    by (auto simp: log_statement_def SYLAR_LOG_NAME_def SYLAR_LOG_LEVEL_def LogEventWrap_delete_def)
qed

theorem default_log_line_witness:
  "\<exists>s s'. LoggerManager_new = Inr s \<and>
    log_statement (\<lambda>f t. ''now'') ''system'' WARN ''main.cpp'' 7
      \<lparr>ci_thread = 12, ci_fiber = 3, ci_time = 0, ci_name = ''w0''\<rparr> ''hello'' s = Inr s' \<and>
    map (map (\<lambda>c. if c = CHR 0x09 then CHR '' '' else c) \<circ> snd) (ls_out s') =
      [''now 12 w0 3 [WARN] [system] main.cpp:7 hello'' @ [CHR 0x0A]]"
proof -
  let ?i = "\<lparr>ci_thread = 12, ci_fiber = 3, ci_time = 0, ci_name = ''w0''\<rparr>"
  obtain s where s: "LoggerManager_new = Inr s" using LoggerManager_new_wf by blast
  obtain s' where s': "log_statement (\<lambda>f t. ''now'') ''system'' WARN ''main.cpp'' 7 ?i ''hello'' s = Inr s'"
    "ls_out s' = [(Console, default_line (\<lambda>f t. ''now'') ''system'' WARN ''main.cpp'' 7 ?i ''hello'')]"
    using default_log_line [OF s, of WARN "\<lambda>f t. ''now''" "''system''" "''main.cpp''" 7 ?i "''hello''"]
    by (auto simp: less_eq_level_def)
  have "map (\<lambda>c. if c = CHR 0x09 then CHR '' '' else c)
      (default_line (\<lambda>f t. ''now'') ''system'' WARN ''main.cpp'' 7 ?i ''hello'') =
    ''now 12 w0 3 [WARN] [system] main.cpp:7 hello'' @ [CHR 0x0A]" by code_simp
  then show ?thesis using s s' by auto
qed

end
