(* ===== verification/Deadlocks.thy ===== *)
theory Deadlocks
  imports Locks
begin

text \<open>
  Threads that take several locks at a time, as the guards of \<open>sylar/mutex.h\<close> do: what it takes
  that they never wait for each other for ever.
\<close>

section \<open>The machine\<close>

text \<open>
  A thread is the list of what it has left to do: to lock, to unlock, and commands that work on
  the shared data. A command gives what the thread does next, before the rest.
\<close>

datatype ('l, 'c) instr = Acquire 'l | Release 'l | Cmd 'c

type_synonym ('l, 'c, 's) exec = "tid \<Rightarrow> 'c \<Rightarrow> 's \<Rightarrow> ('s \<times> ('l, 'c) instr list) res"

record ('l, 'm, 'c, 's) machine =
  mc_locks :: "'l \<Rightarrow> 'm"
  mc_data :: 's
  mc_progs :: "('l, 'c) instr list list"
  mc_fault :: "fault option"

definition machine_new :: "'m \<Rightarrow> 's \<Rightarrow> ('l, 'c) instr list list \<Rightarrow> ('l, 'm, 'c, 's) machine" where
  "machine_new free s ps = \<lparr>mc_locks = (\<lambda>l. free), mc_data = s, mc_progs = ps, mc_fault = None\<rparr>"

definition goes_on :: "tid \<Rightarrow> ('l, 'c) instr list \<Rightarrow> ('l, 'm, 'c, 's) machine \<Rightarrow> ('l, 'm, 'c, 's) machine" where
  "goes_on t p c = c\<lparr>mc_progs := (mc_progs c)[t := p]\<rparr>"

definition set_lock :: "'l \<Rightarrow> 'm \<Rightarrow> ('l, 'm, 'c, 's) machine \<Rightarrow> ('l, 'm, 'c, 's) machine" where
  "set_lock l m c = c\<lparr>mc_locks := (mc_locks c)(l := m)\<rparr>"

text \<open>One instruction; \<open>None\<close> when there is none left, or when the lock is not to be had now.\<close>

definition instr_step :: "(tid \<Rightarrow> 'm \<Rightarrow> 'm option) \<Rightarrow> (tid \<Rightarrow> 'm \<Rightarrow> 'm res) \<Rightarrow> ('l, 'c, 's) exec \<Rightarrow> tid \<Rightarrow>
    ('l, 'c) instr \<Rightarrow> ('l, 'c) instr list \<Rightarrow> ('l, 'm, 'c, 's) machine \<Rightarrow> ('l, 'm, 'c, 's) machine option" where
  "instr_step lock unlock exec t i p c = (case i of
       Acquire l \<Rightarrow> map_option (\<lambda>m. goes_on t p (set_lock l m c)) (lock t (mc_locks c l))
     | Release l \<Rightarrow> Some (case unlock t (mc_locks c l) of
           Inl f \<Rightarrow> c\<lparr>mc_fault := Some f\<rparr> | Inr m \<Rightarrow> goes_on t p (set_lock l m c))
     | Cmd x \<Rightarrow> Some (case exec t x (mc_data c) of
           Inl f \<Rightarrow> c\<lparr>mc_fault := Some f\<rparr> | Inr (s, q) \<Rightarrow> goes_on t (q @ p) (c\<lparr>mc_data := s\<rparr>)))"

definition thread_step :: "(tid \<Rightarrow> 'm \<Rightarrow> 'm option) \<Rightarrow> (tid \<Rightarrow> 'm \<Rightarrow> 'm res) \<Rightarrow> ('l, 'c, 's) exec \<Rightarrow> tid \<Rightarrow>
    ('l, 'm, 'c, 's) machine \<Rightarrow> ('l, 'm, 'c, 's) machine option" where
  "thread_step lock unlock exec t c = (if length (mc_progs c) \<le> t then None else case mc_progs c ! t of
       [] \<Rightarrow> None | i # p \<Rightarrow> instr_step lock unlock exec t i p c)"

text \<open>The scope of a guard.\<close>

definition guarded :: "'l \<Rightarrow> ('l, 'c) instr list \<Rightarrow> ('l, 'c) instr list" where
  "guarded l p = Acquire l # p @ [Release l]"

section \<open>Locks taken in order\<close>

text \<open>
  The locks a thread holds after \<open>p\<close>, when it holds \<open>H\<close> before, and takes each lock only when all
  it holds are of a lower rank. \<open>held\<close> says so of the commands.
\<close>

fun seg :: "('l \<Rightarrow> nat) \<Rightarrow> ('s \<Rightarrow> 'l set \<Rightarrow> 'c \<Rightarrow> 'l set option) \<Rightarrow> 's \<Rightarrow> 'l set \<Rightarrow> ('l, 'c) instr list \<Rightarrow>
    'l set option" where
  "seg rank held s H [] = Some H"
| "seg rank held s H (Acquire l # p) =
     (if \<forall>h \<in> H. rank h < rank l then seg rank held s (insert l H) p else None)"
| "seg rank held s H (Release l # p) = (if l \<in> H then seg rank held s (H - {l}) p else None)"
| "seg rank held s H (Cmd c # p) = (case held s H c of None \<Rightarrow> None | Some H' \<Rightarrow> seg rank held s H' p)"

lemma seg_append:
  "seg rank held s H (q @ p) =
    (case seg rank held s H q of None \<Rightarrow> None | Some H' \<Rightarrow> seg rank held s H' p)"
  by (induction rank held s H q rule: seg.induct) (auto split: option.split)

lemma seg_guarded:
  "\<forall>h \<in> H. rank h < rank l \<Longrightarrow> seg rank held s (insert l H) p = Some (insert l H) \<Longrightarrow>
    seg rank held s H (guarded l p) = Some H"
  by (auto simp: guarded_def seg_append insert_Diff_if)

definition holds_lock :: "(tid \<Rightarrow> 'l set) \<Rightarrow> 'l \<Rightarrow> (unit \<times> tid) set" where
  "holds_lock H l = {((), t) | t. l \<in> H t}"

lemma holds_lock_iff: "(u, t) \<in> holds_lock H l \<longleftrightarrow> l \<in> H t"
  by (auto simp: holds_lock_def)

text \<open>
  The contract: \<open>inv\<close> holds of the data, a command that is run where \<open>held\<close> allows it succeeds,
  keeps the invariant and goes on with allowed instructions, and what other threads do to the
  data (\<open>grows\<close>) takes no permission away.
\<close>

locale lock_order = lockable "\<lambda>_ :: unit. lock" unlock repr "\<lambda>_ _. False" s0
  for lock :: "tid \<Rightarrow> 'm \<Rightarrow> 'm option" and unlock :: "tid \<Rightarrow> 'm \<Rightarrow> 'm res"
    and repr :: "'m \<Rightarrow> (unit \<times> tid) set \<Rightarrow> bool" and s0 :: 'm +
  fixes exec :: "('l, 'c, 's) exec" and rank :: "'l \<Rightarrow> nat" and inv :: "'s \<Rightarrow> bool"
    and grows :: "'s \<Rightarrow> 's \<Rightarrow> bool" and held :: "'s \<Rightarrow> 'l set \<Rightarrow> 'c \<Rightarrow> 'l set option"
  assumes cmd: "inv s \<Longrightarrow> held s H c = Some H' \<Longrightarrow>
      \<exists>s' q. exec t c s = Inr (s', q) \<and> inv s' \<and> grows s s' \<and> seg rank held s' H q = Some H'"
    and stable: "grows s s' \<Longrightarrow> held s H c = Some H' \<Longrightarrow> held s' H c = Some H'"
begin

lemma seg_stable:
  "grows s s' \<Longrightarrow> seg rank held s H p = Some H' \<Longrightarrow> seg rank held s' H p = Some H'"
proof (induction p arbitrary: H)
  case (Cons i p)
  then show ?case
    using stable [OF Cons.prems(1)] by (cases i) (auto split: option.splits if_splits)
qed simp

definition machine_ok :: "('l, 'm, 'c, 's) machine \<Rightarrow> (tid \<Rightarrow> 'l set) \<Rightarrow> bool" where
  "machine_ok c H = (mc_fault c = None \<and> inv (mc_data c) \<and>
     (\<forall>t < length (mc_progs c). seg rank held (mc_data c) (H t) (mc_progs c ! t) = Some {}) \<and>
     (\<forall>t. length (mc_progs c) \<le> t \<longrightarrow> H t = {}) \<and> (\<forall>l. repr (mc_locks c l) (holds_lock H l)))"

lemma machine_okD:
  assumes "machine_ok c H"
  shows "mc_fault c = None" "inv (mc_data c)"
    "t < length (mc_progs c) \<Longrightarrow> seg rank held (mc_data c) (H t) (mc_progs c ! t) = Some {}"
    "length (mc_progs c) \<le> t \<Longrightarrow> H t = {}" "repr (mc_locks c l) (holds_lock H l)"
  using assms by (auto simp: machine_ok_def)

lemma machine_new_ok: "inv s \<Longrightarrow> (\<And>p. p \<in> set ps \<Longrightarrow> seg rank held s {} p = Some {}) \<Longrightarrow>
    machine_ok (machine_new s0 s ps) (\<lambda>t. {})"
  using new by (simp add: machine_ok_def machine_new_def holds_lock_def)

lemma begin_ok:
  assumes "machine_ok c H" and "mc_progs c ! t = []" and "t < length (mc_progs c)"
    and "seg rank held (mc_data c) {} p = Some {}"
  shows "machine_ok (goes_on t p c) H"
proof -
  have "H t = {}" using machine_okD(3) [OF assms(1,3)] assms(2) by simp
  then show ?thesis using assms by (auto simp: machine_ok_def goes_on_def nth_list_update)
qed

lemma instr_ok:
  assumes ok: "machine_ok c H" and t: "t < length (mc_progs c)" "mc_progs c ! t = i # p"
    and step: "instr_step lock unlock exec t i p c = Some c'"
  shows "\<exists>H'. machine_ok c' H' \<and> (\<exists>p'. mc_progs c' = (mc_progs c)[t := p'])"
proof -
  note okD = machine_okD [OF ok] and sg = machine_okD(3) [OF ok t(1), unfolded t(2)]
  have other: "seg rank held s (H u) (mc_progs c ! u) = Some {}" if "u < length (mc_progs c)" "grows (mc_data c) s" for u s
    by (rule seg_stable [OF that(2) okD(3) [OF that(1)]])
  show ?thesis
  proof (cases i)
    case (Acquire l)
    obtain m where m: "lock t (mc_locks c l) = Some m" "c' = goes_on t p (set_lock l m c)"
      using step Acquire by (auto simp: instr_step_def)
    have lt: "\<forall>h \<in> H t. rank h < rank l" and s: "seg rank held (mc_data c) (insert l (H t)) p = Some {}"
      using sg Acquire by (simp_all split: if_splits)
    let ?H = "H(t := insert l (H t))"
    have n: "t \<notin> snd ` holds_lock H l" using lt by (auto simp: holds_lock_def)
    have "holds_lock ?H k = (if k = l then insert ((), t) (holds_lock H l) else holds_lock H k)" for k
      by (auto simp: holds_lock_def)
    then have "machine_ok c' ?H"
      using ok t(1) s take_repr [OF okD(5) n m(1)]
      by (auto simp: machine_ok_def m(2) goes_on_def set_lock_def nth_list_update)
    then show ?thesis using m(2) by (auto simp: goes_on_def set_lock_def)
  next
    case (Release l)
    have l: "l \<in> H t" and s: "seg rank held (mc_data c) (H t - {l}) p = Some {}"
      using sg Release by (simp_all split: if_splits)
    have "((), t) \<in> holds_lock H l" using l by (simp add: holds_lock_iff)
    then obtain m where m: "unlock t (mc_locks c l) = Inr m" "repr m (holds_lock H l - {((), t)})"
      using free_repr [OF okD(5)] by blast
    have c': "c' = goes_on t p (set_lock l m c)" using step Release m(1) by (simp add: instr_step_def)
    let ?H = "H(t := H t - {l})"
    have "holds_lock ?H k = (if k = l then holds_lock H l - {((), t)} else holds_lock H k)" for k
      by (auto simp: holds_lock_def)
    then have "machine_ok c' ?H"
      using ok t(1) s m(2) by (auto simp: machine_ok_def c' goes_on_def set_lock_def nth_list_update)
    then show ?thesis using c' by (auto simp: goes_on_def set_lock_def)
  next
    case (Cmd x)
    obtain H' where h: "held (mc_data c) (H t) x = Some H'" "seg rank held (mc_data c) H' p = Some {}"
      using sg Cmd by (auto split: option.splits)
    obtain s q where e: "exec t x (mc_data c) = Inr (s, q)" "inv s" "grows (mc_data c) s"
      "seg rank held s (H t) q = Some H'"
      using cmd [OF okD(2) h(1), of t] by blast
    have c': "c' = goes_on t (q @ p) (c\<lparr>mc_data := s\<rparr>)" using step Cmd e(1) by (simp add: instr_step_def)
    have "seg rank held s (H t) (q @ p) = Some {}"
      using seg_stable [OF e(3) h(2)] e(4) by (simp add: seg_append)
    then have "machine_ok c' H"
      using ok t(1) e(2) other [OF _ e(3)] by (auto simp: machine_ok_def c' goes_on_def nth_list_update)
    then show ?thesis using c' by (auto simp: goes_on_def)
  qed
qed

lemma step_ok:
  assumes "machine_ok c H" and "thread_step lock unlock exec t c = Some c'"
  shows "\<exists>H'. machine_ok c' H' \<and> length (mc_progs c') = length (mc_progs c)"
  using instr_ok [OF assms(1), of t _ _ c'] assms(2)
  by (force simp: thread_step_def split: if_splits list.splits)

text \<open>Two threads never hold the same lock.\<close>

lemma exclusive: "machine_ok c H \<Longrightarrow> t \<noteq> u \<Longrightarrow> H t \<inter> H u = {}"
  using excl [OF machine_okD(5)] by (fastforce simp: holds_lock_iff)

text \<open>As long as a thread has something left to do, one of them can go on.\<close>

lemma not_stuck:
  assumes ok: "machine_ok c H" and left: "t < length (mc_progs c)" "mc_progs c ! t \<noteq> []"
  shows "\<exists>u < length (mc_progs c). thread_step lock unlock exec u c \<noteq> None"
proof (rule ccontr)
  assume stuck: "\<not> ?thesis"
  let ?W = "{t. t < length (mc_progs c) \<and> mc_progs c ! t \<noteq> []}"
  define wants where "wants t = (case mc_progs c ! t of Acquire l # p \<Rightarrow> rank l | _ \<Rightarrow> 0)" for t
  have up: "\<exists>u \<in> ?W. wants t < wants u" if t: "t \<in> ?W" for t
  proof -
    have n: "thread_step lock unlock exec t c = None" using stuck t by auto
    obtain i p where ip: "mc_progs c ! t = i # p" using t by (cases "mc_progs c ! t") auto
    then have "instr_step lock unlock exec t i p c = None" using n t by (simp add: thread_step_def)
    then obtain l where l: "i = Acquire l" "lock t (mc_locks c l) = None"
      by (cases i) (simp_all add: instr_step_def)
    have "holds_lock H l \<noteq> {}" using free [of "mc_locks c l" t] machine_okD(5) [OF ok, of l] l(2) by auto
    then obtain u where u: "l \<in> H u" by (auto simp: holds_lock_def)
    have ul: "u < length (mc_progs c)" using machine_okD(4) [OF ok, of u] u by (auto simp: not_le [symmetric])
    note s = machine_okD(3) [OF ok ul]
    have ne: "mc_progs c ! u \<noteq> []" using s u by auto
    then obtain j q where jq: "mc_progs c ! u = j # q" by (cases "mc_progs c ! u") auto
    then have "instr_step lock unlock exec u j q c = None" using stuck ul by (auto simp: thread_step_def)
    then obtain k where k: "j = Acquire k" by (cases j) (simp_all add: instr_step_def)
    then have "rank l < rank k" using s u jq by (auto split: if_splits)
    then show ?thesis using ul ne ip l(1) jq k by (intro bexI [of _ u]) (simp_all add: wants_def)
  qed
  have "finite ?W" by simp
  moreover have "?W \<noteq> {}" using left by auto
  ultimately have "Max (wants ` ?W) \<in> wants ` ?W" by simp
  then obtain t where t: "t \<in> ?W" "wants t = Max (wants ` ?W)" by auto
  obtain u where "u \<in> ?W" "wants t < wants u" using up [OF t(1)] by blast
  then have "wants u \<le> wants t" unfolding t(2) by simp
  then show False using \<open>wants t < wants u\<close> by simp
qed

end

end
