(* ===== verification/LogLocks.thy ===== *)
theory LogLocks
  imports Deadlocks Loggers
begin

text \<open>
  The log used by many threads (\<open>sylar/log.h\<close>, \<open>sylar/log.cpp\<close>), with the spin locks of the
  manager, the loggers and the appenders taken and given back where the code does. What a call
  reads and writes between two of these is one command; vectors are read again in each turn of
  a loop, and a line is put into its stream item by item, as the code does.
\<close>

section \<open>Calls as threads run them\<close>

datatype log_lock = ManagerLock | LoggerLock string | AppenderLock ptr

text \<open>What calls do between locking and unlocking; loops by the index they are at.\<close>

datatype log_cmd =
    LLog log_event string
  | LBody log_event string
  | LEach log_event string nat
  | ALog log_event ptr
  | ATime log_event ptr
  | ASetTime log_event ptr
  | AFormat log_event ptr
  | APut ptr sink string
  | ALine ptr sink string
  | ASetFormatter ptr "formatter option"
  | ASetLevel ptr level
  | ANew sink
  | LAddGet string ptr
  | LInherit string ptr
  | LPush string ptr
  | LErase string ptr
  | LClear string
  | LSetFormatter string "formatter option"
  | LInheritEach string nat
  | LInheritIf string ptr
  | LSetLevel string level
  | LDumpEach string nat
  | MGet string

type_synonym log_prog = "(log_lock, log_cmd) instr list"

text \<open>\<open>Logger::log\<close>: the level is tested before the lock is taken.\<close>

definition do_LLog :: "log_event \<Rightarrow> string \<Rightarrow> logsys \<Rightarrow> (logsys \<times> log_prog) res" where
  "do_LLog e n s = bindR (get_logger n s) (\<lambda>l. Inr (s,
     if lg_level l \<le> le_level e then guarded (LoggerLock n) [Cmd (LBody e n)] else []))"

definition do_LBody :: "log_event \<Rightarrow> string \<Rightarrow> logsys \<Rightarrow> (logsys \<times> log_prog) res" where
  "do_LBody e n s = bindR (get_logger n s) (\<lambda>l. Inr (s,
     if lg_appenders l \<noteq> [] then [Cmd (LEach e n 0)]
     else if lg_root l then [Cmd (LLog e ''root'')] else []))"

definition do_LEach :: "log_event \<Rightarrow> string \<Rightarrow> nat \<Rightarrow> logsys \<Rightarrow> (logsys \<times> log_prog) res" where
  "do_LEach e n i s = bindR (get_logger n s) (\<lambda>l. Inr (s,
     if i < length (lg_appenders l) then [Cmd (ALog e (lg_appenders l ! i)), Cmd (LEach e n (Suc i))]
     else []))"

text \<open>\<open>log\<close> of the appenders; that of a file tests the time, and reopens, before it formats.\<close>

definition do_ALog :: "log_event \<Rightarrow> ptr \<Rightarrow> logsys \<Rightarrow> (logsys \<times> log_prog) res" where
  "do_ALog e a s = bindR (get_appender a s) (\<lambda>x. Inr (s,
     if ap_level x \<le> le_level e
     then (case ap_sink x of Console \<Rightarrow> [] | LogFile f \<Rightarrow> [Cmd (ATime e a)]) @
       guarded (AppenderLock a) [Cmd (AFormat e a)]
     else []))"

text \<open>\<open>reopen\<close> locks for itself; what it does to the stream only prepares the next write.\<close>

definition do_ATime :: "log_event \<Rightarrow> ptr \<Rightarrow> logsys \<Rightarrow> (logsys \<times> log_prog) res" where
  "do_ATime e a s = bindR (get_appender a s) (\<lambda>x. Inr (s,
     if ap_lastTime x + 3 \<le> le_time e then guarded (AppenderLock a) [] @ [Cmd (ASetTime e a)] else []))"

text \<open>
  \<open>LogFormatter::format\<close> of an appender: each item is put into the stream of the appender
  (\<open>std::cout\<close> or the file) by an output operation of its own. \<open>ALine\<close> does nothing to the stream;
  it notes in the history \<open>ls_out\<close> that the line is complete.
\<close>

definition put_items :: "(string \<Rightarrow> u64 \<Rightarrow> string) \<Rightarrow> log_event \<Rightarrow> ptr \<Rightarrow> sink \<Rightarrow> fmt_item list \<Rightarrow> log_prog" where
  "put_items strf e a k is = map (\<lambda>i. Cmd (APut a k (format_item strf e i))) is"

definition do_AFormat :: "(string \<Rightarrow> u64 \<Rightarrow> string) \<Rightarrow> log_event \<Rightarrow> ptr \<Rightarrow> logsys \<Rightarrow> (logsys \<times> log_prog) res" where
  "do_AFormat strf e a s = bindR (get_appender a s) (\<lambda>x. case ap_formatter x of
       None \<Rightarrow> Inl (NullDeref ''m_formatter'')
     | Some f \<Rightarrow> Inr (s, put_items strf e a (ap_sink x) (lf_items f) @
         [Cmd (ALine a (ap_sink x) (format_event strf f e))]))"

text \<open>\<open>addAppender\<close>: the formatter is read under a lock of the appender, and inherited under
  another.\<close>

definition do_LAddGet :: "string \<Rightarrow> ptr \<Rightarrow> logsys \<Rightarrow> (logsys \<times> log_prog) res" where
  "do_LAddGet n a s = bindR (get_appender a s) (\<lambda>x. Inr (s,
     if ap_formatter x = None
     then [Release (AppenderLock a), Acquire (AppenderLock a), Cmd (LInherit n a)]
     else [Release (AppenderLock a), Cmd (LPush n a)]))"

definition do_LInherit :: "string \<Rightarrow> ptr \<Rightarrow> logsys \<Rightarrow> (logsys \<times> log_prog) res" where
  "do_LInherit n a s = bindR (get_logger n s) (\<lambda>l. bindR (get_appender a s) (\<lambda>x.
     Inr (put_appender a (x\<lparr>ap_formatter := lg_formatter l\<rparr>) s,
       [Release (AppenderLock a), Cmd (LPush n a)])))"

definition do_LInheritEach :: "string \<Rightarrow> nat \<Rightarrow> logsys \<Rightarrow> (logsys \<times> log_prog) res" where
  "do_LInheritEach n i s = bindR (get_logger n s) (\<lambda>l. Inr (s,
     if i < length (lg_appenders l)
     then guarded (AppenderLock (lg_appenders l ! i)) [Cmd (LInheritIf n (lg_appenders l ! i))] @
       [Cmd (LInheritEach n (Suc i))]
     else []))"

definition do_LInheritIf :: "string \<Rightarrow> ptr \<Rightarrow> logsys \<Rightarrow> (logsys \<times> log_prog) res" where
  "do_LInheritIf n a s = bindR (get_logger n s) (\<lambda>l. bindR (get_appender a s) (\<lambda>x.
     Inr (if \<not> ap_hasFormatter x then put_appender a (x\<lparr>ap_formatter := lg_formatter l\<rparr>) s else s, [])))"

text \<open>\<open>toYamlString\<close> of a logger: the text is what \<open>LogDumps\<close> says, and changes nothing.\<close>

definition do_LDumpEach :: "string \<Rightarrow> nat \<Rightarrow> logsys \<Rightarrow> (logsys \<times> log_prog) res" where
  "do_LDumpEach n i s = bindR (get_logger n s) (\<lambda>l. Inr (s,
     if i < length (lg_appenders l)
     then guarded (AppenderLock (lg_appenders l ! i)) [] @ [Cmd (LDumpEach n (Suc i))]
     else []))"

text \<open>A command that only changes one appender.\<close>

definition alter :: "ptr \<Rightarrow> (appender \<Rightarrow> appender) \<Rightarrow> logsys \<Rightarrow> (logsys \<times> log_prog) res" where
  "alter a f s = bindR (get_appender a s) (\<lambda>x. Inr (put_appender a (f x) s, []))"

text \<open>\<open>m\<close>, with nothing to do after it.\<close>

definition just :: "logsys res \<Rightarrow> (logsys \<times> log_prog) res" where
  "just m = bindR m (\<lambda>s. Inr (s, []))"

primrec do_cmd :: "(string \<Rightarrow> u64 \<Rightarrow> string) \<Rightarrow> log_cmd \<Rightarrow> logsys \<Rightarrow> (logsys \<times> log_prog) res" where
  "do_cmd strf (LLog e n) s = do_LLog e n s"
| "do_cmd strf (LBody e n) s = do_LBody e n s"
| "do_cmd strf (LEach e n i) s = do_LEach e n i s"
| "do_cmd strf (ALog e a) s = do_ALog e a s"
| "do_cmd strf (ATime e a) s = do_ATime e a s"
| "do_cmd strf (ASetTime e a) s = alter a (\<lambda>x. x\<lparr>ap_lastTime := le_time e\<rparr>) s"
| "do_cmd strf (AFormat e a) s = do_AFormat strf e a s"
| "do_cmd strf (APut a k w) s = Inr (s, [])"
| "do_cmd strf (ALine a k w) s = Inr (s\<lparr>ls_out := ls_out s @ [(k, w)]\<rparr>, [])"
| "do_cmd strf (ASetFormatter a f) s = alter a (LogAppender_setFormatter f) s"
| "do_cmd strf (ASetLevel a v) s = alter a (\<lambda>x. x\<lparr>ap_level := v\<rparr>) s"
| "do_cmd strf (ANew k) s = Inr (snd (new_appender k s), [])"
| "do_cmd strf (LAddGet n a) s = do_LAddGet n a s"
| "do_cmd strf (LInherit n a) s = do_LInherit n a s"
| "do_cmd strf (LPush n a) s = just (bindR (get_logger n s) (\<lambda>l.
     Inr (put_logger n (l\<lparr>lg_appenders := lg_appenders l @ [a]\<rparr>) s)))"
| "do_cmd strf (LErase n a) s = just (delAppender n a s)"
| "do_cmd strf (LClear n) s = just (clearAppenders n s)"
| "do_cmd strf (LSetFormatter n f) s = bindR (get_logger n s) (\<lambda>l.
     Inr (put_logger n (l\<lparr>lg_formatter := f\<rparr>) s, [Cmd (LInheritEach n 0)]))"
| "do_cmd strf (LInheritEach n i) s = do_LInheritEach n i s"
| "do_cmd strf (LInheritIf n a) s = do_LInheritIf n a s"
| "do_cmd strf (LSetLevel n v) s = just (setLevel n v s)"
| "do_cmd strf (LDumpEach n i) s = do_LDumpEach n i s"
| "do_cmd strf (MGet n) s = Inr (getLogger n s, [])"

text \<open>The calls. A new pattern is parsed before \<open>setFormatter\<close> locks.\<close>

datatype log_call =
    CallLog log_event string
  | CallAddAppender string ptr
  | CallDelAppender string ptr
  | CallClearAppenders string
  | CallSetFormatter string "formatter option"
  | CallSetFormatterString string string
  | CallSetLevel string level
  | CallGetLogger string
  | CallDump "string list"
  | CallNewAppender sink
  | CallAppenderFormatter ptr "formatter option"
  | CallAppenderLevel ptr level

primrec call_prog :: "log_call \<Rightarrow> log_prog" where
  "call_prog (CallLog e n) = [Cmd (LLog e n)]"
| "call_prog (CallAddAppender n a) = guarded (LoggerLock n) [Acquire (AppenderLock a), Cmd (LAddGet n a)]"
| "call_prog (CallDelAppender n a) = guarded (LoggerLock n) [Cmd (LErase n a)]"
| "call_prog (CallClearAppenders n) = guarded (LoggerLock n) [Cmd (LClear n)]"
| "call_prog (CallSetFormatter n f) = guarded (LoggerLock n) [Cmd (LSetFormatter n f)]"
| "call_prog (CallSetFormatterString n val) = (let f = LogFormatter val in
     if lf_error f then [] else guarded (LoggerLock n) [Cmd (LSetFormatter n (Some f))])"
| "call_prog (CallSetLevel n v) = [Cmd (LSetLevel n v)]"
| "call_prog (CallGetLogger n) = guarded ManagerLock [Cmd (MGet n)]"
| "call_prog (CallDump ns) = guarded ManagerLock
     (concat (map (\<lambda>n. guarded (LoggerLock n) [Cmd (LDumpEach n 0)]) ns))"
| "call_prog (CallNewAppender k) = [Cmd (ANew k)]"
| "call_prog (CallAppenderFormatter a f) = guarded (AppenderLock a) [Cmd (ASetFormatter a f)]"
| "call_prog (CallAppenderLevel a v) = [Cmd (ASetLevel a v)]"

text \<open>
  What is required of a call: it names loggers and appenders that have been made, and passes no null
  pointer to a \<open>setFormatter\<close> (\<open>null_formatter_followed\<close> shows what that would lead to).
\<close>

primrec call_ok :: "log_call \<Rightarrow> logsys \<Rightarrow> bool" where
  "call_ok (CallLog e n) s = (ls_loggers s n \<noteq> None)"
| "call_ok (CallAddAppender n a) s = (ls_loggers s n \<noteq> None \<and> ls_appenders s a \<noteq> None)"
| "call_ok (CallDelAppender n a) s = (ls_loggers s n \<noteq> None)"
| "call_ok (CallClearAppenders n) s = (ls_loggers s n \<noteq> None)"
| "call_ok (CallSetFormatter n f) s = (ls_loggers s n \<noteq> None \<and> f \<noteq> None)"
| "call_ok (CallSetFormatterString n val) s = (ls_loggers s n \<noteq> None)"
| "call_ok (CallSetLevel n v) s = (ls_loggers s n \<noteq> None)"
| "call_ok (CallGetLogger n) s = True"
| "call_ok (CallDump ns) s = list_all (\<lambda>n. ls_loggers s n \<noteq> None) ns"
| "call_ok (CallNewAppender k) s = True"
| "call_ok (CallAppenderFormatter a f) s = (ls_appenders s a \<noteq> None \<and> f \<noteq> None)"
| "call_ok (CallAppenderLevel a v) s = (ls_appenders s a \<noteq> None)"

section \<open>The system\<close>

text \<open>
  The data the threads share: the loggers and appenders, and the streams, as the sequence of all
  output operations in the order in which they take place, each with the thread and the appender
  it comes from and the stream it goes to. One output operation is taken as a whole.
\<close>

record shared_log =
  sl_sys :: logsys
  sl_stream :: "(tid \<times> ptr \<times> sink \<times> string) list"

fun puts :: "log_cmd \<Rightarrow> (ptr \<times> sink \<times> string) list" where
  "puts (APut a k w) = [(a, k, w)]"
| "puts c = []"

definition log_exec :: "(string \<Rightarrow> u64 \<Rightarrow> string) \<Rightarrow> (log_lock, log_cmd, shared_log) exec" where
  "log_exec strf t c x = bindR (do_cmd strf c (sl_sys x)) (\<lambda>(s, p). Inr
     (\<lparr>sl_sys = s, sl_stream = sl_stream x @ map (Pair t) (puts c)\<rparr>, p))"

type_synonym log_machine = "(log_lock, mutex, log_cmd, shared_log) machine"

definition log_thread_step :: "(string \<Rightarrow> u64 \<Rightarrow> string) \<Rightarrow> tid \<Rightarrow> log_machine \<Rightarrow> log_machine option" where
  "log_thread_step strf = thread_step Spinlock_lock Spinlock_unlock (log_exec strf)"

text \<open>\<open>k\<close> threads, each of which makes one call after the other.\<close>

definition log_machine_new :: "nat \<Rightarrow> logsys \<Rightarrow> log_machine" where
  "log_machine_new k s = machine_new Spinlock_new \<lparr>sl_sys = s, sl_stream = []\<rparr> (replicate k [])"

inductive logs_reach :: "(string \<Rightarrow> u64 \<Rightarrow> string) \<Rightarrow> nat \<Rightarrow> log_machine \<Rightarrow> bool" for strf k where
  start: "LoggerManager_new = Inr s \<Longrightarrow> logs_reach strf k (log_machine_new k s)"
| call: "logs_reach strf k c \<Longrightarrow> t < k \<Longrightarrow> mc_progs c ! t = [] \<Longrightarrow> call_ok q (sl_sys (mc_data c)) \<Longrightarrow>
    logs_reach strf k (goes_on t (call_prog q) c)"
| step: "logs_reach strf k c \<Longrightarrow> log_thread_step strf t c = Some c' \<Longrightarrow> logs_reach strf k c'"

section \<open>The order of the locks\<close>

text \<open>The manager, then loggers but the root logger, then the root logger, then appenders.\<close>

fun lock_rank :: "log_lock \<Rightarrow> nat" where
  "lock_rank ManagerLock = 0"
| "lock_rank (LoggerLock n) = (if n = ''root'' then 2 else 1)"
| "lock_rank (AppenderLock a) = 3"

text \<open>The locks that guard what a command works on.\<close>

fun guards_of :: "log_cmd \<Rightarrow> log_lock set" where
  "guards_of (LBody e n) = {LoggerLock n}"
| "guards_of (LEach e n i) = {LoggerLock n}"
| "guards_of (AFormat e a) = {AppenderLock a}"
| "guards_of (APut a k w) = {AppenderLock a}"
| "guards_of (ALine a k w) = {AppenderLock a}"
| "guards_of (ASetFormatter a f) = {AppenderLock a}"
| "guards_of (LAddGet n a) = {LoggerLock n, AppenderLock a}"
| "guards_of (LInherit n a) = {LoggerLock n, AppenderLock a}"
| "guards_of (LPush n a) = {LoggerLock n}"
| "guards_of (LErase n a) = {LoggerLock n}"
| "guards_of (LClear n) = {LoggerLock n}"
| "guards_of (LSetFormatter n f) = {LoggerLock n}"
| "guards_of (LInheritEach n i) = {LoggerLock n}"
| "guards_of (LInheritIf n a) = {LoggerLock n, AppenderLock a}"
| "guards_of (LDumpEach n i) = {LoggerLock n}"
| "guards_of (MGet n) = {ManagerLock}"
| "guards_of c = {}"

text \<open>All other locks that are held must be of a rank below this, for what a command takes.\<close>

fun top_rank :: "log_cmd \<Rightarrow> nat" where
  "top_rank (LLog e n) = lock_rank (LoggerLock n)"
| "top_rank (LBody e n) = lock_rank (LoggerLock n)"
| "top_rank c = 3"

text \<open>What a command finds.\<close>

fun finds :: "log_cmd \<Rightarrow> logsys \<Rightarrow> bool" where
  "finds (LLog e n) s = (ls_loggers s n \<noteq> None)"
| "finds (LBody e n) s = (ls_loggers s n \<noteq> None)"
| "finds (LEach e n i) s = (ls_loggers s n \<noteq> None)"
| "finds (ALog e a) s = ready s a"
| "finds (ATime e a) s = ready s a"
| "finds (ASetTime e a) s = ready s a"
| "finds (AFormat e a) s = ready s a"
| "finds (APut a k w) s = True"
| "finds (ALine a k w) s = True"
| "finds (ASetFormatter a f) s = (ls_appenders s a \<noteq> None \<and> f \<noteq> None)"
| "finds (ASetLevel a v) s = (ls_appenders s a \<noteq> None)"
| "finds (LAddGet n a) s = (ls_loggers s n \<noteq> None \<and> ls_appenders s a \<noteq> None)"
| "finds (LInherit n a) s = (ls_loggers s n \<noteq> None \<and> ls_appenders s a \<noteq> None)"
| "finds (LPush n a) s = (ls_loggers s n \<noteq> None \<and> ready s a)"
| "finds (LErase n a) s = (ls_loggers s n \<noteq> None)"
| "finds (LClear n) s = (ls_loggers s n \<noteq> None)"
| "finds (LSetFormatter n f) s = (ls_loggers s n \<noteq> None \<and> f \<noteq> None)"
| "finds (LInheritEach n i) s = (ls_loggers s n \<noteq> None)"
| "finds (LInheritIf n a) s = (ls_loggers s n \<noteq> None \<and> ls_appenders s a \<noteq> None)"
| "finds (LSetLevel n v) s = (ls_loggers s n \<noteq> None)"
| "finds (LDumpEach n i) s = (ls_loggers s n \<noteq> None)"
| "finds (ANew k) s = True"
| "finds (MGet n) s = True"

fun locks_after :: "log_cmd \<Rightarrow> log_lock set \<Rightarrow> log_lock set" where
  "locks_after (LAddGet n a) H = H - {AppenderLock a}"
| "locks_after (LInherit n a) H = H - {AppenderLock a}"
| "locks_after c H = H"

definition sys_held :: "logsys \<Rightarrow> log_lock set \<Rightarrow> log_cmd \<Rightarrow> log_lock set option" where
  "sys_held s H c = (if guards_of c \<subseteq> H \<and> (\<forall>h \<in> H. h \<notin> guards_of c \<longrightarrow> lock_rank h < top_rank c) \<and> finds c s
     then Some (locks_after c H) else None)"

text \<open>Loggers and appenders stay, and an appender that has a formatter keeps one.\<close>

definition log_grows :: "logsys \<Rightarrow> logsys \<Rightarrow> bool" where
  "log_grows s s' = ((\<forall>n. ls_loggers s n \<noteq> None \<longrightarrow> ls_loggers s' n \<noteq> None) \<and>
     (\<forall>a. ls_appenders s a \<noteq> None \<longrightarrow> ls_appenders s' a \<noteq> None) \<and> (\<forall>a. ready s a \<longrightarrow> ready s' a))"

lemma finds_grows: "log_grows s s' \<Longrightarrow> finds c s \<Longrightarrow> finds c s'"
  by (cases c) (simp_all add: log_grows_def)

lemma log_grows_refl: "log_grows s s"
  by (simp add: log_grows_def)

lemma grows_put_logger: "log_grows s (put_logger n l s)"
  by (simp add: log_grows_def)

lemma grows_put_appender: "(ready s a \<Longrightarrow> ap_formatter x \<noteq> None) \<Longrightarrow> log_grows s (put_appender a x s)"
  using put_appender_ready [of s a x] by (auto simp: log_grows_def)

lemma grows_settings:
  assumes "settings s' = settings s" and "ls_loggers s' = ls_loggers s"
  shows "log_grows s s'"
proof -
  have "ls_appenders s' a = None \<longleftrightarrow> ls_appenders s a = None" for a
    using fun_cong [OF assms(1), of a] by (auto simp: settings_def)
  then show ?thesis using assms by (auto simp: log_grows_def ready_settings)
qed

lemma sys_heldD:
  assumes "sys_held s H c = Some H'"
  shows "guards_of c \<subseteq> H" "h \<in> H \<Longrightarrow> h \<notin> guards_of c \<Longrightarrow> lock_rank h < top_rank c" "finds c s"
    "H' = locks_after c H"
  using assms by (auto simp: sys_held_def split: if_splits)

abbreviation allowed :: "logsys \<Rightarrow> log_lock set \<Rightarrow> log_prog \<Rightarrow> log_lock set option" where
  "allowed \<equiv> seg lock_rank sys_held"

text \<open>A command that succeeds, and goes on as it may.\<close>

definition cmd_fine :: "logsys \<Rightarrow> log_lock set \<Rightarrow> log_lock set \<Rightarrow> (logsys \<times> log_prog) res \<Rightarrow> bool" where
  "cmd_fine s H H' r = (\<exists>s' q. r = Inr (s', q) \<and> log_wf s' \<and> log_grows s s' \<and> allowed s' H q = Some H')"

lemma fineI: "log_wf s' \<Longrightarrow> log_grows s s' \<Longrightarrow> allowed s' H q = Some H' \<Longrightarrow> cmd_fine s H H' (Inr (s', q))"
  by (simp add: cmd_fine_def)

lemma fine_read: "log_wf s \<Longrightarrow> allowed s H q = Some H' \<Longrightarrow> cmd_fine s H H' (Inr (s, q))"
  by (rule fineI [OF _ log_grows_refl])

lemma fine_alter:
  assumes "log_wf s" and "ls_appenders s a = Some x" and "ready s a \<Longrightarrow> ap_formatter (f x) \<noteq> None"
  shows "cmd_fine s H H (alter a f s)"
proof -
  have "a < ls_next s" using log_wf_fresh [OF assms(1), of a] assms(2) by (simp add: not_le [symmetric]) blast
  then show ?thesis
    using put_appender_wf [OF assms(1) _ assms(3)] grows_put_appender [OF assms(3)] assms(2)
    by (simp add: alter_def cmd_fine_def)
qed

lemma fine_put_logger:
  assumes "log_wf s" and "logger_wf s n l" and "allowed (put_logger n l s) H q = Some H'"
  shows "cmd_fine s H H' (Inr (put_logger n l s, q))"
  by (rule fineI [OF put_logger_wf [OF assms(1,2)] grows_put_logger assms(3)])

lemma readyE:
  assumes "ready s a"
  obtains x f where "ls_appenders s a = Some x" "ap_formatter x = Some f"
  using assms by (auto simp: ready_def split: option.splits)

lemma rank_le: "lock_rank l \<le> 3"
  by (cases l) simp_all

lemma allowed_puts:
  "AppenderLock a \<in> H \<Longrightarrow> \<forall>h \<in> H. h \<noteq> AppenderLock a \<longrightarrow> lock_rank h < 3 \<Longrightarrow>
    allowed s H (put_items strf e a k is @ [Cmd (ALine a k w)]) = Some H"
  by (induction "is") (simp_all add: put_items_def sys_held_def)

lemma do_cmd_fine:
  assumes wf: "log_wf s" and h: "sys_held s H c = Some H'"
  shows "cmd_fine s H H' (do_cmd strf c s)"
proof -
  note hD = sys_heldD [OF h]
  have "top_rank c \<le> 3" by (cases c) simp_all
  then have low: "lock_rank g < 3" if "g \<in> H" "g \<notin> guards_of c \<or> g = LoggerLock n" for g n
    using hD(2) [OF that(1)] that(2) by (cases "g \<in> guards_of c") auto
  have app: "ready s a" if "ls_loggers s n = Some l" "a \<in> set (lg_appenders l)" for n l a
    using log_wfD [OF wf that(1)] that(2) by (simp add: logger_wf_def)
  show ?thesis
  proof (cases c)
    case (LLog e n)
    then obtain l where "ls_loggers s n = Some l" using hD(3) by auto
    then show ?thesis using LLog hD(2,4) hD(2) [of "LoggerLock n"]
      by (auto simp: do_LLog_def sys_held_def guarded_def insert_Diff_if intro!: fine_read [OF wf])
  next
    case (LBody e n)
    then obtain l where l: "ls_loggers s n = Some l" using hD(3) by auto
    have "n \<noteq> ''root''" if "lg_root l" using log_wfD [OF wf l] that by (simp add: logger_wf_def)
    moreover have "lock_rank g < 3" "n \<noteq> ''root'' \<Longrightarrow> lock_rank g < 2" if "g \<in> H" for g
      using hD(2) [OF that] LBody by (cases "g = LoggerLock n"; fastforce split: if_splits)+
    ultimately show ?thesis using LBody hD(1,3,4) l log_wf_root [OF wf]
      by (auto simp: do_LBody_def sys_held_def intro!: fine_read [OF wf])
  next
    case (LEach e n i)
    then obtain l where l: "ls_loggers s n = Some l" using hD(3) by auto
    moreover have "\<forall>g \<in> H. lock_rank g < 3" using low LEach by auto
    ultimately show ?thesis using LEach hD(1,3,4) app [OF l] by (auto simp: do_LEach_def sys_held_def intro!: fine_read [OF wf])
  next
    case (ALog e a)
    then obtain x f where "ls_appenders s a = Some x" "ap_formatter x = Some f" using hD(3) by (auto simp: ready_def split: option.splits)
    then show ?thesis using ALog hD hD(2) [of "AppenderLock a"]
      by (auto simp: do_ALog_def sys_held_def guarded_def insert_Diff_if split: sink.split intro!: fine_read [OF wf])
  next
    case (ATime e a)
    then obtain x f where "ls_appenders s a = Some x" "ap_formatter x = Some f" using hD(3) by (auto simp: ready_def split: option.splits)
    then show ?thesis using ATime hD hD(2) [of "AppenderLock a"]
      by (auto simp: do_ATime_def sys_held_def guarded_def insert_Diff_if intro!: fine_read [OF wf])
  next
    case (ASetTime e a)
    then obtain x f where "ls_appenders s a = Some x" "ap_formatter x = Some f" using hD(3) by (auto simp: ready_def split: option.splits)
    then show ?thesis using ASetTime hD by (auto intro!: fine_alter [OF wf])
  next
    case (AFormat e a)
    then have r: "ready s a" using hD(3) by simp
    then obtain x f where x: "ls_appenders s a = Some x" "ap_formatter x = Some f" by (rule readyE)
    have "allowed s H (put_items strf e a (ap_sink x) (lf_items f) @
        [Cmd (ALine a (ap_sink x) (format_event strf f e))]) = Some H"
      by (rule allowed_puts) (use AFormat hD(1,2) in auto)
    then show ?thesis using AFormat x hD(4) by (auto simp: do_AFormat_def intro!: fine_read [OF wf])
  next
    case (APut a k w)
    then show ?thesis using hD(4) by (auto intro!: fine_read [OF wf])
  next
    case (ALine a k w)
    let ?s = "s\<lparr>ls_out := ls_out s @ [(k, w)]\<rparr>"
    have "settings ?s = settings s" "ls_loggers ?s = ls_loggers s" "ls_next ?s = ls_next s"
      by (simp_all add: settings_def fun_eq_iff)
    from settings_wf [OF wf this] grows_settings [OF this(1,2)] show ?thesis
      using ALine hD(4) by (auto intro!: fineI)
  next
    case (ASetFormatter a f)
    then obtain x where "ls_appenders s a = Some x" using hD(3) by auto
    then show ?thesis using ASetFormatter hD(3,4) by (auto simp: LogAppender_setFormatter_def intro!: fine_alter [OF wf])
  next
    case (ASetLevel a v)
    then obtain x where "ls_appenders s a = Some x" using hD(3) by auto
    then show ?thesis using ASetLevel hD by (auto simp: ready_def intro!: fine_alter [OF wf])
  next
    case (ANew k)
    obtain a s' where n: "new_appender k s = (a, s')" by fastforce
    have "log_grows s s'"
      using new_appender_simps [OF n] log_wf_fresh [OF wf, of "ls_next s"] by (auto simp: log_grows_def ready_def split: option.split)
    then show ?thesis using new_appender_wf [OF wf n] ANew hD(4) n by (auto intro!: fineI)
  next
    case (LAddGet n a)
    then obtain x where x: "ls_appenders s a = Some x" using hD(3) by auto
    have "ready s a" if "ap_formatter x \<noteq> None" using x that by (simp add: ready_def)
    moreover have "\<forall>g \<in> H. g \<noteq> AppenderLock a \<longrightarrow> lock_rank g < 3" using low LAddGet by auto
    ultimately show ?thesis using LAddGet hD(1,3,4) x
      by (auto simp: do_LAddGet_def sys_held_def insert_Diff_if insert_absorb intro!: fine_read [OF wf])
  next
    case (LInherit n a)
    obtain x l where x: "ls_appenders s a = Some x" and l: "ls_loggers s n = Some l" using hD(3) LInherit by auto
    let ?x = "x\<lparr>ap_formatter := lg_formatter l\<rparr>"
    have f: "ap_formatter ?x \<noteq> None" using log_wfD [OF wf l] by (simp add: logger_wf_def)
    have "a < ls_next s" using log_wf_fresh [OF wf, of a] x by (simp add: not_le [symmetric]) blast
    note wf' = put_appender_wf [OF wf this f] and g = grows_put_appender [OF f]
    have "ready (put_appender a ?x s) a" using f by (simp add: ready_def)
    then show ?thesis using LInherit hD x l
      by (auto simp: do_LInherit_def sys_held_def intro!: fineI [OF wf' g])
  next
    case (LPush n a)
    then obtain l where l: "ls_loggers s n = Some l" using hD(3) by auto
    have "logger_wf s n (l\<lparr>lg_appenders := lg_appenders l @ [a]\<rparr>)"
      using log_wfD [OF wf l] hD(3) LPush by (auto simp: logger_wf_def)
    from fine_put_logger [OF wf this] show ?thesis using LPush hD(4) l by (simp add: just_def)
  next
    case (LErase n a)
    then obtain l where l: "ls_loggers s n = Some l" using hD(3) by auto
    have "logger_wf s n (l\<lparr>lg_appenders := remove1 a (lg_appenders l)\<rparr>)"
      using log_wfD [OF wf l] in_remove1 [of _ a "lg_appenders l"] by (simp add: logger_wf_def)
    from fine_put_logger [OF wf this] show ?thesis using LErase hD(4) l by (simp add: just_def delAppender_def)
  next
    case (LClear n)
    then obtain l where l: "ls_loggers s n = Some l" using hD(3) by auto
    have "logger_wf s n (l\<lparr>lg_appenders := []\<rparr>)" using log_wfD [OF wf l] by (simp add: logger_wf_def)
    from fine_put_logger [OF wf this] show ?thesis using LClear hD(4) l by (simp add: just_def clearAppenders_def)
  next
    case (LSetFormatter n f)
    then obtain l where l: "ls_loggers s n = Some l" using hD(3) by auto
    have "logger_wf s n (l\<lparr>lg_formatter := f\<rparr>)"
      using log_wfD [OF wf l] hD(3) LSetFormatter by (simp add: logger_wf_def)
    from fine_put_logger [OF wf this] show ?thesis using LSetFormatter hD l by (simp add: sys_held_def)
  next
    case (LInheritEach n i)
    then obtain l where l: "ls_loggers s n = Some l" using hD(3) by auto
    have "ls_appenders s a \<noteq> None" if "a \<in> set (lg_appenders l)" for a using app [OF l that] by (auto elim: readyE)
    moreover have "\<forall>g \<in> H. lock_rank g < 3" "AppenderLock b \<notin> H" for b
      using low low [of "AppenderLock b"] LInheritEach by auto
    ultimately show ?thesis using LInheritEach hD(1,3,4) l
      by (auto simp: do_LInheritEach_def sys_held_def guarded_def insert_Diff_if intro!: fine_read [OF wf])
  next
    case (LInheritIf n a)
    obtain x l where x: "ls_appenders s a = Some x" and l: "ls_loggers s n = Some l" using hD(3) LInheritIf by auto
    have "lg_formatter l \<noteq> None" using log_wfD [OF wf l] by (simp add: logger_wf_def)
    then show ?thesis
      using fine_alter [OF wf x, of "\<lambda>x. x\<lparr>ap_formatter := lg_formatter l\<rparr>" H] LInheritIf hD(4) x l
      by (auto simp: do_LInheritIf_def alter_def intro!: fine_read [OF wf])
  next
    case (LSetLevel n v)
    then obtain l where l: "ls_loggers s n = Some l" using hD(3) by auto
    have "logger_wf s n (l\<lparr>lg_level := v\<rparr>)" using log_wfD [OF wf l] by (simp add: logger_wf_def)
    from fine_put_logger [OF wf this] show ?thesis using LSetLevel hD(4) l by (simp add: just_def setLevel_def)
  next
    case (LDumpEach n i)
    then obtain l where l: "ls_loggers s n = Some l" using hD(3) by auto
    have "\<forall>g \<in> H. lock_rank g < 3" "AppenderLock b \<notin> H" for b
      using low low [of "AppenderLock b"] LDumpEach by auto
    then show ?thesis using LDumpEach hD(1,3,4) l
      by (auto simp: do_LDumpEach_def sys_held_def guarded_def insert_Diff_if intro!: fine_read [OF wf])
  next
    case (MGet n)
    have "log_wf (getLogger n s)" "log_grows s (getLogger n s)"
      using getLogger_keeps [OF wf, of n] grows_put_logger log_grows_refl
      by (auto simp: keeps_def getLogger_def split: option.split)
    then show ?thesis using MGet hD(4) by (auto intro!: fineI)
  qed
qed

section \<open>The log keeps the order\<close>

lemma seg_sys: "seg lock_rank (\<lambda>x. sys_held (sl_sys x)) x H p = allowed (sl_sys x) H p"
proof (induction p arbitrary: H)
  case (Cons i p)
  then show ?case by (cases i) (simp_all split: option.split)
qed simp

lemma log_exec_sys:
  "do_cmd strf c (sl_sys x) = Inr (s', q) \<Longrightarrow>
    log_exec strf t c x = Inr (\<lparr>sl_sys = s', sl_stream = sl_stream x @ map (Pair t) (puts c)\<rparr>, q)"
  by (simp add: log_exec_def)

interpretation log: lock_order Spinlock_lock Spinlock_unlock mutex_repr Spinlock_new "log_exec strf"
  lock_rank "\<lambda>x. log_wf (sl_sys x)" "\<lambda>x y. log_grows (sl_sys x) (sl_sys y)" "\<lambda>x. sys_held (sl_sys x)" for strf
proof unfold_locales
  fix x :: shared_log and H c H' t assume "log_wf (sl_sys x)" "sys_held (sl_sys x) H c = Some H'"
  then obtain s' q where q: "do_cmd strf c (sl_sys x) = Inr (s', q)" "log_wf s'" "log_grows (sl_sys x) s'"
    "allowed s' H q = Some H'"
    using do_cmd_fine [of "sl_sys x" H c H' strf] by (auto simp: cmd_fine_def)
  then show "\<exists>y q. log_exec strf t c x = Inr (y, q) \<and> log_wf (sl_sys y) \<and> log_grows (sl_sys x) (sl_sys y) \<and>
      seg lock_rank (\<lambda>x. sys_held (sl_sys x)) y H q = Some H'"
    using log_exec_sys [OF q(1), of t] by (fastforce simp: seg_sys)
next
  fix x y H c H' assume "log_grows (sl_sys x) (sl_sys y)" "sys_held (sl_sys x) H c = Some H'"
  then show "sys_held (sl_sys y) H c = Some H'"
    using finds_grows by (auto simp: sys_held_def split: if_splits)
qed

lemma call_allowed:
  assumes "call_ok q s"
  shows "allowed s {} (call_prog q) = Some {}"
proof (cases q)
  case (CallDump ns)
  have "allowed s {ManagerLock} (concat (map (\<lambda>n. guarded (LoggerLock n) [Cmd (LDumpEach n 0)]) ns)) = Some {ManagerLock}"
    if "list_all (\<lambda>n. ls_loggers s n \<noteq> None) ns" for ns
    using that by (induction ns) (auto simp: seg_append guarded_def sys_held_def)
  then show ?thesis using assms CallDump by (auto intro!: seg_guarded)
qed (use assms in \<open>auto simp: guarded_def sys_held_def Let_def\<close>)

lemma logs_reach_ok:
  "logs_reach strf k c \<Longrightarrow> (\<exists>H. log.machine_ok c H) \<and> length (mc_progs c) = k"
proof (induction rule: logs_reach.induct)
  case (start s)
  obtain s0 where "LoggerManager_new = Inr s0" "log_wf s0" using LoggerManager_new_wf by blast
  then have "log_wf s" using start by (metis sum.inject(2))
  then show ?case
    using log.machine_new_ok [of "\<lparr>sl_sys = s, sl_stream = []\<rparr>" "replicate k []"]
    by (auto simp: log_machine_new_def machine_new_def)
next
  case (call c t q)
  then obtain H where "log.machine_ok c H" by blast
  from log.begin_ok [OF this, of t "call_prog q"] call show ?case
    by (auto simp: seg_sys call_allowed goes_on_def)
next
  case (step c t c')
  then obtain H where "log.machine_ok c H" by blast
  from log.step_ok [OF this] step show ?case unfolding log_thread_step_def by blast
qed

text \<open>
  C17. The log is safe to use by many threads at once: whatever calls the threads make (log,
  configure loggers and appenders, look loggers up, dump), as long as each names what exists and
  passes no null formatter (\<open>call_ok\<close>), and however they interleave, nothing goes wrong, every
  logger in use keeps a formatter and ready appenders, no two threads are ever at commands guarded
  by the same lock, and the threads never deadlock: as long as one has something left to do, one
  can go on, since the locks are always taken in the order manager, logger, root logger, appender.
\<close>

theorem logs_never_deadlock:
  assumes "logs_reach strf k c"
  shows "mc_fault c = None \<and> log_wf (sl_sys (mc_data c)) \<and>
    ((\<exists>t < k. mc_progs c ! t \<noteq> []) \<longrightarrow> (\<exists>t < k. log_thread_step strf t c \<noteq> None)) \<and>
    (\<forall>t u i j p q. t < k \<and> u < k \<and> t \<noteq> u \<and> mc_progs c ! t = Cmd i # p \<and> mc_progs c ! u = Cmd j # q \<longrightarrow>
      guards_of i \<inter> guards_of j = {})"
proof -
  obtain H where ok: "log.machine_ok c H" and k: "length (mc_progs c) = k"
    using logs_reach_ok [OF assms] by blast
  note okD = log.machine_okD [OF ok]
  have "guards_of i \<subseteq> H t" if t: "t < k" "mc_progs c ! t = Cmd i # p" for t i p
  proof -
    obtain H' where "sys_held (sl_sys (mc_data c)) (H t) i = Some H'"
      using okD(3) [of t] t(1) unfolding t(2) k by (auto split: option.splits)
    then show ?thesis by (rule sys_heldD)
  qed
  then have "guards_of i \<inter> guards_of j = {}"
    if "t < k" "u < k" "t \<noteq> u" "mc_progs c ! t = Cmd i # p" "mc_progs c ! u = Cmd j # q" for t u i j p q
    using that log.exclusive [OF ok that(3)] by blast
  moreover have "\<exists>u < k. log_thread_step strf u c \<noteq> None" if "t < k" "mc_progs c ! t \<noteq> []" for t
    using log.not_stuck [OF ok, of t strf] that k by (simp add: log_thread_step_def)
  ultimately show ?thesis using okD(1,2) by blast
qed

text \<open>An instance: two threads ask for a logger, and one waits for the other.\<close>

definition demo_waiting :: "log_machine \<Rightarrow> log_machine" where
  "demo_waiting c = (let p = call_prog (CallGetLogger ''system'') in
     goes_on 0 (tl p) (set_lock ManagerLock (Some 0) (goes_on 1 p (goes_on 0 p c))))"

lemma demo_waiting_reach:
  "\<exists>c. logs_reach no_strf 2 c \<and> mc_progs c ! 1 \<noteq> [] \<and> log_thread_step no_strf 1 c = None"
proof -
  obtain s where s: "LoggerManager_new = Inr s" using LoggerManager_new_wf by blast
  let ?p = "call_prog (CallGetLogger ''system'')" and ?c = "log_machine_new 2 s"
  note r0 = logs_reach.start [OF s, of no_strf 2]
  have "logs_reach no_strf 2 (goes_on 0 ?p ?c)"
    by (rule logs_reach.call [OF r0]) (simp_all add: log_machine_new_def machine_new_def)
  then have "logs_reach no_strf 2 (goes_on 1 ?p (goes_on 0 ?p ?c))"
    by (rule logs_reach.call) (simp_all add: log_machine_new_def machine_new_def goes_on_def)
  moreover have "log_thread_step no_strf 0 (goes_on 1 ?p (goes_on 0 ?p ?c)) = Some (demo_waiting ?c)"
    by (simp add: log_thread_step_def thread_step_def instr_step_def log_machine_new_def machine_new_def
        goes_on_def guarded_def Spinlock_lock_def Spinlock_new_def demo_waiting_def set_lock_def Let_def)
  ultimately have "logs_reach no_strf 2 (demo_waiting ?c)" by (rule logs_reach.step)
  moreover have "mc_progs (demo_waiting ?c) ! 1 = ?p" "mc_locks (demo_waiting ?c) ManagerLock = Some 0"
    by (simp_all add: demo_waiting_def goes_on_def set_lock_def log_machine_new_def machine_new_def Let_def)
  ultimately show ?thesis
    by (intro exI [of _ "demo_waiting ?c"])
      (simp add: log_thread_step_def thread_step_def instr_step_def guarded_def Spinlock_lock_def)
qed

theorem logs_never_deadlock_witness:
  "\<exists>c. logs_reach no_strf 2 c \<and> log_thread_step no_strf 1 c = None \<and> log_thread_step no_strf 0 c \<noteq> None"
proof -
  obtain c where c: "logs_reach no_strf 2 c" "mc_progs c ! 1 \<noteq> []" "log_thread_step no_strf 1 c = None"
    using demo_waiting_reach by blast
  from logs_never_deadlock [OF c(1)] c(2) obtain t where t: "t < 2" "log_thread_step no_strf t c \<noteq> None"
    by (metis one_less_numeral_iff semiring_norm(76))
  then have "t = 0" using c(3) by (cases "t = 1") auto
  then show ?thesis using c t by blast
qed

section \<open>A call alone does what the sequential definition says\<close>

text \<open>\<open>w\<close> is what goes to the streams.\<close>

inductive alone :: "(string \<Rightarrow> u64 \<Rightarrow> string) \<Rightarrow> log_prog \<Rightarrow> logsys \<Rightarrow> logsys \<Rightarrow> (ptr \<times> sink \<times> string) list \<Rightarrow> bool" for strf where
  a_nil: "alone strf [] s s []"
| a_lock: "alone strf p s s' w \<Longrightarrow> alone strf (Acquire l # p) s s' w"
| a_unlock: "alone strf p s s' w \<Longrightarrow> alone strf (Release l # p) s s' w"
| a_put: "alone strf p s s' w \<Longrightarrow> alone strf (Cmd (APut a k v) # p) s s' ((a, k, v) # w)"
| a_cmd: "puts c = [] \<Longrightarrow> do_cmd strf c s = Inr (s1, q) \<Longrightarrow> alone strf (q @ p) s1 s' w \<Longrightarrow>
    alone strf (Cmd c # p) s s' w"

lemma alone_append: "alone strf q s s1 v \<Longrightarrow> alone strf p s1 s' w \<Longrightarrow> alone strf (q @ p) s s' (v @ w)"
  by (induction rule: alone.induct) (auto intro: alone.intros)

lemma alone_cmd: "puts c = [] \<Longrightarrow> do_cmd strf c s = Inr (s1, q) \<Longrightarrow> alone strf q s1 s' w \<Longrightarrow> alone strf [Cmd c] s s' w"
  using a_cmd [of c strf s s1 q "[]"] by simp

lemma alone_two: "alone strf [i] s s1 v \<Longrightarrow> alone strf p s1 s' w \<Longrightarrow> alone strf (i # p) s s' (v @ w)"
  using alone_append [of strf "[i]"] by simp

lemma alone_guarded: "alone strf p s s' w \<Longrightarrow> alone strf (guarded l p) s s' w"
  using alone_append [of strf p s s' w "[Release l]" s' "[]"]
  by (auto simp: guarded_def intro: a_lock a_unlock a_nil)

lemma alone_puts:
  "alone strf p s s' w \<Longrightarrow> alone strf (put_items strf e a k is @ p) s s' (map (\<lambda>i. (a, k, format_item strf e i)) is @ w)"
  by (induction "is") (simp_all add: put_items_def a_put)

text \<open>
  The text that goes to a stream, and the lines for it: \<open>w\<close> is faithful to the lines that are added
  to the history between \<open>s\<close> and \<open>s'\<close>.
\<close>

definition text_to :: "sink \<Rightarrow> (ptr \<times> sink \<times> string) list \<Rightarrow> string" where
  "text_to k w = concat (map (\<lambda>(a, j, v). if j = k then v else []) w)"

definition lines_to :: "sink \<Rightarrow> (sink \<times> string) list \<Rightarrow> string" where
  "lines_to k v = concat (map (\<lambda>(j, l). if j = k then l else []) v)"

definition faithful :: "logsys \<Rightarrow> logsys \<Rightarrow> (ptr \<times> sink \<times> string) list \<Rightarrow> bool" where
  "faithful s s' w = (\<exists>v. ls_out s' = ls_out s @ v \<and> (\<forall>k. text_to k w = lines_to k v))"

lemma text_to_simps [simp]: "text_to k [] = []" "text_to k (v @ w) = text_to k v @ text_to k w"
  "lines_to k [] = []" "lines_to k (xs @ ys) = lines_to k xs @ lines_to k ys"
  by (simp_all add: text_to_def lines_to_def)

lemma faithful_nil: "ls_out s' = ls_out s \<Longrightarrow> faithful s s' []"
  by (simp add: faithful_def)

lemma faithful_append:
  assumes "faithful s s1 v" and "faithful s1 s' w"
  shows "faithful s s' (v @ w)"
proof -
  obtain x y where "ls_out s1 = ls_out s @ x" "\<forall>k. text_to k v = lines_to k x"
    "ls_out s' = ls_out s1 @ y" "\<forall>k. text_to k w = lines_to k y" using assms unfolding faithful_def by blast
  then show ?thesis unfolding faithful_def by (intro exI [of _ "x @ y"]) simp
qed

lemma faithful_line:
  assumes "ls_out s' = ls_out s @ [(k, format_event strf f e)]"
  shows "faithful s s' (map (\<lambda>i. (a, k, format_item strf e i)) (lf_items f))"
proof -
  have "text_to j (map (\<lambda>i. (a, k, format_item strf e i)) is) = (if j = k then concat (map (format_item strf e) is) else [])"
    for j "is" by (induction "is") (simp_all add: text_to_def)
  then show ?thesis using assms by (auto simp: faithful_def format_event_def lines_to_def)
qed

primrec call_alone :: "(string \<Rightarrow> u64 \<Rightarrow> string) \<Rightarrow> log_call \<Rightarrow> logsys \<Rightarrow> logsys res" where
  "call_alone strf (CallLog e n) s = Logger_log 1 strf e n s"
| "call_alone strf (CallAddAppender n a) s = addAppender n a s"
| "call_alone strf (CallDelAppender n a) s = delAppender n a s"
| "call_alone strf (CallClearAppenders n) s = clearAppenders n s"
| "call_alone strf (CallSetFormatter n f) s = setFormatter n f s"
| "call_alone strf (CallSetFormatterString n val) s = setFormatter_string n val s"
| "call_alone strf (CallSetLevel n v) s = setLevel n v s"
| "call_alone strf (CallGetLogger n) s = Inr (getLogger n s)"
| "call_alone strf (CallDump ns) s = Inr s"
| "call_alone strf (CallNewAppender k) s = Inr (snd (new_appender k s))"
| "call_alone strf (CallAppenderFormatter a f) s = bindR (get_appender a s) (\<lambda>x.
     Inr (put_appender a (LogAppender_setFormatter f x) s))"
| "call_alone strf (CallAppenderLevel a v) s = bindR (get_appender a s) (\<lambda>x.
     Inr (put_appender a (x\<lparr>ap_level := v\<rparr>) s))"

lemma Appender_log_alone:
  assumes "Appender_log strf e a s = Inr s'"
  shows "\<exists>w. alone strf [Cmd (ALog e a)] s s' w \<and> faithful s s' w \<and> ls_loggers s' = ls_loggers s"
proof -
  obtain x where x: "ls_appenders s a = Some x"
    using assms by (auto simp: Appender_log_def get_appender_def split: option.splits)
  show ?thesis
  proof (cases "ap_level x \<le> le_level e")
    case False
    then have "s' = s" using assms x
      by (auto simp: Appender_log_def Stdout_log_def File_log_def split: sink.splits)
    moreover have "alone strf [Cmd (ALog e a)] s s []"
      using x False by (auto simp: do_ALog_def intro!: alone_cmd a_nil)
    ultimately show ?thesis using faithful_nil [of s s] by blast
  next
    case True
    let ?late = "ap_lastTime x + 3 \<le> le_time e \<and> ap_sink x \<noteq> Console"
    let ?y = "if ?late then x\<lparr>ap_lastTime := le_time e\<rparr> else x"
    let ?t = "if ?late then put_appender a ?y s else s"
    have p: "put_line strf e a ?y s = Inr s'" using assms x True
      by (auto simp: Appender_log_def Stdout_log_def File_log_def split: sink.splits if_splits)
    then obtain f where f: "ap_formatter x = Some f"
      and s': "s' = (put_appender a ?y s)\<lparr>ls_out := ls_out s @ [(ap_sink x, format_event strf f e)]\<rparr>"
      by (auto simp: put_line_def split: option.splits if_splits)
    have s't: "s' = ?t\<lparr>ls_out := ls_out ?t @ [(ap_sink x, format_event strf f e)]\<rparr>"
      using s' x by (auto simp: put_appender_def fun_upd_idem)
    have ty: "ls_appenders ?t a = Some ?y" "ap_formatter ?y = Some f" "ap_sink ?y = ap_sink x" using x f by simp_all
    let ?w = "map (\<lambda>i. (a, ap_sink x, format_item strf e i)) (lf_items f)"
    let ?last = "Cmd (ALine a (ap_sink x) (format_event strf f e))"
    have "alone strf [?last] ?t s' []"
      by (rule alone_cmd [where q = "[]"]) (use s't in \<open>auto intro: a_nil\<close>)
    then have "alone strf (put_items strf e a (ap_sink x) (lf_items f) @ [?last]) ?t s' ?w"
      using alone_puts [of strf "[?last]" ?t s' "[]" e a "ap_sink x" "lf_items f"] by simp
    then have "alone strf [Cmd (AFormat e a)] ?t s' ?w"
      by (rule alone_cmd [rotated 2]) (use ty in \<open>simp_all add: do_AFormat_def\<close>)
    then have fmt: "alone strf (guarded (AppenderLock a) [Cmd (AFormat e a)]) ?t s' ?w" by (rule alone_guarded)
    have time: "alone strf [Cmd (ATime e a)] s ?t []" if "ap_sink x \<noteq> Console"
      using x that by (auto simp: do_ATime_def alter_def guarded_def intro!: alone_cmd a_nil a_lock a_unlock)
    have "alone strf [Cmd (ALog e a)] s s' ?w"
    proof (cases "ap_sink x")
      case Console
      then show ?thesis using fmt x True by (auto simp: do_ALog_def intro!: alone_cmd)
    next
      case (LogFile k)
      then have "alone strf (Cmd (ATime e a) # guarded (AppenderLock a) [Cmd (AFormat e a)]) s s' ?w"
        using alone_two [OF time fmt] by simp
      then show ?thesis using x True LogFile by (auto simp: do_ALog_def intro!: alone_cmd)
    qed
    moreover have "faithful s s' ?w" by (rule faithful_line) (simp add: s')
    moreover have "ls_loggers s' = ls_loggers s" by (simp add: s')
    ultimately show ?thesis by blast
  qed
qed

lemma LEach_alone:
  "ls_loggers s n = Some l \<Longrightarrow> appenders_log strf e (drop i (lg_appenders l)) s = Inr s' \<Longrightarrow>
    \<exists>w. alone strf [Cmd (LEach e n i)] s s' w \<and> faithful s s' w"
proof (induction "length (lg_appenders l) - i" arbitrary: i s)
  case 0
  then have "alone strf [Cmd (LEach e n i)] s s' []" by (auto simp: do_LEach_def intro!: alone_cmd a_nil)
  then show ?case using 0 faithful_nil [of s s'] by auto
next
  case (Suc d)
  then have i: "i < length (lg_appenders l)" by simp
  obtain s1 where 1: "Appender_log strf e (lg_appenders l ! i) s = Inr s1"
    "appenders_log strf e (drop (Suc i) (lg_appenders l)) s1 = Inr s'"
    using Suc.prems(2) by (auto simp: Cons_nth_drop_Suc [OF i, symmetric] bindR_def split: sum.splits)
  obtain v where v: "alone strf [Cmd (ALog e (lg_appenders l ! i))] s s1 v" "faithful s s1 v"
    "ls_loggers s1 = ls_loggers s" using Appender_log_alone [OF 1(1)] by blast
  obtain w where w: "alone strf [Cmd (LEach e n (Suc i))] s1 s' w" "faithful s1 s' w"
    using Suc.hyps(1) [of "Suc i" s1] Suc.hyps(2) Suc.prems(1) v(3) 1(2) by fastforce
  have "alone strf [Cmd (ALog e (lg_appenders l ! i)), Cmd (LEach e n (Suc i))] s s' (v @ w)"
    by (rule alone_two [OF v(1) w(1)])
  then have "alone strf [Cmd (LEach e n i)] s s' (v @ w)"
    using i Suc.prems(1) by (auto simp: do_LEach_def intro!: alone_cmd)
  then show ?case using faithful_append [OF v(2) w(2)] by blast
qed

lemma Logger_log_alone:
  "Logger_log d strf e n s = Inr s' \<Longrightarrow> \<exists>w. alone strf [Cmd (LLog e n)] s s' w \<and> faithful s s' w"
proof (induction d strf e n s rule: Logger_log.induct)
  case (1 d strf e n s)
  obtain l where l: "ls_loggers s n = Some l" using 1(2) by (auto simp: get_logger_def split: option.splits)
  have body: "alone strf [Cmd (LLog e n)] s s' w"
    if "alone strf [Cmd (LBody e n)] s s' w" "lg_level l \<le> le_level e" for w
    using l that by (auto simp: do_LLog_def intro!: alone_cmd alone_guarded)
  consider "\<not> lg_level l \<le> le_level e" | "lg_level l \<le> le_level e" "lg_appenders l \<noteq> []"
    | "lg_level l \<le> le_level e" "lg_appenders l = []" "lg_root l"
    | "lg_level l \<le> le_level e" "lg_appenders l = []" "\<not> lg_root l" by blast
  then show ?case
  proof cases
    case 1
    then have "s' = s" using \<open>Logger_log d strf e n s = Inr s'\<close> l by simp
    moreover have "alone strf [Cmd (LLog e n)] s s []" using l 1 by (auto simp: do_LLog_def intro!: alone_cmd a_nil)
    ultimately show ?thesis using faithful_nil [of s s] by blast
  next
    case 2
    then have "appenders_log strf e (drop 0 (lg_appenders l)) s = Inr s'"
      using \<open>Logger_log d strf e n s = Inr s'\<close> l by simp
    then obtain w where w: "alone strf [Cmd (LEach e n 0)] s s' w" "faithful s s' w" using LEach_alone [OF l] by blast
    have "alone strf [Cmd (LBody e n)] s s' w" using w(1) l 2(2) by (auto simp: do_LBody_def intro!: alone_cmd)
    then show ?thesis using body 2(1) w(2) by blast
  next
    case 3
    then obtain d' where d: "d = Suc d'" "Logger_log d' strf e ''root'' s = Inr s'"
      using \<open>Logger_log d strf e n s = Inr s'\<close> l by (cases d) simp_all
    then obtain w where w: "alone strf [Cmd (LLog e ''root'')] s s' w" "faithful s s' w"
      using "1.IH" [of l d'] l 3 by auto
    have "alone strf [Cmd (LBody e n)] s s' w" using w(1) l 3(2,3) by (auto simp: do_LBody_def intro!: alone_cmd)
    then show ?thesis using body 3(1) w(2) by blast
  next
    case 4
    then have "s' = s" using \<open>Logger_log d strf e n s = Inr s'\<close> l by simp
    moreover have "alone strf [Cmd (LBody e n)] s s []" using l 4 by (auto simp: do_LBody_def intro!: alone_cmd a_nil)
    ultimately show ?thesis using body [of "[]"] 4(1) faithful_nil [of s s] by blast
  qed
qed

lemma LInheritEach_alone:
  "ls_loggers s n = Some l \<Longrightarrow> inherit_formatter (lg_formatter l) (drop i (lg_appenders l)) s = Inr s' \<Longrightarrow>
    alone strf [Cmd (LInheritEach n i)] s s' []"
proof (induction "length (lg_appenders l) - i" arbitrary: i s)
  case 0
  then show ?case by (auto simp: do_LInheritEach_def intro!: alone_cmd a_nil)
next
  case (Suc d)
  then have i: "i < length (lg_appenders l)" by simp
  let ?a = "lg_appenders l ! i"
  obtain x where x: "ls_appenders s ?a = Some x"
    using Suc.prems(2) by (auto simp: Cons_nth_drop_Suc [OF i, symmetric] get_appender_def split: option.splits)
  let ?s = "if \<not> ap_hasFormatter x then put_appender ?a (x\<lparr>ap_formatter := lg_formatter l\<rparr>) s else s"
  have rest: "alone strf [Cmd (LInheritEach n (Suc i))] ?s s' []"
    by (rule Suc.hyps(1)) (use Suc.hyps(2) Suc.prems x in \<open>auto simp: Cons_nth_drop_Suc [OF i, symmetric]\<close>)
  have "alone strf (guarded (AppenderLock ?a) [Cmd (LInheritIf n ?a)]) s ?s []"
    by (rule alone_guarded, rule alone_cmd) (use Suc.prems(1) x in \<open>auto simp: do_LInheritIf_def intro: a_nil\<close>)
  from alone_append [OF this rest]
  have "alone strf (guarded (AppenderLock ?a) [Cmd (LInheritIf n ?a)] @ [Cmd (LInheritEach n (Suc i))]) s s' []" by simp
  then show ?case using i Suc.prems(1) by (auto simp: do_LInheritEach_def intro!: alone_cmd)
qed

lemma LDumpEach_alone:
  "ls_loggers s n = Some l \<Longrightarrow> alone strf [Cmd (LDumpEach n i)] s s []"
proof (induction "length (lg_appenders l) - i" arbitrary: i)
  case 0
  then show ?case by (auto simp: do_LDumpEach_def intro!: alone_cmd a_nil)
next
  case (Suc d)
  then have i: "i < length (lg_appenders l)" by simp
  have "alone strf [Cmd (LDumpEach n (Suc i))] s s []"
    by (rule Suc.hyps(1)) (use Suc.hyps(2) Suc.prems in auto)
  then show ?case using i Suc.prems
    by (auto simp: do_LDumpEach_def guarded_def intro!: alone_cmd a_lock a_unlock)
qed

lemma inherit_formatter_out: "inherit_formatter val as s = Inr s' \<Longrightarrow> ls_out s' = ls_out s"
  by (induction as arbitrary: s) (fastforce simp: res_simps)+

lemma setFormatter_alone:
  assumes "ls_loggers s n = Some l" and "setFormatter n f s = Inr s'"
  shows "alone strf (guarded (LoggerLock n) [Cmd (LSetFormatter n f)]) s s' [] \<and> ls_out s' = ls_out s"
proof -
  let ?l = "l\<lparr>lg_formatter := f\<rparr>"
  have i: "inherit_formatter f (lg_appenders l) (put_logger n ?l s) = Inr s'"
    using assms by (simp add: setFormatter_def)
  then have "alone strf [Cmd (LInheritEach n 0)] (put_logger n ?l s) s' []"
    by (intro LInheritEach_alone [of _ _ ?l]) simp_all
  then have "alone strf [Cmd (LSetFormatter n f)] s s' []" using assms(1) by (auto intro!: alone_cmd)
  then show ?thesis using inherit_formatter_out [OF i] by (simp add: alone_guarded)
qed

lemma call_runs:
  assumes "call_ok q s" and "call_alone strf q s = Inr s'"
  shows "\<exists>w. alone strf (call_prog q) s s' w \<and> faithful s s' w"
proof -
  have quiet: ?thesis if "alone strf (call_prog q) s s' []" "ls_out s' = ls_out s"
    using that faithful_nil [of s' s] by blast
  show ?thesis
  proof (cases q)
    case (CallLog e n)
    then show ?thesis using assms(2) Logger_log_alone by simp
  next
    case (CallAddAppender n a)
    obtain l x where l: "ls_loggers s n = Some l" "ls_appenders s a = Some x" using assms(1) CallAddAppender by auto
    let ?s = "if ap_formatter x = None then put_appender a (x\<lparr>ap_formatter := lg_formatter l\<rparr>) s else s"
    have s': "s' = put_logger n (l\<lparr>lg_appenders := lg_appenders l @ [a]\<rparr>) ?s"
      using assms(2) CallAddAppender l by (simp add: addAppender_def Let_def)
    have push: "alone strf [Cmd (LPush n a)] ?s s' []"
      using l by (auto simp: s' just_def intro!: alone_cmd a_nil)
    have "alone strf [Cmd (LAddGet n a)] s s' []"
    proof (cases "ap_formatter x = None")
      case True
      have "alone strf [Cmd (LInherit n a)] s s' []"
        using push l True by (auto simp: do_LInherit_def intro!: alone_cmd a_unlock)
      then show ?thesis using l True by (auto simp: do_LAddGet_def intro!: alone_cmd a_unlock a_lock)
    next
      case False
      then obtain y where "ap_formatter x = Some y" by auto
      then show ?thesis using l push a_unlock [OF push]
        by (intro alone_cmd [of _ _ s s "[Release (AppenderLock a), Cmd (LPush n a)]"])
          (simp_all add: do_LAddGet_def)
    qed
    then show ?thesis using CallAddAppender s' by (intro quiet) (auto intro!: alone_guarded a_lock)
  next
    case (CallSetFormatter n f)
    then show ?thesis using assms setFormatter_alone [of s n _ f s' strf] by (intro quiet) auto
  next
    case (CallSetFormatterString n val)
    then show ?thesis using assms setFormatter_alone [of s n _ "Some (LogFormatter val)" s' strf]
      by (intro quiet) (auto simp: Let_def setFormatter_string_def intro!: a_nil split: if_splits)
  next
    case (CallDump ns)
    have "alone strf (concat (map (\<lambda>n. guarded (LoggerLock n) [Cmd (LDumpEach n 0)]) ns)) s s []"
      if "list_all (\<lambda>n. ls_loggers s n \<noteq> None) ns" for ns
      using that
    proof (induction ns)
      case (Cons n ns)
      then obtain l where "ls_loggers s n = Some l" by auto
      from alone_append [OF alone_guarded [OF LDumpEach_alone [OF this]]] Cons show ?case by fastforce
    qed (simp add: a_nil)
    then show ?thesis using assms CallDump by (intro quiet) (auto intro!: alone_guarded)
  next
    case (CallNewAppender k)
    then show ?thesis using assms(2)
      by (intro quiet) (auto simp: new_appender_def intro!: alone_cmd a_nil)
  next
    case (CallGetLogger n)
    then show ?thesis using assms(2)
      by (intro quiet) (auto simp: getLogger_def intro!: alone_guarded alone_cmd a_nil split: option.split)
  qed (rule quiet; use assms in \<open>auto simp: alter_def just_def delAppender_def clearAppenders_def setLevel_def
      intro!: alone_guarded alone_cmd a_nil\<close>)+
qed

text \<open>Alone, a thread gets every lock it asks for, and has given all of them back at the end.\<close>

definition single :: "log_lock set \<Rightarrow> logsys \<Rightarrow> (tid \<times> ptr \<times> sink \<times> string) list \<Rightarrow> log_prog \<Rightarrow> log_machine" where
  "single H s w p = \<lparr>mc_locks = (\<lambda>l. if l \<in> H then Some 0 else None),
     mc_data = \<lparr>sl_sys = s, sl_stream = w\<rparr>, mc_progs = [p], mc_fault = None\<rparr>"

definition log_step :: "(string \<Rightarrow> u64 \<Rightarrow> string) \<Rightarrow> log_machine \<Rightarrow> log_machine \<Rightarrow> bool" where
  "log_step strf c c' = (\<exists>t. log_thread_step strf t c = Some c')"

lemma single_step:
  "instr_step Spinlock_lock Spinlock_unlock (log_exec strf) 0 i p (single H s w (i # p)) = Some c \<Longrightarrow>
    log_step strf (single H s w (i # p)) c"
  unfolding log_step_def by (rule exI [of _ 0]) (simp add: log_thread_step_def thread_step_def single_def)

lemma alone_run:
  "alone strf p s s' v \<Longrightarrow> log_wf s \<Longrightarrow> allowed s H p = Some {} \<Longrightarrow>
    (log_step strf)\<^sup>*\<^sup>* (single H s w p) (single {} s' (w @ map (Pair 0) v) [])"
proof (induction arbitrary: H w rule: alone.induct)
  case (a_nil s)
  then show ?case by auto
next
  case (a_lock p s s' v l)
  have l: "l \<notin> H" "allowed s (insert l H) p = Some {}" using a_lock.prems by (auto split: if_splits)
  have "log_step strf (single H s w (Acquire l # p)) (single (insert l H) s w p)"
    by (rule single_step)
      (use l in \<open>auto simp: instr_step_def Spinlock_lock_def goes_on_def set_lock_def single_def fun_eq_iff\<close>)
  then show ?case using a_lock.IH [OF a_lock.prems(1) l(2), of w] by (meson converse_rtranclp_into_rtranclp)
next
  case (a_unlock p s s' v l)
  have l: "l \<in> H" "allowed s (H - {l}) p = Some {}" using a_unlock.prems by (auto split: if_splits)
  have "log_step strf (single H s w (Release l # p)) (single (H - {l}) s w p)"
    by (rule single_step)
      (use l in \<open>auto simp: instr_step_def Spinlock_unlock_def goes_on_def set_lock_def single_def fun_eq_iff\<close>)
  then show ?case using a_unlock.IH [OF a_unlock.prems(1) l(2), of w] by (meson converse_rtranclp_into_rtranclp)
next
  case (a_put p s s' v a k x)
  obtain H' where h: "sys_held s H (APut a k x) = Some H'" "allowed s H' p = Some {}"
    using a_put.prems by (auto split: option.splits)
  have "allowed s H p = Some {}" using h(2) sys_heldD(4) [OF h(1)] by simp
  note IH = a_put.IH [OF a_put.prems(1) this, of "w @ [(0, a, k, x)]"]
  have "log_step strf (single H s w (Cmd (APut a k x) # p)) (single H s (w @ [(0, a, k, x)]) p)"
    by (rule single_step) (simp add: instr_step_def log_exec_def goes_on_def single_def)
  then show ?case using IH by (simp add: converse_rtranclp_into_rtranclp)
next
  case (a_cmd c s s1 q p s' v)
  obtain H' where h: "sys_held s H c = Some H'" "allowed s H' p = Some {}"
    using a_cmd.prems by (auto split: option.splits)
  from do_cmd_fine [OF a_cmd.prems(1) h(1), of strf] a_cmd.hyps(2)
  have 1: "log_wf s1" "log_grows s s1" "allowed s1 H q = Some H'" by (auto simp: cmd_fine_def)
  have "allowed s1 H (q @ p) = Some {}"
    using log.seg_stable [of "\<lparr>sl_sys = s, sl_stream = w\<rparr>" "\<lparr>sl_sys = s1, sl_stream = w\<rparr>" H' p "{}"] h(2) 1(2,3)
    by (simp add: seg_append seg_sys)
  note IH = a_cmd.IH [OF 1(1) this]
  have "log_exec strf 0 c \<lparr>sl_sys = s, sl_stream = w\<rparr> = Inr (\<lparr>sl_sys = s1, sl_stream = w\<rparr>, q)"
    using log_exec_sys [of strf c "\<lparr>sl_sys = s, sl_stream = w\<rparr>" s1 q 0] a_cmd.hyps(1,2) by simp
  then have "log_step strf (single H s w (Cmd c # p)) (single H s1 w (q @ p))"
    by (intro single_step) (simp add: instr_step_def goes_on_def single_def)
  then show ?case using IH [of w] by (meson converse_rtranclp_into_rtranclp)
qed

text \<open>
  C21. The concurrent definitions refine the sequential ones: a thread that makes a call while no
  other is at work runs to its end, finds every lock free, gives all of them back, and leaves
  the loggers and appenders, and the history of lines, as the sequential definition of the call
  has it (\<open>Logger_log\<close>, \<open>addAppender\<close>, \<open>setFormatter\<close> and the others of \<open>Loggers\<close>); and the text that
  goes to each stream, item by item, is that of the lines for it.
\<close>

theorem call_alone_exact:
  assumes "log_wf s" and "call_ok q s" and "call_alone strf q s = Inr s'"
  shows "\<exists>w. (log_step strf)\<^sup>*\<^sup>* (machine_new Spinlock_new \<lparr>sl_sys = s, sl_stream = []\<rparr> [call_prog q])
      (machine_new Spinlock_new \<lparr>sl_sys = s', sl_stream = map (Pair 0) w\<rparr> [[]]) \<and>
    (\<exists>v. ls_out s' = ls_out s @ v \<and> (\<forall>k. text_to k w = lines_to k v))"
proof -
  have m: "machine_new Spinlock_new \<lparr>sl_sys = t, sl_stream = w\<rparr> [p] = single {} t w p" for t w p
    by (simp add: machine_new_def single_def Spinlock_new_def)
  obtain w where w: "alone strf (call_prog q) s s' w" "faithful s s' w" using call_runs [OF assms(2,3)] by blast
  show ?thesis
    using alone_run [OF w(1) assms(1) call_allowed [OF assms(2)], of "[]"] w(2)
    by (auto simp: m faithful_def)
qed

theorem call_alone_exact_witness:
  "\<exists>s' w. (log_step no_strf)\<^sup>*\<^sup>*
      (machine_new Spinlock_new \<lparr>sl_sys = demo_logs, sl_stream = []\<rparr> [call_prog (CallLog demo_event ''system'')])
      (machine_new Spinlock_new \<lparr>sl_sys = s', sl_stream = map (Pair 0) w\<rparr> [[]]) \<and>
    ls_out s' = [(Console, ''INFO hello'')] \<and> text_to Console w = ''INFO hello''"
proof -
  have "case call_alone no_strf (CallLog demo_event ''system'') demo_logs of Inl _ \<Rightarrow> False
    | Inr s' \<Rightarrow> ls_out s' = [(Console, ''INFO hello'')]" by code_simp
  then obtain s' where s': "call_alone no_strf (CallLog demo_event ''system'') demo_logs = Inr s'"
    "ls_out s' = [(Console, ''INFO hello'')]" by (auto split: sum.splits)
  have "call_ok (CallLog demo_event ''system'') demo_logs" "ls_out demo_logs = []" by (simp_all add: demo_logs_def)
  from call_alone_exact [OF demo_logs_wf this(1) s'(1)] this(2) s'(2) obtain w where
    "(log_step no_strf)\<^sup>*\<^sup>*
      (machine_new Spinlock_new \<lparr>sl_sys = demo_logs, sl_stream = []\<rparr> [call_prog (CallLog demo_event ''system'')])
      (machine_new Spinlock_new \<lparr>sl_sys = s', sl_stream = map (Pair 0) w\<rparr> [[]])"
    "text_to Console w = lines_to Console [(Console, ''INFO hello'')]" by auto
  then show ?thesis using s'(2) by (intro exI [of _ s'] exI [of _ w]) (simp add: lines_to_def)
qed

end
