(* ===== verification/LogShuffles.thy ===== *)
theory LogShuffles
  imports LogLocks
begin

text \<open>
  What comes out when many threads log at once (\<open>Logger::log\<close>, the appenders and
  \<open>LogFormatter::format\<close> of \<open>sylar/log.cpp\<close>), output operation by output operation: what one thread
  writes stays in order, what goes through one appender comes in whole lines, and what two
  appenders write to the console gets mixed.
\<close>

section \<open>The output a thread has yet to make\<close>

text \<open>The items of the lines of an appender, and the output operations of a line for it.\<close>

definition items_of :: "logsys \<Rightarrow> ptr \<Rightarrow> fmt_item list" where
  "items_of s a = (case settings s a of None \<Rightarrow> [] | Some x \<Rightarrow> lf_items (the (ap_formatter x)))"

definition line_puts :: "(string \<Rightarrow> u64 \<Rightarrow> string) \<Rightarrow> logsys \<Rightarrow> log_event \<Rightarrow> ptr \<Rightarrow> (ptr \<times> sink \<times> string) list" where
  "line_puts strf s e a = (case settings s a of None \<Rightarrow> []
     | Some x \<Rightarrow> map (\<lambda>i. (a, ap_sink x, format_item strf e i)) (items_of s a))"

definition event_puts :: "(string \<Rightarrow> u64 \<Rightarrow> string) \<Rightarrow> logsys \<Rightarrow> log_event \<Rightarrow> ptr list \<Rightarrow> (ptr \<times> sink \<times> string) list" where
  "event_puts strf s e as = concat (map (\<lambda>a. case settings s a of None \<Rightarrow> []
     | Some x \<Rightarrow> if ap_level x \<le> le_level e then line_puts strf s e a else []) as)"

fun due_of :: "(string \<Rightarrow> u64 \<Rightarrow> string) \<Rightarrow> logsys \<Rightarrow> log_cmd \<Rightarrow> (ptr \<times> sink \<times> string) list" where
  "due_of strf s (LLog e n) = event_puts strf s e (log_targets s (le_level e) n)"
| "due_of strf s (LBody e n) = (case ls_loggers s n of None \<Rightarrow> [] | Some l \<Rightarrow>
     if lg_appenders l \<noteq> [] then event_puts strf s e (lg_appenders l)
     else if lg_root l then event_puts strf s e (own_targets s (le_level e) ''root'') else [])"
| "due_of strf s (LEach e n i) = (case ls_loggers s n of None \<Rightarrow> [] | Some l \<Rightarrow>
     event_puts strf s e (drop i (lg_appenders l)))"
| "due_of strf s (ALog e a) = event_puts strf s e [a]"
| "due_of strf s (AFormat e a) = line_puts strf s e a"
| "due_of strf s (APut a k w) = [(a, k, w)]"
| "due_of strf s c = []"

primrec due_instr :: "(string \<Rightarrow> u64 \<Rightarrow> string) \<Rightarrow> logsys \<Rightarrow> (log_lock, log_cmd) instr \<Rightarrow> (ptr \<times> sink \<times> string) list" where
  "due_instr strf s (Acquire l) = []"
| "due_instr strf s (Release l) = []"
| "due_instr strf s (Cmd c) = due_of strf s c"

definition due :: "(string \<Rightarrow> u64 \<Rightarrow> string) \<Rightarrow> logsys \<Rightarrow> log_prog \<Rightarrow> (ptr \<times> sink \<times> string) list" where
  "due strf s p = concat (map (due_instr strf s) p)"

lemma due_simps [simp]:
  "due strf s [] = []" "due strf s (i # p) = due_instr strf s i @ due strf s p"
  "due strf s (q @ p) = due strf s q @ due strf s p" "due strf s (guarded l p) = due strf s p"
  by (simp_all add: due_def guarded_def)

lemma due_put_items [simp]:
  "due strf s (put_items strf e a k is) = map (\<lambda>i. (a, k, format_item strf e i)) is"
  by (simp add: due_def put_items_def comp_def)

lemma event_puts_simps [simp]:
  "event_puts strf s e [] = []" "event_puts strf s e (as @ bs) = event_puts strf s e as @ event_puts strf s e bs"
  by (simp_all add: event_puts_def)

lemma event_puts_Cons: "event_puts strf s e (a # as) = event_puts strf s e [a] @ event_puts strf s e as"
  by (simp add: event_puts_def)

text \<open>The instructions of \<open>Logger::log\<close>, for the events \<open>E\<close>.\<close>

fun logs_only :: "log_event set \<Rightarrow> (log_lock, log_cmd) instr \<Rightarrow> bool" where
  "logs_only E (Cmd (LLog e n)) = (e \<in> E)"
| "logs_only E (Cmd (LBody e n)) = (e \<in> E)"
| "logs_only E (Cmd (LEach e n i)) = (e \<in> E)"
| "logs_only E (Cmd (ALog e a)) = (e \<in> E)"
| "logs_only E (Cmd (ATime e a)) = (e \<in> E)"
| "logs_only E (Cmd (ASetTime e a)) = (e \<in> E)"
| "logs_only E (Cmd (AFormat e a)) = (e \<in> E)"
| "logs_only E (Cmd (APut a k w)) = True"
| "logs_only E (Cmd (ALine a k w)) = True"
| "logs_only E (Cmd c) = False"
| "logs_only E i = True"

definition same_conf :: "logsys \<Rightarrow> logsys \<Rightarrow> bool" where
  "same_conf s t = (settings t = settings s \<and> ls_loggers t = ls_loggers s)"

lemma settingsE:
  assumes "same_conf s t" and "ls_appenders t a = Some x"
  obtains y where "settings s a = Some y" "ap_sink y = ap_sink x" "ap_level y = ap_level x"
    "ap_formatter y = ap_formatter x"
proof -
  have "settings s a = settings t a" using assms(1) by (simp add: same_conf_def)
  also have "\<dots> = Some (x\<lparr>ap_lastTime := 0\<rparr>)" using assms(2) by (simp add: settings_def)
  finally have "settings s a = Some (x\<lparr>ap_lastTime := 0\<rparr>)" .
  then show thesis by (rule that) simp_all
qed

text \<open>What a thread has left to put of the line it is at, through the appender \<open>a\<close>.\<close>

fun put_of :: "ptr \<Rightarrow> (log_lock, log_cmd) instr \<Rightarrow> string list" where
  "put_of a (Cmd (APut b k w)) = (if b = a then [w] else [])"
| "put_of a i = []"

definition pending :: "ptr \<Rightarrow> log_prog \<Rightarrow> string list" where
  "pending a p = concat (map (put_of a) p)"

fun is_put :: "(log_lock, log_cmd) instr \<Rightarrow> bool" where
  "is_put (Cmd (APut a k w)) = True"
| "is_put i = False"

text \<open>All of it comes first, and through one appender.\<close>

fun orderly :: "log_prog \<Rightarrow> bool" where
  "orderly (Cmd (APut a k w) # p) = (orderly p \<and> (\<forall>b. b \<noteq> a \<longrightarrow> pending b p = []))"
| "orderly p = list_all (\<lambda>i. \<not> is_put i) p"

lemma pending_simps [simp]:
  "pending a [] = []" "pending a (i # p) = put_of a i @ pending a p" "pending a (q @ p) = pending a q @ pending a p"
  by (simp_all add: pending_def)

lemma pending_plain: "list_all (\<lambda>i. \<not> is_put i) p \<Longrightarrow> pending a p = []"
proof (induction p)
  case (Cons i p)
  then show ?case by (cases "(a, i)" rule: put_of.cases) auto
qed simp

lemma orderly_plain: "list_all (\<lambda>i. \<not> is_put i) p \<Longrightarrow> orderly p"
  by (cases p rule: orderly.cases) simp_all

lemma orderly_head: "orderly (i # p) \<Longrightarrow> \<not> is_put i \<Longrightarrow> list_all (\<lambda>i. \<not> is_put i) p"
  by (cases "i # p" rule: orderly.cases) auto

lemma pending_head:
  assumes "orderly p" and "pending a p \<noteq> []"
  obtains k w q where "p = Cmd (APut a k w) # q"
  using assms pending_plain [of p a] by (cases p rule: orderly.cases) (auto split: if_splits)

lemma orderly_puts:
  "list_all (\<lambda>i. \<not> is_put i) p \<Longrightarrow> orderly (put_items strf e a k is @ p) \<and>
    pending b (put_items strf e a k is @ p) = (if b = a then map (format_item strf e) is else [])"
proof (induction "is" arbitrary: b)
  case Nil
  then show ?case using pending_plain [of p] orderly_plain [of p] by (simp add: put_items_def)
next
  case (Cons i "is")
  then show ?case by (auto simp: put_items_def)
qed

text \<open>A command of \<open>Logger::log\<close> writes what is due now, and what it leaves is due later.\<close>

definition logged :: "(string \<Rightarrow> u64 \<Rightarrow> string) \<Rightarrow> logsys \<Rightarrow> log_event set \<Rightarrow> log_cmd \<Rightarrow> logsys \<Rightarrow> log_prog \<Rightarrow> bool" where
  "logged strf s E c t' q = (same_conf s t' \<and> list_all (logs_only E) q \<and> due_of strf s c = puts c @ due strf s q \<and>
     (case c of AFormat e a \<Rightarrow> \<exists>k w. q = put_items strf e a k (items_of s a) @ [Cmd (ALine a k w)]
      | _ \<Rightarrow> list_all (\<lambda>i. \<not> is_put i) q))"

lemma do_log_cmd:
  assumes wf: "log_wf s" and same: "same_conf s t" and c: "logs_only E (Cmd c)" "finds c t"
    and step: "do_cmd strf c t = Inr (t', q)"
  shows "logged strf s E c t' q"
proof -
  have lg: "ls_loggers t = ls_loggers s" using same by (simp add: same_conf_def)
  show ?thesis
  proof (cases c)
    case (LLog e n)
    then show ?thesis using step same lg c(1)
      by (auto simp: do_LLog_def get_logger_def log_targets_def own_targets_def guarded_def logged_def
          split: option.splits if_splits)
  next
    case (LBody e n)
    obtain r where r: "ls_loggers s ''root'' = Some r" using log_wf_root [OF wf] by auto
    then have "\<not> lg_root r" using log_wfD [OF wf r] by (simp add: logger_wf_def)
    then show ?thesis using step same lg r LBody c(1)
      by (auto simp: do_LBody_def get_logger_def log_targets_def own_targets_def logged_def
          split: option.splits if_splits)
  next
    case (LEach e n i)
    then show ?thesis using step same lg c(1)
      by (auto simp: do_LEach_def get_logger_def Cons_nth_drop_Suc [symmetric] logged_def
          event_puts_Cons [of strf s e _ "drop (Suc i) _"] split: option.splits if_splits)
  next
    case (ALog e a)
    obtain x where x: "ls_appenders t a = Some x" using c(2) ALog by (auto elim: readyE)
    obtain y where "settings s a = Some y" "ap_sink y = ap_sink x" "ap_level y = ap_level x"
      "ap_formatter y = ap_formatter x" by (rule settingsE [OF same x])
    then show ?thesis using step same x ALog c(1)
      by (auto simp: do_ALog_def event_puts_def guarded_def logged_def split: sink.splits if_splits)
  next
    case (ATime e a)
    obtain x where x: "ls_appenders t a = Some x" using c(2) ATime by (auto elim: readyE)
    then show ?thesis using step same ATime c(1)
      by (auto simp: do_ATime_def guarded_def logged_def split: if_splits)
  next
    case (ASetTime e a)
    obtain x where x: "ls_appenders t a = Some x" using c(2) ASetTime by (auto elim: readyE)
    then have "t' = put_appender a (x\<lparr>ap_lastTime := le_time e\<rparr>) t" "q = []"
      using step ASetTime by (auto simp: alter_def)
    moreover from this x have "settings t' = settings t" by (auto simp: settings_def fun_eq_iff)
    ultimately show ?thesis using same ASetTime by (simp add: logged_def same_conf_def)
  next
    case (AFormat e a)
    obtain x f where x: "ls_appenders t a = Some x" "ap_formatter x = Some f" using c(2) AFormat by (auto elim: readyE)
    obtain y where y: "settings s a = Some y" "ap_sink y = ap_sink x" "ap_formatter y = ap_formatter x"
      by (rule settingsE [OF same x(1)])
    have "t' = t" "q = put_items strf e a (ap_sink x) (lf_items f) @ [Cmd (ALine a (ap_sink x) (format_event strf f e))]"
      using step AFormat x by (auto simp: do_AFormat_def)
    moreover have "list_all (logs_only E) (put_items strf e a k is)" for k "is"
      by (simp add: put_items_def list_all_iff)
    ultimately show ?thesis using same AFormat x(2) y by (auto simp: logged_def line_puts_def items_of_def)
  next
    case (APut a k w)
    then show ?thesis using step same by (auto simp: logged_def)
  next
    case (ALine a k w)
    then have "settings t' = settings t" "ls_loggers t' = ls_loggers t" "q = []"
      using step by (auto simp: settings_def fun_eq_iff)
    then show ?thesis using same ALine by (simp add: logged_def same_conf_def)
  qed (use c(1) in simp_all)
qed

section \<open>Threads that log\<close>

text \<open>One log statement after the other, each an event and the name of its logger.\<close>

definition log_calls :: "(log_event \<times> string) list \<Rightarrow> log_prog" where
  "log_calls es = concat (map (\<lambda>(e, n). call_prog (CallLog e n)) es)"

type_synonym stream = "(tid \<times> ptr \<times> sink \<times> string) list"

definition puts_by :: "tid \<Rightarrow> stream \<Rightarrow> (ptr \<times> sink \<times> string) list" where
  "puts_by t w = map snd (filter (\<lambda>x. fst x = t) w)"

text \<open>What goes through an appender, with the thread that puts it.\<close>

definition through :: "ptr \<Rightarrow> stream \<Rightarrow> (tid \<times> string) list" where
  "through a w = concat (map (\<lambda>(t, b, k, v). if b = a then [(t, v)] else []) w)"

text \<open>What the statements put out, one after the other; and a whole line of a thread.\<close>

definition puts_of_calls :: "(string \<Rightarrow> u64 \<Rightarrow> string) \<Rightarrow> logsys \<Rightarrow> (log_event \<times> string) list \<Rightarrow>
    (ptr \<times> sink \<times> string) list" where
  "puts_of_calls strf s es = concat (map (\<lambda>(e, n). event_puts strf s e (log_targets s (le_level e) n)) es)"

definition whole :: "(string \<Rightarrow> u64 \<Rightarrow> string) \<Rightarrow> logsys \<Rightarrow> ptr \<Rightarrow> tid \<times> log_event \<Rightarrow> (tid \<times> string) list" where
  "whole strf s a = (\<lambda>(t, e). map (\<lambda>i. (t, format_item strf e i)) (items_of s a))"

lemma puts_by_simps [simp]:
  "puts_by t [] = []" "puts_by t (w @ v) = puts_by t w @ puts_by t v"
  "puts_by t (map (Pair u) xs) = (if t = u then xs else [])"
  by (auto simp: puts_by_def filter_map comp_def)

lemma through_simps [simp]: "through a [] = []" "through a (w @ v) = through a w @ through a v"
  by (simp_all add: through_def)

lemma log_calls_due: "due strf s (log_calls es) = puts_of_calls strf s es"
  by (induction es) (auto simp: log_calls_def puts_of_calls_def)

lemma log_calls_only: "fst ` set es \<subseteq> E \<Longrightarrow> list_all (logs_only E) (log_calls es)"
  by (induction es) (auto simp: log_calls_def)

lemma log_calls_plain: "list_all (\<lambda>i. \<not> is_put i) (log_calls es)"
  by (induction es) (auto simp: log_calls_def)

lemma log_calls_allowed:
  "\<forall>(e, n) \<in> set es. ls_loggers s n \<noteq> None \<Longrightarrow> allowed s {} (log_calls es) = Some {}"
  by (induction es) (auto simp: log_calls_def seg_append sys_held_def)

section \<open>What holds all the time\<close>

text \<open>
  What went through an appender is whole lines of events logged by the threads, and the beginning
  of one that a thread is putting out.
\<close>

definition logged_by :: "(log_event \<times> string) list list \<Rightarrow> tid \<times> log_event \<Rightarrow> bool" where
  "logged_by ess = (\<lambda>(t, e). t < length ess \<and> e \<in> fst ` set (ess ! t))"

definition lined_up :: "(string \<Rightarrow> u64 \<Rightarrow> string) \<Rightarrow> logsys \<Rightarrow> (log_event \<times> string) list list \<Rightarrow> stream \<Rightarrow>
    log_prog list \<Rightarrow> ptr \<Rightarrow> bool" where
  "lined_up strf s ess w ps a = (\<exists>ls part. list_all (logged_by ess) ls \<and>
     through a w = concat (map (whole strf s a) ls) @ part \<and>
     (part = [] \<and> (\<forall>u < length ps. pending a (ps ! u) = []) \<or>
      (\<exists>t e. logged_by ess (t, e) \<and> part @ map (Pair t) (pending a (ps ! t)) = whole strf s a (t, e) \<and>
         (\<forall>u < length ps. u \<noteq> t \<longrightarrow> pending a (ps ! u) = []))))"

lemma lined_idle:
  assumes "lined_up strf s ess w ps a" and "\<forall>u < length ps. pending a (ps ! u) = []" and "length ps = length ess"
  shows "\<exists>ls. list_all (logged_by ess) ls \<and> through a w = concat (map (whole strf s a) ls)"
proof -
  obtain ls part where l: "list_all (logged_by ess) ls" "through a w = concat (map (whole strf s a) ls) @ part"
    and c: "part = [] \<or> (\<exists>t e. logged_by ess (t, e) \<and> part @ map (Pair t) (pending a (ps ! t)) = whole strf s a (t, e))"
    using assms(1) unfolding lined_up_def by blast
  from c show ?thesis
  proof
    assume "part = []"
    then show ?thesis using l by auto
  next
    assume "\<exists>t e. logged_by ess (t, e) \<and> part @ map (Pair t) (pending a (ps ! t)) = whole strf s a (t, e)"
    then obtain t e where e: "logged_by ess (t, e)" "part @ map (Pair t) (pending a (ps ! t)) = whole strf s a (t, e)" by blast
    then have "pending a (ps ! t) = []" using assms(2,3) by (simp add: logged_by_def)
    then show ?thesis using l e by (intro exI [of _ "ls @ [(t, e)]"]) simp
  qed
qed

lemma lined_same:
  assumes "lined_up strf s ess w ps a" and "through a w' = through a w"
    and "pending a p = pending a (ps ! t)"
  shows "lined_up strf s ess w' (ps[t := p]) a"
proof -
  have "pending a (ps[t := p] ! u) = pending a (ps ! u)" for u
    using assms(3) by (cases "t < length ps") (auto simp: nth_list_update list_update_beyond)
  then show ?thesis using assms(1,2) by (simp add: lined_up_def)
qed

lemma lined_format:
  assumes l: "lined_up strf s ess w ps a" and n: "length ps = length ess" and t: "t < length ps"
    and idle: "\<forall>u < length ps. pending a (ps ! u) = []" and e: "logged_by ess (t, e)"
    and q: "pending a q = map (format_item strf e) (items_of s a)"
  shows "lined_up strf s ess w (ps[t := q]) a"
proof -
  obtain ls where ls: "list_all (logged_by ess) ls" "through a w = concat (map (whole strf s a) ls)"
    using lined_idle [OF l idle n] by blast
  have "[] @ map (Pair t) (pending a (ps[t := q] ! t)) = whole strf s a (t, e)" using t q by (simp add: whole_def)
  moreover have "\<forall>u < length (ps[t := q]). u \<noteq> t \<longrightarrow> pending a (ps[t := q] ! u) = []" using idle by simp
  moreover have "through a w = concat (map (whole strf s a) ls) @ []" using ls(2) by simp
  ultimately show ?thesis using ls(1) e unfolding lined_up_def by blast
qed

lemma lined_put:
  assumes l: "lined_up strf s ess w ps a" and t: "t < length ps" and p: "ps ! t = Cmd (APut a k v) # p"
  shows "lined_up strf s ess (w @ [(t, a, k, v)]) (ps[t := p]) a"
proof -
  have pt: "pending a (ps ! t) = v # pending a p" using p by simp
  obtain ls part where ls: "list_all (logged_by ess) ls" "through a w = concat (map (whole strf s a) ls) @ part"
    and c: "part = [] \<and> (\<forall>u < length ps. pending a (ps ! u) = []) \<or>
      (\<exists>u e. logged_by ess (u, e) \<and> part @ map (Pair u) (pending a (ps ! u)) = whole strf s a (u, e) \<and>
         (\<forall>z < length ps. z \<noteq> u \<longrightarrow> pending a (ps ! z) = []))"
    using l unfolding lined_up_def by blast
  from c pt t obtain u e where u: "logged_by ess (u, e)" "part @ map (Pair u) (pending a (ps ! u)) = whole strf s a (u, e)"
    "\<forall>z < length ps. z \<noteq> u \<longrightarrow> pending a (ps ! z) = []" by fastforce
  then have ut: "u = t" using pt t by fastforce
  have "(part @ [(t, v)]) @ map (Pair t) (pending a (ps[t := p] ! t)) = whole strf s a (t, e)"
    using u(2) pt t ut by simp
  moreover have "\<forall>z < length (ps[t := p]). z \<noteq> t \<longrightarrow> pending a (ps[t := p] ! z) = []" using u(3) ut by simp
  moreover have "through a (w @ [(t, a, k, v)]) = concat (map (whole strf s a) ls) @ part @ [(t, v)]"
    using ls(2) by (simp add: through_def)
  ultimately show ?thesis using ls(1) u(1) ut unfolding lined_up_def by blast
qed

definition shuffled :: "(string \<Rightarrow> u64 \<Rightarrow> string) \<Rightarrow> logsys \<Rightarrow> (log_event \<times> string) list list \<Rightarrow> log_machine \<Rightarrow> bool" where
  "shuffled strf s ess c = ((\<exists>H. log.machine_ok c H) \<and> same_conf s (sl_sys (mc_data c)) \<and>
     length (mc_progs c) = length ess \<and>
     (\<forall>t < length ess. list_all (logs_only (fst ` set (ess ! t))) (mc_progs c ! t) \<and> orderly (mc_progs c ! t) \<and>
       puts_by t (sl_stream (mc_data c)) @ due strf s (mc_progs c ! t) = puts_of_calls strf s (ess ! t)) \<and>
     (\<forall>a. lined_up strf s ess (sl_stream (mc_data c)) (mc_progs c) a))"

text \<open>The parts of \<open>shuffled\<close> that a step of one thread has to keep.\<close>

lemma shuffled_goes:
  assumes sh: "shuffled strf s ess c" and ok: "\<exists>H. log.machine_ok c' H"
    and c': "mc_progs c' = (mc_progs c)[t := q]" "same_conf s (sl_sys (mc_data c'))"
      "sl_stream (mc_data c') = sl_stream (mc_data c) @ map (Pair t) v"
    and q: "t < length ess" "list_all (logs_only (fst ` set (ess ! t))) q" "orderly q"
      "due strf s (mc_progs c ! t) = v @ due strf s q"
    and l: "\<And>a. lined_up strf s ess (sl_stream (mc_data c')) (mc_progs c') a"
  shows "shuffled strf s ess c'"
  using assms by (auto simp: shuffled_def nth_list_update)

lemma guards_held:
  assumes ok: "log.machine_ok c H" and t: "t < length (mc_progs c)" "mc_progs c ! t = Cmd x # p"
  shows "guards_of x \<subseteq> H t" and "finds x (sl_sys (mc_data c))"
proof -
  obtain H' where h: "sys_held (sl_sys (mc_data c)) (H t) x = Some H'"
    using log.machine_okD(3) [OF ok t(1)] unfolding t(2) by (auto split: option.splits)
  show "guards_of x \<subseteq> H t" "finds x (sl_sys (mc_data c))" using sys_heldD(1,3) [OF h] by simp_all
qed

text \<open>The thread that holds the lock of an appender is the only one that may be at a line of it.\<close>

lemma others_idle:
  assumes ok: "log.machine_ok c H" and a: "AppenderLock a \<in> H t"
    and u: "u < length (mc_progs c)" "u \<noteq> t" "orderly (mc_progs c ! u)"
  shows "pending a (mc_progs c ! u) = []"
proof (rule ccontr)
  assume "pending a (mc_progs c ! u) \<noteq> []"
  then obtain k w q where "mc_progs c ! u = Cmd (APut a k w) # q" by (rule pending_head [OF u(3)])
  then have "AppenderLock a \<in> H u" using guards_held(1) [OF ok u(1)] by fastforce
  then show False using log.exclusive [OF ok u(2)] a by blast
qed

lemma shuffled_cmd:
  assumes wf: "log_wf s" and sh: "shuffled strf s ess c" and ok': "\<exists>H'. log.machine_ok c' H'"
    and t: "t < length ess" "mc_progs c ! t = Cmd x # p"
    and q: "do_cmd strf x (sl_sys (mc_data c)) = Inr (s1, q)"
    and c': "c' = goes_on t (q @ p) (c\<lparr>mc_data := \<lparr>sl_sys = s1,
      sl_stream = sl_stream (mc_data c) @ map (Pair t) (puts x)\<rparr>\<rparr>)"
  shows "shuffled strf s ess c'"
proof -
  let ?w = "sl_stream (mc_data c)" and ?ps = "mc_progs c" and ?E = "fst ` set (ess ! t)"
  obtain H where ok: "log.machine_ok c H" using sh by (auto simp: shuffled_def)
  have n: "length ?ps = length ess" using sh by (simp add: shuffled_def)
  have me: "list_all (logs_only ?E) (Cmd x # p)" "orderly (Cmd x # p)" "\<And>a. lined_up strf s ess ?w ?ps a"
    using sh t by (auto simp: shuffled_def)
  have tl: "t < length ?ps" using n t(1) by simp
  note g = guards_held [OF ok tl t(2)]
  have lg: "logged strf s ?E x s1 q"
    by (rule do_log_cmd [OF wf _ _ g(2) q]) (use sh me(1) in \<open>simp_all add: shuffled_def\<close>)
  then have lg': "same_conf s s1" "list_all (logs_only ?E) q" "due_of strf s x = puts x @ due strf s q"
    by (simp_all add: logged_def)
  have go: ?thesis if "orderly (q @ p)" "\<And>a. lined_up strf s ess (?w @ map (Pair t) (puts x)) (?ps[t := q @ p]) a"
    by (rule shuffled_goes [OF sh ok', of t "q @ p" "puts x"])
      (use that lg' me(1) t c' in \<open>simp_all add: goes_on_def\<close>)
  show ?thesis
  proof (cases "is_put (Cmd x)")
    case True
    then obtain a k v where x: "x = APut a k v" by (cases x) simp_all
    then have q0: "q = []" using q by simp
    have o: "orderly p" "\<And>b. b \<noteq> a \<Longrightarrow> pending b p = []" using me(2) x by simp_all
    have "lined_up strf s ess (?w @ [(t, a, k, v)]) (?ps[t := p]) b" for b
    proof (cases "b = a")
      case True
      then show ?thesis using lined_put [OF me(3) tl] t(2) x by simp
    next
      case False
      then show ?thesis using t(2) x
        by (intro lined_same [OF me(3)]) (simp_all add: through_def)
    qed
    then show ?thesis using go o(1) x q0 by simp
  next
    case False
    have pl: "list_all (\<lambda>i. \<not> is_put i) p" by (rule orderly_head [OF me(2) False])
    have none: "pending b (?ps ! t) = []" for b
      using t(2) pending_plain [OF pl] False by (cases x) simp_all
    have nx: "puts x = []" using False by (cases x) simp_all
    show ?thesis
    proof (cases "\<exists>e a. x = AFormat e a")
      case True
      then obtain e a where x: "x = AFormat e a" by blast
      obtain k w where qf: "q = put_items strf e a k (items_of s a) @ [Cmd (ALine a k w)]"
        using lg x by (auto simp: logged_def)
      have op: "orderly (q @ p)" "pending b (q @ p) = (if b = a then map (format_item strf e) (items_of s a) else [])" for b
        using orderly_puts [of "Cmd (ALine a k w) # p" strf e a k "items_of s a" b] pl by (simp_all add: qf)
      have "AppenderLock a \<in> H t" using g(1) x by simp
      then have idle: "\<forall>u < length ?ps. pending a (?ps ! u) = []"
        using others_idle [OF ok] none sh n by (metis shuffled_def)
      have e: "logged_by ess (t, e)" using me(1) x t(1) by (simp add: logged_by_def)
      have "lined_up strf s ess ?w (?ps[t := q @ p]) b" for b
      proof (cases "b = a")
        case True
        then show ?thesis using lined_format [OF me(3) n tl idle e] op(2) by simp
      next
        case False
        then show ?thesis using op(2) none by (intro lined_same [OF me(3)]) simp_all
      qed
      then show ?thesis using go op(1) nx by simp
    next
      case no: False
      then have qp: "list_all (\<lambda>i. \<not> is_put i) (q @ p)" using lg pl by (cases x) (simp_all add: logged_def)
      then have "lined_up strf s ess ?w (?ps[t := q @ p]) b" for b
        using none pending_plain [OF qp] by (intro lined_same [OF me(3)]) simp_all
      then show ?thesis using go orderly_plain [OF qp] nx by simp
    qed
  qed
qed

lemma shuffled_step:
  assumes wf: "log_wf s" and sh: "shuffled strf s ess c" and step: "log_step strf c c'"
  shows "shuffled strf s ess c'"
proof -
  obtain H where ok: "log.machine_ok c H" using sh by (auto simp: shuffled_def)
  obtain t where t: "log_thread_step strf t c = Some c'" using step by (auto simp: log_step_def)
  have ok': "\<exists>H'. log.machine_ok c' H'" using log.step_ok [OF ok] t unfolding log_thread_step_def by blast
  have nf: "mc_fault c' = None" using ok' log.machine_okD(1) by blast
  have tl: "t < length ess" using sh t
    by (auto simp: log_thread_step_def thread_step_def shuffled_def not_le split: if_splits)
  obtain i p where ip: "mc_progs c ! t = i # p" and ist: "instr_step Spinlock_lock Spinlock_unlock (log_exec strf) t i p c = Some c'"
    using t by (auto simp: log_thread_step_def thread_step_def split: if_splits list.splits)
  have me: "list_all (logs_only (fst ` set (ess ! t))) (i # p)" "orderly (i # p)"
    "\<And>a. lined_up strf s ess (sl_stream (mc_data c)) (mc_progs c) a"
    using sh tl ip by (auto simp: shuffled_def)
  have moves: ?thesis if c': "mc_progs c' = (mc_progs c)[t := p]" "mc_data c' = mc_data c" and i: "\<forall>x. i \<noteq> Cmd x"
  proof (rule shuffled_goes [OF sh ok' c'(1)])
    have "\<not> is_put i" "put_of a i = []" for a using i by (cases i; simp)+
    then show "orderly p" "\<And>a. lined_up strf s ess (sl_stream (mc_data c')) (mc_progs c') a"
      using orderly_plain [OF orderly_head [OF me(2)]] c' ip
      by (auto intro!: lined_same [OF me(3)])
    show "due strf s (mc_progs c ! t) = [] @ due strf s p" using ip i by (cases i) simp_all
  qed (use sh c' tl me(1) in \<open>simp_all add: shuffled_def\<close>)
  show ?thesis
  proof (cases i)
    case (Acquire l)
    then obtain m where "c' = goes_on t p (set_lock l m c)" using ist by (auto simp: instr_step_def)
    then show ?thesis using Acquire by (intro moves) (simp_all add: goes_on_def set_lock_def)
  next
    case (Release l)
    then obtain m where "c' = goes_on t p (set_lock l m c)"
      using ist nf by (auto simp: instr_step_def split: sum.splits)
    then show ?thesis using Release by (intro moves) (simp_all add: goes_on_def set_lock_def)
  next
    case (Cmd x)
    obtain s1 q where q: "do_cmd strf x (sl_sys (mc_data c)) = Inr (s1, q)"
      using ist Cmd nf by (cases "do_cmd strf x (sl_sys (mc_data c))") (auto simp: instr_step_def log_exec_def)
    show ?thesis
      by (rule shuffled_cmd [OF wf sh ok' tl ip [unfolded Cmd] q])
        (use ist Cmd q in \<open>simp add: instr_step_def log_exec_def\<close>)
  qed
qed

lemma shuffled_run:
  assumes "log_wf s" and "\<forall>es \<in> set ess. \<forall>(e, n) \<in> set es. ls_loggers s n \<noteq> None"
    and "(log_step strf)\<^sup>*\<^sup>* (machine_new Spinlock_new \<lparr>sl_sys = s, sl_stream = []\<rparr> (map log_calls ess)) c"
  shows "shuffled strf s ess c"
  using assms(3)
proof (induction rule: rtranclp_induct)
  case base
  have "allowed s {} p = Some {}" if "p \<in> set (map log_calls ess)" for p
    using that assms(2) by (auto intro!: log_calls_allowed)
  then have "log.machine_ok (machine_new Spinlock_new \<lparr>sl_sys = s, sl_stream = []\<rparr> (map log_calls ess)) (\<lambda>t. {})"
    by (intro log.machine_new_ok) (use assms(1) in \<open>simp_all add: seg_sys\<close>)
  moreover have "lined_up strf s ess [] (map log_calls ess) a" for a
    unfolding lined_up_def by (intro exI [of _ "[]"]) (simp add: pending_plain [OF log_calls_plain])
  ultimately show ?case
    by (auto simp: shuffled_def machine_new_def same_conf_def log_calls_due log_calls_only
        orderly_plain [OF log_calls_plain])
next
  case (step c1 c2)
  show ?case by (rule shuffled_step [OF assms(1) step.IH step.hyps(2)])
qed

section \<open>Properties\<close>

text \<open>
  C19. Threads that log at the same time lose nothing, and mix no lines that go through one
  appender. Whatever the interleaving of their output operations, what each thread has put out at
  any time is a beginning of what its statements put out one after the other, and all of it once
  the thread is done. What has gone through each appender is a sequence of whole lines, each the
  items of one event that one of the threads has logged, put out by that thread alone, followed by
  at most the beginning of one more line, and by none when all threads are done. Nothing fails, and
  no logger and no appender is configured differently in the end. The lock is that of the appender
  and not of the stream: two appenders that write to the same stream, as the root logger and
  \<open>system\<close> do to the console in \<open>bin/conf/log.yml\<close>, do mix their lines (\<open>console_lines_mix\<close>).
\<close>

theorem concurrent_lines_kept:
  assumes "log_wf s" and "\<forall>es \<in> set ess. \<forall>(e, n) \<in> set es. ls_loggers s n \<noteq> None"
    and "(log_step strf)\<^sup>*\<^sup>* (machine_new Spinlock_new \<lparr>sl_sys = s, sl_stream = []\<rparr> (map log_calls ess)) c"
    and "w = sl_stream (mc_data c)"
  shows "mc_fault c = None \<and> settings (sl_sys (mc_data c)) = settings s \<and>
    ls_loggers (sl_sys (mc_data c)) = ls_loggers s \<and>
    (\<forall>t < length ess. (\<exists>rest. puts_by t w @ rest = puts_of_calls strf s (ess ! t)) \<and>
      (mc_progs c ! t = [] \<longrightarrow> puts_by t w = puts_of_calls strf s (ess ! t))) \<and>
    (\<forall>a. \<exists>ls part. list_all (logged_by ess) ls \<and> through a w = concat (map (whole strf s a) ls) @ part \<and>
      (part = [] \<or> (\<exists>x rest. logged_by ess x \<and> part @ rest = whole strf s a x)) \<and>
      ((\<forall>t < length ess. mc_progs c ! t = []) \<longrightarrow> part = []))"
proof -
  note sh = shuffled_run [OF assms(1-3)]
  have n: "length (mc_progs c) = length ess" using sh by (simp add: shuffled_def)
  have lines: "\<exists>ls part. list_all (logged_by ess) ls \<and> through a w = concat (map (whole strf s a) ls) @ part \<and>
      (part = [] \<or> (\<exists>x rest. logged_by ess x \<and> part @ rest = whole strf s a x)) \<and>
      ((\<forall>t < length ess. mc_progs c ! t = []) \<longrightarrow> part = [])" for a
  proof -
    have l: "lined_up strf s ess w (mc_progs c) a" using sh assms(4) by (simp add: shuffled_def)
    show ?thesis
    proof (cases "\<forall>t < length ess. mc_progs c ! t = []")
      case True
      then have "\<forall>u < length (mc_progs c). pending a (mc_progs c ! u) = []" using n by simp
      from lined_idle [OF l this n] show ?thesis by fastforce
    next
      case False
      then show ?thesis using l unfolding lined_up_def by blast
    qed
  qed
  have "puts_by t w = puts_of_calls strf s (ess ! t)" if "t < length ess" "mc_progs c ! t = []" for t
    using sh that assms(4) by (fastforce simp: shuffled_def)
  moreover have "\<exists>rest. puts_by t w @ rest = puts_of_calls strf s (ess ! t)" if "t < length ess" for t
    using sh that assms(4) by (auto simp: shuffled_def)
  ultimately show ?thesis using lines sh log.machine_okD(1)
    by (auto simp: shuffled_def same_conf_def)
qed

section \<open>Instances\<close>

text \<open>A run in which the threads take turns as given, and wait for each other now and then.\<close>

fun run_turns :: "(string \<Rightarrow> u64 \<Rightarrow> string) \<Rightarrow> tid list \<Rightarrow> log_machine \<Rightarrow> log_machine" where
  "run_turns strf [] c = c"
| "run_turns strf (t # ts) c = run_turns strf ts
     (case log_thread_step strf t c of None \<Rightarrow> c | Some c' \<Rightarrow> c')"

lemma run_turns_steps: "(log_step strf)\<^sup>*\<^sup>* c (run_turns strf ts c)"
proof (induction ts arbitrary: c)
  case (Cons t ts)
  show ?case
  proof (cases "log_thread_step strf t c")
    case (Some c')
    then have "log_step strf c c'" by (auto simp: log_step_def)
    then show ?thesis using Cons.IH [of c'] Some by (simp add: converse_rtranclp_into_rtranclp)
  qed (use Cons.IH in simp)
qed simp

text \<open>Two threads log through the same appender.\<close>

definition demo_calls2 :: "(log_event \<times> string) list list" where
  "demo_calls2 = [[(demo_event, ''system'')], [(demo_event\<lparr>le_content := ''world''\<rparr>, ''system'')]]"

definition demo_done :: log_machine where
  "demo_done = run_turns no_strf (concat (replicate 50 [0, 1]))
     (machine_new Spinlock_new \<lparr>sl_sys = demo_logs, sl_stream = []\<rparr> (map log_calls demo_calls2))"

lemma demo_done_check: "map (\<lambda>p. p = []) (mc_progs demo_done) = [True, True] \<and>
  text_to Console (map snd (sl_stream (mc_data demo_done))) = ''INFO helloINFO world''"
  by code_simp

theorem concurrent_lines_kept_witness:
  "puts_by 1 (sl_stream (mc_data demo_done)) = [(0, Console, ''INFO''), (0, Console, '' ''), (0, Console, ''world'')] \<and>
    (\<exists>ls. list_all (logged_by demo_calls2) ls \<and>
      through 0 (sl_stream (mc_data demo_done)) = concat (map (whole no_strf demo_logs 0) ls))"
proof -
  have r: "(log_step no_strf)\<^sup>*\<^sup>* (machine_new Spinlock_new \<lparr>sl_sys = demo_logs, sl_stream = []\<rparr> (map log_calls demo_calls2)) demo_done"
    unfolding demo_done_def by (rule run_turns_steps)
  have n: "\<forall>es \<in> set demo_calls2. \<forall>(e, n) \<in> set es. ls_loggers demo_logs n \<noteq> None"
    by (simp add: demo_calls2_def demo_logs_def)
  have e: "length demo_calls2 = 2" "mc_progs demo_done ! 0 = []" "mc_progs demo_done ! 1 = []"
    using demo_done_check by (auto simp: demo_calls2_def)
  then have all: "\<forall>t < length demo_calls2. mc_progs demo_done ! t = []" by (simp add: less_2_cases_iff)
  note kept = concurrent_lines_kept [OF demo_logs_wf n r refl]
  have "puts_by 1 (sl_stream (mc_data demo_done)) = puts_of_calls no_strf demo_logs (demo_calls2 ! 1)"
    using kept e by simp
  also have "\<dots> = [(0, Console, ''INFO''), (0, Console, '' ''), (0, Console, ''world'')]" by code_simp
  finally show ?thesis using kept all by fastforce
qed

text \<open>
  As in \<open>bin/conf/log.yml\<close>, the root logger and \<open>system\<close> have a console appender each. One thread logs
  to the root logger and one to \<open>system\<close>; both lines end with a line break.
\<close>

definition line_formatter :: formatter where
  "line_formatter = \<lparr>lf_pattern = ''%p %m%n'', lf_items = [Level, Str '' '', Message, NewLine], lf_error = False\<rparr>"

definition two_consoles :: logsys where
  "two_consoles = \<lparr>ls_loggers = [
       ''root'' \<mapsto> (Logger_new ''root'')\<lparr>lg_appenders := [0]\<rparr>,
       ''system'' \<mapsto> (Logger_new ''system'')\<lparr>lg_root := True, lg_appenders := [1]\<rparr>],
     ls_appenders = [0 \<mapsto> (Appender_new Console)\<lparr>ap_formatter := Some line_formatter\<rparr>,
       1 \<mapsto> (Appender_new Console)\<lparr>ap_formatter := Some line_formatter\<rparr>],
     ls_next = 2, ls_out = []\<rparr>"

definition mixed_calls :: "(log_event \<times> string) list list" where
  "mixed_calls = [[(demo_event, ''root'')], [(demo_event\<lparr>le_content := ''world''\<rparr>, ''system'')]]"

definition mixed_run :: log_machine where
  "mixed_run = run_turns no_strf (concat (replicate 20 [0, 1]))
     (machine_new Spinlock_new \<lparr>sl_sys = two_consoles, sl_stream = []\<rparr> (map log_calls mixed_calls))"

lemma mixed_check: "map (\<lambda>p. p = []) (mc_progs mixed_run) = [True, True] \<and>
  text_to Console (map snd (sl_stream (mc_data mixed_run))) = ''INFOINFO  helloworld'' @ [CHR 0x0A, CHR 0x0A]"
  by code_simp

lemma two_consoles_wf: "log_wf two_consoles"
  by (auto simp: log_wf_def logger_wf_def two_consoles_def Logger_new_def Appender_new_def ready_def
      split: if_splits)

text \<open>Both threads run to their end without a fault, and what is on the console is neither line.\<close>

lemma console_lines_mix:
  "\<exists>c. (log_step no_strf)\<^sup>*\<^sup>*
      (machine_new Spinlock_new \<lparr>sl_sys = two_consoles, sl_stream = []\<rparr> (map log_calls mixed_calls)) c \<and>
    mc_progs c = [[], []] \<and>
    text_to Console (map snd (sl_stream (mc_data c))) = ''INFOINFO  helloworld'' @ [CHR 0x0A, CHR 0x0A]"
proof -
  have "mc_progs mixed_run = [[], []]" using mixed_check by auto
  moreover have "(log_step no_strf)\<^sup>*\<^sup>*
      (machine_new Spinlock_new \<lparr>sl_sys = two_consoles, sl_stream = []\<rparr> (map log_calls mixed_calls)) mixed_run"
    unfolding mixed_run_def by (rule run_turns_steps)
  ultimately show ?thesis using mixed_check by blast
qed

end
