(* ===== verification/Files.thy ===== *)
theory Files
  imports Prelude
begin

text \<open>
  The file system helpers of \<open>sylar/util.cpp\<close> (\<open>FSUtil\<close>). The operating system is a parameter:
  a record of the calls the code makes, on an abstract state \<open>'fs\<close> of the file system.
\<close>

unbundle bit_operations_syntax

section \<open>The operating system\<close>

datatype dtype = DT_DIR | DT_REG | DT_OTHER

text \<open>
  \<open>os_access\<close> is \<open>access(path, F_OK) == 0\<close>; \<open>os_lstat\<close> gives \<open>st_mode\<close> and \<open>st_mtime\<close>, or
  nothing on failure; the calls that change the file system tell whether they returned 0.
  \<open>os_opendir\<close> gives the entries in the order of \<open>readdir\<close>; \<open>os_open\<close> opens a stream in the
  given mode.
\<close>

record ('fs, 'mode) os =
  os_access :: "'fs \<Rightarrow> string \<Rightarrow> bool"
  os_lstat :: "'fs \<Rightarrow> string \<Rightarrow> (u32 \<times> u64) option"
  os_mkdir :: "string \<Rightarrow> 'fs \<Rightarrow> bool \<times> 'fs"
  os_unlink :: "string \<Rightarrow> 'fs \<Rightarrow> bool \<times> 'fs"
  os_rmdir :: "string \<Rightarrow> 'fs \<Rightarrow> bool \<times> 'fs"
  os_rename :: "string \<Rightarrow> string \<Rightarrow> 'fs \<Rightarrow> bool \<times> 'fs"
  os_symlink :: "string \<Rightarrow> string \<Rightarrow> 'fs \<Rightarrow> bool \<times> 'fs"
  os_opendir :: "'fs \<Rightarrow> string \<Rightarrow> (string \<times> dtype) list option"
  os_realpath :: "'fs \<Rightarrow> string \<Rightarrow> string option"
  os_open :: "'mode \<Rightarrow> string \<Rightarrow> 'fs \<Rightarrow> bool \<times> 'fs"

definition S_IFDIR :: u32 where
  "S_IFDIR = 0x4000"

section \<open>Names\<close>

definition Dirname :: "string \<Rightarrow> string" where
  "Dirname filename = (if filename = [] then ''.''
     else case rfind (CHR ''/'') filename of
       None \<Rightarrow> ''.'' | Some pos \<Rightarrow> if pos = 0 then ''/'' else take pos filename)"

definition Basename :: "string \<Rightarrow> string" where
  "Basename filename = (if filename = [] then filename
     else case rfind (CHR ''/'') filename of
       None \<Rightarrow> filename | Some pos \<Rightarrow> drop (pos + 1) filename)"

section \<open>Listing\<close>

definition has_suffix :: "string \<Rightarrow> string \<Rightarrow> bool" where
  "has_suffix subfix filename = (subfix = [] \<or> \<not> length filename < length subfix \<and>
     drop (length filename - length subfix) filename = subfix)"

definition dots :: "string list" where
  "dots = [''.'', ''..'']"

text \<open>\<open>d\<close> bounds the depth of the directories; the result is what is added to \<open>files\<close>.\<close>

primrec ListAllFile :: "('fs, 'm) os \<Rightarrow> nat \<Rightarrow> 'fs \<Rightarrow> string \<Rightarrow> string \<Rightarrow> string list option" where
  "ListAllFile sys 0 fs path subfix = None"
| "ListAllFile sys (Suc d) fs path subfix =
     (if \<not> os_access sys fs path then Some []
      else case os_opendir sys fs path of None \<Rightarrow> Some []
        | Some dps \<Rightarrow> map_option concat (those (map (\<lambda>dp.
            if snd dp = DT_DIR
            then if fst dp \<in> set dots then Some []
              else ListAllFile sys d fs (path @ ''/'' @ fst dp) subfix
            else if snd dp = DT_REG \<and> has_suffix subfix (fst dp) then Some [path @ ''/'' @ fst dp]
            else Some []) dps)))"

section \<open>Creating\<close>

definition sys_mkdir :: "('fs, 'm) os \<Rightarrow> string \<Rightarrow> 'fs \<Rightarrow> bool \<times> 'fs" where
  "sys_mkdir sys dirname fs = (if os_access sys fs dirname then (True, fs) else os_mkdir sys dirname fs)"

text \<open>
  The paths before each slash but one at the start, as the loop over \<open>strchr\<close> finds them; an
  empty path makes \<open>strchr(path + 1, '/')\<close> read past its end.
\<close>

definition slash_prefixes :: "string \<Rightarrow> string list" where
  "slash_prefixes path = map (\<lambda>i. take i path) (filter (\<lambda>i. path ! i = CHR ''/'') [1..<length path])"

primrec mkdirs :: "('fs, 'm) os \<Rightarrow> string list \<Rightarrow> 'fs \<Rightarrow> bool \<times> 'fs" where
  "mkdirs sys [] fs = (True, fs)"
| "mkdirs sys (p # ps) fs = (case sys_mkdir sys p fs of
     (True, fs1) \<Rightarrow> mkdirs sys ps fs1 | (False, fs1) \<Rightarrow> (False, fs1))"

definition Mkdir :: "('fs, 'm) os \<Rightarrow> string \<Rightarrow> 'fs \<Rightarrow> (bool \<times> 'fs) res" where
  "Mkdir sys dirname fs =
     (if os_lstat sys fs dirname \<noteq> None then Inr (True, fs)
      else if dirname = [] then Inl (OutOfBounds 1)
      else Inr (mkdirs sys (slash_prefixes dirname @ [dirname]) fs))"

definition OpenForRead :: "('fs, 'm) os \<Rightarrow> string \<Rightarrow> 'm \<Rightarrow> 'fs \<Rightarrow> bool \<times> 'fs" where
  "OpenForRead sys filename mode fs = os_open sys mode filename fs"

definition OpenForWrite :: "('fs, 'm) os \<Rightarrow> string \<Rightarrow> 'm \<Rightarrow> 'fs \<Rightarrow> (bool \<times> 'fs) res" where
  "OpenForWrite sys filename mode fs = (case os_open sys mode filename fs of
     (True, fs1) \<Rightarrow> Inr (True, fs1)
   | (False, fs1) \<Rightarrow> bindR (Mkdir sys (Dirname filename) fs1) (\<lambda>(_, fs2).
       Inr (os_open sys mode filename fs2)))"

section \<open>Removing and moving\<close>

definition Unlink :: "('fs, 'm) os \<Rightarrow> string \<Rightarrow> bool \<Rightarrow> 'fs \<Rightarrow> bool \<times> 'fs" where
  "Unlink sys filename exist fs = (if \<not> exist \<and> os_lstat sys fs filename = None then (True, fs)
     else os_unlink sys filename fs)"

text \<open>The loop over the entries of a directory; \<open>rm\<close> is the recursive call.\<close>

primrec rm_entries :: "(string \<Rightarrow> 'fs \<Rightarrow> (bool \<times> 'fs) option) \<Rightarrow> string \<Rightarrow> (string \<times> dtype) list \<Rightarrow>
    bool \<Rightarrow> 'fs \<Rightarrow> (bool \<times> 'fs) option" where
  "rm_entries rm path [] ret fs = Some (ret, fs)"
| "rm_entries rm path (dp # dps) ret fs =
     (if fst dp \<in> set dots then rm_entries rm path dps ret fs
      else case rm (path @ ''/'' @ fst dp) fs of None \<Rightarrow> None
        | Some (ret1, fs1) \<Rightarrow> rm_entries rm path dps ret1 fs1)"

primrec Rm :: "('fs, 'm) os \<Rightarrow> nat \<Rightarrow> string \<Rightarrow> 'fs \<Rightarrow> (bool \<times> 'fs) option" where
  "Rm sys 0 path fs = None"
| "Rm sys (Suc d) path fs = (case os_lstat sys fs path of None \<Rightarrow> Some (True, fs)
     | Some st \<Rightarrow>
       if fst st AND S_IFDIR = 0 then Some (Unlink sys path False fs)
       else case os_opendir sys fs path of None \<Rightarrow> Some (False, fs)
         | Some dps \<Rightarrow> (case rm_entries (Rm sys d) path dps True fs of None \<Rightarrow> None
             | Some (ret, fs1) \<Rightarrow> (case os_rmdir sys path fs1 of
                 (True, fs2) \<Rightarrow> Some (ret, fs2) | (False, fs2) \<Rightarrow> Some (False, fs2))))"

definition Mv :: "('fs, 'm) os \<Rightarrow> nat \<Rightarrow> string \<Rightarrow> string \<Rightarrow> 'fs \<Rightarrow> (bool \<times> 'fs) option" where
  "Mv sys d from to fs = (case Rm sys d to fs of None \<Rightarrow> None
     | Some (False, fs1) \<Rightarrow> Some (False, fs1)
     | Some (True, fs1) \<Rightarrow> Some (os_rename sys from to fs1))"

definition Symlink :: "('fs, 'm) os \<Rightarrow> nat \<Rightarrow> string \<Rightarrow> string \<Rightarrow> 'fs \<Rightarrow> (bool \<times> 'fs) option" where
  "Symlink sys d from to fs = (case Rm sys d to fs of None \<Rightarrow> None
     | Some (False, fs1) \<Rightarrow> Some (False, fs1)
     | Some (True, fs1) \<Rightarrow> Some (os_symlink sys from to fs1))"

definition Realpath :: "('fs, 'm) os \<Rightarrow> string \<Rightarrow> 'fs \<Rightarrow> string option" where
  "Realpath sys path fs = (if os_lstat sys fs path = None then None else os_realpath sys fs path)"

section \<open>What the operating system promises\<close>

text \<open>A directory that has been made is there; nothing disappears, and a failure changes nothing.\<close>

definition mkdir_laws :: "('fs, 'm) os \<Rightarrow> bool" where
  "mkdir_laws sys = (\<forall>p fs b fs'. os_mkdir sys p fs = (b, fs') \<longrightarrow>
     (if b then os_access sys fs' p \<and> (\<forall>q. os_access sys fs q \<longrightarrow> os_access sys fs' q)
      else os_access sys fs' = os_access sys fs))"

text \<open>From \<open>fs\<close> to \<open>fs'\<close> files have only disappeared.\<close>

definition shrinks :: "('fs, 'm) os \<Rightarrow> 'fs \<Rightarrow> 'fs \<Rightarrow> bool" where
  "shrinks sys fs fs' = (\<forall>q. (os_lstat sys fs q = None \<longrightarrow> os_lstat sys fs' q = None) \<and>
     (case os_opendir sys fs' q of None \<Rightarrow> True
      | Some dps' \<Rightarrow> (case os_opendir sys fs q of None \<Rightarrow> False | Some dps \<Rightarrow> set dps' \<subseteq> set dps)))"

definition rm_laws :: "('fs, 'm) os \<Rightarrow> bool" where
  "rm_laws sys = (\<forall>p fs b fs'. (os_unlink sys p fs = (b, fs') \<or> os_rmdir sys p fs = (b, fs')) \<longrightarrow>
     shrinks sys fs fs' \<and> (b \<longrightarrow> os_lstat sys fs' p = None))"

text \<open>The directories below \<open>path\<close> are at most \<open>d\<close> levels deep.\<close>

primrec dirs_le :: "('fs, 'm) os \<Rightarrow> nat \<Rightarrow> 'fs \<Rightarrow> string \<Rightarrow> bool" where
  "dirs_le sys 0 fs path = False"
| "dirs_le sys (Suc d) fs path = (case os_opendir sys fs path of None \<Rightarrow> True
     | Some dps \<Rightarrow> \<forall>dp \<in> set dps. fst dp \<notin> set dots \<longrightarrow> dirs_le sys d fs (path @ ''/'' @ fst dp))"

lemma shrinks_refl: "shrinks sys fs fs"
  by (simp add: shrinks_def split: option.split)

lemma shrinks_trans:
  assumes "shrinks sys a b" and "shrinks sys b c"
  shows "shrinks sys a c"
  unfolding shrinks_def
proof (intro allI conjI impI)
  fix q
  show "os_lstat sys c q = None" if "os_lstat sys a q = None"
    using assms that by (simp add: shrinks_def)
  show "case os_opendir sys c q of None \<Rightarrow> True
      | Some dps' \<Rightarrow> (case os_opendir sys a q of None \<Rightarrow> False | Some dps \<Rightarrow> set dps' \<subseteq> set dps)"
    using assms [unfolded shrinks_def, THEN spec, of q]
    by (auto split: option.splits)
qed

lemma dirs_le_shrinks: "dirs_le sys d fs path \<Longrightarrow> shrinks sys fs fs' \<Longrightarrow> dirs_le sys d fs' path"
proof (induction d arbitrary: path)
  case (Suc d)
  then show ?case
    using Suc.prems(2) [unfolded shrinks_def, THEN spec, of path]
    by (auto split: option.splits)
qed simp

section \<open>Creating, proved\<close>

lemma mkdirs_exact:
  assumes "mkdir_laws sys"
  shows "mkdirs sys ps fs = (b, fs') \<Longrightarrow> (\<forall>q. os_access sys fs q \<longrightarrow> os_access sys fs' q) \<and>
    (if b then \<forall>p \<in> set ps. os_access sys fs' p
     else \<exists>qs p rs. ps = qs @ p # rs \<and> (\<forall>q \<in> set qs. os_access sys fs' q) \<and> \<not> os_access sys fs' p)"
proof (induction ps arbitrary: fs)
  case (Cons p ps)
  obtain b1 fs1 where m: "sys_mkdir sys p fs = (b1, fs1)" by force
  have s: "\<forall>q. os_access sys fs q \<longrightarrow> os_access sys fs1 q"
    "b1 \<longleftrightarrow> os_access sys fs1 p"
    using m assms [unfolded mkdir_laws_def, rule_format, of p fs b1 fs1]
    by (auto simp: sys_mkdir_def split: if_splits)
  show ?case
  proof (cases b1)
    case True
    have IH: "(\<forall>q. os_access sys fs1 q \<longrightarrow> os_access sys fs' q) \<and>
      (if b then \<forall>p \<in> set ps. os_access sys fs' p
       else \<exists>qs p rs. ps = qs @ p # rs \<and> (\<forall>q \<in> set qs. os_access sys fs' q) \<and> \<not> os_access sys fs' p)"
      by (rule Cons.IH) (use Cons.prems m True in simp)
    then have p: "os_access sys fs' p" using s(2) True by blast
    show ?thesis
    proof (cases b)
      case False
      then obtain qs p1 rs where "ps = qs @ p1 # rs" "\<forall>q \<in> set qs. os_access sys fs' q"
        "\<not> os_access sys fs' p1" using IH by auto
      then have "p # ps = (p # qs) @ p1 # rs" "\<forall>q \<in> set (p # qs). os_access sys fs' q" using p by simp_all
      then show ?thesis using False IH s(1) \<open>\<not> os_access sys fs' p1\<close> by metis
    qed (use IH s(1) p in simp)
  next
    case False
    then have "\<not> b" "fs' = fs1" "\<not> os_access sys fs1 p" using Cons.prems m s(2) by simp_all
    then show ?thesis using s(1) by (simp, intro exI [of _ "[]"] exI [of _ p]) simp
  qed
qed simp

section \<open>Removing, proved\<close>

lemma rm_entries_total:
  assumes "\<And>dp fs1. dp \<in> set dps \<Longrightarrow> fst dp \<notin> set dots \<Longrightarrow> shrinks sys fs fs1 \<Longrightarrow>
      \<exists>b fs2. rm (path @ ''/'' @ fst dp) fs1 = Some (b, fs2) \<and> shrinks sys fs1 fs2"
  shows "shrinks sys fs fs1 \<Longrightarrow> \<exists>b fs2. rm_entries rm path dps ret fs1 = Some (b, fs2) \<and> shrinks sys fs fs2"
  using assms
proof (induction dps arbitrary: fs1 ret)
  case (Cons dp dps)
  show ?case
  proof (cases "fst dp \<in> set dots")
    case True
    then show ?thesis using Cons by simp
  next
    case False
    obtain b fs2 where 1: "rm (path @ ''/'' @ fst dp) fs1 = Some (b, fs2)" "shrinks sys fs1 fs2"
      using Cons.prems(2) [of dp fs1] Cons.prems(1) False by auto
    have "shrinks sys fs fs2" by (rule shrinks_trans [OF Cons.prems(1) 1(2)])
    then obtain b' fs3 where "rm_entries rm path dps b fs2 = Some (b', fs3)" "shrinks sys fs fs3"
      using Cons.IH [of fs2 b] Cons.prems(2) by auto
    then show ?thesis using 1(1) False by simp
  qed
qed auto

lemma Rm_total:
  assumes "rm_laws sys"
  shows "dirs_le sys d fs path \<Longrightarrow>
    \<exists>b fs'. Rm sys d path fs = Some (b, fs') \<and> shrinks sys fs fs' \<and> (b \<longrightarrow> os_lstat sys fs' path = None)"
proof (induction d arbitrary: path fs)
  case (Suc d)
  note law = assms [unfolded rm_laws_def, rule_format]
  show ?case
  proof (cases "os_lstat sys fs path")
    case None
    then show ?thesis by (auto simp: shrinks_refl)
  next
    case (Some st)
    show ?thesis
    proof (cases "fst st AND S_IFDIR = 0")
      case True
      obtain b fs' where u: "os_unlink sys path fs = (b, fs')" by force
      then show ?thesis using law [of path fs b fs'] Some True by (simp add: Unlink_def)
    next
      case False
      show ?thesis
      proof (cases "os_opendir sys fs path")
        case None
        then show ?thesis using Some False by (auto simp: shrinks_refl)
      next
        case (Some dps)
        have "\<exists>b fs2. Rm sys d (path @ ''/'' @ fst dp) fs1 = Some (b, fs2) \<and> shrinks sys fs1 fs2"
          if "dp \<in> set dps" "fst dp \<notin> set dots" "shrinks sys fs fs1" for dp fs1
        proof -
          have "dirs_le sys d fs (path @ ''/'' @ fst dp)" using Suc.prems Some that by simp
          from Suc.IH [OF dirs_le_shrinks [OF this that(3)]] show ?thesis by blast
        qed
        from rm_entries_total [of dps sys fs "Rm sys d" path fs True, OF this shrinks_refl]
        obtain b fs1 where e: "rm_entries (Rm sys d) path dps True fs = Some (b, fs1)"
          "shrinks sys fs fs1" by blast
        obtain b2 fs2 where r: "os_rmdir sys path fs1 = (b2, fs2)" by force
        then have "shrinks sys fs fs2" "b2 \<longrightarrow> os_lstat sys fs2 path = None"
          using law [of path fs1 b2 fs2] shrinks_trans [OF e(2)] by blast+
        then show ?thesis using Some \<open>os_lstat sys fs path = Some st\<close> False e(1) r
          by (cases b2) auto
      qed
    qed
  qed
qed simp

section \<open>Listing, proved\<close>

text \<open>The files that \<open>ListAllFile\<close> is meant to find.\<close>

inductive file_under :: "('fs, 'm) os \<Rightarrow> 'fs \<Rightarrow> string \<Rightarrow> string \<Rightarrow> string \<Rightarrow> bool" for sys fs subfix where
  here: "os_access sys fs path \<Longrightarrow> os_opendir sys fs path = Some dps \<Longrightarrow> (n, DT_REG) \<in> set dps \<Longrightarrow>
    has_suffix subfix n \<Longrightarrow> file_under sys fs subfix path (path @ ''/'' @ n)"
| below: "os_access sys fs path \<Longrightarrow> os_opendir sys fs path = Some dps \<Longrightarrow> (n, DT_DIR) \<in> set dps \<Longrightarrow>
    n \<notin> set dots \<Longrightarrow> file_under sys fs subfix (path @ ''/'' @ n) f \<Longrightarrow> file_under sys fs subfix path f"

inductive_simps file_under_iff: "file_under sys fs subfix path f"

lemma file_under_dps:
  assumes "os_access sys fs path" and "os_opendir sys fs path = Some dps"
  shows "file_under sys fs subfix path f \<longleftrightarrow>
    (\<exists>n. (n, DT_REG) \<in> set dps \<and> has_suffix subfix n \<and> f = path @ ''/'' @ n) \<or>
    (\<exists>n. (n, DT_DIR) \<in> set dps \<and> n \<notin> set dots \<and> file_under sys fs subfix (path @ ''/'' @ n) f)"
  (is "_ \<longleftrightarrow> ?R")
proof
  show ?R if "file_under sys fs subfix path f" using that assms by cases auto
  show "file_under sys fs subfix path f" if ?R
    using that file_under.intros [OF assms] by blast
qed

lemma those_map_the:
  "\<forall>x \<in> set xs. g x \<noteq> None \<Longrightarrow> those (map g xs) = Some (map (the \<circ> g) xs)"
  by (induction xs) (auto split: option.split)

lemma ListAllFile_lemma:
  "dirs_le sys d fs path \<Longrightarrow>
    \<exists>xs. ListAllFile sys d fs path subfix = Some xs \<and> (\<forall>f. f \<in> set xs \<longleftrightarrow> file_under sys fs subfix path f)"
proof (induction d arbitrary: path)
  case (Suc d)
  show ?case
  proof (cases "os_access sys fs path \<and> os_opendir sys fs path \<noteq> None")
    case False
    then show ?thesis by (auto simp: file_under_iff [of sys fs subfix path])
  next
    case True
    then obtain dps where dps: "os_opendir sys fs path = Some dps" by auto
    let ?g = "\<lambda>dp. if snd dp = DT_DIR
            then if fst dp \<in> set dots then Some []
              else ListAllFile sys d fs (path @ ''/'' @ fst dp) subfix
            else if snd dp = DT_REG \<and> has_suffix subfix (fst dp) then Some [path @ ''/'' @ fst dp]
            else Some []"
    have rec: "\<exists>xs. ListAllFile sys d fs (path @ ''/'' @ fst dp) subfix = Some xs \<and>
        (\<forall>f. f \<in> set xs \<longleftrightarrow> file_under sys fs subfix (path @ ''/'' @ fst dp) f)"
      if "dp \<in> set dps" "fst dp \<notin> set dots" for dp
      by (rule Suc.IH) (use Suc.prems dps that in simp)
    have tot: "\<forall>dp \<in> set dps. ?g dp \<noteq> None" using rec by fastforce
    have run: "ListAllFile sys (Suc d) fs path subfix = Some (concat (map (the \<circ> ?g) dps))"
      using True dps those_map_the [OF tot] by simp
    have one: "f \<in> set (the (?g dp)) \<longleftrightarrow>
        (snd dp = DT_DIR \<and> fst dp \<notin> set dots \<and> file_under sys fs subfix (path @ ''/'' @ fst dp) f) \<or>
        (snd dp = DT_REG \<and> has_suffix subfix (fst dp) \<and> f = path @ ''/'' @ fst dp)"
      if dp: "dp \<in> set dps" for dp f
    proof (cases "snd dp = DT_DIR \<and> fst dp \<notin> set dots")
      case True
      then obtain xs where "ListAllFile sys d fs (path @ ''/'' @ fst dp) subfix = Some xs"
        "\<forall>f. f \<in> set xs \<longleftrightarrow> file_under sys fs subfix (path @ ''/'' @ fst dp) f"
        using rec [OF dp] by blast
      then show ?thesis using True by simp
    next
      case False
      then show ?thesis by auto
    qed
    have "f \<in> set (concat (map (the \<circ> ?g) dps)) \<longleftrightarrow> file_under sys fs subfix path f" for f
    proof -
      have "f \<in> set (concat (map (the \<circ> ?g) dps)) \<longleftrightarrow> (\<exists>dp \<in> set dps. f \<in> set (the (?g dp)))" by simp
      also have "\<dots> \<longleftrightarrow> (\<exists>dp \<in> set dps.
        (snd dp = DT_DIR \<and> fst dp \<notin> set dots \<and> file_under sys fs subfix (path @ ''/'' @ fst dp) f) \<or>
        (snd dp = DT_REG \<and> has_suffix subfix (fst dp) \<and> f = path @ ''/'' @ fst dp))"
        by (rule bex_cong [OF refl one])
      also have "\<dots> \<longleftrightarrow> file_under sys fs subfix path f"
        unfolding file_under_dps [OF conjunct1 [OF True] dps] by (auto simp: Bex_def)
      finally show ?thesis .
    qed
    then show ?thesis using run by blast
  qed
qed simp

section \<open>Properties\<close>

text \<open>
  Directory name and base name make up the path: the base name has no slash, and the path
  is the base name alone when there is no slash, else the directory name (nothing, for a
  single slash at the start), a slash and the base name.
\<close>

theorem Dirname_Basename:
  "CHR ''/'' \<notin> set (Basename f) \<and>
    f = (case rfind (CHR ''/'') f of None \<Rightarrow> [] | Some pos \<Rightarrow> (if pos = 0 then [] else Dirname f) @ ''/'') @ Basename f \<and>
    (CHR ''/'' \<notin> set f \<longrightarrow> Dirname f = ''.'') \<and> Dirname f \<noteq> []"
proof (cases "rfind (CHR ''/'') f")
  case None
  then have "CHR ''/'' \<notin> set f" by (simp add: rfind_None)
  then show ?thesis using None by (simp add: Dirname_def Basename_def)
next
  case (Some p)
  note r = rfind_Some [OF Some]
  then show ?thesis using Some by (auto simp: Dirname_def Basename_def rfind_def)
qed

text \<open>
  \<open>Mkdir\<close> on a path that is not there makes the directories of the path one after the other:
  when it returns true, each of them and the path are there; when it returns false, there is a
  first one that is missing and all before it are there. Nothing disappears.
\<close>

theorem Mkdir_exact:
  assumes "mkdir_laws sys" and "dirname \<noteq> []" and "os_lstat sys fs dirname = None"
  shows "\<exists>b fs'. Mkdir sys dirname fs = Inr (b, fs') \<and> (\<forall>q. os_access sys fs q \<longrightarrow> os_access sys fs' q) \<and>
    (if b then \<forall>p \<in> set (slash_prefixes dirname) \<union> {dirname}. os_access sys fs' p
     else \<exists>qs p rs. slash_prefixes dirname @ [dirname] = qs @ p # rs \<and>
       (\<forall>q \<in> set qs. os_access sys fs' q) \<and> \<not> os_access sys fs' p)"
proof -
  obtain b fs' where m: "mkdirs sys (slash_prefixes dirname @ [dirname]) fs = (b, fs')" by force
  then show ?thesis using mkdirs_exact [OF assms(1) m] assms(2,3) by (auto simp: Mkdir_def)
qed

text \<open>
  \<open>Rm\<close> ends on every tree of finite depth, only makes files disappear, and when it returns
  true the path is gone. (The result of each entry overwrites that of the one before, but a
  failure is still noticed, as the directory then cannot be removed.)
\<close>

theorem Rm_removes:
  assumes "rm_laws sys" and "dirs_le sys d fs path"
  shows "\<exists>b fs'. Rm sys d path fs = Some (b, fs') \<and> shrinks sys fs fs' \<and>
    (b \<longrightarrow> os_lstat sys fs' path = None)"
  by (rule Rm_total [OF assms])

text \<open>
  \<open>Rm\<close> cannot remove sockets and block devices: the test \<open>st_mode & S_IFDIR\<close> is not that
  for a directory (the file types are numbers, not bits), and opening the file as a directory
  fails.
\<close>

theorem Rm_socket_fails:
  assumes "os_lstat sys fs path = Some (mode, t)" and "mode AND 0xF000 = 0xC000 \<or> mode AND 0xF000 = 0x6000"
    and "os_opendir sys fs path = None"
  shows "Rm sys (Suc d) path fs = Some (False, fs)"
proof -
  have "(mode AND 0xF000) AND S_IFDIR = mode AND S_IFDIR"
    by (simp add: S_IFDIR_def and.assoc)
  moreover have "(mode AND 0xF000) AND S_IFDIR \<noteq> 0" using assms(2) by (auto simp: S_IFDIR_def)
  ultimately show ?thesis using assms(1,3) by simp
qed

text \<open>
  \<open>Mv\<close> removes its target before it knows that there is anything to move: with a source
  that does not exist and a target that is a file, it returns false and the target is lost.
\<close>

theorem Mv_loses_target:
  assumes "rm_laws sys" and "os_lstat sys fs to = Some (mode, t)" and "mode AND S_IFDIR = 0"
    and "os_unlink sys to fs = (True, fs1)" and "os_rename sys from to fs1 = (False, fs1)"
  shows "Mv sys (Suc d) from to fs = Some (False, fs1) \<and> os_lstat sys fs1 to = None"
  using assms(2-5) assms(1) [unfolded rm_laws_def, rule_format, of to fs True fs1]
  by (simp add: Mv_def Unlink_def)

text \<open>
  \<open>ListAllFile\<close> finds exactly the regular files at any depth below the directory whose names
  have the suffix, and ends on every tree of finite depth.
\<close>

theorem ListAllFile_exact:
  assumes "dirs_le sys d fs path"
  shows "\<exists>xs. ListAllFile sys d fs path subfix = Some xs \<and>
    (\<forall>f. f \<in> set xs \<longleftrightarrow> file_under sys fs subfix path f)"
  by (rule ListAllFile_lemma [OF assms])

section \<open>Instances\<close>

text \<open>A file system as the list of the paths there are, with their modes.\<close>

type_synonym tree = "(string \<times> u32) list"

definition is_dir :: "u32 \<Rightarrow> bool" where
  "is_dir mode = (mode AND 0xF000 = S_IFDIR)"

definition child_of :: "string \<Rightarrow> string \<Rightarrow> bool" where
  "child_of p q = (take (length p + 1) q = p @ ''/'' \<and> CHR ''/'' \<notin> set (drop (length p + 1) q))"

definition tree_remove :: "string \<Rightarrow> tree \<Rightarrow> bool \<times> tree" where
  "tree_remove p fs = (if map_of fs p = None \<or> list_ex (\<lambda>e. child_of p (fst e)) fs then (False, fs)
     else (True, filter (\<lambda>e. fst e \<noteq> p) fs))"

definition tree_os :: "(tree, unit) os" where
  "tree_os = \<lparr>os_access = (\<lambda>fs p. map_of fs p \<noteq> None),
     os_lstat = (\<lambda>fs p. map_option (\<lambda>m. (m, 0)) (map_of fs p)),
     os_mkdir = (\<lambda>p fs. if map_of fs p = None then (True, (p, 0x41ED) # fs) else (False, fs)),
     os_unlink = tree_remove, os_rmdir = tree_remove,
     os_rename = (\<lambda>p q fs. case map_of fs p of None \<Rightarrow> (False, fs)
       | Some m \<Rightarrow> (True, (q, m) # filter (\<lambda>e. fst e \<noteq> p) fs)),
     os_symlink = (\<lambda>p q fs. (True, (q, 0xA1FF) # fs)),
     os_opendir = (\<lambda>fs p. case map_of fs p of None \<Rightarrow> None
       | Some m \<Rightarrow> if is_dir m then Some (map (\<lambda>e. (drop (length p + 1) (fst e),
             if is_dir (snd e) then DT_DIR else if snd e AND 0xF000 = 0x8000 then DT_REG else DT_OTHER))
           (filter (\<lambda>e. child_of p (fst e)) fs)) else None),
     os_realpath = (\<lambda>fs p. Some p), os_open = (\<lambda>m p fs. (map_of fs p \<noteq> None, fs))\<rparr>"

lemma map_of_remove: "map_of (filter (\<lambda>e. fst e \<noteq> p) fs) q = (if q = p then None else map_of fs q)"
  by (induction fs) auto

lemma tree_mkdir_laws: "mkdir_laws tree_os"
  by (auto simp: mkdir_laws_def tree_os_def split: if_splits)

lemma tree_shrinks: "shrinks tree_os fs (filter (\<lambda>e. fst e \<noteq> p) fs)"
  by (auto simp: shrinks_def tree_os_def map_of_remove split: option.split)

lemma tree_rm_laws: "rm_laws tree_os"
proof -
  have "shrinks tree_os fs fs' \<and> (b \<longrightarrow> os_lstat tree_os fs' p = None)"
    if "tree_remove p fs = (b, fs')" for p fs b fs'
    using that tree_shrinks [of fs p] shrinks_refl [of tree_os fs]
    by (auto simp: tree_remove_def tree_os_def map_of_remove split: if_splits)
  moreover have "os_unlink tree_os = tree_remove" "os_rmdir tree_os = tree_remove"
    by (simp_all add: tree_os_def)
  ultimately show ?thesis unfolding rm_laws_def by metis
qed

definition demo_tree :: tree where
  "demo_tree = [(''/c'', 0x41ED), (''/c/a.yml'', 0x81A4), (''/c/d'', 0x41ED), (''/c/d/b.yml'', 0x81A4),
     (''/c/x.log'', 0x81A4)]"

theorem Dirname_Basename_witness:
  "Dirname ''log/system.txt'' = ''log'' \<and> Basename ''log/system.txt'' = ''system.txt'' \<and> Dirname ''system.txt'' = ''.''"
proof -
  have "Dirname ''log/system.txt'' = ''log''" "Basename ''log/system.txt'' = ''system.txt''"
    by code_simp+
  then show ?thesis using Dirname_Basename [of "''system.txt''"] by simp
qed

theorem Mkdir_exact_witness:
  "\<exists>fs'. Mkdir tree_os ''/a/b'' [] = Inr (True, fs') \<and> os_access tree_os fs' ''/a'' \<and>
    os_access tree_os fs' ''/a/b''"
proof -
  have l: "os_lstat tree_os [] ''/a/b'' = None" by (simp add: tree_os_def)
  have "Mkdir tree_os ''/a/b'' [] = Inr (True, [(''/a/b'', 0x41ED), (''/a'', 0x41ED)])"
    and "slash_prefixes ''/a/b'' = [''/a'']"
    by code_simp+
  then show ?thesis using Mkdir_exact [OF tree_mkdir_laws _ l] by auto
qed

theorem Rm_removes_witness:
  "\<exists>fs'. Rm tree_os 3 ''/c'' demo_tree = Some (True, fs') \<and> os_lstat tree_os fs' ''/c'' = None"
proof -
  have "dirs_le tree_os 3 demo_tree ''/c''" "Rm tree_os 3 ''/c'' demo_tree = Some (True, [])"
    by code_simp+
  then show ?thesis using Rm_removes [OF tree_rm_laws, of 3 demo_tree "''/c''"] by auto
qed

theorem Rm_socket_fails_witness:
  "Rm tree_os (Suc 0) ''/s'' [(''/s'', 0xC1ED)] = Some (False, [(''/s'', 0xC1ED)])"
  by (rule Rm_socket_fails [where mode = "0xC1ED" and t = 0])
    (simp_all add: tree_os_def is_dir_def S_IFDIR_def)

theorem Mv_loses_target_witness:
  "\<exists>fs'. Mv tree_os (Suc 0) ''/nothing'' ''/f'' [(''/f'', 0x81A4)] = Some (False, fs') \<and>
    os_lstat tree_os fs' ''/f'' = None"
proof -
  have "Mv tree_os (Suc 0) ''/nothing'' ''/f'' [(''/f'', 0x81A4)] = Some (False, []) \<and>
      os_lstat tree_os [] ''/f'' = None"
    by (rule Mv_loses_target [OF tree_rm_laws, where mode = "0x81A4" and t = 0])
      (simp_all add: tree_os_def S_IFDIR_def tree_remove_def child_of_def)
  then show ?thesis by blast
qed

theorem ListAllFile_exact_witness:
  "ListAllFile tree_os 3 demo_tree ''/c'' ''.yml'' = Some [''/c/a.yml'', ''/c/d/b.yml''] \<and>
    file_under tree_os demo_tree ''.yml'' ''/c'' ''/c/d/b.yml''"
proof -
  have "dirs_le tree_os 3 demo_tree ''/c''"
    "ListAllFile tree_os 3 demo_tree ''/c'' ''.yml'' = Some [''/c/a.yml'', ''/c/d/b.yml'']"
    by code_simp+
  then show ?thesis using ListAllFile_exact [of tree_os 3 demo_tree "''/c''" "''.yml''"] by auto
qed

end
