(* ===== verification/FileLogs.thy ===== *)
theory FileLogs
  imports Loggers Files
begin

text \<open>
  The stream of a file appender (\<open>FileLogAppender\<close> of \<open>sylar/log.cpp\<close>) and what becomes of it when
  a write fails: \<open>reopen\<close> closes the stream only when it is in order, and the standard library
  does not open a stream that is still open.
\<close>

section \<open>Streams\<close>

text \<open>A \<open>std::ofstream\<close>: whether it has a file, and whether no operation on it has failed.\<close>

record ofstream =
  of_open :: bool
  of_good :: bool

definition ofstream_new :: ofstream where
  "ofstream_new = \<lparr>of_open = False, of_good = True\<rparr>"

definition ofstream_open :: "('fs, 'm) os \<Rightarrow> 'm \<Rightarrow> string \<Rightarrow> ofstream \<times> 'fs \<Rightarrow> ofstream \<times> 'fs" where
  "ofstream_open sys mode name x = (case x of (st, fs) \<Rightarrow>
     if of_open st then (st\<lparr>of_good := False\<rparr>, fs)
     else (case os_open sys mode name fs of (True, fs1) \<Rightarrow> (\<lparr>of_open = True, of_good = True\<rparr>, fs1)
       | (False, fs1) \<Rightarrow> (st\<lparr>of_good := False\<rparr>, fs1)))"

text \<open>Closing a stream without a file is a failure too; \<open>flushed\<close> is the answer of the system.\<close>

definition ofstream_close :: "bool \<Rightarrow> ofstream \<Rightarrow> ofstream" where
  "ofstream_close flushed st = \<lparr>of_open = False, of_good = (of_good st \<and> of_open st \<and> flushed)\<rparr>"

text \<open>\<open>wr name text\<close> is the write of the system.\<close>

type_synonym 'fs writer = "string \<Rightarrow> string \<Rightarrow> 'fs \<Rightarrow> bool \<times> 'fs"

definition ofstream_put :: "'fs writer \<Rightarrow> string \<Rightarrow> string \<Rightarrow> ofstream \<times> 'fs \<Rightarrow> ofstream \<times> 'fs" where
  "ofstream_put wr name t x = (case x of (st, fs) \<Rightarrow>
     if \<not> of_good st then (st, fs)
     else if \<not> of_open st then (st\<lparr>of_good := False\<rparr>, fs)
     else (case wr name t fs of (b, fs1) \<Rightarrow> (st\<lparr>of_good := b\<rparr>, fs1)))"

text \<open>\<open>FSUtil::OpenForWrite\<close>, with the stream it is given.\<close>

definition OpenForWrite_stream ::
    "('fs, 'm) os \<Rightarrow> 'm \<Rightarrow> string \<Rightarrow> ofstream \<times> 'fs \<Rightarrow> (bool \<times> ofstream \<times> 'fs) res" where
  "OpenForWrite_stream sys mode name x = (case ofstream_open sys mode name x of (st1, fs1) \<Rightarrow>
     if \<not> of_open st1
     then bindR (Mkdir sys (Dirname name) fs1) (\<lambda>(_, fs2).
       case ofstream_open sys mode name (st1, fs2) of (st2, fs3) \<Rightarrow> Inr (of_open st2, st2, fs3))
     else Inr (True, st1, fs1))"

section \<open>File appenders\<close>

record file_appender =
  fa_filename :: string
  fa_level :: level
  fa_formatter :: "formatter option"
  fa_lastTime :: u64
  fa_stream :: ofstream

definition File_reopen ::
    "('fs, 'm) os \<Rightarrow> 'm \<Rightarrow> bool \<Rightarrow> file_appender \<Rightarrow> 'fs \<Rightarrow> (bool \<times> file_appender \<times> 'fs) res" where
  "File_reopen sys app flushed a fs =
     (let st = (if of_good (fa_stream a) then ofstream_close flushed (fa_stream a) else fa_stream a) in
      bindR (OpenForWrite_stream sys app (fa_filename a) (st, fs)) (\<lambda>(b, st', fs').
      Inr (b, a\<lparr>fa_stream := st'\<rparr>, fs')))"

definition FileLogAppender_new :: "('fs, 'm) os \<Rightarrow> 'm \<Rightarrow> string \<Rightarrow> 'fs \<Rightarrow> (file_appender \<times> 'fs) res" where
  "FileLogAppender_new sys app filename fs =
     bindR (File_reopen sys app True \<lparr>fa_filename = filename, fa_level = DEBUG, fa_formatter = None,
       fa_lastTime = 0, fa_stream = ofstream_new\<rparr> fs) (\<lambda>(_, a, fs'). Inr (a, fs'))"

text \<open>\<open>LogFormatter::format(std::ostream &)\<close>: one item after the other goes to the stream.\<close>

primrec format_items :: "'fs writer \<Rightarrow> string \<Rightarrow> (string \<Rightarrow> u64 \<Rightarrow> string) \<Rightarrow> log_event \<Rightarrow> fmt_item list \<Rightarrow>
    ofstream \<times> 'fs \<Rightarrow> ofstream \<times> 'fs" where
  "format_items wr name strf e [] x = x"
| "format_items wr name strf e (i # is) x =
     format_items wr name strf e is (ofstream_put wr name (format_item strf e i) x)"

text \<open>\<open>FileLogAppender::log\<close>; the boolean tells whether \<open>error\<close> is written to the console.\<close>

definition File_log_stream :: "('fs, 'm) os \<Rightarrow> 'm \<Rightarrow> bool \<Rightarrow> 'fs writer \<Rightarrow> (string \<Rightarrow> u64 \<Rightarrow> string) \<Rightarrow>
    log_event \<Rightarrow> file_appender \<Rightarrow> 'fs \<Rightarrow> (bool \<times> file_appender \<times> 'fs) res" where
  "File_log_stream sys app flushed wr strf e a fs = (if fa_level a \<le> le_level e
     then bindR (if fa_lastTime a + 3 \<le> le_time e
           then bindR (File_reopen sys app flushed a fs) (\<lambda>(_, a1, fs1).
             Inr (a1\<lparr>fa_lastTime := le_time e\<rparr>, fs1))
           else Inr (a, fs)) (\<lambda>(a1, fs1).
         case fa_formatter a1 of None \<Rightarrow> Inl (NullDeref ''m_formatter'')
         | Some f \<Rightarrow> (case format_items wr (fa_filename a1) strf e (lf_items f) (fa_stream a1, fs1) of
             (st, fs2) \<Rightarrow> Inr (\<not> of_good st, a1\<lparr>fa_stream := st\<rparr>, fs2)))
     else Inr (False, a, fs))"

text \<open>Many events, each with the answer of the system at a close.\<close>

primrec File_logs :: "('fs, 'm) os \<Rightarrow> 'm \<Rightarrow> 'fs writer \<Rightarrow> (string \<Rightarrow> u64 \<Rightarrow> string) \<Rightarrow>
    (bool \<times> log_event) list \<Rightarrow> file_appender \<Rightarrow> 'fs \<Rightarrow> (bool list \<times> file_appender \<times> 'fs) res" where
  "File_logs sys app wr strf [] a fs = Inr ([], a, fs)"
| "File_logs sys app wr strf (x # xs) a fs =
     bindR (File_log_stream sys app (fst x) wr strf (snd x) a fs) (\<lambda>(b, a1, fs1).
     bindR (File_logs sys app wr strf xs a1 fs1) (\<lambda>(bs, a2, fs2). Inr (b # bs, a2, fs2)))"

section \<open>Streams that are in order, and streams that are not\<close>

text \<open>With a stream that has no file, opening is what \<open>Files\<close> says.\<close>

lemma OpenForWrite_closed:
  assumes "\<not> of_open st"
  shows "OpenForWrite_stream sys mode name (st, fs) = bindR (OpenForWrite sys name mode fs)
    (\<lambda>(b, fs'). Inr (b, \<lparr>of_open = b, of_good = b\<rparr>, fs'))"
proof (cases "os_open sys mode name fs")
  case (Pair b fs1)
  show ?thesis
  proof (cases b)
    case False
    show ?thesis
    proof (cases "Mkdir sys (Dirname name) fs1")
      case (Inr p)
      obtain c fs2 where p: "p = (c, fs2)" by (cases p)
      show ?thesis using assms Pair False Inr p
        by (cases st; cases "os_open sys mode name fs2"; cases "fst (os_open sys mode name fs2)")
          (simp_all add: OpenForWrite_stream_def OpenForWrite_def ofstream_open_def)
    qed (use assms Pair False in \<open>simp add: OpenForWrite_stream_def OpenForWrite_def ofstream_open_def\<close>)
  qed (use assms Pair in \<open>simp add: OpenForWrite_stream_def OpenForWrite_def ofstream_open_def\<close>)
qed

text \<open>A stream that has a file but has failed stays as it is, and \<open>reopen\<close> reports success.\<close>

definition stuck :: "ofstream \<Rightarrow> bool" where
  "stuck st = (of_open st \<and> \<not> of_good st)"

lemma reopen_stuck: "stuck (fa_stream a) \<Longrightarrow> File_reopen sys app flushed a fs = Inr (True, a, fs)"
  by (simp add: stuck_def File_reopen_def OpenForWrite_stream_def ofstream_open_def)

lemma format_stuck: "\<not> of_good st \<Longrightarrow> format_items wr name strf e is (st, fs) = (st, fs)"
  by (induction "is") (simp_all add: ofstream_put_def)

text \<open>With any other stream \<open>reopen\<close> is an honest attempt.\<close>

lemma reopen_other:
  assumes "\<not> stuck (fa_stream a)"
  shows "File_reopen sys app flushed a fs = bindR (OpenForWrite sys (fa_filename a) app fs)
    (\<lambda>(b, fs'). Inr (b, a\<lparr>fa_stream := \<lparr>of_open = b, of_good = b\<rparr>\<rparr>, fs'))"
proof -
  let ?st = "if of_good (fa_stream a) then ofstream_close flushed (fa_stream a) else fa_stream a"
  have "\<not> of_open ?st" using assms by (auto simp: stuck_def ofstream_close_def)
  from OpenForWrite_closed [OF this, of sys app "fa_filename a" fs] show ?thesis
    by (simp add: File_reopen_def bindR_assoc split_def)
qed

section \<open>A system that never fails\<close>

text \<open>\<open>content\<close> gives the text of each file; opening adds nothing, and a write adds its text.\<close>

definition disk_laws :: "('fs, 'm) os \<Rightarrow> 'm \<Rightarrow> 'fs writer \<Rightarrow> ('fs \<Rightarrow> string \<Rightarrow> string) \<Rightarrow> bool" where
  "disk_laws sys app wr content = (\<forall>name fs.
     (\<exists>fs'. os_open sys app name fs = (True, fs') \<and> content fs' = content fs) \<and>
     (\<forall>t. \<exists>fs'. wr name t fs = (True, fs') \<and> content fs' = (content fs)(name := content fs name @ t)))"

lemma format_items_content:
  assumes "disk_laws sys app wr content"
  shows "of_open st \<Longrightarrow> of_good st \<Longrightarrow> \<exists>fs'. format_items wr name strf e is (st, fs) = (st, fs') \<and>
    content fs' = (content fs)(name := content fs name @ concat (map (format_item strf e) is))"
proof (induction "is" arbitrary: fs)
  case (Cons i "is")
  let ?t = "format_item strf e i"
  obtain fs1 where w: "wr name ?t fs = (True, fs1)" "content fs1 = (content fs)(name := content fs name @ ?t)"
    using assms unfolding disk_laws_def by blast
  have "ofstream_put wr name ?t (st, fs) = (st, fs1)"
    using Cons.prems w(1) by (cases st) (simp add: ofstream_put_def)
  moreover obtain fs' where "format_items wr name strf e is (st, fs1) = (st, fs')"
    "content fs' = (content fs1)(name := content fs1 name @ concat (map (format_item strf e) is))"
    using Cons.IH [OF Cons.prems] by blast
  ultimately show ?case using w(2) by (intro exI [of _ fs']) simp
qed simp

lemma File_log_written:
  assumes laws: "disk_laws sys app wr content" and st: "of_open (fa_stream a)" "of_good (fa_stream a)"
    and f: "fa_formatter a = Some f" and lev: "fa_level a \<le> le_level e"
  shows "\<exists>a' fs'. File_log_stream sys app fl wr strf e a fs = Inr (False, a', fs') \<and>
    of_open (fa_stream a') \<and> of_good (fa_stream a') \<and> fa_formatter a' = Some f \<and>
    fa_level a' = fa_level a \<and> fa_filename a' = fa_filename a \<and>
    content fs' = (content fs)(fa_filename a := content fs (fa_filename a) @ format_event strf f e)"
proof -
  obtain fs1 where o: "os_open sys app (fa_filename a) fs = (True, fs1)" "content fs1 = content fs"
    using laws unfolding disk_laws_def by blast
  have "File_reopen sys app fl a fs = Inr (True, a\<lparr>fa_stream := \<lparr>of_open = True, of_good = True\<rparr>\<rparr>, fs1)"
    using reopen_other [of a sys app fl fs] st o(1) by (simp add: stuck_def OpenForWrite_def)
  then obtain a1 fs2 where 1: "(if fa_lastTime a + 3 \<le> le_time e
      then bindR (File_reopen sys app fl a fs) (\<lambda>(_, a1, fs1). Inr (a1\<lparr>fa_lastTime := le_time e\<rparr>, fs1))
      else Inr (a, fs)) = Inr (a1, fs2)" "of_open (fa_stream a1)" "of_good (fa_stream a1)"
    "fa_formatter a1 = Some f" "fa_level a1 = fa_level a" "fa_filename a1 = fa_filename a"
    "content fs2 = content fs"
    using st f o(2) by (cases "fa_lastTime a + 3 \<le> le_time e") auto
  then show ?thesis
    using format_items_content [OF laws 1(2,3), of "fa_filename a" strf e "lf_items f" fs2] lev
    by (auto simp: File_log_stream_def format_event_def)
qed

text \<open>Then the lines of the events of the appender's level are in the file, in order.\<close>

lemma File_logs_written:
  assumes "disk_laws sys app wr content"
  shows "of_open (fa_stream a) \<Longrightarrow> of_good (fa_stream a) \<Longrightarrow> fa_formatter a = Some f \<Longrightarrow>
    \<exists>a' fs'. File_logs sys app wr strf xs a fs = Inr (map (\<lambda>_. False) xs, a', fs') \<and>
      content fs' = (content fs)(fa_filename a := content fs (fa_filename a) @
        concat (map (format_event strf f) (filter (\<lambda>e. fa_level a \<le> le_level e) (map snd xs))))"
proof (induction xs arbitrary: a fs)
  case (Cons x xs)
  show ?case
  proof (cases "fa_level a \<le> le_level (snd x)")
    case True
    obtain a1 fs1 where 1: "File_log_stream sys app (fst x) wr strf (snd x) a fs = Inr (False, a1, fs1)"
      "of_open (fa_stream a1)" "of_good (fa_stream a1)" "fa_formatter a1 = Some f"
      "fa_level a1 = fa_level a" "fa_filename a1 = fa_filename a"
      "content fs1 = (content fs)(fa_filename a := content fs (fa_filename a) @ format_event strf f (snd x))"
      using File_log_written [OF assms Cons.prems True, of "fst x" strf fs] by blast
    obtain a' fs' where 2: "File_logs sys app wr strf xs a1 fs1 = Inr (map (\<lambda>_. False) xs, a', fs')"
      "content fs' = (content fs1)(fa_filename a1 := content fs1 (fa_filename a1) @
        concat (map (format_event strf f) (filter (\<lambda>e. fa_level a1 \<le> le_level e) (map snd xs))))"
      using Cons.IH [OF 1(2-4), of fs1] by blast
    show ?thesis using 1(1) 2(1) True
      by (intro exI [of _ a'] exI [of _ fs']) (simp add: 2(2) 1(5-7))
  next
    case False
    then show ?thesis using Cons.IH [OF Cons.prems, of fs] by (auto simp: File_log_stream_def)
  qed
qed simp

text \<open>The appender as \<open>Loggers\<close> has it, without its stream.\<close>

definition plain :: "file_appender \<Rightarrow> appender" where
  "plain a = \<lparr>ap_sink = LogFile (fa_filename a), ap_level = fa_level a, ap_hasFormatter = (fa_formatter a \<noteq> None),
     ap_formatter = fa_formatter a, ap_lastTime = fa_lastTime a\<rparr>"

text \<open>What \<open>Loggers\<close> has it write is the text that \<open>File_log_written\<close> finds in the file.\<close>

lemma File_log_plain:
  assumes "fa_formatter a = Some f" and "fa_level a \<le> le_level e"
  shows "\<exists>s'. File_log strf e p (plain a) s = Inr s' \<and>
    ls_out s' = ls_out s @ [(LogFile (fa_filename a), format_event strf f e)]"
  using assms by (simp add: File_log_def put_line_def plain_def put_appender_def)

section \<open>Properties\<close>

text \<open>
  C37. A file appender never recovers from a write that has failed: however many events follow and
  whatever the system answers from then on, no line reaches the file again, each event of the
  appender's level is reported on the console as an error, and \<open>reopen\<close> still claims success.
\<close>

theorem failed_stream_stays:
  assumes "of_open (fa_stream a)" and "\<not> of_good (fa_stream a)" and "fa_formatter a \<noteq> None"
  shows "\<exists>a'. File_logs sys app wr strf xs a fs =
      Inr (map (\<lambda>x. fa_level a \<le> le_level (snd x)) xs, a', fs) \<and>
    fa_stream a' = fa_stream a \<and> File_reopen sys app flushed a' fs = Inr (True, a', fs)"
  using assms
proof (induction xs arbitrary: a)
  case Nil
  then show ?case using reopen_stuck [of a sys app flushed fs] by (simp add: stuck_def)
next
  case (Cons x xs)
  let ?e = "snd x"
  have r: "File_reopen sys app (fst x) a fs = Inr (True, a, fs)"
    using Cons.prems by (intro reopen_stuck) (simp add: stuck_def)
  obtain f where f: "fa_formatter a = Some f" using Cons.prems(3) by blast
  define a1 where "a1 = (if fa_level a \<le> le_level ?e \<and> fa_lastTime a + 3 \<le> le_time ?e
    then a\<lparr>fa_lastTime := le_time ?e\<rparr> else a)"
  have a1: "fa_stream a1 = fa_stream a" "fa_formatter a1 = Some f" "fa_level a1 = fa_level a"
    using f by (simp_all add: a1_def)
  have "File_log_stream sys app (fst x) wr strf ?e a fs = Inr (fa_level a \<le> le_level ?e, a1, fs)"
    using r f format_stuck [OF Cons.prems(2), of wr _ strf ?e "lf_items f" fs] Cons.prems(2)
    by (cases a) (simp add: File_log_stream_def a1_def)
  then show ?case using Cons.IH [of a1] Cons.prems a1 by auto
qed

section \<open>An instance\<close>

text \<open>A disk that takes one text while it is full, and everything once there is room again.\<close>

definition demo_disk_os :: "(nat \<times> string list, unit) os" where
  "demo_disk_os = \<lparr>os_access = (\<lambda>fs p. True), os_lstat = (\<lambda>fs p. None), os_mkdir = (\<lambda>p fs. (True, fs)),
     os_unlink = (\<lambda>p fs. (True, fs)), os_rmdir = (\<lambda>p fs. (True, fs)), os_rename = (\<lambda>p q fs. (True, fs)),
     os_symlink = (\<lambda>p q fs. (True, fs)), os_opendir = (\<lambda>fs p. None), os_realpath = (\<lambda>fs p. None),
     os_open = (\<lambda>m p fs. (True, fs))\<rparr>"

definition demo_disk_write :: "(nat \<times> string list) writer" where
  "demo_disk_write name t fs = (case fs of (room, ts) \<Rightarrow>
     if room = 0 then (False, fs) else (True, room - 1, ts @ [t]))"

definition demo_event :: "string \<Rightarrow> u64 \<Rightarrow> log_event" where
  "demo_event msg now = \<lparr>le_file = [], le_line = 1, le_elapse = 0, le_threadId = 0, le_fiberId = 0,
     le_time = now, le_threadName = [], le_content = msg, le_level = ERROR, le_logger = ''root''\<rparr>"

definition demo_appender :: file_appender where
  "demo_appender = \<lparr>fa_filename = ''a.log'', fa_level = DEBUG,
     fa_formatter = Some \<lparr>lf_pattern = ''%m'', lf_items = [Message], lf_error = False\<rparr>,
     fa_lastTime = 9, fa_stream = \<lparr>of_open = True, of_good = True\<rparr>\<rparr>"

lemma demo_disk_check:
  "case File_logs demo_disk_os () demo_disk_write (\<lambda>f t. []) [(True, demo_event ''one'' 9), (True, demo_event ''two'' 9)]
      demo_appender (1, []) of Inl _ \<Rightarrow> False
    | Inr (bs, a, fs) \<Rightarrow> bs = [False, True] \<and> fs = (0, [''one'']) \<and> of_open (fa_stream a) \<and>
        \<not> of_good (fa_stream a) \<and> fa_formatter a \<noteq> None \<and> fa_level a = DEBUG"
  by code_simp

theorem failed_stream_stays_witness:
  "\<exists>a a'. File_logs demo_disk_os () demo_disk_write (\<lambda>f t. []) [(True, demo_event ''one'' 9), (True, demo_event ''two'' 9)]
      demo_appender (1, []) = Inr ([False, True], a, (0, [''one''])) \<and>
    File_logs demo_disk_os () demo_disk_write (\<lambda>f t. []) [(True, demo_event ''three'' 99)] a (5, [''one'']) =
      Inr ([True], a', (5, [''one'']))"
proof -
  obtain a where a: "File_logs demo_disk_os () demo_disk_write (\<lambda>f t. [])
      [(True, demo_event ''one'' 9), (True, demo_event ''two'' 9)] demo_appender (1, []) =
      Inr ([False, True], a, (0, [''one'']))"
    and f: "of_open (fa_stream a)" "\<not> of_good (fa_stream a)" "fa_formatter a \<noteq> None" "fa_level a = DEBUG"
    using demo_disk_check by (auto split: sum.splits)
  from failed_stream_stays [OF f(1-3), of demo_disk_os "()" demo_disk_write "\<lambda>f t. []"
      "[(True, demo_event ''three'' 99)]" "(5, [''one''])" True]
  show ?thesis using a f(4) by (auto simp: demo_event_def less_eq_level_def)
qed

end
