(* ===== verification/Envs.thy ===== *)
theory Envs
  imports Configs
begin

text \<open>
  The environment of the program (\<open>sylar/env.h\<close>, \<open>sylar/env.cpp\<close>): the command line, the help
  texts, and paths relative to the program.
\<close>

section \<open>State\<close>

text \<open>
  \<open>en_work_path\<close> is the static pointer of \<open>getAbsoluteWorkPath\<close>: \<open>None\<close> before the first call.
\<close>

record env =
  en_args :: "string \<Rightarrow> string option"
  en_helps :: "(string \<times> string) list"
  en_program :: string
  en_exe :: string
  en_cwd :: string
  en_work_path :: "string option option"

definition Env_new :: env where
  "Env_new = \<lparr>en_args = (\<lambda>k. None), en_helps = [], en_program = [], en_exe = [], en_cwd = [],
     en_work_path = None\<rparr>"

section \<open>Arguments\<close>

definition Env_add :: "string \<Rightarrow> string \<Rightarrow> env \<Rightarrow> env" where
  "Env_add key val e = e\<lparr>en_args := (en_args e)(key \<mapsto> val)\<rparr>"

definition Env_has :: "string \<Rightarrow> env \<Rightarrow> bool" where
  "Env_has key e = (en_args e key \<noteq> None)"

definition Env_del :: "string \<Rightarrow> env \<Rightarrow> env" where
  "Env_del key e = e\<lparr>en_args := (en_args e)(key := None)\<rparr>"

definition Env_get :: "string \<Rightarrow> string \<Rightarrow> env \<Rightarrow> string" where
  "Env_get key default_value e = (case en_args e key of Some v \<Rightarrow> v | None \<Rightarrow> default_value)"

text \<open>The loop over \<open>argv\<close>, with the pending key.\<close>

primrec args_loop :: "string list \<Rightarrow> string option \<Rightarrow> env \<Rightarrow> env \<times> bool" where
  "args_loop [] now_key e = (case now_key of Some k \<Rightarrow> (Env_add k [] e, True) | None \<Rightarrow> (e, True))"
| "args_loop (a # as) now_key e =
     (if a \<noteq> [] \<and> hd a = CHR ''-''
      then if length a > 1
        then args_loop as (Some (tl a)) (case now_key of Some k \<Rightarrow> Env_add k [] e | None \<Rightarrow> e)
        else (e, False)
      else case now_key of Some k \<Rightarrow> args_loop as None (Env_add k a e) | None \<Rightarrow> (e, False))"

text \<open>\<open>path\<close> is what \<open>readlink\<close> finds for the program.\<close>

definition Env_init :: "string \<Rightarrow> string list \<Rightarrow> env \<Rightarrow> (env \<times> bool) res" where
  "Env_init path argv e =
     (let cwd = (case rfind (CHR ''/'') path of Some pos \<Rightarrow> take pos path | None \<Rightarrow> path) @ ''/'';
          e1 = e\<lparr>en_exe := path, en_cwd := cwd\<rparr>
      in case argv of [] \<Rightarrow> Inl (Undefined ''argv[0]'')
         | prog # as \<Rightarrow> Inr (args_loop as None (e1\<lparr>en_program := prog\<rparr>)))"

section \<open>Help\<close>

definition Env_removeHelp :: "string \<Rightarrow> env \<Rightarrow> env" where
  "Env_removeHelp key e = e\<lparr>en_helps := filter (\<lambda>p. fst p \<noteq> key) (en_helps e)\<rparr>"

definition Env_addHelp :: "string \<Rightarrow> string \<Rightarrow> env \<Rightarrow> env" where
  "Env_addHelp key desc e = (let e1 = Env_removeHelp key e
     in e1\<lparr>en_helps := en_helps e1 @ [(key, desc)]\<rparr>)"

definition Env_printHelp :: "env \<Rightarrow> string" where
  "Env_printHelp e = ''Usage: '' @ en_program e @ '' [options]'' @ [CHR 0x0A] @
     concat (map (\<lambda>p. ''    -'' @ fst p @ '' : '' @ snd p @ [CHR 0x0A]) (en_helps e))"

lemma Env_addHelp_distinct:
  "distinct (map fst (en_helps e)) \<Longrightarrow> distinct (map fst (en_helps (Env_addHelp key desc e)))"
  by (auto simp: Env_addHelp_def Env_removeHelp_def Let_def distinct_map_filter)

section \<open>Paths\<close>

definition getAbsolutePath :: "string \<Rightarrow> env \<Rightarrow> string" where
  "getAbsolutePath path e = (if path = [] then ''/'' else if hd path = CHR ''/'' then path
     else en_cwd e @ path)"

definition getConfigPath :: "env \<Rightarrow> string" where
  "getConfigPath e = getAbsolutePath (Env_get ''c'' ''conf'' e) e"

text \<open>
  The variable \<open>server.work_path\<close>, of the type \<open>ty\<close> of strings, is looked up once; \<open>str\<close> reads
  a value of that type.
\<close>

definition getAbsoluteWorkPath ::
    "'t \<Rightarrow> ('v \<Rightarrow> string) \<Rightarrow> ('t, 'v, 's) config \<Rightarrow> string \<Rightarrow> env \<Rightarrow> (string \<times> env) res" where
  "getAbsoluteWorkPath ty str c path e =
     (if path = [] then Inr (''/'', e)
      else if hd path = CHR ''/'' then Inr (path, e)
      else let p = (case en_work_path e of Some p \<Rightarrow> p | None \<Rightarrow> Lookup ty ''server.work_path'' c);
               e1 = e\<lparr>en_work_path := Some p\<rparr>
        in case p of None \<Rightarrow> Inl (NullDeref ''g_server_work_path'')
           | Some n \<Rightarrow> bindR (getValue n c) (\<lambda>v. Inr (str v @ ''/'' @ path, e1)))"

section \<open>The environment of the process\<close>

text \<open>\<open>setenv\<close> refuses an empty name and one with an equals sign.\<close>

definition setEnv :: "string \<Rightarrow> string \<Rightarrow> (string \<rightharpoonup> string) \<Rightarrow> bool \<times> (string \<rightharpoonup> string)" where
  "setEnv key val m = (if cstr key = [] \<or> CHR ''='' \<in> set (cstr key) then (False, m)
     else (True, m(cstr key \<mapsto> cstr val)))"

definition getEnv :: "string \<Rightarrow> string \<Rightarrow> (string \<rightharpoonup> string) \<Rightarrow> string" where
  "getEnv key default_value m = (case m (cstr key) of None \<Rightarrow> default_value | Some v \<Rightarrow> v)"

lemma getEnv_setEnv:
  "setEnv key val m = (True, m') \<Longrightarrow>
    getEnv key d m' = cstr val \<and> (cstr k \<noteq> cstr key \<longrightarrow> getEnv k d m' = getEnv k d m)"
  by (auto simp: setEnv_def getEnv_def split: if_splits)

section \<open>Reading a command line\<close>

text \<open>An option, and how it is written.\<close>

type_synonym opt = "string \<times> string option"

definition opt_ok :: "opt \<Rightarrow> bool" where
  "opt_ok o1 = (fst o1 \<noteq> [] \<and> (case snd o1 of None \<Rightarrow> True | Some v \<Rightarrow> v = [] \<or> hd v \<noteq> CHR ''-''))"

definition show_opt :: "opt \<Rightarrow> string list" where
  "show_opt o1 = (CHR ''-'' # fst o1) # (case snd o1 of None \<Rightarrow> [] | Some v \<Rightarrow> [v])"

definition opt_pair :: "opt \<Rightarrow> string \<times> string" where
  "opt_pair o1 = (fst o1, case snd o1 of None \<Rightarrow> [] | Some v \<Rightarrow> v)"

lemma opt_simps [simp]:
  "opt_ok (k, None) \<longleftrightarrow> k \<noteq> []" "opt_ok (k, Some v) \<longleftrightarrow> k \<noteq> [] \<and> \<not> (v \<noteq> [] \<and> hd v = CHR ''-'')"
  "show_opt (k, None) = [CHR ''-'' # k]" "show_opt (k, Some v) = [CHR ''-'' # k, v]"
  "opt_pair (k, None) = (k, [])" "opt_pair (k, Some v) = (k, v)"
  by (auto simp: opt_ok_def show_opt_def opt_pair_def)

definition add_opts :: "opt list \<Rightarrow> env \<Rightarrow> env" where
  "add_opts os e = fold (\<lambda>o1. Env_add (fst (opt_pair o1)) (snd (opt_pair o1))) os e"

lemma add_opts_simps [simp]:
  "add_opts [] e = e"
  "add_opts (x # os) e = add_opts os (Env_add (fst (opt_pair x)) (snd (opt_pair x)) e)"
  by (simp_all add: add_opts_def)

lemma add_opts_args: "en_args (add_opts os e) = en_args e ++ map_of (rev (map opt_pair os))"
  by (induction os arbitrary: e) (simp_all add: Env_add_def map_add_def fun_eq_iff split: option.split)

lemma add_opts_rest:
  "en_helps (add_opts os e) = en_helps e \<and> en_program (add_opts os e) = en_program e \<and>
    en_exe (add_opts os e) = en_exe e \<and> en_cwd (add_opts os e) = en_cwd e"
  by (induction os arbitrary: e) (simp_all add: Env_add_def)

text \<open>The options the loop has seen, with a pending key.\<close>

lemma init_loop_sound:
  "args_loop as now_key e = (e', True) \<Longrightarrow> (case now_key of None \<Rightarrow> True | Some k \<Rightarrow> k \<noteq> []) \<Longrightarrow>
    \<exists>os. list_all opt_ok os \<and> e' = add_opts os e \<and>
      (case now_key of None \<Rightarrow> [] | Some k \<Rightarrow> [CHR ''-'' # k]) @ as = concat (map show_opt os)"
proof (induction as arbitrary: now_key e)
  case Nil
  show ?case
  proof (cases now_key)
    case (Some k)
    then show ?thesis using Nil
      by (intro exI [of _ "[(k, None)]"]) simp
  qed (use Nil in \<open>auto intro: exI [of _ "[]"]\<close>)
next
  case (Cons a as)
  show ?case
  proof (cases "a \<noteq> [] \<and> hd a = CHR ''-''")
    case True
    then have a: "a = CHR ''-'' # tl a" by (metis list.collapse)
    have len: "length a > 1" using Cons.prems(1) True by (simp split: if_splits)
    then have tl: "tl a \<noteq> []" by (cases a) auto
    obtain os where os: "list_all opt_ok os"
      "e' = add_opts os (case now_key of Some k \<Rightarrow> Env_add k [] e | None \<Rightarrow> e)"
      "[CHR ''-'' # tl a] @ as = concat (map show_opt os)"
      using Cons.IH [of "Some (tl a)"] Cons.prems(1) True len tl by auto
    show ?thesis
    proof (cases now_key)
      case None
      then show ?thesis using os a by (intro exI [of _ os]) simp
    next
      case (Some k)
      then show ?thesis using os a Cons.prems(2)
        by (intro exI [of _ "(k, None) # os"]) simp
    qed
  next
    case False
    then obtain k where k: "now_key = Some k" using Cons.prems(1) by (cases now_key) auto
    obtain os where "list_all opt_ok os" "e' = add_opts os (Env_add k a e)" "as = concat (map show_opt os)"
      using Cons.IH [of None "Env_add k a e"] Cons.prems False k by auto
    then show ?thesis using k False Cons.prems(2)
      by (intro exI [of _ "(k, Some a) # os"]) auto
  qed
qed

lemma init_loop_complete:
  "list_all opt_ok os \<Longrightarrow>
    args_loop (concat (map show_opt os)) now_key e =
      (add_opts os (case now_key of None \<Rightarrow> e | Some k \<Rightarrow> Env_add k [] e), True)"
proof (induction os arbitrary: now_key e)
  case (Cons x os)
  obtain k v where x: "x = (k, v)" by force
  have "k \<noteq> []" using Cons.prems x by (cases v) simp_all
  then show ?case
    using Cons x by (cases v; cases now_key) auto
qed (simp split: option.split)

section \<open>Properties\<close>

text \<open>
  The command line is accepted exactly when it is a sequence of options \<open>-key\<close>, each with
  at most one value, that does not start with a dash; the arguments are then those of the
  options, empty when there is no value, the last one of a key winning. Any other command line
  is rejected.
\<close>

theorem Env_init_exact:
  shows "\<exists>e' b. Env_init path (prog # as) e = Inr (e', b) \<and> en_program e' = prog \<and> en_exe e' = path \<and>
    (b \<longleftrightarrow> (\<exists>os. list_all opt_ok os \<and> as = concat (map show_opt os))) \<and>
    (\<forall>os. list_all opt_ok os \<and> as = concat (map show_opt os) \<longrightarrow>
      en_args e' = en_args e ++ map_of (rev (map opt_pair os)))"
proof -
  let ?e = "e\<lparr>en_exe := path,
    en_cwd := (case rfind (CHR ''/'') path of Some pos \<Rightarrow> take pos path | None \<Rightarrow> path) @ ''/'',
    en_program := prog\<rparr>"
  obtain e' b where r: "args_loop as None ?e = (e', b)" by force
  have "en_program (fst (args_loop as k e)) = en_program e \<and> en_exe (fst (args_loop as k e)) = en_exe e"
    for k e
    by (induction as arbitrary: k e) (auto simp: Env_add_def split: option.split)
  from this [of None ?e] have "en_program e' = prog" "en_exe e' = path" using r by simp_all
  moreover have "b" "en_args e' = en_args e ++ map_of (rev (map opt_pair os))"
    if "list_all opt_ok os" "as = concat (map show_opt os)" for os
    using init_loop_complete [OF that(1), of None ?e] that(2) r add_opts_args [of os ?e] by auto
  moreover have "\<exists>os. list_all opt_ok os \<and> as = concat (map show_opt os)" if b
    using init_loop_sound [of as None ?e e'] r that by auto
  ultimately show ?thesis using r by (auto simp: Env_init_def Let_def)
qed

theorem Env_init_exact_witness:
  "\<exists>e'. Env_init ''/opt/app/server'' [''server'', ''-c'', ''conf.d'', ''-d''] Env_new = Inr (e', True) \<and>
    en_args e' ''c'' = Some ''conf.d'' \<and> en_args e' ''d'' = Some [] \<and> en_args e' ''x'' = None"
proof -
  let ?os = "[(''c'', Some ''conf.d''), (''d'', None)]"
  have os: "list_all opt_ok ?os \<and> [''-c'', ''conf.d'', ''-d''] = concat (map show_opt ?os)" by simp
  obtain e' b where e: "Env_init ''/opt/app/server'' [''server'', ''-c'', ''conf.d'', ''-d''] Env_new = Inr (e', b)"
    "b \<longleftrightarrow> (\<exists>os. list_all opt_ok os \<and> [''-c'', ''conf.d'', ''-d''] = concat (map show_opt os))"
    "\<forall>os. list_all opt_ok os \<and> [''-c'', ''conf.d'', ''-d''] = concat (map show_opt os) \<longrightarrow>
      en_args e' = en_args Env_new ++ map_of (rev (map opt_pair os))"
    using Env_init_exact [of "''/opt/app/server''" "''server''" "[''-c'', ''conf.d'', ''-d'']" Env_new]
    by blast
  have "b" using e(2) os by blast
  moreover have "en_args e' = en_args Env_new ++ map_of (rev (map opt_pair ?os))" using e(3) os by blast
  ultimately show ?thesis using e(1) by (simp add: Env_new_def)
qed

section \<open>Paths before the configuration\<close>

text \<open>
  When \<open>server.work_path\<close> is not registered as a variable of strings at the first call of
  \<open>getAbsoluteWorkPath\<close> with a relative path, a null pointer is followed; nothing in the
  library registers the variable.
\<close>

lemma work_path_unregistered_crashes:
  assumes "en_work_path e = None" and "Lookup ty ''server.work_path'' c = None"
    and "path \<noteq> []" and "hd path \<noteq> CHR ''/''"
  shows "getAbsoluteWorkPath ty str c path e = Inl (NullDeref ''g_server_work_path'')"
  using assms by (simp add: getAbsoluteWorkPath_def)

end
