(* ===== verification/ConfDirs.thy ===== *)
theory ConfDirs
  imports Envs Files
begin

text \<open>
  Loading a directory of configuration files (\<open>Config::LoadFromConfDir\<close> in
  \<open>sylar/config.cpp\<close>): the files are those \<open>FSUtil\<close> lists, a file is read when its time of
  modification is not the one noted, and what it holds is applied to the registry.
\<close>

section \<open>State\<close>

text \<open>
  \<open>cd_mtimes\<close> is \<open>s_file2modifytime\<close>; a file that is not in it counts as modified at 0, as
  \<open>operator[]\<close> makes it so.
\<close>

record ('t, 'v, 's) conf_dirs =
  cd_config :: "('t, 'v, 's) config"
  cd_mtimes :: "string \<Rightarrow> u64 option"

definition noted :: "string \<Rightarrow> ('t, 'v, 's) conf_dirs \<Rightarrow> u64" where
  "noted i c = (case cd_mtimes c i of None \<Rightarrow> 0 | Some t \<Rightarrow> t)"

section \<open>Operations\<close>

text \<open>
  One file: \<open>load_file\<close> is \<open>YAML::LoadFile\<close>, with the files as they are; what it throws is
  caught. When \<open>lstat\<close> fails its buffer is not initialised. \<open>d\<close> bounds the depth of documents.
\<close>

definition load_file :: "('t \<Rightarrow> 'v codec) \<Rightarrow> 'n yaml \<Rightarrow> nat \<Rightarrow> ('fs, 'm) os \<Rightarrow> 'fs \<Rightarrow> (string \<Rightarrow> 'n res) \<Rightarrow>
    bool \<Rightarrow> string \<Rightarrow> ('t, 'v, 's) conf_dirs \<Rightarrow> ('t, 'v, 's) conf_dirs res option" where
  "load_file cdc y d sys fs LoadFile force i c = (case os_lstat sys fs i of
       None \<Rightarrow> Some (Inl (Undefined ''st''))
     | Some st \<Rightarrow>
       if \<not> force \<and> noted i c = snd st
       then Some (Inr (c\<lparr>cd_mtimes := (cd_mtimes c)(i \<mapsto> noted i c)\<rparr>))
       else (let c1 = c\<lparr>cd_mtimes := (cd_mtimes c)(i \<mapsto> snd st)\<rparr>
         in case LoadFile i of Inl _ \<Rightarrow> Some (Inr c1)
          | Inr root \<Rightarrow> (case LoadFromYaml cdc y d root (cd_config c1) of None \<Rightarrow> None
             | Some (Inl f) \<Rightarrow> Some (Inl f)
             | Some (Inr cf) \<Rightarrow> Some (Inr (c1\<lparr>cd_config := cf\<rparr>)))))"

primrec load_files :: "('t \<Rightarrow> 'v codec) \<Rightarrow> 'n yaml \<Rightarrow> nat \<Rightarrow> ('fs, 'm) os \<Rightarrow> 'fs \<Rightarrow> (string \<Rightarrow> 'n res) \<Rightarrow>
    bool \<Rightarrow> string list \<Rightarrow> ('t, 'v, 's) conf_dirs \<Rightarrow> ('t, 'v, 's) conf_dirs res option" where
  "load_files cdc y d sys fs LoadFile force [] c = Some (Inr c)"
| "load_files cdc y d sys fs LoadFile force (i # is) c =
     (case load_file cdc y d sys fs LoadFile force i c of None \<Rightarrow> None
      | Some (Inl f) \<Rightarrow> Some (Inl f)
      | Some (Inr c1) \<Rightarrow> load_files cdc y d sys fs LoadFile force is c1)"

definition LoadFromConfDir :: "('t \<Rightarrow> 'v codec) \<Rightarrow> 'n yaml \<Rightarrow> nat \<Rightarrow> ('fs, 'm) os \<Rightarrow> 'fs \<Rightarrow>
    (string \<Rightarrow> 'n res) \<Rightarrow> env \<Rightarrow> string \<Rightarrow> bool \<Rightarrow> ('t, 'v, 's) conf_dirs \<Rightarrow>
    ('t, 'v, 's) conf_dirs res option" where
  "LoadFromConfDir cdc y d sys fs LoadFile e path force c =
     (case ListAllFile sys d fs (getAbsolutePath path e) ''.yml'' of None \<Rightarrow> None
      | Some files \<Rightarrow> load_files cdc y d sys fs LoadFile force files c)"

section \<open>Loading twice\<close>

text \<open>A file is noted with its time of modification.\<close>

definition up_to_date :: "('fs, 'm) os \<Rightarrow> 'fs \<Rightarrow> string \<Rightarrow> ('t, 'v, 's) conf_dirs \<Rightarrow> bool" where
  "up_to_date sys fs i c =
     (case os_lstat sys fs i of None \<Rightarrow> False | Some st \<Rightarrow> cd_mtimes c i = Some (snd st))"

lemma load_file_notes:
  assumes "load_file cdc y d sys fs LoadFile force i c = Some (Inr c')"
  shows "up_to_date sys fs i c' \<and> (\<forall>j. up_to_date sys fs j c \<longrightarrow> up_to_date sys fs j c')"
  using assms
  by (auto simp: load_file_def up_to_date_def noted_def Let_def
      split: option.splits if_splits sum.splits)

lemma load_files_notes:
  "load_files cdc y d sys fs LoadFile force is c = Some (Inr c') \<Longrightarrow>
    (\<forall>i. i \<in> set is \<or> up_to_date sys fs i c \<longrightarrow> up_to_date sys fs i c')"
proof (induction "is" arbitrary: c)
  case (Cons i "is")
  then obtain c1 where c1: "load_file cdc y d sys fs LoadFile force i c = Some (Inr c1)"
    "load_files cdc y d sys fs LoadFile force is c1 = Some (Inr c')"
    by (auto split: option.splits sum.splits)
  show ?case using Cons.IH [OF c1(2)] load_file_notes [OF c1(1)] by auto
qed simp

lemma load_files_again:
  "\<forall>i \<in> set is. up_to_date sys fs i c \<Longrightarrow> load_files cdc y d sys fs LoadFile False is c = Some (Inr c)"
proof (induction "is")
  case (Cons i "is")
  then have "load_file cdc y d sys fs LoadFile False i c = Some (Inr c)"
    by (auto simp: load_file_def up_to_date_def noted_def fun_upd_idem split: option.splits)
  then show ?case using Cons by simp
qed simp

section \<open>Properties\<close>

text \<open>
  A directory is read once: loading it a second time, with the files as they are, changes
  nothing and reads nothing, however the first load was forced. A file that could not be parsed
  is not tried again either, until its time of modification changes.
\<close>

theorem LoadFromConfDir_twice:
  assumes "LoadFromConfDir cdc y d sys fs LoadFile e path force c = Some (Inr c')"
  shows "LoadFromConfDir cdc y d sys fs LoadFile2 e path False c' = Some (Inr c')"
proof -
  obtain files where f: "ListAllFile sys d fs (getAbsolutePath path e) ''.yml'' = Some files"
    "load_files cdc y d sys fs LoadFile force files c = Some (Inr c')"
    using assms by (auto simp: LoadFromConfDir_def split: option.splits)
  have "\<forall>i \<in> set files. up_to_date sys fs i c'" using load_files_notes [OF f(2)] by blast
  then show ?thesis using load_files_again f(1) by (simp add: LoadFromConfDir_def)
qed

section \<open>An instance\<close>

definition dated_os :: "(tree, unit) os" where
  "dated_os = tree_os\<lparr>os_lstat := \<lambda>fs p. map_option (\<lambda>m. (m, 7)) (map_of fs p)\<rparr>"

definition demo_env :: env where
  "demo_env = Env_new\<lparr>en_cwd := ''/''\<rparr>"

definition demo_dirs :: "(bool, string, (string \<times> string) list) conf_dirs" where
  "demo_dirs = \<lparr>cd_config = demo_config, cd_mtimes = (\<lambda>i. None)\<rparr>"

definition demo_files :: "string \<Rightarrow> flow res" where
  "demo_files i = (if i = ''/c/a.yml'' then Inr (Dict [(''server.port'', ''8080'')])
     else Inl (Uncaught ''parse error''))"

theorem LoadFromConfDir_twice_witness:
  "\<exists>c'. LoadFromConfDir demo_codec flow_yaml 3 dated_os demo_tree demo_files demo_env ''c'' False demo_dirs =
      Some (Inr c') \<and>
    LoadFromConfDir demo_codec flow_yaml 3 dated_os demo_tree demo_files demo_env ''c'' False c' =
      Some (Inr c')"
proof -
  let ?r = "LoadFromConfDir demo_codec flow_yaml 3 dated_os demo_tree demo_files demo_env ''c'' False demo_dirs"
  have "case ?r of Some (Inr c') \<Rightarrow> True | _ \<Rightarrow> False"
    by code_simp
  then obtain c' where "?r = Some (Inr c')" by (auto split: option.splits sum.splits)
  from LoadFromConfDir_twice [OF this] this show ?thesis by blast
qed

end
