(* ===== verification/SetValues.thy ===== *)
theory SetValues
  imports Configs Locks
begin

text \<open>
  Threads that call \<open>ConfigVar::setValue\<close> (\<open>sylar/config.h\<close>) on one variable at the same time,
  with the locks as they are taken: the value is compared and the listeners are called under the
  read lock, the value is stored under the write lock, and between the two nothing is held.
  Listeners return: one that throws (the guard then unlocks, and the call stores nothing) is not a
  step of this machine, nor are \<open>addListener\<close> and \<open>delListener\<close>, which take the write lock:
  the set of listeners is the same for all calls.
\<close>

section \<open>The machine\<close>

text \<open>
  Where a thread is in its call, with the new value and the number of listeners it has called.
\<close>

datatype 'v set_pc = Outside | Comparing 'v | Calling 'v nat | Between 'v | Storing 'v | Stored

text \<open>\<open>sv_told\<close> records the calls of listeners: by whom, which, with which old and new value.\<close>

record 'v shared_var =
  sv_val :: 'v
  sv_lock :: rwlock
  sv_pc :: "tid \<Rightarrow> 'v set_pc"
  sv_told :: "(tid \<times> nat \<times> 'v \<times> 'v) list"
  sv_fault :: "fault option"

definition shared_new :: "'v \<Rightarrow> 'v shared_var" where
  "shared_new v = \<lparr>sv_val = v, sv_lock = RWMutex_new, sv_pc = (\<lambda>t. Outside), sv_told = [], sv_fault = None\<rparr>"

definition goto :: "tid \<Rightarrow> 'v set_pc \<Rightarrow> 'v shared_var \<Rightarrow> 'v shared_var" where
  "goto t p c = c\<lparr>sv_pc := (sv_pc c)(t := p)\<rparr>"

text \<open>The end of a scope: the destructor of the guard. A failure to unlock is recorded.\<close>

definition release :: "(rwlock \<times> bool) res \<Rightarrow> 'v shared_var \<Rightarrow> 'v shared_var" where
  "release r c = (case r of Inr g \<Rightarrow> c\<lparr>sv_lock := fst g\<rparr> | Inl f \<Rightarrow> c\<lparr>sv_fault := Some f\<rparr>)"

text \<open>\<open>eq\<close> is \<open>operator==\<close> of the values, \<open>n\<close> the number of listeners.\<close>

inductive set_step :: "('v \<Rightarrow> 'v \<Rightarrow> bool) \<Rightarrow> nat \<Rightarrow> 'v shared_var \<Rightarrow> 'v shared_var \<Rightarrow> bool" for eq n where
  read: "sv_pc c t = Outside \<Longrightarrow> ReadScopedLock_new t (sv_lock c) = Some g \<Longrightarrow>
    set_step eq n c (goto t (Comparing v) (c\<lparr>sv_lock := fst g\<rparr>))"
| equal: "sv_pc c t = Comparing v \<Longrightarrow> eq v (sv_val c) \<Longrightarrow>
    set_step eq n c (goto t Outside (release (ReadScopedLock_unlock t (sv_lock c, True)) c))"
| differs: "sv_pc c t = Comparing v \<Longrightarrow> \<not> eq v (sv_val c) \<Longrightarrow> set_step eq n c (goto t (Calling v 0) c)"
| tell: "sv_pc c t = Calling v i \<Longrightarrow> i < n \<Longrightarrow>
    set_step eq n c (goto t (Calling v (Suc i)) (c\<lparr>sv_told := sv_told c @ [(t, i, sv_val c, v)]\<rparr>))"
| told: "sv_pc c t = Calling v n \<Longrightarrow>
    set_step eq n c (goto t (Between v) (release (ReadScopedLock_unlock t (sv_lock c, True)) c))"
| swrite: "sv_pc c t = Between v \<Longrightarrow> WriteScopedLock_new t (sv_lock c) = Some g \<Longrightarrow>
    set_step eq n c (goto t (Storing v) (c\<lparr>sv_lock := fst g\<rparr>))"
| sstore: "sv_pc c t = Storing v \<Longrightarrow> set_step eq n c (goto t Stored (c\<lparr>sv_val := v\<rparr>))"
| finish: "sv_pc c t = Stored \<Longrightarrow>
    set_step eq n c (goto t Outside (release (WriteScopedLock_unlock t (sv_lock c, True)) c))"

definition set_reach :: "('v \<Rightarrow> 'v \<Rightarrow> bool) \<Rightarrow> nat \<Rightarrow> 'v \<Rightarrow> 'v shared_var \<Rightarrow> bool" where
  "set_reach eq n v0 c = (set_step eq n)\<^sup>*\<^sup>* (shared_new v0) c"

section \<open>The lock is held as the code says\<close>

definition reading :: "'v set_pc \<Rightarrow> bool" where
  "reading p = (case p of Comparing _ \<Rightarrow> True | Calling _ _ \<Rightarrow> True | _ \<Rightarrow> False)"

definition writing :: "'v set_pc \<Rightarrow> bool" where
  "writing p = (case p of Storing _ \<Rightarrow> True | Stored \<Rightarrow> True | _ \<Rightarrow> False)"

definition lock_holders :: "'v shared_var \<Rightarrow> (mode \<times> tid) set" where
  "lock_holders c = {(Read, t) | t. reading (sv_pc c t)} \<union> {(Write, t) | t. writing (sv_pc c t)}"

text \<open>The calls of listeners by one thread.\<close>

definition told_by :: "tid \<Rightarrow> 'v shared_var \<Rightarrow> (nat \<times> 'v \<times> 'v) list" where
  "told_by t c = map snd (filter (\<lambda>x. fst x = t) (sv_told c))"

definition all_told :: "'v shared_var \<Rightarrow> tid \<Rightarrow> 'v \<Rightarrow> nat \<Rightarrow> bool" where
  "all_told c t v i = (\<exists>xs. told_by t c = xs @ map (\<lambda>j. (j, sv_val c, v)) [0..<i])"

definition set_inv :: "nat \<Rightarrow> 'v shared_var \<Rightarrow> bool" where
  "set_inv n c = (RWMutex_repr (sv_lock c) (lock_holders c) \<and> sv_fault c = None \<and>
     (\<forall>t v i. sv_pc c t = Calling v i \<longrightarrow> i \<le> n \<and> all_told c t v i))"

lemma goto_simps [simp]:
  "sv_val (goto t p c) = sv_val c" "sv_lock (goto t p c) = sv_lock c"
  "sv_told (goto t p c) = sv_told c" "sv_fault (goto t p c) = sv_fault c"
  "sv_pc (goto t p c) = (sv_pc c)(t := p)" "told_by u (goto t p c) = told_by u c"
  by (simp_all add: goto_def told_by_def)

lemma all_told_cong:
  "sv_val c' = sv_val c \<Longrightarrow> told_by t c' = told_by t c \<Longrightarrow> all_told c' t v i = all_told c t v i"
  by (simp add: all_told_def)

text \<open>How the holders change when a thread moves.\<close>

lemma holders_goto:
  "lock_holders (goto t p c) = {(k, u). (k, u) \<in> lock_holders c \<and> u \<noteq> t} \<union>
    (if reading p then {(Read, t)} else {}) \<union> (if writing p then {(Write, t)} else {})"
  by (auto simp: lock_holders_def)

lemma holders_upd [simp]:
  "lock_holders (c\<lparr>sv_lock := l\<rparr>) = lock_holders c" "lock_holders (c\<lparr>sv_told := ts\<rparr>) = lock_holders c"
  "lock_holders (c\<lparr>sv_val := v\<rparr>) = lock_holders c"
  by (simp_all add: lock_holders_def)

lemma not_holding: "\<not> reading (sv_pc c t) \<Longrightarrow> \<not> writing (sv_pc c t) \<Longrightarrow>
    {(k, u). (k, u) \<in> lock_holders c \<and> u \<noteq> t} = lock_holders c \<and> t \<notin> snd ` lock_holders c"
  by (auto simp: lock_holders_def)

lemma read_not_write: "reading p \<Longrightarrow> \<not> writing p"
  by (auto simp: reading_def writing_def split: set_pc.splits)

lemma holding:
  "reading (sv_pc c t) \<Longrightarrow> {(k, u). (k, u) \<in> lock_holders c \<and> u \<noteq> t} = lock_holders c - {(Read, t)} \<and>
    (Read, t) \<in> lock_holders c"
  "writing (sv_pc c t) \<Longrightarrow> {(k, u). (k, u) \<in> lock_holders c \<and> u \<noteq> t} = lock_holders c - {(Write, t)} \<and>
    (Write, t) \<in> lock_holders c"
  using read_not_write [of "sv_pc c t"] by (auto simp: lock_holders_def)

section \<open>The invariant\<close>

text \<open>Taking and giving back the lock, in one lemma each.\<close>

lemma take_ok:
  assumes "set_inv n c" and "\<not> reading (sv_pc c t)" and "\<not> writing (sv_pc c t)"
    and "RWMutex_lock k t (sv_lock c) = Some l"
  shows "RWMutex_repr l (insert (k, t) (lock_holders c))"
  using rw.take_repr [of "sv_lock c" "lock_holders c" t k l] not_holding [OF assms(2,3)] assms(1,4)
  by (simp add: set_inv_def)

lemma release_ok:
  assumes "set_inv n c" and "reading (sv_pc c t) \<and> k = Read \<or> writing (sv_pc c t) \<and> k = Write"
    and "r = ScopedLock_unlock RWMutex_unlock t (sv_lock c, True)"
  shows "\<exists>l. release r c = c\<lparr>sv_lock := l\<rparr> \<and> RWMutex_repr l (lock_holders c - {(k, t)})"
proof -
  have "(k, t) \<in> lock_holders c" using assms(2) holding by blast
  then show ?thesis
    using rw.free_repr [of "sv_lock c" "lock_holders c" k t] assms(1,3)
    by (auto simp: set_inv_def ScopedLock_unlock_def release_def)
qed

lemma told_by_snoc:
  "told_by u (c\<lparr>sv_told := sv_told c @ [(t, x)]\<rparr>) = told_by u c @ (if u = t then [x] else [])"
  by (simp add: told_by_def)

lemma told_by_upd [simp]:
  "told_by u (c\<lparr>sv_lock := l\<rparr>) = told_by u c" "told_by u (c\<lparr>sv_val := v\<rparr>) = told_by u c"
  by (simp_all add: told_by_def)

text \<open>A writer is alone.\<close>

lemma writer_alone:
  assumes "set_inv n c" and "writing (sv_pc c t)" and "reading (sv_pc c u) \<or> writing (sv_pc c u)"
  shows "u = t"
proof (rule ccontr)
  assume ne: "u \<noteq> t"
  obtain k where "(k, u) \<in> lock_holders c" using assms(3) holding by blast
  then show False
    using rw.excl [of "sv_lock c" "lock_holders c" Write t k u] holding(2) [OF assms(2)] assms(1) ne
    by (auto simp: set_inv_def both_read_def)
qed

text \<open>A move that keeps the value and what has been told keeps the rest.\<close>

lemma moved_calls:
  assumes "set_inv n c" and "sv_val c' = sv_val c" and "\<And>u. told_by u c' = told_by u c"
    and "sv_pc c' = (sv_pc c)(t := p)" and "\<And>v i. p = Calling v i \<Longrightarrow> i \<le> n \<and> all_told c t v i"
  shows "\<forall>u v i. sv_pc c' u = Calling v i \<longrightarrow> i \<le> n \<and> all_told c' u v i"
  using assms(1,5) by (auto simp: set_inv_def assms(4) all_told_cong [OF assms(2,3)] split: if_splits)

lemma set_step_inv:
  assumes "set_step eq n c c'" and inv: "set_inv n c"
  shows "set_inv n c'"
  using assms(1)
proof cases
  case (read t g v)
  then obtain l where l: "RWMutex_lock Read t (sv_lock c) = Some l" "g = (l, True)"
    by (auto simp: rw_guards ScopedLock_new_def)
  have out: "\<not> reading (sv_pc c t)" "\<not> writing (sv_pc c t)"
    using read(2) by (simp_all add: reading_def writing_def)
  have "lock_holders c' = insert (Read, t) (lock_holders c)"
    using not_holding [OF out] by (simp add: read(1) holders_goto reading_def writing_def)
  then show ?thesis
    using take_ok [OF inv out l(1)] moved_calls [OF inv, of c' t "Comparing v"] inv
    by (simp add: set_inv_def read(1) l(2))
next
  case (equal t v)
  have r: "reading (sv_pc c t)" using equal(2) by (simp add: reading_def)
  obtain l where l: "release (ReadScopedLock_unlock t (sv_lock c, True)) c = c\<lparr>sv_lock := l\<rparr>"
    "RWMutex_repr l (lock_holders c - {(Read, t)})"
    using release_ok [OF inv, of t Read] r by (auto simp: rw_guards)
  have "lock_holders c' = lock_holders c - {(Read, t)}"
    using holding(1) [OF r] by (simp add: equal(1) l(1) holders_goto reading_def writing_def)
  then show ?thesis
    using l moved_calls [OF inv, of c' t Outside] inv by (simp add: set_inv_def equal(1))
next
  case (differs t v)
  have r: "reading (sv_pc c t)" using differs(2) by (simp add: reading_def)
  have "lock_holders c' = lock_holders c"
    using holding(1) [OF r] by (auto simp: differs(1) holders_goto reading_def writing_def)
  moreover have "all_told c t v 0" by (simp add: all_told_def)
  ultimately show ?thesis
    using moved_calls [OF inv, of c' t "Calling v 0"] inv by (simp add: set_inv_def differs(1))
next
  case (tell t v i)
  have r: "reading (sv_pc c t)" using tell(2) by (simp add: reading_def)
  have h: "lock_holders c' = lock_holders c"
    using holding(1) [OF r] by (auto simp: tell(1) holders_goto reading_def writing_def)
  have one: "all_told c t v i" "i \<le> n" using inv tell(2) by (auto simp: set_inv_def)
  have "all_told c' t v (Suc i)"
    using one(1) by (auto simp: all_told_def tell(1) told_by_snoc)
  moreover have "all_told c' u w j \<longleftrightarrow> all_told c u w j" if "u \<noteq> t" for u w j
    using that by (simp add: all_told_def tell(1) told_by_snoc)
  ultimately show ?thesis
    using inv h tell(3) by (auto simp: set_inv_def tell(1))
next
  case (told t v)
  have r: "reading (sv_pc c t)" using told(2) by (simp add: reading_def)
  obtain l where l: "release (ReadScopedLock_unlock t (sv_lock c, True)) c = c\<lparr>sv_lock := l\<rparr>"
    "RWMutex_repr l (lock_holders c - {(Read, t)})"
    using release_ok [OF inv, of t Read] r by (auto simp: rw_guards)
  have "lock_holders c' = lock_holders c - {(Read, t)}"
    using holding(1) [OF r] by (simp add: told(1) l(1) holders_goto reading_def writing_def)
  then show ?thesis
    using l moved_calls [OF inv, of c' t "Between v"] inv by (simp add: set_inv_def told(1))
next
  case (swrite t v g)
  then obtain l where l: "RWMutex_lock Write t (sv_lock c) = Some l" "g = (l, True)"
    by (auto simp: rw_guards ScopedLock_new_def)
  have out: "\<not> reading (sv_pc c t)" "\<not> writing (sv_pc c t)"
    using swrite(2) by (simp_all add: reading_def writing_def)
  have "lock_holders c' = insert (Write, t) (lock_holders c)"
    using not_holding [OF out] by (simp add: swrite(1) holders_goto reading_def writing_def)
  then show ?thesis
    using take_ok [OF inv out l(1)] moved_calls [OF inv, of c' t "Storing v"] inv
    by (simp add: set_inv_def swrite(1) l(2))
next
  case (sstore t v)
  have w: "writing (sv_pc c t)" using sstore(2) by (simp add: writing_def)
  have "lock_holders c' = lock_holders c"
    using holding(2) [OF w] by (auto simp: sstore(1) holders_goto reading_def writing_def)
  moreover have "sv_pc c u \<noteq> Calling v' i" if "u \<noteq> t" for u v' i
    using writer_alone [OF inv w, of u] that by (auto simp: reading_def)
  ultimately show ?thesis using inv by (auto simp: set_inv_def sstore(1))
next
  case (finish t)
  have w: "writing (sv_pc c t)" using finish(2) by (simp add: writing_def)
  obtain l where l: "release (WriteScopedLock_unlock t (sv_lock c, True)) c = c\<lparr>sv_lock := l\<rparr>"
    "RWMutex_repr l (lock_holders c - {(Write, t)})"
    using release_ok [OF inv, of t Write] w by (auto simp: rw_guards)
  have "lock_holders c' = lock_holders c - {(Write, t)}"
    using holding(2) [OF w] by (simp add: finish(1) l(1) holders_goto reading_def writing_def)
  then show ?thesis
    using l moved_calls [OF inv, of c' t Outside] inv by (simp add: set_inv_def finish(1))
qed

lemma set_reach_inv: "set_reach eq n v0 c \<Longrightarrow> set_inv n c"
  unfolding set_reach_def
proof (induction rule: rtranclp_induct)
  case base
  have "lock_holders (shared_new v0) = {}"
    by (simp add: lock_holders_def shared_new_def reading_def writing_def)
  then show ?case using rw.new by (simp add: set_inv_def shared_new_def)
qed (use set_step_inv in blast)

section \<open>Calls that meet nobody\<close>

lemma goto_again [simp]: "goto t p (goto t q c) = goto t p c"
  by (simp add: goto_def)

lemma goto_upd [simp]:
  "(goto t p c)\<lparr>sv_told := ts\<rparr> = goto t p (c\<lparr>sv_told := ts\<rparr>)"
  "(goto t p c)\<lparr>sv_lock := l\<rparr> = goto t p (c\<lparr>sv_lock := l\<rparr>)"
  "(goto t p c)\<lparr>sv_val := v\<rparr> = goto t p (c\<lparr>sv_val := v\<rparr>)"
  by (simp_all add: goto_def)

lemma release_goto: "release (Inr g) (goto t p c) = goto t p (c\<lparr>sv_lock := fst g\<rparr>)"
  by (simp add: release_def)

definition calls :: "tid \<Rightarrow> nat \<Rightarrow> nat \<Rightarrow> 'v \<Rightarrow> 'v \<Rightarrow> (tid \<times> nat \<times> 'v \<times> 'v) list" where
  "calls t i n old v = map (\<lambda>j. (t, j, old, v)) [i..<n]"

lemma tells_steps:
  "sv_pc c t = Calling v i \<Longrightarrow> i \<le> n \<Longrightarrow>
    (set_step eq n)\<^sup>*\<^sup>* c (goto t (Calling v n) (c\<lparr>sv_told := sv_told c @ calls t i n (sv_val c) v\<rparr>))"
proof (induction "n - i" arbitrary: i c)
  case 0
  then have "goto t (Calling v n) c = c" by (simp add: goto_def fun_upd_idem)
  then show ?case using 0 by (simp add: calls_def)
next
  case (Suc d)
  let ?c = "goto t (Calling v (Suc i)) (c\<lparr>sv_told := sv_told c @ [(t, i, sv_val c, v)]\<rparr>)"
  have 1: "set_step eq n c ?c" using Suc.prems Suc.hyps(2) by (intro set_step.tell) simp_all
  have "(set_step eq n)\<^sup>*\<^sup>* ?c (goto t (Calling v n)
      (?c\<lparr>sv_told := sv_told ?c @ calls t (Suc i) n (sv_val ?c) v\<rparr>))"
    by (rule Suc.hyps(1)) (use Suc.prems Suc.hyps(2) in simp_all)
  moreover have "calls t i n (sv_val c) v = (t, i, sv_val c, v) # calls t (Suc i) n (sv_val c) v"
    using Suc.hyps(2) by (simp add: calls_def upt_conv_Cons)
  ultimately have "(set_step eq n)\<^sup>*\<^sup>* ?c
      (goto t (Calling v n) (c\<lparr>sv_told := sv_told c @ calls t i n (sv_val c) v\<rparr>))" by simp
  with 1 show ?case by (rule converse_rtranclp_into_rtranclp)
qed

text \<open>The lock as a thread that meets nobody finds it, has it and leaves it.\<close>

lemma free_read:
  "ReadScopedLock_new t RWMutex_new = Some (\<lparr>rw_readers = [t], rw_writer = None\<rparr>, True)"
  "ReadScopedLock_unlock t (\<lparr>rw_readers = [t], rw_writer = None\<rparr>, True) = Inr (RWMutex_new, False)"
  "WriteScopedLock_new t RWMutex_new = Some (\<lparr>rw_readers = [], rw_writer = Some t\<rparr>, True)"
  "WriteScopedLock_unlock t (\<lparr>rw_readers = [], rw_writer = Some t\<rparr>, True) = Inr (RWMutex_new, False)"
  by (simp_all add: ReadScopedLock_new_def ReadScopedLock_unlock_def WriteScopedLock_new_def
      WriteScopedLock_unlock_def RWMutex_rdlock_def RWMutex_wrlock_def RWMutex_unlock_def RWMutex_new_def)

lemma lock_restored:
  assumes "sv_lock c = l"
  shows "c\<lparr>sv_lock := l\<rparr> = c" "c\<lparr>sv_told := ts, sv_lock := l\<rparr> = c\<lparr>sv_told := ts\<rparr>"
    "c\<lparr>sv_val := v, sv_lock := l\<rparr> = c\<lparr>sv_val := v\<rparr>"
  using assms by (cases c, simp)+

lemma notify_steps:
  assumes "sv_lock c = RWMutex_new" and "sv_pc c t = Outside" and "\<not> eq v (sv_val c)"
  shows "(set_step eq n)\<^sup>*\<^sup>* c
    (goto t (Between v) (c\<lparr>sv_told := sv_told c @ calls t 0 n (sv_val c) v\<rparr>))"
proof -
  let ?l = "\<lparr>rw_readers = [t], rw_writer = None\<rparr>"
  let ?c = "c\<lparr>sv_lock := ?l\<rparr>" and ?ts = "sv_told c @ calls t 0 n (sv_val c) v"
  have "set_step eq n c (goto t (Comparing v) ?c)"
    using set_step.read [of c t "(?l, True)" eq n v] assms(1,2) free_read(1) by simp
  moreover have "set_step eq n (goto t (Comparing v) ?c) (goto t (Calling v 0) ?c)"
    using set_step.differs [of "goto t (Comparing v) ?c" t v eq n] assms(3) by simp
  moreover have "(set_step eq n)\<^sup>*\<^sup>* (goto t (Calling v 0) ?c)
      (goto t (Calling v n) (?c\<lparr>sv_told := ?ts\<rparr>))"
    using tells_steps [of "goto t (Calling v 0) ?c" t v 0 n eq] by simp
  moreover have "set_step eq n (goto t (Calling v n) (?c\<lparr>sv_told := ?ts\<rparr>))
      (goto t (Between v) (c\<lparr>sv_told := ?ts\<rparr>))"
    using set_step.told [of "goto t (Calling v n) (?c\<lparr>sv_told := ?ts\<rparr>)" t v n eq]
    by (simp add: free_read(2) release_goto lock_restored [OF assms(1)])
  ultimately show ?thesis by (meson converse_rtranclp_into_rtranclp rtranclp.rtrancl_into_rtrancl)
qed

lemma store_steps:
  assumes "sv_lock c = RWMutex_new" and "sv_pc c t = Between v"
  shows "(set_step eq n)\<^sup>*\<^sup>* c (goto t Outside (c\<lparr>sv_val := v\<rparr>))"
proof -
  let ?l = "\<lparr>rw_readers = [], rw_writer = Some t\<rparr>"
  let ?c = "c\<lparr>sv_lock := ?l\<rparr>"
  have "set_step eq n c (goto t (Storing v) ?c)"
    using set_step.swrite [of c t v "(?l, True)" eq n] assms free_read(3) by simp
  moreover have "set_step eq n (goto t (Storing v) ?c) (goto t Stored (?c\<lparr>sv_val := v\<rparr>))"
    using set_step.sstore [of "goto t (Storing v) ?c" t v eq n] by simp
  moreover have "set_step eq n (goto t Stored (?c\<lparr>sv_val := v\<rparr>)) (goto t Outside (c\<lparr>sv_val := v\<rparr>))"
    using set_step.finish [of "goto t Stored (?c\<lparr>sv_val := v\<rparr>)" t eq n]
    by (simp add: free_read(4) release_goto lock_restored [OF assms(1)])
  ultimately show ?thesis by (meson converse_rtranclp_into_rtranclp r_into_rtranclp)
qed

lemma equal_steps:
  assumes "sv_lock c = RWMutex_new" and "sv_pc c t = Outside" and "eq v (sv_val c)"
  shows "(set_step eq n)\<^sup>*\<^sup>* c (goto t Outside c)"
proof -
  let ?l = "\<lparr>rw_readers = [t], rw_writer = None\<rparr>"
  let ?c = "c\<lparr>sv_lock := ?l\<rparr>"
  have "set_step eq n c (goto t (Comparing v) ?c)"
    using set_step.read [of c t "(?l, True)" eq n v] assms(1,2) free_read(1) by simp
  moreover have "set_step eq n (goto t (Comparing v) ?c) (goto t Outside c)"
    using set_step.equal [of "goto t (Comparing v) ?c" t v eq n] assms(3)
    by (simp add: free_read(2) release_goto lock_restored [OF assms(1)])
  ultimately show ?thesis by (meson converse_rtranclp_into_rtranclp r_into_rtranclp)
qed

lemma free_lock:
  assumes "set_inv n c" and "\<forall>u. \<not> reading (sv_pc c u) \<and> \<not> writing (sv_pc c u)"
  shows "sv_lock c = RWMutex_new"
proof -
  have "lock_holders c = {}" using assms(2) by (simp add: lock_holders_def)
  then show ?thesis using assms(1)
    by (cases "sv_lock c") (auto simp: set_inv_def RWMutex_repr_def RWMutex_new_def split: option.splits)
qed

section \<open>Properties\<close>

text \<open>
  C22. However many threads set a variable at once, as long as every listener returns and none is
  added or removed meanwhile: no unlock goes wrong; the listeners that one
  call has told have all seen the same old value, in their order, and it is still the value of
  the variable; the thread that stores is alone; and while a thread is inside, telling listeners
  or storing, nobody can take the write lock, not even that thread itself, so that a listener
  that sets its own variable to something new waits for ever.
\<close>

theorem setValue_threads_safe:
  assumes "set_reach eq n v0 c"
  shows "sv_fault c = None \<and>
    (\<forall>t v i. sv_pc c t = Calling v i \<longrightarrow>
      (\<exists>xs. told_by t c = xs @ map (\<lambda>j. (j, sv_val c, v)) [0..<i]) \<and> i \<le> n) \<and>
    (\<forall>t u. writing (sv_pc c t) \<and> (reading (sv_pc c u) \<or> writing (sv_pc c u)) \<longrightarrow> u = t) \<and>
    (\<forall>t u. reading (sv_pc c t) \<or> writing (sv_pc c t) \<longrightarrow> WriteScopedLock_new u (sv_lock c) = None)"
proof -
  note inv = set_reach_inv [OF assms]
  have "RWMutex_wrlock u (sv_lock c) = None" if "reading (sv_pc c t) \<or> writing (sv_pc c t)" for t u
  proof -
    have "lock_holders c \<noteq> {}" using that holding by blast
    then show ?thesis using inv
      by (auto simp: set_inv_def RWMutex_repr_def RWMutex_wrlock_def split: option.splits)
  qed
  then show ?thesis
    using inv writer_alone [OF inv] by (auto simp: set_inv_def all_told_def WriteScopedLock_new_def)
qed

text \<open>
  A call of \<open>setValue\<close> that meets no other always comes to its end, as the sequential
  \<open>setValue\<close> does: a value equal to the old one changes nothing, another is told to every
  listener, in order and with the old value, and then stored.
\<close>

theorem setValue_alone:
  assumes "set_reach eq n v0 c" and "\<forall>u. sv_pc c u = Outside"
  shows "\<exists>c'. (set_step eq n)\<^sup>*\<^sup>* c c' \<and> (\<forall>u. sv_pc c' u = Outside) \<and>
    (if eq v (sv_val c) then sv_val c' = sv_val c \<and> sv_told c' = sv_told c
     else sv_val c' = v \<and> sv_told c' = sv_told c @ calls t 0 n (sv_val c) v)"
proof -
  have l: "sv_lock c = RWMutex_new"
    using free_lock [OF set_reach_inv [OF assms(1)]] assms(2) by (simp add: reading_def writing_def)
  show ?thesis
  proof (cases "eq v (sv_val c)")
    case True
    then show ?thesis using equal_steps [OF l, of t] assms(2)
      by (intro exI [of _ "goto t Outside c"]) simp
  next
    case False
    let ?c = "goto t (Between v) (c\<lparr>sv_told := sv_told c @ calls t 0 n (sv_val c) v\<rparr>)"
    have "(set_step eq n)\<^sup>*\<^sup>* c ?c" using notify_steps [of c t eq v n] l assms(2) False by simp
    moreover have "(set_step eq n)\<^sup>*\<^sup>* ?c (goto t Outside (?c\<lparr>sv_val := v\<rparr>))"
      by (rule store_steps) (simp_all add: l)
    ultimately have "(set_step eq n)\<^sup>*\<^sup>* c (goto t Outside (?c\<lparr>sv_val := v\<rparr>))" by simp
    then show ?thesis using assms(2) False
      by (intro exI [of _ "goto t Outside (?c\<lparr>sv_val := v\<rparr>)"]) simp
  qed
qed

text \<open>
  C30. Two threads can leave the listeners with a value that is not the one of the variable:
  nothing is held between the calls of the listeners and the store, so that the thread that told
  them first can store last. What follows the variable, as the loggers follow \<open>logs\<close>, then
  stays at \<open>v2\<close> while the variable is \<open>v1\<close>, although all calls have returned.
\<close>

theorem setValue_race:
  assumes "t \<noteq> u" and "\<not> eq v1 v0" and "\<not> eq v2 v0"
  shows "\<exists>c. set_reach eq n v0 c \<and> (\<forall>w. sv_pc c w = Outside) \<and> sv_val c = v1 \<and>
    sv_told c = calls t 0 n v0 v1 @ calls u 0 n v0 v2"
proof -
  let ?c0 = "shared_new v0"
  let ?c1 = "goto t (Between v1) (?c0\<lparr>sv_told := calls t 0 n v0 v1\<rparr>)"
  let ?c2 = "goto u (Between v2) (?c1\<lparr>sv_told := calls t 0 n v0 v1 @ calls u 0 n v0 v2\<rparr>)"
  let ?c3 = "goto u Outside (?c2\<lparr>sv_val := v2\<rparr>)"
  let ?c4 = "goto t Outside (?c3\<lparr>sv_val := v1\<rparr>)"
  have l: "sv_lock ?c0 = RWMutex_new" and p: "sv_pc ?c0 = (\<lambda>w. Outside)" and e: "sv_told ?c0 = []"
    and v: "sv_val ?c0 = v0" by (simp_all add: shared_new_def)
  have "(set_step eq n)\<^sup>*\<^sup>* ?c0 ?c1"
    using notify_steps [of ?c0 t eq v1 n] assms(2) l p e v by simp
  moreover have "(set_step eq n)\<^sup>*\<^sup>* ?c1 ?c2"
    using notify_steps [of ?c1 u eq v2 n] assms l p v by simp
  moreover have "(set_step eq n)\<^sup>*\<^sup>* ?c2 ?c3" by (rule store_steps) (simp_all add: l)
  moreover have "(set_step eq n)\<^sup>*\<^sup>* ?c3 ?c4" by (rule store_steps) (use assms(1) in \<open>simp_all add: l\<close>)
  ultimately have "set_reach eq n v0 ?c4" unfolding set_reach_def by (meson rtranclp_trans)
  then show ?thesis using assms(1) p by (intro exI [of _ ?c4]) simp
qed

section \<open>Instances\<close>

theorem setValue_threads_safe_witness:
  "\<exists>c. set_reach (=) 2 (0 :: nat) c \<and> sv_pc c 1 = Calling 5 0 \<and> sv_fault c = None \<and>
    WriteScopedLock_new 1 (sv_lock c) = None"
proof -
  let ?l = "\<lparr>rw_readers = [1], rw_writer = None\<rparr>"
  let ?c1 = "goto 1 (Comparing 5) ((shared_new (0 :: nat))\<lparr>sv_lock := ?l\<rparr>)"
  have "set_step (=) 2 (shared_new (0 :: nat)) ?c1"
    using set_step.read [of "shared_new 0" 1 "(?l, True)" "(=)" 2 5] free_read(1) [of 1]
    by (simp add: shared_new_def)
  moreover have "set_step (=) 2 ?c1 (goto 1 (Calling 5 0) ?c1)"
    using set_step.differs [of ?c1 1 5 "(=)" 2] by (simp add: shared_new_def)
  ultimately have r: "set_reach (=) 2 0 (goto 1 (Calling 5 0) ?c1)"
    unfolding set_reach_def by (meson converse_rtranclp_into_rtranclp r_into_rtranclp)
  have p: "sv_pc (goto 1 (Calling 5 0) ?c1) 1 = Calling 5 0" by simp
  have "reading (sv_pc (goto 1 (Calling 5 0) ?c1) 1)" unfolding p by (simp add: reading_def)
  with r p show ?thesis using setValue_threads_safe [OF r] by blast
qed

theorem setValue_alone_witness:
  "\<exists>c. (set_step (=) 2)\<^sup>*\<^sup>* (shared_new 0) c \<and> sv_val c = (3 :: nat) \<and>
    sv_told c = [(1, 0, 0, 3), (1, 1, 0, 3)]"
proof -
  have "set_reach (=) 2 0 (shared_new (0 :: nat))" by (simp add: set_reach_def)
  moreover have "calls 1 0 2 0 (3 :: nat) = [(1, 0, 0, 3), (1, 1, 0, 3)]" by code_simp
  moreover have "sv_told (shared_new (0 :: nat)) = []" "sv_val (shared_new (0 :: nat)) = 0"
    "\<forall>u. sv_pc (shared_new (0 :: nat)) u = Outside" by (simp_all add: shared_new_def)
  ultimately show ?thesis
    using setValue_alone [of "(=)" 2 0 "shared_new (0 :: nat)" 3 1] by auto
qed

theorem setValue_race_witness:
  "\<exists>c. set_reach (=) 1 (0 :: nat) c \<and> (\<forall>w. sv_pc c w = Outside) \<and> sv_val c = 1 \<and>
    sv_told c = [(1, 0, 0, 1), (2, 0, 0, 2)]"
  using setValue_race [of 1 2 "(=)" "1 :: nat" 0 2 1] by (simp add: calls_def)

end
