(* ===== verification/Systems.thy ===== *)
theory Systems
  imports Files
begin

text \<open>
  What is left of \<open>sylar/util.cpp\<close>: the clocks, the names in a backtrace and the check of a pid
  file. The functions of the C library that read text are written out; what the kernel and the
  C++ runtime answer (\<open>gettimeofday\<close>, \<open>backtrace_symbols\<close>, \<open>__cxa_demangle\<close>, \<open>kill\<close>) is given.
\<close>

section \<open>Clocks\<close>

record timeval =
  tv_sec :: int
  tv_usec :: int

definition GetCurrentMS :: "timeval \<Rightarrow> u64" where
  "GetCurrentMS tv = of_int (tv_sec tv) * 1000 + of_int (tv_usec tv div 1000)"

definition GetCurrentUS :: "timeval \<Rightarrow> u64" where
  "GetCurrentUS tv = of_int (tv_sec tv) * 1000 * 1000 + of_int (tv_usec tv)"

text \<open>
  Dates: \<open>strf\<close> is what \<open>localtime_r\<close> and \<open>strftime\<close> make of a format and a time. The buffer has 64
  characters, and what it holds when they are too few is not defined. \<open>strptime\<close> and \<open>mktime\<close> are
  given; a text that is no date is the time 0.
\<close>

definition Time2Str :: "(string \<Rightarrow> int \<Rightarrow> string) \<Rightarrow> int \<Rightarrow> string \<Rightarrow> string res" where
  "Time2Str strf ts format =
     (if length (strf format ts) < 64 then Inr (strf format ts) else Inl (Undefined ''buf''))"

definition Str2Time :: "(string \<Rightarrow> string \<Rightarrow> 'tm option) \<Rightarrow> ('tm \<Rightarrow> int) \<Rightarrow> string \<Rightarrow> string \<Rightarrow> int" where
  "Str2Time strptime mktime str format = (case strptime str format of None \<Rightarrow> 0 | Some t \<Rightarrow> mktime t)"

text \<open>A time that is printed in a short format is read back, where the library reads what it prints.\<close>

lemma Time2Str_Str2Time:
  assumes "strptime (strf format ts) format = Some t" and "mktime t = ts"
    and "Time2Str strf ts format = Inr str"
  shows "Str2Time strptime mktime str format = ts"
  using assms by (auto simp: Time2Str_def Str2Time_def split: if_splits)

text \<open>A time as the kernel gives it, in the range in which the clocks do not wrap around.\<close>

definition tv_ok :: "timeval \<Rightarrow> bool" where
  "tv_ok tv = (0 \<le> tv_sec tv \<and> tv_sec tv < 2 ^ 43 \<and> 0 \<le> tv_usec tv \<and> tv_usec tv < 1000000)"

lemma uint_small: "0 \<le> i \<Longrightarrow> i < 2 ^ 64 \<Longrightarrow> uint (of_int i :: u64) = i"
  by (simp add: uint_word_of_int)

lemma clock_values:
  assumes "tv_ok tv"
  shows "uint (GetCurrentMS tv) = tv_sec tv * 1000 + tv_usec tv div 1000"
    and "uint (GetCurrentUS tv) = tv_sec tv * 1000000 + tv_usec tv"
proof -
  have r: "0 \<le> tv_sec tv" "tv_sec tv < 8796093022208" "0 \<le> tv_usec tv" "tv_usec tv < 1000000"
    using assms by (simp_all add: tv_ok_def)
  have "GetCurrentMS tv = of_int (tv_sec tv * 1000 + tv_usec tv div 1000)"
    by (simp add: GetCurrentMS_def)
  moreover have "0 \<le> tv_sec tv * 1000 + tv_usec tv div 1000"
    "tv_sec tv * 1000 + tv_usec tv div 1000 < 2 ^ 64" using r by auto
  ultimately show "uint (GetCurrentMS tv) = tv_sec tv * 1000 + tv_usec tv div 1000"
    using uint_small by metis
  have "GetCurrentUS tv = of_int (tv_sec tv * 1000000 + tv_usec tv)" by (simp add: GetCurrentUS_def)
  moreover have "0 \<le> tv_sec tv * 1000000 + tv_usec tv" "tv_sec tv * 1000000 + tv_usec tv < 2 ^ 64"
    using r by auto
  ultimately show "uint (GetCurrentUS tv) = tv_sec tv * 1000000 + tv_usec tv" using uint_small by metis
qed

section \<open>Scanning\<close>

text \<open>\<open>%n[...]\<close> of \<open>sscanf\<close>: at least one character, at most \<open>n\<close>; what is read and what is left.\<close>

definition scan_class :: "(char \<Rightarrow> bool) \<Rightarrow> nat option \<Rightarrow> string \<Rightarrow> (string \<times> string) option" where
  "scan_class P n s = (let w = takeWhile P (case n of None \<Rightarrow> s | Some k \<Rightarrow> take k s)
     in if w = [] then None else Some (w, drop (length w) s))"

definition isspace :: "char \<Rightarrow> bool" where
  "isspace c = (c \<in> set [CHR '' '', CHR 0x09, CHR 0x0A, CHR 0x0B, CHR 0x0C, CHR 0x0D])"

text \<open>What \<open>sscanf\<close> writes to a buffer: the characters and a null, over what was there.\<close>

definition put_word :: "string \<Rightarrow> string \<Rightarrow> string" where
  "put_word w buf = w @ CHR 0x00 # drop (length w + 1) buf"

text \<open>The format \<open>%*[^(]%*[^_]%255[^)+]\<close>: the text from the first underscore after the bracket.\<close>

definition scan_symbol :: "string \<Rightarrow> string option" where
  "scan_symbol s = (case scan_class (\<lambda>c. c \<noteq> CHR ''('') None s of None \<Rightarrow> None
     | Some (_, s1) \<Rightarrow> (case scan_class (\<lambda>c. c \<noteq> CHR ''_'') None s1 of None \<Rightarrow> None
       | Some (_, s2) \<Rightarrow> map_option fst (scan_class (\<lambda>c. c \<noteq> CHR '')'' \<and> c \<noteq> CHR ''+'') (Some 255) s2)))"

text \<open>The format \<open>%255s\<close>.\<close>

definition scan_word :: "string \<Rightarrow> string option" where
  "scan_word s = map_option fst (scan_class (Not \<circ> isspace) (Some 255) (dropWhile isspace s))"

section \<open>Backtraces\<close>

definition demangle :: "(string \<Rightarrow> string option) \<Rightarrow> string \<Rightarrow> string" where
  "demangle cxa str =
     (let s = cstr str; rt = replicate 256 (CHR 0x00);
          sym = scan_symbol s;
          rt1 = (case sym of None \<Rightarrow> rt | Some w \<Rightarrow> put_word w rt)
      in case (if sym = None then None else cxa (cstr rt1)) of Some v \<Rightarrow> v
       | None \<Rightarrow> (case scan_word s of Some w \<Rightarrow> put_word w rt1 | None \<Rightarrow> s))"

text \<open>\<open>symbols\<close> is the result of \<open>backtrace_symbols\<close>; \<open>skip\<close> becomes a \<open>size_t\<close>.\<close>

definition Backtrace :: "(string \<Rightarrow> string option) \<Rightarrow> string list option \<Rightarrow> int \<Rightarrow> string list \<Rightarrow> string list" where
  "Backtrace cxa symbols skip bt = (case symbols of None \<Rightarrow> bt
     | Some ss \<Rightarrow> bt @ (if skip < 0 then [] else map (demangle cxa) (drop (nat skip) ss)))"

definition BacktraceToString :: "(string \<Rightarrow> string option) \<Rightarrow> string list option \<Rightarrow> int \<Rightarrow> string \<Rightarrow> string" where
  "BacktraceToString cxa symbols skip prefix =
     concat (map (\<lambda>l. prefix @ l @ [CHR 0x0A]) (Backtrace cxa symbols skip []))"

lemma takeWhile_stop: "\<forall>c \<in> set xs. P c \<Longrightarrow> \<not> P y \<Longrightarrow> takeWhile P (xs @ y # ys) = xs"
  by (induction xs) simp_all

lemma scan_class_stop:
  assumes "xs \<noteq> []" and "\<forall>c \<in> set xs. P c" and "\<not> P y"
  shows "scan_class P None (xs @ y # ys) = Some (xs, y # ys)"
    and "length xs < k \<Longrightarrow> scan_class P (Some k) (xs @ y # ys) = Some (xs, y # ys)"
proof -
  have "takeWhile P (take k (xs @ y # ys)) = xs" if "length xs < k"
  proof -
    have "k - length xs = Suc (k - length xs - 1)" using that by simp
    then obtain j where "k - length xs = Suc j" by blast
    then show ?thesis using assms(2,3) that by (simp add: takeWhile_stop)
  qed
  then show "scan_class P None (xs @ y # ys) = Some (xs, y # ys)"
    "length xs < k \<Longrightarrow> scan_class P (Some k) (xs @ y # ys) = Some (xs, y # ys)"
    using assms by (simp_all add: scan_class_def takeWhile_stop)
qed

lemma scan_symbol_ok:
  assumes f: "file \<noteq> []" "CHR ''('' \<notin> set file" and n: "CHR '')'' \<notin> set name" "CHR ''+'' \<notin> set name"
    and l: "length name < 254" and e: "c = CHR '')'' \<or> c = CHR ''+''"
  shows "scan_symbol (file @ ''(_'' @ name @ c # rest) = Some (CHR ''_'' # name)"
proof -
  have "scan_class (\<lambda>c. c \<noteq> CHR ''('') None (file @ CHR ''('' # CHR ''_'' # name @ c # rest) =
      Some (file, CHR ''('' # CHR ''_'' # name @ c # rest)"
    using f by (intro scan_class_stop(1)) auto
  moreover have "scan_class (\<lambda>c. c \<noteq> CHR ''_'') None ([CHR ''(''] @ CHR ''_'' # name @ c # rest) =
      Some ([CHR ''(''], CHR ''_'' # name @ c # rest)"
    by (intro scan_class_stop(1)) auto
  moreover have "scan_class (\<lambda>c. c \<noteq> CHR '')'' \<and> c \<noteq> CHR ''+'') (Some 255) ((CHR ''_'' # name) @ c # rest) =
      Some (CHR ''_'' # name, c # rest)"
    using n l e by (intro scan_class_stop(2)) auto
  ultimately show ?thesis by (simp add: scan_symbol_def)
qed

lemma scan_word_length: "scan_word s = Some w \<Longrightarrow> length w \<le> 255"
proof -
  have "length (takeWhile P (take 255 xs)) \<le> 255" for P and xs :: string
    using length_takeWhile_le [of P "take 255 xs"] by simp
  then show "scan_word s = Some w \<Longrightarrow> length w \<le> 255"
    by (auto simp: scan_word_def scan_class_def Let_def split: if_splits)
qed

lemma scan_symbol_length: "scan_symbol s = Some w \<Longrightarrow> length w \<le> 255"
proof -
  have "length (takeWhile P (take 255 xs)) \<le> 255" for P and xs :: string
    using length_takeWhile_le [of P "take 255 xs"] by simp
  then show "scan_symbol s = Some w \<Longrightarrow> length w \<le> 255"
    by (auto simp: scan_symbol_def scan_class_def Let_def split: if_splits option.splits)
qed

lemma scan_class_set:
  assumes "scan_class P k xs = Some (w, r)"
  shows "set w \<subseteq> set xs \<and> set r \<subseteq> set xs"
proof -
  have "w = takeWhile P (case k of None \<Rightarrow> xs | Some k \<Rightarrow> take k xs)" "r = drop (length w) xs"
    using assms by (auto simp: scan_class_def Let_def split: if_splits)
  moreover have "set (takeWhile P (case k of None \<Rightarrow> xs | Some k \<Rightarrow> take k xs)) \<subseteq> set xs"
    by (auto split: option.splits dest!: set_takeWhileD in_set_takeD)
  ultimately show ?thesis by (auto dest: in_set_dropD)
qed

lemma scan_symbol_set: "scan_symbol s = Some w \<Longrightarrow> set w \<subseteq> set s"
  by (auto simp: scan_symbol_def split: option.splits dest!: scan_class_set) blast

lemma scan_word_set: "scan_word s = Some w \<Longrightarrow> set w \<subseteq> set s"
  using set_dropWhileD [of _ isspace s] by (auto simp: scan_word_def dest!: scan_class_set)

lemma put_word_length: "length w \<le> 255 \<Longrightarrow> length buf = 256 \<Longrightarrow> length (put_word w buf) = 256"
  by (simp add: put_word_def)

lemma cstr_put: "CHR 0x00 \<notin> set w \<Longrightarrow> cstr (put_word w buf) = w"
  unfolding cstr_def put_word_def by (rule takeWhile_stop) auto

section \<open>Pid files\<close>

definition digit :: "char \<Rightarrow> bool" where
  "digit c = (48 \<le> (of_char c :: nat) \<and> (of_char c :: nat) \<le> 57)"

definition digits_value :: "string \<Rightarrow> nat" where
  "digits_value ds = foldl (\<lambda>n c. 10 * n + (of_char c - 48)) 0 ds"

text \<open>The language leaves \<open>atoi\<close> undefined where the number is not an \<open>int\<close>.\<close>

definition atoi :: "string \<Rightarrow> int res" where
  "atoi str =
     (let s = dropWhile isspace (cstr str);
          (neg, s1) = (case s of [] \<Rightarrow> (False, s)
            | c # cs \<Rightarrow> if c = CHR ''-'' then (True, cs) else if c = CHR ''+'' then (False, cs) else (False, s));
          n = int (digits_value (takeWhile digit s1));
          i = (if neg then - n else n)
      in if - (2 ^ 31) \<le> i \<and> i < 2 ^ 31 then Inr i else Inl (Undefined ''atoi''))"

text \<open>\<open>line\<close> is the first line of a file, if it can be read; \<open>kill pid\<close> is \<open>kill(pid, 0) == 0\<close>.\<close>

definition IsRunningPidfile ::
    "('fs, 'm) os \<Rightarrow> 'fs \<Rightarrow> (string \<Rightarrow> string option) \<Rightarrow> (int \<Rightarrow> bool) \<Rightarrow> string \<Rightarrow> bool res" where
  "IsRunningPidfile sys fs line kill pidfile =
     (case os_lstat sys fs pidfile of None \<Rightarrow> Inr False
      | Some _ \<Rightarrow> (case line pidfile of None \<Rightarrow> Inr False
        | Some l \<Rightarrow> if l = [] then Inr False
            else bindR (atoi l) (\<lambda>pid. Inr (if pid \<le> 1 then False else kill pid))))"

lemma digit_char: "d < 10 \<Longrightarrow> digit (char_of (48 + d)) \<and> (of_char (char_of (48 + d) :: char) :: nat) = 48 + d"
  by (simp add: digit_def)

lemma digits_value_snoc: "digits_value (ds @ [c]) = 10 * digits_value ds + (of_char c - 48)"
  by (simp add: digits_value_def)

lemma to_string_digits: "list_all digit (to_string n) \<and> digits_value (to_string n) = n \<and> to_string n \<noteq> []"
proof (induction n rule: to_string.induct)
  case (1 n)
  show ?case
  proof (cases "n < 10")
    case True
    then have "to_string n = [char_of (48 + n)]" by (subst to_string.simps) simp
    then show ?thesis using digit_char [OF True] by (simp add: digits_value_def)
  next
    case False
    then have "to_string n = to_string (n div 10) @ [char_of (48 + n mod 10)]"
      by (subst to_string.simps) simp
    then show ?thesis using 1 [OF False] digit_char [of "n mod 10"] by (simp add: digits_value_snoc)
  qed
qed

lemma digit_plain:
  assumes "digit c"
  shows "\<not> isspace c" and "c \<noteq> CHR 0x00" and "c \<noteq> CHR ''-''" and "c \<noteq> CHR ''+''"
  using assms by (auto simp: digit_def isspace_def)

lemma atoi_to_string:
  assumes "n < 2 ^ 31"
  shows "atoi (to_string n) = Inr (int n)"
proof -
  note d = to_string_digits [of n]
  obtain c cs where c: "to_string n = c # cs" using d by (cases "to_string n") auto
  have dc: "digit c" using d c by simp
  have "cstr (to_string n) = to_string n"
    unfolding cstr_def takeWhile_eq_all_conv using d digit_plain(2) by (auto simp: list_all_iff)
  moreover have "takeWhile digit (to_string n) = to_string n"
    using d by (simp add: takeWhile_eq_all_conv list_all_iff)
  moreover have tw: "takeWhile digit cs = cs" using d c by (simp add: takeWhile_eq_all_conv list_all_iff)
  ultimately show ?thesis
    using d digit_plain [OF dc] dc assms by (simp add: atoi_def c Let_def tw)
qed

section \<open>Properties\<close>

text \<open>
  The name of a frame: from \<open>file(_name+offset)\<close> the symbol is cut out and demangled. Where
  that fails, and for every line that has no symbol, the result is the first word of the line in
  a string of 256 characters, filled up with null characters and with what the attempt has left
  behind.
\<close>

theorem demangle_exact:
  assumes "CHR 0x00 \<notin> set str"
  shows "(\<forall>file name c rest. str = file @ ''(_'' @ name @ c # rest \<and> file \<noteq> [] \<and> CHR ''('' \<notin> set file \<and>
      CHR '')'' \<notin> set name \<and> CHR ''+'' \<notin> set name \<and> length name < 254 \<and> (c = CHR '')'' \<or> c = CHR ''+'') \<longrightarrow>
      (\<forall>v. cxa (CHR ''_'' # name) = Some v \<longrightarrow> demangle cxa str = v)) \<and>
    (\<forall>w. scan_word str = Some w \<and> (\<forall>sym. scan_symbol str = Some sym \<longrightarrow> cxa sym = None) \<longrightarrow>
      length (demangle cxa str) = 256 \<and> cstr (demangle cxa str) = w)"
proof -
  have s: "cstr str = str" using assms by (auto simp: cstr_def takeWhile_eq_all_conv)
  have sym0: "CHR 0x00 \<notin> set w" if "scan_symbol str = Some w" for w
    using assms scan_symbol_set [OF that] by blast
  have word0: "CHR 0x00 \<notin> set w" if "scan_word str = Some w" for w
    using assms scan_word_set [OF that] by blast
  have 1: "demangle cxa str = v" if "scan_symbol str = Some w" "cxa w = Some v" for w v
    using that cstr_put [OF sym0 [OF that(1)]] by (simp add: demangle_def s Let_def)
  have 2: "length (demangle cxa str) = 256 \<and> cstr (demangle cxa str) = w"
    if w: "scan_word str = Some w" and n: "\<forall>sym. scan_symbol str = Some sym \<longrightarrow> cxa sym = None" for w
  proof -
    let ?rt = "case scan_symbol str of None \<Rightarrow> replicate 256 (CHR 0x00) | Some w \<Rightarrow> put_word w (replicate 256 (CHR 0x00))"
    have "length ?rt = 256" using scan_symbol_length put_word_length by (auto split: option.split)
    moreover have "demangle cxa str = put_word w ?rt"
      using w n cstr_put [OF sym0] by (cases "scan_symbol str") (simp_all add: demangle_def s Let_def)
    ultimately show ?thesis
      using put_word_length [OF scan_word_length [OF w]] cstr_put [OF word0 [OF w]] by simp
  qed
  show ?thesis using 1 2 scan_symbol_ok by blast
qed

text \<open>
  A pid file that holds the number of a process, as \<open>std::to_string\<close> writes it, is a running
  one exactly when the process can be signalled.
\<close>

theorem pidfile_roundtrip:
  assumes "os_lstat sys fs pidfile \<noteq> None" and "line pidfile = Some (to_string n)"
    and "1 < n" and "n < 2 ^ 31"
  shows "IsRunningPidfile sys fs line kill pidfile = Inr (kill (int n))"
  using assms to_string_digits [of n] atoi_to_string [OF assms(4)]
  by (auto simp: IsRunningPidfile_def)

text \<open>
  The two clocks agree and do not go back when the time does not: the microseconds of a
  time, divided by 1000, are its milliseconds.
\<close>

theorem clocks_agree:
  assumes "tv_ok tv" and "tv_ok tv'"
    and "tv_sec tv < tv_sec tv' \<or> tv_sec tv = tv_sec tv' \<and> tv_usec tv \<le> tv_usec tv'"
  shows "unat (GetCurrentUS tv) div 1000 = unat (GetCurrentMS tv) \<and>
    GetCurrentMS tv \<le> GetCurrentMS tv' \<and> GetCurrentUS tv \<le> GetCurrentUS tv'"
proof -
  have r: "tv_usec tv < 1000000" "0 \<le> tv_usec tv'" using assms by (simp_all add: tv_ok_def)
  have "uint (GetCurrentUS tv) div 1000 = uint (GetCurrentMS tv)"
    using clock_values [OF assms(1)] by simp
  then have "int (unat (GetCurrentUS tv) div 1000) = int (unat (GetCurrentMS tv))" by (simp add: zdiv_int)
  then have "unat (GetCurrentUS tv) div 1000 = unat (GetCurrentMS tv)" by (simp only: of_nat_eq_iff)
  moreover have "tv_sec tv * 1000000 + tv_usec tv \<le> tv_sec tv' * 1000000 + tv_usec tv'"
    using assms(3) r by auto
  moreover have "tv_sec tv * 1000 + tv_usec tv div 1000 \<le> tv_sec tv' * 1000 + tv_usec tv' div 1000"
    using assms(3) r by (auto intro: zdiv_mono1)
  ultimately show ?thesis
    using clock_values [OF assms(1)] clock_values [OF assms(2)] by (simp add: word_le_def)
qed

section \<open>Instances\<close>

theorem demangle_exact_witness:
  "demangle (\<lambda>s. if s = ''_ZN3fooEv'' then Some ''foo()'' else None) ''./a.out(_ZN3fooEv+0x1a) [0x4]'' = ''foo()'' \<and>
    length (demangle (\<lambda>s. None) ''./a.out [0x4]'') = 256"
proof -
  let ?cxa = "\<lambda>s. if s = ''_ZN3fooEv'' then Some ''foo()'' else None"
  let ?str = "''./a.out(_ZN3fooEv+0x1a) [0x4]''"
  have n: "CHR 0x00 \<notin> set ?str" by simp
  have "demangle ?cxa ?str = ''foo()''"
    by (rule demangle_exact [OF n, THEN conjunct1, THEN spec [of _ "''./a.out''"], THEN spec [of _ "''ZN3fooEv''"],
          THEN spec [of _ "CHR ''+''"], THEN spec [of _ "''0x1a) [0x4]''"], THEN mp, THEN spec, THEN mp]) simp_all
  moreover have "scan_word ''./a.out [0x4]'' = Some ''./a.out''" by code_simp
  then have "length (demangle (\<lambda>s. None) ''./a.out [0x4]'') = 256"
    using demangle_exact [of "''./a.out [0x4]''" "\<lambda>s. None"] by simp
  ultimately show ?thesis by simp
qed

theorem clocks_agree_witness:
  "unat (GetCurrentUS \<lparr>tv_sec = 3, tv_usec = 4999\<rparr>) div 1000 = unat (GetCurrentMS \<lparr>tv_sec = 3, tv_usec = 4999\<rparr>) \<and>
    GetCurrentMS \<lparr>tv_sec = 3, tv_usec = 4999\<rparr> \<le> GetCurrentMS \<lparr>tv_sec = 4, tv_usec = 0\<rparr>"
  using clocks_agree [of "\<lparr>tv_sec = 3, tv_usec = 4999\<rparr>" "\<lparr>tv_sec = 4, tv_usec = 0\<rparr>"]
  by (simp add: tv_ok_def)

theorem pidfile_roundtrip_witness:
  "IsRunningPidfile tree_os [(''/a.pid'', 0x81A4)] (\<lambda>p. Some ''42'') (\<lambda>pid. pid = 42) ''/a.pid'' = Inr True"
proof -
  have n: "to_string 42 = ''42''" by code_simp
  have l: "os_lstat tree_os [(''/a.pid'', 0x81A4)] ''/a.pid'' \<noteq> None" by (simp add: tree_os_def)
  show ?thesis
    using pidfile_roundtrip [where kill = "\<lambda>pid. pid = 42" and line = "\<lambda>p. Some ''42''", OF l n [THEN arg_cong, symmetric]]
    by simp
qed

end
