(* ===== verification/Singletons.thy ===== *)
theory Singletons
  imports LogFormats Locks
begin

text \<open>
  Objects that exist once: the singletons of \<open>sylar/singleton.h\<close> (and \<open>LoggerManager::GetInstance\<close>
  of \<open>sylar/log.cpp\<close>), which are static variables inside functions, and the map of the object
  factory of \<open>sylar/factory.h\<close>, which is filled before \<open>main\<close>.
\<close>

section \<open>Static variables inside functions\<close>

text \<open>
  A variable is initialised by the first thread that comes to it, and threads that come meanwhile
  wait; one whose initialisation throws is initialised by a later call. Coming to it again from its
  own initialisation is undefined.
\<close>

datatype static_var = Unset | Building tid | Built ptr

text \<open>Each function template has one variable for every instance, told apart by its arguments.\<close>

datatype getter = Singleton_GetInstance | SingletonPtr_GetInstance | LoggerManager_GetInstance

record instance_key =
  ik_getter :: getter
  ik_type :: string
  ik_tag :: string
  ik_index :: int

record statics =
  sv_vars :: "instance_key \<Rightarrow> static_var"
  sv_next :: ptr
  sv_made :: "(instance_key \<times> ptr) list"
  sv_got :: "(tid \<times> instance_key \<times> ptr) list"

definition statics_new :: statics where
  "statics_new = \<lparr>sv_vars = (\<lambda>_. Unset), sv_next = 0, sv_made = [], sv_got = []\<rparr>"

text \<open>A call: it returns a pointer, begins to make the object, or waits (\<open>None\<close>).\<close>

definition GetInstance_enter :: "tid \<Rightarrow> instance_key \<Rightarrow> statics \<Rightarrow> (ptr option \<times> statics) res option" where
  "GetInstance_enter t k s = (case sv_vars s k of
     Unset \<Rightarrow> Some (Inr (None, s\<lparr>sv_vars := (sv_vars s)(k := Building t)\<rparr>))
   | Building u \<Rightarrow> if u = t then Some (Inl (Undefined ''static v'')) else None
   | Built p \<Rightarrow> Some (Inr (Some p, s\<lparr>sv_got := sv_got s @ [(t, k, p)]\<rparr>)))"

text \<open>The constructor of the object has returned, or has thrown.\<close>

definition GetInstance_made :: "tid \<Rightarrow> instance_key \<Rightarrow> statics \<Rightarrow> statics" where
  "GetInstance_made t k s = s\<lparr>sv_vars := (sv_vars s)(k := Built (sv_next s)), sv_next := Suc (sv_next s),
     sv_made := sv_made s @ [(k, sv_next s)], sv_got := sv_got s @ [(t, k, sv_next s)]\<rparr>"

definition GetInstance_threw :: "instance_key \<Rightarrow> statics \<Rightarrow> statics" where
  "GetInstance_threw k s = s\<lparr>sv_vars := (sv_vars s)(k := Unset)\<rparr>"

inductive statics_reach :: "statics \<Rightarrow> bool" where
  statics_start: "statics_reach statics_new"
| statics_enter: "statics_reach s \<Longrightarrow> GetInstance_enter t k s = Some (Inr (p, s')) \<Longrightarrow> statics_reach s'"
| statics_made: "statics_reach s \<Longrightarrow> sv_vars s k = Building t \<Longrightarrow> statics_reach (GetInstance_made t k s)"
| statics_threw: "statics_reach s \<Longrightarrow> sv_vars s k = Building t \<Longrightarrow> statics_reach (GetInstance_threw k s)"

definition statics_inv :: "statics \<Rightarrow> bool" where
  "statics_inv s = ((\<forall>k p. sv_vars s k = Built p \<longleftrightarrow> (k, p) \<in> set (sv_made s)) \<and>
     distinct (map fst (sv_made s)) \<and> distinct (map snd (sv_made s)) \<and>
     (\<forall>k p. (k, p) \<in> set (sv_made s) \<longrightarrow> p < sv_next s) \<and>
     (\<forall>t k p. (t, k, p) \<in> set (sv_got s) \<longrightarrow> (k, p) \<in> set (sv_made s)))"

lemma statics_unset:
  assumes "statics_inv s" and "\<forall>p. sv_vars s k \<noteq> Built p"
  shows "k \<notin> fst ` set (sv_made s)"
  using assms by (auto simp: statics_inv_def)

lemma statics_keeps:
  assumes "statics_inv s" and "\<forall>p. sv_vars s k \<noteq> Built p" and "\<forall>p. v \<noteq> Built p"
  shows "statics_inv (s\<lparr>sv_vars := (sv_vars s)(k := v)\<rparr>)"
  using assms by (auto simp: statics_inv_def)

lemma statics_reach_inv: "statics_reach s \<Longrightarrow> statics_inv s"
proof (induction rule: statics_reach.induct)
  case statics_start
  show ?case by (simp add: statics_inv_def statics_new_def)
next
  case (statics_enter s t k p s')
  show ?case
  proof (cases "sv_vars s k")
    case (Built q)
    then show ?thesis using statics_enter by (auto simp: GetInstance_enter_def statics_inv_def)
  qed (use statics_enter statics_keeps [OF statics_enter.IH, of k] in
      \<open>auto simp: GetInstance_enter_def split: if_splits\<close>)
next
  case (statics_made s k t)
  have "k \<notin> fst ` set (sv_made s)" by (rule statics_unset [OF statics_made.IH]) (simp add: statics_made(2))
  moreover have i: "\<And>k p. (sv_vars s k = Built p) = ((k, p) \<in> set (sv_made s))" "distinct (map fst (sv_made s))"
    "distinct (map snd (sv_made s))" "\<And>k p. (k, p) \<in> set (sv_made s) \<Longrightarrow> p < sv_next s"
    "\<And>t k p. (t, k, p) \<in> set (sv_got s) \<Longrightarrow> (k, p) \<in> set (sv_made s)"
    using statics_made.IH unfolding statics_inv_def by blast+
  have "sv_next s \<notin> snd ` set (sv_made s)" using i(4) by fastforce
  ultimately show ?case
    unfolding statics_inv_def GetInstance_made_def using i(1-3)
    by (intro conjI allI impI) (auto simp: image_iff dest: i(4,5) intro: less_SucI)
next
  case (statics_threw s k t)
  then show ?case using statics_keeps [of s k Unset] by (simp add: GetInstance_threw_def)
qed

text \<open>
  However threads interleave, an object is made at most once for its type, tag and index, every call
  returns that one object, and different instances are different objects.
\<close>

theorem instance_unique:
  assumes "statics_reach s" and "(t, k, p) \<in> set (sv_got s)" and "(u, l, q) \<in> set (sv_got s)"
  shows "(p = q \<longleftrightarrow> k = l) \<and> length (filter (\<lambda>x. fst x = k) (sv_made s)) = 1"
proof -
  have inv: "statics_inv s" by (rule statics_reach_inv [OF assms(1)])
  then have m: "(k, p) \<in> set (sv_made s)" "(l, q) \<in> set (sv_made s)" "distinct (map fst (sv_made s))"
    "distinct (map snd (sv_made s))" using assms(2,3) by (auto simp: statics_inv_def)
  have "p = q \<longleftrightarrow> k = l"
    using m by (metis eq_key_imp_eq_value distinct_map inj_on_def prod.inject snd_conv)
  moreover have "length (filter (\<lambda>x. fst x = k) xs) = 1"
    if "(k, p) \<in> set xs" "distinct (map fst xs)" for xs :: "(instance_key \<times> ptr) list"
    using that
  proof (induction xs)
    case (Cons x xs)
    have "filter (\<lambda>x. fst x = k) ys = []" if "k \<notin> fst ` set ys" for ys :: "(instance_key \<times> ptr) list"
      using that by (induction ys) auto
    then show ?case using Cons by (cases "fst x = k") (auto simp: rev_image_eqI)
  qed simp
  ultimately show ?thesis using m(1,3) by blast
qed

section \<open>The object factory\<close>

type_synonym registry = "string \<rightharpoonup> (string \<Rightarrow> fmt_item)"

definition regCreateObjFunc :: "string \<Rightarrow> (string \<Rightarrow> fmt_item) \<Rightarrow> registry \<Rightarrow> registry" where
  "regCreateObjFunc className func m = m(className \<mapsto> func)"

text \<open>The static objects that \<open>CLASS_STRING_REGISTER\<close> declares, in the order of \<open>log.cpp\<close>.\<close>

definition register_all :: "(string \<times> (string \<Rightarrow> fmt_item)) list \<Rightarrow> registry" where
  "register_all cs = fold (\<lambda>(n, f). regCreateObjFunc n f) cs Map.empty"

definition CreateObj_in :: "registry \<Rightarrow> string \<Rightarrow> string \<Rightarrow> fmt_item option" where
  "CreateObj_in m className arg = map_option (\<lambda>c. c arg) (m className)"

text \<open>A formatter made while the registry is \<open>m\<close>.\<close>

primrec mk_items_in :: "registry \<Rightarrow> entry list \<Rightarrow> fmt_item list \<times> bool" where
  "mk_items_in m [] = ([], False)"
| "mk_items_in m (x # xs) = (case x of (str, fmt, t) \<Rightarrow> case mk_items_in m xs of (is, e) \<Rightarrow>
     if t = 0 then (Str str # is, e)
     else (case CreateObj_in m str fmt of
         Some it \<Rightarrow> (it # is, e)
       | None \<Rightarrow> (Str (''<<error_format %'' @ str @ ''>>'') # is, True)))"

definition LogFormatter_in :: "registry \<Rightarrow> string \<Rightarrow> formatter" where
  "LogFormatter_in m pattern = (case init_loop pattern 0 [] [] False of (vec, err) \<Rightarrow>
     case mk_items_in m vec of (is, e) \<Rightarrow>
       \<lparr>lf_pattern = pattern, lf_items = is, lf_error = (err \<or> e)\<rparr>)"

lemma register_all_map:
  assumes "distinct (map fst cs)"
  shows "register_all cs = map_of cs"
proof -
  have "fold (\<lambda>(n, f). regCreateObjFunc n f) cs m = m ++ map_of cs"
    if "distinct (map fst cs)" for m :: registry
    using that
  proof (induction cs arbitrary: m)
    case (Cons c cs)
    then have "map_of cs (fst c) = None" by (simp add: map_of_eq_None_iff)
    then show ?case using Cons
      by (cases c) (auto simp: regCreateObjFunc_def map_add_def fun_eq_iff split: option.split)
  qed simp
  from this [OF assms, of Map.empty] show ?thesis by (simp add: register_all_def)
qed

text \<open>Once every class is registered, formatters are those of \<open>LogFormats\<close>.\<close>

lemma LogFormatter_registered: "LogFormatter_in (register_all format_classes) = LogFormatter"
proof -
  have "distinct (map fst format_classes)" by (simp add: format_classes_def)
  from register_all_map [OF this]
  have "mk_items_in (register_all format_classes) xs = mk_items xs" for xs
    by (induction xs) (auto simp: CreateObj_in_def CreateObj_def split: prod.splits option.splits)
  then show ?thesis by (simp add: fun_eq_iff LogFormatter_in_def LogFormatter_def)
qed

text \<open>
  A formatter made before, as by a static logger of a file whose statics come first, has no
  directive: every item is a literal text and the pattern counts as erroneous.
\<close>

theorem early_formatter:
  assumes "init_loop pattern 0 [] [] False = (vec, err)"
  shows "lf_items (LogFormatter_in Map.empty pattern) =
      map (\<lambda>(str, fmt, t). Str (if t = 0 then str else ''<<error_format %'' @ str @ ''>>'')) vec \<and>
    lf_error (LogFormatter_in Map.empty pattern) = (err \<or> (\<exists>x \<in> set vec. snd (snd x) \<noteq> 0))"
proof -
  have "mk_items_in Map.empty xs =
      (map (\<lambda>(str, fmt, t). Str (if t = 0 then str else ''<<error_format %'' @ str @ ''>>'')) xs,
       \<exists>x \<in> set xs. snd (snd x) \<noteq> 0)" for xs
    by (induction xs) (auto simp: CreateObj_in_def split: prod.splits)
  then show ?thesis using assms by (simp add: LogFormatter_in_def)
qed

lemma early_default_pattern:
  "hd (lf_items (LogFormatter_in Map.empty default_pattern)) = Str ''<<error_format %d>>'' \<and>
    lf_error (LogFormatter_in Map.empty default_pattern)"
  by code_simp

end
