(* ===== verification/Spec2Isabelle.thy ===== *)
theory Spec2Isabelle
  imports Restarts Destructions Startups Deliveries TimerThreads LogDumps LogLines LogShuffles FileLogs ConfDirs SetValues Systems Singletons
begin

text \<open>
  Verification development of sylar, a coroutine server library in C++ (\<open>src/sylar\<close>).

  The program. A fiber is a coroutine with its own stack; the scheduler has an allocation
  thread that hands submitted tasks to worker threads, and each worker runs its fibers from
  four queues until they end. The I/O manager is a scheduler that submits a fiber when its
  file descriptor is ready. Timers are a set ordered by the time of their next call. Beside
  these stand a configuration of named variables with listeners, read from YAML files; a log
  with loggers, appenders and patterns, which is configured by one of the variables; and
  helpers for the command line, files, locks and threads.

  Theories and sources.
  \<open>Prelude\<close>: machine integers, the ways to fail, the result type, shared lemmas; the macros of
  \<open>macro.h\<close>.
  \<open>Fibers\<close>: \<open>fiber.h\<close>, \<open>fiber.cpp\<close>, one definition per member function.
  \<open>PQueue\<close>, \<open>OSets\<close>: \<open>std::priority_queue\<close> and \<open>std::set\<close> as the sources use them.
  \<open>Tasks\<close>, \<open>Workers\<close>, \<open>Schedulers\<close>, \<open>Restarts\<close>, \<open>Startups\<close>, \<open>Destructions\<close>: \<open>scheduler.h\<close>,
  \<open>scheduler.cpp\<close>: tasks and their orders; \<open>WokerThread\<close>; the allocation thread, \<open>submit\<close>, \<open>start\<close>,
  \<open>stop\<close> and the system of all threads; stopping with tasks in the queue and starting again; how the
  threads start; the destructor.
  \<open>Owners\<close>: who owns the fibers of a scheduler. \<open>Progress\<close>: that accepted tasks get done.
  \<open>IOManagers\<close>, \<open>Shutdowns\<close>: \<open>iomanager.h\<close>, \<open>iomanager.cpp\<close>: contexts, registration, the event
  loop; \<open>stop\<close> and the destructor.
  \<open>Handovers\<close>, \<open>Joints\<close>, \<open>Reactors\<close>, \<open>Deliveries\<close>: the I/O manager, its scheduler, the workers that
  wait in \<open>idle\<close> and the client as one system (\<open>iomanager.cpp\<close> with \<open>scheduler.cpp\<close>): a waiting fiber
  becomes a task; the joint invariant; all steps together; from the report of an event to the end
  of its callback.
  \<open>Timers\<close>, \<open>TimerThreads\<close>: \<open>timer.h\<close>, \<open>timer.cpp\<close>: the operations; many threads that use them.
  \<open>LogFormats\<close>, \<open>Loggers\<close>, \<open>LogLines\<close>, \<open>LogConfs\<close>, \<open>LogDumps\<close>: \<open>log.h\<close>, \<open>log.cpp\<close>, \<open>factory.h\<close>:
  levels, events and the parser of patterns; appenders, loggers, the manager and the listener
  of the variable \<open>logs\<close>; log statements; the YAML of definitions of loggers; dumps.
  \<open>LogLocks\<close>, \<open>LogShuffles\<close>: the same calls as programs of locking and unlocking, run by many
  threads. \<open>FileLogs\<close>: the stream of a file appender and its failures.
  \<open>Singletons\<close>: \<open>singleton.h\<close>, the map of \<open>factory.h\<close>.
  \<open>Casts\<close>, \<open>Configs\<close>, \<open>SetValues\<close>, \<open>ConfDirs\<close>: \<open>config.h\<close>, \<open>config.cpp\<close>: conversions of
  containers; variables, registry and documents; \<open>setValue\<close> by many threads; directories.
  \<open>Envs\<close>: \<open>env.h\<close>, \<open>env.cpp\<close>. \<open>Files\<close>, \<open>Systems\<close>: \<open>util.h\<close>, \<open>util.cpp\<close>. \<open>Locks\<close>: \<open>mutex.h\<close>,
  \<open>mutex.cpp\<close>; \<open>Deadlocks\<close>: threads that hold several locks. \<open>Threads\<close>: \<open>thread.h\<close>, \<open>thread.cpp\<close>.

  How the code is modelled. A class is a record of its members, a member function a definition
  that takes the state and returns the new one. Shared objects live in heaps, maps from
  addresses; a fiber counts the shared pointers to it, and the last one that goes runs the
  destructor; thread-local variables are passed with the thread. An assertion that fails, a null
  or dangling pointer, an index out of bounds, an uncaught exception and what the language
  leaves undefined are values on the left of the result type \<open>res\<close>. A \<open>uint64_t\<close> is a word of
  64 bits, so that clocks, counters and times wrap around as they do. A lock operation that has
  to wait is one that is not enabled yet (\<open>None\<close>). A context switch is the change of the fiber
  that is running; the callback of a fiber is the sequence of calls it makes, \<open>nat \<Rightarrow> fcall\<close>.
  The draws of \<open>rand\<close> in the order of ready tasks are a parameter, so that what is proved holds
  for all of them. Parameters are also the kernel's answers (\<open>epoll_ctl\<close>, \<open>epoll_wait\<close>, the
  file system, the clock) and the YAML library, with what is expected of them as named
  hypotheses, each met by an instance in the same theory.

  Interfaces. \<open>bag_queue\<close> and \<open>min_queue\<close> state what a priority queue promises, the second for
  a comparison by a key; the heap of \<open>PQueue\<close> is interpreted as both, and the sleep queue of a
  worker (\<open>Tasks\<close>) as the second, while the ready queue, whose comparison draws numbers, is
  only a bag. \<open>strict_order\<close> is the contract of a comparison object, met by the timers' one and
  by the order of strings. \<open>lockable\<close> is the contract of a lock under guards, met by
  \<open>Mutex\<close>, \<open>Spinlock\<close>, \<open>CASLock\<close>, \<open>RWMutex\<close> and, with holders that do not exclude each other, the
  null locks; \<open>SetValues\<close> and \<open>TimerThreads\<close> use it of \<open>RWMutex\<close>. \<open>lock_order\<close> (\<open>Deadlocks\<close>) extends it: threads take
  their locks in the order of a rank; it is met by the locks of the log.

  What is shown. Fibers: a thread switches only between its main fiber and a child, every
  accepted call is a step of the life cycle, and exactly the calls in the right state are
  accepted. Scheduler: as long as the client keeps to its side (\<open>event_ok\<close>: callbacks do not throw
  and follow a \<open>hold\<close> by a \<open>hold\<close> or a \<open>yield\<close>, nothing is submitted after \<open>stop\<close>), whatever the
  interleaving of submissions, iterations of the threads, ticks and a stop, no assertion fails
  (\<open>scheduler_safe\<close>), no task is lost or run twice, no fiber leaks or dangles (\<open>fibers_owned\<close>), and
  queues stay within their bounds; where no task sleeps or is held and every queued callback
  returns, every fair schedule finishes the accepted tasks within a known number of rounds
  (\<open>accepted_tasks_finish\<close>); one iteration of a worker; who is woken and when; and where the code
  falls short: starvation, tasks that \<open>stop\<close> or a restart leaves with workers that have ended, a
  destructor that aborts because of them. I/O manager: the pending count and the interest list
  agree with the contexts, so that \<open>stop\<close> waits for exactly the registered events. The whole of
  it (\<open>Reactors\<close>): no step fails under the conditions of \<open>xevent_ok\<close>, which leave out the calls
  that abort (\<open>delEvent\<close> of a registered event always does) and assume that reported events are
  still registered when they are handled; reports hand over exactly the fibers that wait for them,
  which fair schedules run to their ends when the callbacks return (\<open>reported_events_served\<close>); the
  shutdown deletes each context once. Timers: the set stays sorted, exactly the due timers fire, a
  cancelled timer never does, and calls of many threads have the effect of one after the other.
  Log: parsing inverts the printing of patterns, no sequence of operations follows a null pointer
  unless one passes a null formatter, which line goes where, a new configuration is brought about,
  except for changes of appenders alone, which are ignored, and a dump restores the loggers it was
  made of; with many threads no deadlock, the effect of a call that runs alone, and, with the
  output taken operation by operation, no line that is lost or mixed with another of the same
  appender, while two appenders of one console do mix theirs; a file appender that has failed once
  stays silent. Configuration: values stay of their type, containers survive text when their
  elements do, a document sets exactly the variables it names; the interleavings of \<open>setValue\<close>.
  Locks, threads, singletons: guards exclude as they should, a constructed thread is complete, an
  instance is made once. Every property that has a hypothesis comes with an instance.

  Bounds and fuel. \<open>Logger_log\<close> has the length of the chain of root loggers as a bound, and 1 is
  enough since the root logger has no root. \<open>ListAllMember\<close>, \<open>Rm\<close> and \<open>ListAllFile\<close> are bounded by
  the depth of the document or the directory; that they return when the bound is not less than
  the depth is part of their properties. An iteration of a thread's loop is one step, and loops
  that poll (\<open>stop\<close>, the loop of a worker) are steps that may be taken again. In the liveness
  results a round is any sequence of turns of the threads in which, after some iteration of the
  allocation thread, every worker has an iteration that gets its lock (\<open>fair_round\<close>), and as many
  rounds are enough as slices are left to run, one for each yield of a callback and one for its
  end. One \<open><<\<close> of a format item to a stream is one step. The heap and the pattern parser
  terminate by measures.

  Not modelled. The conversions of dates and \<open>vasprintf\<close> of the C library, which are parameters;
  \<open>GetThreadId\<close>, a system call; the pipe of the I/O manager, which nothing writes to; the memory of
  the stacks; what a callback does besides giving up the processor, so that callbacks do not call
  the manager, submit tasks or add events themselves; listeners of a variable that throw, and
  listeners added or removed while another thread sets it; and the order in which the static
  objects of different files are made, of which \<open>Singletons\<close> shows one consequence. Nothing in the
  sources connects timers to the I/O manager: \<open>onTimerInsertedAtFront\<close> has no implementation.
\<close>

end
